(* ===== verification/Prelude.thy ===== *)
theory Prelude
  imports Main "HOL-Library.Word"
begin

text \<open>
  What every theory of the development shares: the C integer types as words, the status
  codes of \<^verbatim>\<open>platform/cg_enums.h\<close>, and a typed view of memory (addresses counted in
  elements) with \<^verbatim>\<open>memcpy\<close> as the C standard defines it: copying between regions that
  overlap is undefined, so the model returns \<open>None\<close> there.
\<close>

named_theorems mem_simps "reading and writing regions of memory"
named_theorems fifo_defs "definitions of the FIFO operations"

section \<open>C types and status codes\<close>

type_synonym u8 = "8 word"
type_synonym u16 = "16 word"
type_synonym u32 = "32 word"
type_synonym u64 = "64 word"

datatype cg_status =
    CG_SUCCESS
  | CG_BUFFER_UNDERFLOW
  | CG_BUFFER_OVERFLOW
  | CG_MEMORY_ALLOCATION_FAILURE
  | CG_INIT_FAILURE
  | CG_SKIP_EXECUTION
  | CG_BUFFER_ERROR
  | CG_OS_ERROR
  | CG_STOP_SCHEDULER
  | CG_PAUSED_SCHEDULER
  | CG_EVENT_QUEUE_FULL
  | CG_RESUME_FAILURE

fun cg_status_code :: "cg_status \<Rightarrow> int" where
  "cg_status_code CG_SUCCESS = 0"
| "cg_status_code CG_BUFFER_UNDERFLOW = -1"
| "cg_status_code CG_BUFFER_OVERFLOW = -2"
| "cg_status_code CG_MEMORY_ALLOCATION_FAILURE = -3"
| "cg_status_code CG_INIT_FAILURE = -4"
| "cg_status_code CG_SKIP_EXECUTION = -5"
| "cg_status_code CG_BUFFER_ERROR = -6"
| "cg_status_code CG_OS_ERROR = -7"
| "cg_status_code CG_STOP_SCHEDULER = -8"
| "cg_status_code CG_PAUSED_SCHEDULER = -9"
| "cg_status_code CG_EVENT_QUEUE_FULL = -10"
| "cg_status_code CG_RESUME_FAILURE = -11"

lemma cg_status_code_inj [simp]: "cg_status_code a = cg_status_code b \<longleftrightarrow> a = b"
  by (cases a; cases b) simp_all

lemma cg_status_code_zero [simp]: "cg_status_code a = 0 \<longleftrightarrow> a = CG_SUCCESS"
  by (cases a) simp_all

text \<open>The selectors of the events the framework itself uses (\<^verbatim>\<open>enum cg_standard_event\<close>).\<close>

datatype cg_standard_event =
    kNoEvent | kDo | kPause | kResume | kGetParam | kValue | kStopGraph | kDebug
  | kStartNodeInitialization | kNodeWasInitialized | kNodeWillBeDestroyed
  | kNodeReadyToBeDestroyed | kError | kLongRun | kMemServerWillDestroy | kIPCEvent | kSelector

fun selector_code :: "cg_standard_event \<Rightarrow> u32" where
  "selector_code kNoEvent = 0"
| "selector_code kDo = 1"
| "selector_code kPause = 2"
| "selector_code kResume = 3"
| "selector_code kGetParam = 5"
| "selector_code kValue = 6"
| "selector_code kStopGraph = 7"
| "selector_code kDebug = 8"
| "selector_code kStartNodeInitialization = 9"
| "selector_code kNodeWasInitialized = 10"
| "selector_code kNodeWillBeDestroyed = 11"
| "selector_code kNodeReadyToBeDestroyed = 12"
| "selector_code kError = 13"
| "selector_code kLongRun = 14"
| "selector_code kMemServerWillDestroy = 15"
| "selector_code kIPCEvent = 16"
| "selector_code kSelector = 100"

lemma selector_code_inj: "selector_code a = selector_code b \<longleftrightarrow> a = b"
  by (cases a; cases b) simp_all

datatype cg_event_priority = kLowPriority | kNormalPriority | kHighPriority

datatype cg_error_origin = kStreamThread | kEventThread

fun cg_error_origin_code :: "cg_error_origin \<Rightarrow> int" where
  "cg_error_origin_code kStreamThread = 0"
| "cg_error_origin_code kEventThread = 1"

section \<open>Memory\<close>

text \<open>
  A typed memory: one cell per element of the C++ type \<^verbatim>\<open>T\<close>; a pointer is the index of
  the element it points to.
\<close>

type_synonym 'a mem = "int \<Rightarrow> 'a"

definition mem_read :: "'a mem \<Rightarrow> int \<Rightarrow> nat \<Rightarrow> 'a list" where
  "mem_read m p n = map (\<lambda>k. m (p + int k)) [0..<n]"

definition mem_write :: "'a mem \<Rightarrow> int \<Rightarrow> 'a list \<Rightarrow> 'a mem" where
  "mem_write m p xs = (\<lambda>a. if p \<le> a \<and> a < p + int (length xs) then xs ! nat (a - p) else m a)"

text \<open>
  \<open>memcpy d s n\<close> copies \<open>n\<close> elements. A negative count becomes an enormous
  \<^verbatim>\<open>size_t\<close>, and overlapping regions are undefined behaviour: both are \<open>None\<close>.
\<close>

definition regions_overlap :: "int \<Rightarrow> int \<Rightarrow> int \<Rightarrow> bool" where
  "regions_overlap d s n \<longleftrightarrow> d < s + n \<and> s < d + n"

definition memcpy :: "'a mem \<Rightarrow> int \<Rightarrow> int \<Rightarrow> int \<Rightarrow> 'a mem option" where
  "memcpy m d s n =
     (if n < 0 \<or> (0 < n \<and> regions_overlap d s n) then None
      else Some (mem_write m d (mem_read m s (nat n))))"

lemma length_mem_read [simp]: "length (mem_read m p n) = n"
  by (simp add: mem_read_def)

lemma nth_mem_read [simp]: "k < n \<Longrightarrow> mem_read m p n ! k = m (p + int k)"
  by (simp add: mem_read_def)

lemma mem_read_0 [simp]: "mem_read m p 0 = []"
  by (simp add: mem_read_def)

lemma mem_write_Nil [simp]: "mem_write m p [] = m"
  by (auto simp: mem_write_def intro!: ext)

lemma mem_write_out [mem_simps]: "a < p \<or> p + int (length xs) \<le> a \<Longrightarrow> mem_write m p xs a = m a"
  by (auto simp: mem_write_def)

lemma mem_write_in [mem_simps]:
  "p \<le> a \<Longrightarrow> a < p + int (length xs) \<Longrightarrow> mem_write m p xs a = xs ! nat (a - p)"
  by (auto simp: mem_write_def)

lemma mem_read_write_same [mem_simps]: "n = length xs \<Longrightarrow> mem_read (mem_write m p xs) p n = xs"
  by (rule nth_equalityI) (simp_all add: mem_write_def)

lemma mem_read_cong:
  "(\<And>k. k < n \<Longrightarrow> m (p + int k) = m' (q + int k)) \<Longrightarrow> mem_read m p n = mem_read m' q n"
  by (rule nth_equalityI) simp_all

lemma mem_read_write_disj [mem_simps]:
  "p + int n \<le> q \<or> q + int (length xs) \<le> p \<Longrightarrow> mem_read (mem_write m q xs) p n = mem_read m p n"
  by (rule mem_read_cong) (auto simp: mem_write_def)

lemma mem_read_add: "mem_read m p (n + k) = mem_read m p n @ mem_read m (p + int n) k"
  by (rule nth_equalityI) (auto simp: nth_append)

lemma take_mem_read [mem_simps]: "j \<le> n \<Longrightarrow> take j (mem_read m p n) = mem_read m p j"
  by (rule nth_equalityI) simp_all

lemma drop_mem_read [mem_simps]: "drop j (mem_read m p n) = mem_read m (p + int j) (n - j)"
  by (rule nth_equalityI) (auto simp: algebra_simps)

lemma memcpy_None_iff:
  "memcpy m d s n = None \<longleftrightarrow> n < 0 \<or> (0 < n \<and> regions_overlap d s n)"
  by (simp add: memcpy_def)

lemma memcpy_SomeD:
  assumes "memcpy m d s n = Some m'"
  shows "0 \<le> n" and "m' = mem_write m d (mem_read m s (nat n))"
  using assms by (auto simp: memcpy_def split: if_splits)

lemma memcpy_frame:
  assumes "memcpy m d s n = Some m'" and "a < d \<or> d + n \<le> a"
  shows "m' a = m a"
  using assms by (auto dest!: memcpy_SomeD(2) simp: mem_write_def memcpy_def split: if_splits)

lemma memcpy_target:
  assumes "memcpy m d s n = Some m'"
  shows "mem_read m' d (nat n) = mem_read m s (nat n)"
  using assms by (auto dest!: memcpy_SomeD(2) simp: mem_read_write_same)

end
