(* ===== verification/Fifo.thy ===== *)
theory Fifo
  imports Prelude
begin

text \<open>
  The FIFOs of \<^verbatim>\<open>platform/GenericNodes.hpp\<close>: the synchronous FIFO, the asynchronous FIFO and
  the array (a buffer without positions). A FIFO does not own its samples: it holds a
  pointer into a buffer, so its operations take the memory and return it updated. The
  abstract value of a FIFO is the list of samples between its read and its write position;
  the contract of a bounded queue over that list is the locale \<open>sample_queue\<close>.
\<close>

section \<open>Synchronous FIFO\<close>

text \<open>The template parameter \<^verbatim>\<open>length\<close> is an argument of the operations that use it.\<close>

record fifo =
  mBuffer :: int
  readPos :: int
  writePos :: int
  mDelay :: int

definition FIFO_new :: "int \<Rightarrow> int \<Rightarrow> fifo" where
  "FIFO_new buffer delay = \<lparr>mBuffer = buffer, readPos = 0, writePos = delay, mDelay = delay\<rparr>"

definition FIFO_setBuffer :: "fifo \<Rightarrow> int \<Rightarrow> fifo" where
  "FIFO_setBuffer f buffer = f\<lparr>mBuffer := buffer\<rparr>"

definition FIFO_reset :: "fifo \<Rightarrow> fifo" where
  "FIFO_reset f = f\<lparr>readPos := 0, writePos := mDelay f\<rparr>"

definition FIFO_willUnderflowWith :: "fifo \<Rightarrow> int \<Rightarrow> bool" where
  "FIFO_willUnderflowWith f nb \<longleftrightarrow> writePos f - readPos f - nb < 0"

definition FIFO_willOverflowWith :: "int \<Rightarrow> fifo \<Rightarrow> int \<Rightarrow> bool" where
  "FIFO_willOverflowWith len f nb \<longleftrightarrow> writePos f - readPos f + nb > len"

definition FIFO_nbSamplesInFIFO :: "fifo \<Rightarrow> int" where
  "FIFO_nbSamplesInFIFO f = writePos f - readPos f"

definition FIFO_nbOfFreeSamplesInFIFO :: "int \<Rightarrow> fifo \<Rightarrow> int" where
  "FIFO_nbOfFreeSamplesInFIFO len f = len - writePos f + readPos f"

text \<open>
  The write buffer is realigned first: the samples still to be read move to the start of
  the buffer. The result is the memory, the FIFO and the pointer returned.
\<close>

definition FIFO_getWriteBuffer :: "'a mem \<Rightarrow> fifo \<Rightarrow> int \<Rightarrow> ('a mem \<times> fifo \<times> int) option" where
  "FIFO_getWriteBuffer m f nb =
     (if readPos f > 0 then
        (case memcpy m (mBuffer f) (mBuffer f + readPos f) (writePos f - readPos f) of
           None \<Rightarrow> None
         | Some m' \<Rightarrow>
             let w = writePos f - readPos f
             in Some (m', f\<lparr>readPos := 0, writePos := w + nb\<rparr>, mBuffer f + w))
      else Some (m, f\<lparr>writePos := writePos f + nb\<rparr>, mBuffer f + writePos f))"

definition FIFO_getReadBuffer :: "fifo \<Rightarrow> int \<Rightarrow> fifo \<times> int" where
  "FIFO_getReadBuffer f nb = (f\<lparr>readPos := readPos f + nb\<rparr>, mBuffer f + readPos f)"

text \<open>
  The debug dump: every element of the buffer followed by a space, with a line break after
  each tenth one, before the first and twice at the end.
\<close>

datatype 'a dump_token = Elem 'a | Endl

fun dump_loop :: "'a mem \<Rightarrow> int \<Rightarrow> nat \<Rightarrow> nat \<Rightarrow> 'a dump_token list" where
  "dump_loop m p 0 nb = []"
| "dump_loop m p (Suc left) nb =
     (if Suc nb = 10 then Elem (m p) # Endl # dump_loop m (p + 1) left 0
      else Elem (m p) # dump_loop m (p + 1) left (Suc nb))"

definition FIFO_dump :: "'a mem \<Rightarrow> int \<Rightarrow> fifo \<Rightarrow> 'a dump_token list" where
  "FIFO_dump m len f = Endl # dump_loop m (mBuffer f) (nat len) 0 @ [Endl, Endl]"

section \<open>Asynchronous FIFO\<close>

definition AFIFO_new :: "int \<Rightarrow> int \<Rightarrow> fifo" where
  "AFIFO_new buffer delay = \<lparr>mBuffer = buffer, readPos = 0, writePos = delay, mDelay = delay\<rparr>"

definition AFIFO_setBuffer :: "fifo \<Rightarrow> int \<Rightarrow> fifo" where
  "AFIFO_setBuffer f buffer = f\<lparr>mBuffer := buffer\<rparr>"

definition AFIFO_reset :: "fifo \<Rightarrow> fifo" where
  "AFIFO_reset f = f\<lparr>readPos := 0, writePos := mDelay f\<rparr>"

definition AFIFO_getWriteBuffer :: "'a mem \<Rightarrow> fifo \<Rightarrow> int \<Rightarrow> ('a mem \<times> fifo \<times> int) option" where
  "AFIFO_getWriteBuffer m f nb =
     (if readPos f > 0 then
        (case memcpy m (mBuffer f) (mBuffer f + readPos f) (writePos f - readPos f) of
           None \<Rightarrow> None
         | Some m' \<Rightarrow>
             let w = writePos f - readPos f
             in Some (m', f\<lparr>readPos := 0, writePos := w + nb\<rparr>, mBuffer f + w))
      else Some (m, f\<lparr>writePos := writePos f + nb\<rparr>, mBuffer f + writePos f))"

definition AFIFO_getReadBuffer :: "fifo \<Rightarrow> int \<Rightarrow> fifo \<times> int" where
  "AFIFO_getReadBuffer f nb = (f\<lparr>readPos := readPos f + nb\<rparr>, mBuffer f + readPos f)"

definition AFIFO_willUnderflowWith :: "fifo \<Rightarrow> int \<Rightarrow> bool" where
  "AFIFO_willUnderflowWith f nb \<longleftrightarrow> writePos f - readPos f - nb < 0"

definition AFIFO_willOverflowWith :: "int \<Rightarrow> fifo \<Rightarrow> int \<Rightarrow> bool" where
  "AFIFO_willOverflowWith len f nb \<longleftrightarrow> writePos f - readPos f + nb > len"

definition AFIFO_nbSamplesInFIFO :: "fifo \<Rightarrow> int" where
  "AFIFO_nbSamplesInFIFO f = writePos f - readPos f"

definition AFIFO_nbOfFreeSamplesInFIFO :: "int \<Rightarrow> fifo \<Rightarrow> int" where
  "AFIFO_nbOfFreeSamplesInFIFO len f = len - writePos f + readPos f"

section \<open>Array\<close>

text \<open>The buffer without positions: only a pointer, and empty bodies for the checks.\<close>

record fifo_array =
  aBuffer :: int

definition ARRAY_new :: "int \<Rightarrow> fifo_array" where
  "ARRAY_new buffer = \<lparr>aBuffer = buffer\<rparr>"

definition ARRAY_setBuffer :: "fifo_array \<Rightarrow> int \<Rightarrow> fifo_array" where
  "ARRAY_setBuffer f buffer = f\<lparr>aBuffer := buffer\<rparr>"

definition ARRAY_isArray :: "fifo_array \<Rightarrow> bool" where
  "ARRAY_isArray f = True"

definition ARRAY_reset :: "fifo_array \<Rightarrow> fifo_array" where
  "ARRAY_reset f = f"

definition ARRAY_willUnderflowWith :: "fifo_array \<Rightarrow> int \<Rightarrow> bool" where
  "ARRAY_willUnderflowWith f nb = False"

definition ARRAY_willOverflowWith :: "fifo_array \<Rightarrow> int \<Rightarrow> bool" where
  "ARRAY_willOverflowWith f nb = False"

definition ARRAY_nbSamplesInFIFO :: "fifo_array \<Rightarrow> int" where
  "ARRAY_nbSamplesInFIFO f = 0"

definition ARRAY_nbOfFreeSamplesInFIFO :: "fifo_array \<Rightarrow> int" where
  "ARRAY_nbOfFreeSamplesInFIFO f = 0"

definition ARRAY_getWriteBuffer :: "fifo_array \<Rightarrow> int \<Rightarrow> int" where
  "ARRAY_getWriteBuffer f nb = aBuffer f"

definition ARRAY_getReadBuffer :: "fifo_array \<Rightarrow> int \<Rightarrow> int" where
  "ARRAY_getReadBuffer f nb = aBuffer f"

section \<open>Abstract value, invariant and laws\<close>

definition fifo_contents :: "'a mem \<Rightarrow> fifo \<Rightarrow> 'a list" where
  "fifo_contents m f = mem_read m (mBuffer f + readPos f) (nat (writePos f - readPos f))"

definition fifo_inv :: "int \<Rightarrow> fifo \<Rightarrow> bool" where
  "fifo_inv len f \<longleftrightarrow>
     0 \<le> readPos f \<and> readPos f \<le> writePos f \<and> writePos f \<le> len \<and> 0 \<le> mDelay f \<and> mDelay f \<le> len"

declare FIFO_new_def [fifo_defs] FIFO_setBuffer_def [fifo_defs] FIFO_reset_def [fifo_defs]
  FIFO_willUnderflowWith_def [fifo_defs] FIFO_willOverflowWith_def [fifo_defs]
  FIFO_nbSamplesInFIFO_def [fifo_defs] FIFO_nbOfFreeSamplesInFIFO_def [fifo_defs]
  FIFO_getReadBuffer_def [fifo_defs] fifo_inv_def [fifo_defs] fifo_contents_def [fifo_defs]

text \<open>
  How a node uses the two pointers: it stores its samples through the pointer to the write
  buffer, and loads them through the pointer to the read buffer.
\<close>

definition FIFO_put :: "'a mem \<times> fifo \<Rightarrow> 'a list \<Rightarrow> ('a mem \<times> fifo) option" where
  "FIFO_put s xs =
     (case FIFO_getWriteBuffer (fst s) (snd s) (int (length xs)) of
        None \<Rightarrow> None
      | Some (m, f, p) \<Rightarrow> Some (mem_write m p xs, f))"

definition FIFO_get :: "'a mem \<times> fifo \<Rightarrow> nat \<Rightarrow> ('a mem \<times> fifo) \<times> 'a list" where
  "FIFO_get s n =
     (let (f, p) = FIFO_getReadBuffer (snd s) (int n) in ((fst s, f), mem_read (fst s) p n))"

lemma length_fifo_contents [simp]:
  "length (fifo_contents m f) = nat (FIFO_nbSamplesInFIFO f)"
  by (simp add: fifo_defs)

lemma FIFO_new_inv: "0 \<le> delay \<Longrightarrow> delay \<le> len \<Longrightarrow> fifo_inv len (FIFO_new buffer delay)"
  by (simp add: fifo_defs)

lemma FIFO_reset_inv: "fifo_inv len f \<Longrightarrow> fifo_inv len (FIFO_reset f)"
  by (simp add: fifo_defs)

lemma FIFO_overflow_iff:
  "fifo_inv len f \<Longrightarrow>
   FIFO_willOverflowWith len f n \<longleftrightarrow> int (length (fifo_contents m f)) + n > len"
  by (simp add: fifo_defs)

lemma FIFO_underflow_iff:
  "fifo_inv len f \<Longrightarrow> FIFO_willUnderflowWith f n \<longleftrightarrow> int (length (fifo_contents m f)) < n"
  by (auto simp: fifo_defs)

lemma FIFO_getReadBuffer_contents:
  assumes "fifo_inv len f" and "\<not> FIFO_willUnderflowWith f (int n)"
    and "FIFO_getReadBuffer f (int n) = (f', p)"
  shows "fifo_inv len f'" and "fifo_contents m f = mem_read m p n @ fifo_contents m f'"
proof -
  from assms(2) have n: "nat (writePos f - readPos f) = n + nat (writePos f - readPos f - int n)"
    by (simp add: fifo_defs)
  from assms show "fifo_inv len f'" by (auto simp: fifo_defs)
  have "fifo_contents m f
      = mem_read m (mBuffer f + readPos f) (n + nat (writePos f - readPos f - int n))"
    by (simp add: fifo_contents_def n)
  also have "\<dots> = mem_read m p n @ fifo_contents m f'"
    using assms(3) by (auto simp: mem_read_add fifo_defs algebra_simps)
  finally show "fifo_contents m f = mem_read m p n @ fifo_contents m f'" .
qed

lemma FIFO_getWriteBuffer_None_iff:
  assumes "fifo_inv len f"
  shows "FIFO_getWriteBuffer m f nb = None \<longleftrightarrow>
    0 < readPos f \<and> readPos f < FIFO_nbSamplesInFIFO f"
  using assms
  by (auto simp: FIFO_getWriteBuffer_def fifo_defs memcpy_def regions_overlap_def Let_def
      split: option.splits if_splits)

text \<open>The realignment: same contents, read position 0, only the FIFO's own buffer written.\<close>

lemma FIFO_getWriteBuffer_realign:
  assumes inv: "fifo_inv len f" and get: "FIFO_getWriteBuffer m f nb = Some (m', f', p)"
  shows "readPos f' = 0" and "writePos f' = FIFO_nbSamplesInFIFO f + nb"
    and "p = mBuffer f + FIFO_nbSamplesInFIFO f" and "mBuffer f' = mBuffer f"
    and "mDelay f' = mDelay f"
    and "mem_read m' (mBuffer f) (nat (FIFO_nbSamplesInFIFO f)) = fifo_contents m f"
    and "\<And>a. a < mBuffer f \<or> mBuffer f + len \<le> a \<Longrightarrow> m' a = m a"
  using inv get
  by (auto simp: FIFO_getWriteBuffer_def Let_def fifo_defs memcpy_target
      intro: memcpy_frame split: if_splits option.splits)

lemma FIFO_put_spec:
  assumes inv: "fifo_inv len f" and fit: "\<not> FIFO_willOverflowWith len f (int (length xs))"
    and put: "FIFO_put (m, f) xs = Some (m', f')"
  shows "fifo_inv len f'" and "fifo_contents m' f' = fifo_contents m f @ xs"
    and "mBuffer f' = mBuffer f" and "\<And>a. a < mBuffer f \<or> mBuffer f + len \<le> a \<Longrightarrow> m' a = m a"
proof -
  from put obtain m1 p where get: "FIFO_getWriteBuffer m f (int (length xs)) = Some (m1, f', p)"
    and m': "m' = mem_write m1 p xs"
    by (auto simp: FIFO_put_def split: option.splits)
  note r = FIFO_getWriteBuffer_realign [OF inv get]
  have n0: "0 \<le> FIFO_nbSamplesInFIFO f" using inv by (simp add: fifo_defs)
  show "fifo_inv len f'"
    using inv fit r n0 by (simp add: fifo_defs)
  show "mBuffer f' = mBuffer f" by (rule r(4))
  show "m' a = m a" if "a < mBuffer f \<or> mBuffer f + len \<le> a" for a
    using that r(3,7) fit n0 by (auto simp: m' fifo_defs mem_simps)
  have "fifo_contents m' f'
      = mem_read m' (mBuffer f) (nat (FIFO_nbSamplesInFIFO f) + length xs)"
    using r(1,2,4) n0 by (simp add: fifo_contents_def nat_add_distrib)
  also have "\<dots> = fifo_contents m f @ xs"
    using r(3,6) n0 by (simp add: mem_read_add m' mem_simps)
  finally show "fifo_contents m' f' = fifo_contents m f @ xs" .
qed

section \<open>The contract of a bounded sample queue\<close>

locale sample_queue =
  fixes contents :: "'s \<Rightarrow> 'a list"
    and capacity :: int
    and valid :: "'s \<Rightarrow> bool"
    and overflow :: "'s \<Rightarrow> int \<Rightarrow> bool"
    and underflow :: "'s \<Rightarrow> int \<Rightarrow> bool"
    and put :: "'s \<Rightarrow> 'a list \<Rightarrow> 's option"
    and get :: "'s \<Rightarrow> nat \<Rightarrow> 's \<times> 'a list"
  assumes overflow_iff:
      "valid s \<Longrightarrow> overflow s nb \<longleftrightarrow> int (length (contents s)) + nb > capacity"
    and underflow_iff: "valid s \<Longrightarrow> underflow s nb \<longleftrightarrow> int (length (contents s)) < nb"
    and put_contents: "valid s \<Longrightarrow> \<not> overflow s (int (length xs)) \<Longrightarrow> put s xs = Some s' \<Longrightarrow>
      contents s' = contents s @ xs"
    and put_valid: "valid s \<Longrightarrow> \<not> overflow s (int (length xs)) \<Longrightarrow> put s xs = Some s' \<Longrightarrow> valid s'"
    and get_contents: "valid s \<Longrightarrow> \<not> underflow s (int n) \<Longrightarrow> get s n = (s', ys) \<Longrightarrow>
      contents s = ys @ contents s'"
    and get_valid: "valid s \<Longrightarrow> \<not> underflow s (int n) \<Longrightarrow> get s n = (s', ys) \<Longrightarrow> valid s'"
    and get_length: "get s n = (s', ys) \<Longrightarrow> length ys = n"

text \<open>
  The asynchronous protocol: a producer and a consumer act in any order, each testing for
  overflow or underflow first and skipping its turn when the test says so. The result is
  the state, the samples accepted and the samples delivered.
\<close>

datatype 'a act = Put "'a list" | Get nat

fun transfer ::
    "('s \<Rightarrow> int \<Rightarrow> bool) \<Rightarrow> ('s \<Rightarrow> int \<Rightarrow> bool) \<Rightarrow> ('s \<Rightarrow> 'a list \<Rightarrow> 's option) \<Rightarrow>
     ('s \<Rightarrow> nat \<Rightarrow> 's \<times> 'a list) \<Rightarrow> 's \<Rightarrow> 'a act list \<Rightarrow> ('s \<times> 'a list \<times> 'a list) option" where
  "transfer ovf unf put get s [] = Some (s, [], [])"
| "transfer ovf unf put get s (Put xs # acts) =
     (if ovf s (int (length xs)) then transfer ovf unf put get s acts
      else (case put s xs of
              None \<Rightarrow> None
            | Some s' \<Rightarrow> map_option (\<lambda>(t, ins, outs). (t, xs @ ins, outs))
                          (transfer ovf unf put get s' acts)))"
| "transfer ovf unf put get s (Get n # acts) =
     (if unf s (int n) then transfer ovf unf put get s acts
      else (case get s n of (s', ys) \<Rightarrow>
              map_option (\<lambda>(t, ins, outs). (t, ins, ys @ outs))
                (transfer ovf unf put get s' acts)))"

context sample_queue
begin

lemma transfer_order:
  "valid s \<Longrightarrow> transfer overflow underflow put get s acts = Some (t, ins, outs) \<Longrightarrow>
   valid t \<and> contents s @ ins = outs @ contents t"
proof (induction acts arbitrary: s t ins outs)
  case Nil
  then show ?case by simp
next
  case (Cons act acts)
  show ?case
  proof (cases act)
    case (Put xs)
    show ?thesis
    proof (cases "overflow s (int (length xs))")
      case True
      with Cons Put show ?thesis by simp
    next
      case False
      with Cons.prems(2) Put obtain s' ins' where s': "put s xs = Some s'"
        and rest: "transfer overflow underflow put get s' acts = Some (t, ins', outs)"
        and ins: "ins = xs @ ins'"
        by (auto split: option.splits)
      from Cons.prems(1) False s' have "valid s'" and "contents s' = contents s @ xs"
        by (simp_all add: put_valid put_contents)
      with Cons.IH [OF _ rest] show ?thesis by (simp add: ins)
    qed
  next
    case (Get n)
    show ?thesis
    proof (cases "underflow s (int n)")
      case True
      with Cons Get show ?thesis by simp
    next
      case False
      with Cons.prems(2) Get obtain s' ys outs' where s': "get s n = (s', ys)"
        and rest: "transfer overflow underflow put get s' acts = Some (t, ins, outs')"
        and outs: "outs = ys @ outs'"
        by (auto split: prod.splits)
      from Cons.prems(1) False s' have "valid s'" and "contents s = ys @ contents s'"
        by (auto intro: get_valid get_contents)
      with Cons.IH [OF _ rest] show ?thesis by (simp add: outs)
    qed
  qed
qed

lemma transfer_prefix:
  assumes "valid s" and "contents s = []"
    and "transfer overflow underflow put get s acts = Some (t, ins, outs)"
  shows "outs = take (length outs) ins"
  using transfer_order [OF assms(1,3)] assms(2) by (metis append_Nil append_eq_conv_conj)

end

section \<open>The two FIFO classes meet the contract\<close>

definition AFIFO_put :: "'a mem \<times> fifo \<Rightarrow> 'a list \<Rightarrow> ('a mem \<times> fifo) option" where
  "AFIFO_put s xs =
     (case AFIFO_getWriteBuffer (fst s) (snd s) (int (length xs)) of
        None \<Rightarrow> None
      | Some (m, f, p) \<Rightarrow> Some (mem_write m p xs, f))"

definition AFIFO_get :: "'a mem \<times> fifo \<Rightarrow> nat \<Rightarrow> ('a mem \<times> fifo) \<times> 'a list" where
  "AFIFO_get s n =
     (let (f, p) = AFIFO_getReadBuffer (snd s) (int n) in ((fst s, f), mem_read (fst s) p n))"

text \<open>The two classes are written twice in the source; their operations agree.\<close>

lemma AFIFO_as_FIFO:
  "AFIFO_new = FIFO_new" "AFIFO_setBuffer = FIFO_setBuffer" "AFIFO_reset = FIFO_reset"
  "AFIFO_getWriteBuffer = FIFO_getWriteBuffer" "AFIFO_getReadBuffer = FIFO_getReadBuffer"
  "AFIFO_willUnderflowWith = FIFO_willUnderflowWith"
  "AFIFO_willOverflowWith = FIFO_willOverflowWith"
  "AFIFO_nbSamplesInFIFO = FIFO_nbSamplesInFIFO"
  "AFIFO_nbOfFreeSamplesInFIFO = FIFO_nbOfFreeSamplesInFIFO"
  "AFIFO_put = FIFO_put" "AFIFO_get = FIFO_get"
  by (auto intro!: ext simp: AFIFO_new_def FIFO_new_def AFIFO_setBuffer_def FIFO_setBuffer_def
      AFIFO_reset_def FIFO_reset_def AFIFO_getWriteBuffer_def FIFO_getWriteBuffer_def
      AFIFO_getReadBuffer_def FIFO_getReadBuffer_def AFIFO_willUnderflowWith_def
      FIFO_willUnderflowWith_def AFIFO_willOverflowWith_def FIFO_willOverflowWith_def
      AFIFO_nbSamplesInFIFO_def FIFO_nbSamplesInFIFO_def AFIFO_nbOfFreeSamplesInFIFO_def
      FIFO_nbOfFreeSamplesInFIFO_def AFIFO_put_def FIFO_put_def AFIFO_get_def FIFO_get_def)

lemma length_FIFO_get: "FIFO_get s n = (s', ys) \<Longrightarrow> length ys = n"
  by (auto simp: FIFO_get_def split: prod.splits)

lemma FIFO_get_spec:
  assumes "fifo_inv len (snd s)" and "\<not> FIFO_willUnderflowWith (snd s) (int n)"
    and "FIFO_get s n = (s', ys)"
  shows "fifo_inv len (snd s')" and "fst s' = fst s"
    and "fifo_contents (fst s) (snd s) = ys @ fifo_contents (fst s') (snd s')"
proof -
  obtain f' p where g: "FIFO_getReadBuffer (snd s) (int n) = (f', p)" by fastforce
  note r = FIFO_getReadBuffer_contents [OF assms(1,2) g]
  have "s' = (fst s, f')" and "ys = mem_read (fst s) p n"
    using assms(3) by (simp_all add: FIFO_get_def g)
  with r show "fifo_inv len (snd s')" and "fst s' = fst s"
    and "fifo_contents (fst s) (snd s) = ys @ fifo_contents (fst s') (snd s')"
    by simp_all
qed

interpretation sync_fifo: sample_queue "\<lambda>s. fifo_contents (fst s) (snd s)" len
    "\<lambda>s. fifo_inv len (snd s)" "\<lambda>s. FIFO_willOverflowWith len (snd s)"
    "\<lambda>s. FIFO_willUnderflowWith (snd s)" FIFO_put FIFO_get for len
  by (unfold_locales; (simp add: fifo_defs; fail)?; auto simp: length_FIFO_get
      dest: FIFO_put_spec FIFO_get_spec)

interpretation async_fifo: sample_queue "\<lambda>s. fifo_contents (fst s) (snd s)" len
    "\<lambda>s. fifo_inv len (snd s)" "\<lambda>s. AFIFO_willOverflowWith len (snd s)"
    "\<lambda>s. AFIFO_willUnderflowWith (snd s)" AFIFO_put AFIFO_get for len
  unfolding AFIFO_as_FIFO by (rule sync_fifo.sample_queue_axioms)

section \<open>Properties\<close>

text \<open>
  C11. Samples are neither lost, duplicated nor reordered by the asynchronous FIFO: in every
  run of the checked protocol, whatever the order of the writes and reads, the samples
  present at the start followed by those accepted are those delivered followed by those
  still in the FIFO; and the positions stay within the buffer.
\<close>

theorem async_fifo_stream:
  assumes "fifo_inv len f"
    and "transfer (\<lambda>s. AFIFO_willOverflowWith len (snd s)) (\<lambda>s. AFIFO_willUnderflowWith (snd s))
           AFIFO_put AFIFO_get (m, f) acts = Some ((m', f'), ins, outs)"
  shows "fifo_inv len f' \<and> fifo_contents m f @ ins = outs @ fifo_contents m' f'"
  using async_fifo.transfer_order [of len "(m, f)", OF _ assms(2)] assms(1) by simp

definition demo_acts :: "int act list" where
  "demo_acts = [Put [1, 2, 3], Get 2, Get 2, Put [4, 5], Put [6, 7]]"

lemma demo_acts_run:
  "map_option snd (transfer (\<lambda>s. AFIFO_willOverflowWith 4 (snd s))
     (\<lambda>s. AFIFO_willUnderflowWith (snd s)) AFIFO_put AFIFO_get
     (\<lambda>_. 0, AFIFO_new 0 0) demo_acts) = Some ([1, 2, 3, 4, 5], [1, 2])"
  by code_simp

theorem async_fifo_stream_witness:
  "\<exists>m' f'. transfer (\<lambda>s. AFIFO_willOverflowWith 4 (snd s))
     (\<lambda>s. AFIFO_willUnderflowWith (snd s)) AFIFO_put AFIFO_get
     (\<lambda>_. 0, AFIFO_new 0 0) demo_acts = Some ((m', f'), [1, 2, 3, 4, 5], [1, 2])
   \<and> fifo_contents m' f' = [3, 4, 5]"
proof -
  obtain m' f' where run: "transfer (\<lambda>s. AFIFO_willOverflowWith 4 (snd s))
     (\<lambda>s. AFIFO_willUnderflowWith (snd s)) AFIFO_put AFIFO_get
     (\<lambda>_. 0, AFIFO_new 0 0) demo_acts = Some ((m', f'), [1, 2, 3, 4, 5], [1, 2])"
    using demo_acts_run by (auto simp: map_option_case split: option.splits)
  have "fifo_inv 4 (AFIFO_new 0 0)" by (simp add: AFIFO_new_def fifo_inv_def)
  from async_fifo_stream [OF this run] run show ?thesis
    by (auto simp: AFIFO_new_def fifo_contents_def)
qed

text \<open>
  When asking for the write buffer is defined: the call has undefined behaviour exactly
  when some samples were read and fewer than those that remain, because the realignment
  then copies between overlapping regions with \<^verbatim>\<open>memcpy\<close>.
\<close>

theorem sync_fifo_write_defined_iff:
  assumes "fifo_inv len f"
  shows "FIFO_getWriteBuffer m f nb = None \<longleftrightarrow>
    0 < readPos f \<and> readPos f < FIFO_nbSamplesInFIFO f"
  using assms by (rule FIFO_getWriteBuffer_None_iff)

theorem sync_fifo_write_defined_iff_witness:
  "FIFO_getWriteBuffer (\<lambda>_. 0 :: int) \<lparr>mBuffer = 0, readPos = 1, writePos = 3, mDelay = 0\<rparr> 1 = None"
  by (subst sync_fifo_write_defined_iff [of 4])
    (simp_all add: fifo_inv_def FIFO_nbSamplesInFIFO_def)

text \<open>
  The checked asynchronous protocol does reach such a call: whatever the memory holds, writing
  three samples, reading one and writing one more passes every overflow and underflow test
  of a FIFO of length four, and the last write has undefined behaviour.
\<close>

theorem async_fifo_overlap_reachable:
  "transfer (\<lambda>s. AFIFO_willOverflowWith 4 (snd s)) (\<lambda>s. AFIFO_willUnderflowWith (snd s))
     AFIFO_put AFIFO_get (m, AFIFO_new 0 0) [Put [1, 2, 3], Get 1, Put [4 :: int]] = None"
  by (simp add: AFIFO_as_FIFO FIFO_put_def FIFO_get_def FIFO_getWriteBuffer_def fifo_defs
      memcpy_def regions_overlap_def)

text \<open>
  The region a node may write through the pointer returned lies inside the FIFO's buffer,
  after the samples that are still to be read, and those are at the start of the buffer.
\<close>

theorem sync_fifo_write_region:
  assumes "fifo_inv len f" and "\<not> FIFO_willOverflowWith len f nb" and "0 \<le> nb"
    and "FIFO_getWriteBuffer m f nb = Some (m', f', p)"
  shows "mBuffer f \<le> p \<and> p + nb \<le> mBuffer f + len \<and> fifo_inv len f' \<and> p = mBuffer f + FIFO_nbSamplesInFIFO f \<and>
    mem_read m' (p - FIFO_nbSamplesInFIFO f) (nat (FIFO_nbSamplesInFIFO f)) = fifo_contents m f"
  using FIFO_getWriteBuffer_realign [OF assms(1,4)] assms(1-3) by (simp add: fifo_defs)

theorem sync_fifo_write_region_witness:
  "\<exists>m' f' p. FIFO_getWriteBuffer (\<lambda>a. a) (FIFO_new 100 2) 3 = Some (m', f', p) \<and>
     100 \<le> p \<and> p + 3 \<le> 100 + 5"
proof -
  obtain m' f' p where g: "FIFO_getWriteBuffer (\<lambda>a. a) (FIFO_new 100 2) 3 = Some (m', f', p)"
    by (simp add: FIFO_getWriteBuffer_def FIFO_new_def)
  moreover have "fifo_inv 5 (FIFO_new 100 2)" and "\<not> FIFO_willOverflowWith 5 (FIFO_new 100 2) 3"
    by (simp_all add: fifo_defs)
  ultimately show ?thesis
    using sync_fifo_write_region [of 5 "FIFO_new 100 2" 3 "\<lambda>a. a" m' f' p] by (auto simp: FIFO_new_def)
qed

end
