(* ===== verification/Nodes.thy ===== *)
theory Nodes
  imports Fifo
begin

text \<open>
  The generic nodes of \<^verbatim>\<open>platform/GenericNodes.hpp\<close> and the \<^verbatim>\<open>Duplicate\<close> nodes. A graph is
  the memory of the FIFO buffers and the FIFO objects the nodes refer to; a node is the list
  of its input ports and the list of its output ports, and a port names a FIFO and the
  number of samples the node reads or writes there by default (the template parameters
  \<^verbatim>\<open>inputSize\<close>, \<^verbatim>\<open>output1Size\<close>, \dots). The numbered methods of the classes with several
  ports (\<^verbatim>\<open>getWriteBuffer2\<close>) are the port-indexed operations here.
\<close>

section \<open>FIFO objects behind the interface FIFOBase\<close>

text \<open>Each constructor carries the template parameter \<^verbatim>\<open>length\<close>.\<close>

datatype fifo_obj = SyncFIFO int fifo | AsyncFIFO int fifo | ArrayFIFO int fifo_array

fun fo_getWriteBuffer :: "'a mem \<Rightarrow> fifo_obj \<Rightarrow> int \<Rightarrow> ('a mem \<times> fifo_obj \<times> int) option" where
  "fo_getWriteBuffer m (SyncFIFO len f) nb =
     map_option (\<lambda>(m', f', p). (m', SyncFIFO len f', p)) (FIFO_getWriteBuffer m f nb)"
| "fo_getWriteBuffer m (AsyncFIFO len f) nb =
     map_option (\<lambda>(m', f', p). (m', AsyncFIFO len f', p)) (AFIFO_getWriteBuffer m f nb)"
| "fo_getWriteBuffer m (ArrayFIFO len f) nb = Some (m, ArrayFIFO len f, ARRAY_getWriteBuffer f nb)"

fun fo_getReadBuffer :: "fifo_obj \<Rightarrow> int \<Rightarrow> fifo_obj \<times> int" where
  "fo_getReadBuffer (SyncFIFO len f) nb = apfst (SyncFIFO len) (FIFO_getReadBuffer f nb)"
| "fo_getReadBuffer (AsyncFIFO len f) nb = apfst (AsyncFIFO len) (AFIFO_getReadBuffer f nb)"
| "fo_getReadBuffer (ArrayFIFO len f) nb = (ArrayFIFO len f, ARRAY_getReadBuffer f nb)"

fun fo_isArray :: "fifo_obj \<Rightarrow> bool" where
  "fo_isArray (SyncFIFO len f) = False"
| "fo_isArray (AsyncFIFO len f) = False"
| "fo_isArray (ArrayFIFO len f) = ARRAY_isArray f"

fun fo_setBuffer :: "fifo_obj \<Rightarrow> int \<Rightarrow> fifo_obj" where
  "fo_setBuffer (SyncFIFO len f) b = SyncFIFO len (FIFO_setBuffer f b)"
| "fo_setBuffer (AsyncFIFO len f) b = AsyncFIFO len (AFIFO_setBuffer f b)"
| "fo_setBuffer (ArrayFIFO len f) b = ArrayFIFO len (ARRAY_setBuffer f b)"

fun fo_willUnderflowWith :: "fifo_obj \<Rightarrow> int \<Rightarrow> bool" where
  "fo_willUnderflowWith (SyncFIFO len f) nb = FIFO_willUnderflowWith f nb"
| "fo_willUnderflowWith (AsyncFIFO len f) nb = AFIFO_willUnderflowWith f nb"
| "fo_willUnderflowWith (ArrayFIFO len f) nb = ARRAY_willUnderflowWith f nb"

fun fo_willOverflowWith :: "fifo_obj \<Rightarrow> int \<Rightarrow> bool" where
  "fo_willOverflowWith (SyncFIFO len f) nb = FIFO_willOverflowWith len f nb"
| "fo_willOverflowWith (AsyncFIFO len f) nb = AFIFO_willOverflowWith len f nb"
| "fo_willOverflowWith (ArrayFIFO len f) nb = ARRAY_willOverflowWith f nb"

fun fo_nbSamplesInFIFO :: "fifo_obj \<Rightarrow> int" where
  "fo_nbSamplesInFIFO (SyncFIFO len f) = FIFO_nbSamplesInFIFO f"
| "fo_nbSamplesInFIFO (AsyncFIFO len f) = AFIFO_nbSamplesInFIFO f"
| "fo_nbSamplesInFIFO (ArrayFIFO len f) = ARRAY_nbSamplesInFIFO f"

fun fo_nbOfFreeSamplesInFIFO :: "fifo_obj \<Rightarrow> int" where
  "fo_nbOfFreeSamplesInFIFO (SyncFIFO len f) = FIFO_nbOfFreeSamplesInFIFO len f"
| "fo_nbOfFreeSamplesInFIFO (AsyncFIFO len f) = AFIFO_nbOfFreeSamplesInFIFO len f"
| "fo_nbOfFreeSamplesInFIFO (ArrayFIFO len f) = ARRAY_nbOfFreeSamplesInFIFO f"

fun fo_reset :: "fifo_obj \<Rightarrow> fifo_obj" where
  "fo_reset (SyncFIFO len f) = SyncFIFO len (FIFO_reset f)"
| "fo_reset (AsyncFIFO len f) = AsyncFIFO len (AFIFO_reset f)"
| "fo_reset (ArrayFIFO len f) = ArrayFIFO len (ARRAY_reset f)"

section \<open>Graphs, nodes and ports\<close>

record 'a graph =
  gmem :: "'a mem"
  gfifo :: "nat \<Rightarrow> fifo_obj"

record port =
  pfifo :: nat
  psize :: int

record node =
  srcs :: "port list"
  dsts :: "port list"

definition NodePort :: "nat \<Rightarrow> int \<Rightarrow> port" where
  "NodePort i n = \<lparr>pfifo = i, psize = n\<rparr>"

text \<open>
  The constructors. The lists of the many-ports classes share one size. The result of an
  operation is \<open>None\<close> for an index outside the list of ports, where the unchecked
  \<^verbatim>\<open>operator[]\<close> of the vector is undefined.
\<close>

definition GenericNode :: "nat \<Rightarrow> int \<Rightarrow> nat \<Rightarrow> int \<Rightarrow> node" where
  "GenericNode src inputSize dst outputSize =
     \<lparr>srcs = [NodePort src inputSize], dsts = [NodePort dst outputSize]\<rparr>"

definition GenericToManyNode :: "nat \<Rightarrow> int \<Rightarrow> nat list \<Rightarrow> int \<Rightarrow> node" where
  "GenericToManyNode src inputSize dst outputSize =
     \<lparr>srcs = [NodePort src inputSize], dsts = map (\<lambda>d. NodePort d outputSize) dst\<rparr>"

definition GenericFromManyNode :: "nat list \<Rightarrow> int \<Rightarrow> nat \<Rightarrow> int \<Rightarrow> node" where
  "GenericFromManyNode src inputSize dst outputSize =
     \<lparr>srcs = map (\<lambda>s. NodePort s inputSize) src, dsts = [NodePort dst outputSize]\<rparr>"

definition GenericManyToManyNode :: "nat list \<Rightarrow> int \<Rightarrow> nat list \<Rightarrow> int \<Rightarrow> node" where
  "GenericManyToManyNode src inputSize dst outputSize =
     \<lparr>srcs = map (\<lambda>s. NodePort s inputSize) src, dsts = map (\<lambda>d. NodePort d outputSize) dst\<rparr>"

definition GenericNode12 :: "nat \<Rightarrow> int \<Rightarrow> nat \<Rightarrow> int \<Rightarrow> nat \<Rightarrow> int \<Rightarrow> node" where
  "GenericNode12 src inputSize dst1 output1Size dst2 output2Size =
     \<lparr>srcs = [NodePort src inputSize],
      dsts = [NodePort dst1 output1Size, NodePort dst2 output2Size]\<rparr>"

definition GenericNode13 ::
    "nat \<Rightarrow> int \<Rightarrow> nat \<Rightarrow> int \<Rightarrow> nat \<Rightarrow> int \<Rightarrow> nat \<Rightarrow> int \<Rightarrow> node" where
  "GenericNode13 src inputSize dst1 output1Size dst2 output2Size dst3 output3Size =
     \<lparr>srcs = [NodePort src inputSize],
      dsts = [NodePort dst1 output1Size, NodePort dst2 output2Size, NodePort dst3 output3Size]\<rparr>"

definition GenericNode21 :: "nat \<Rightarrow> int \<Rightarrow> nat \<Rightarrow> int \<Rightarrow> nat \<Rightarrow> int \<Rightarrow> node" where
  "GenericNode21 src1 input1Size src2 input2Size dst outputSize =
     \<lparr>srcs = [NodePort src1 input1Size, NodePort src2 input2Size],
      dsts = [NodePort dst outputSize]\<rparr>"

definition GenericNode31 ::
    "nat \<Rightarrow> int \<Rightarrow> nat \<Rightarrow> int \<Rightarrow> nat \<Rightarrow> int \<Rightarrow> nat \<Rightarrow> int \<Rightarrow> node" where
  "GenericNode31 src1 input1Size src2 input2Size src3 input3Size dst outputSize =
     \<lparr>srcs = [NodePort src1 input1Size, NodePort src2 input2Size, NodePort src3 input3Size],
      dsts = [NodePort dst outputSize]\<rparr>"

definition GenericSource :: "nat \<Rightarrow> int \<Rightarrow> node" where
  "GenericSource dst outputSize = \<lparr>srcs = [], dsts = [NodePort dst outputSize]\<rparr>"

definition GenericSink :: "nat \<Rightarrow> int \<Rightarrow> node" where
  "GenericSink src inputSize = \<lparr>srcs = [NodePort src inputSize], dsts = []\<rparr>"

definition getNbInputs :: "node \<Rightarrow> nat" where
  "getNbInputs nd = length (srcs nd)"

definition getNbOutputs :: "node \<Rightarrow> nat" where
  "getNbOutputs nd = length (dsts nd)"

text \<open>The C++ default argument \<^verbatim>\<open>nb = inputSize\<close> is the \<open>None\<close> of the last argument.\<close>

definition node_getReadBuffer ::
    "'a graph \<Rightarrow> node \<Rightarrow> nat \<Rightarrow> int option \<Rightarrow> ('a graph \<times> int) option" where
  "node_getReadBuffer g nd k nb =
     (if k < length (srcs nd) then
        let s = srcs nd ! k;
            (f, p) = fo_getReadBuffer (gfifo g (pfifo s)) (case nb of None \<Rightarrow> psize s | Some n \<Rightarrow> n)
        in Some (g\<lparr>gfifo := (gfifo g)(pfifo s := f)\<rparr>, p)
      else None)"

definition node_getWriteBuffer ::
    "'a graph \<Rightarrow> node \<Rightarrow> nat \<Rightarrow> int option \<Rightarrow> ('a graph \<times> int) option" where
  "node_getWriteBuffer g nd k nb =
     (if k < length (dsts nd) then
        let d = dsts nd ! k
        in map_option (\<lambda>(m, f, p). (g\<lparr>gmem := m, gfifo := (gfifo g)(pfifo d := f)\<rparr>, p))
             (fo_getWriteBuffer (gmem g) (gfifo g (pfifo d)) (case nb of None \<Rightarrow> psize d | Some n \<Rightarrow> n))
      else None)"

definition node_willUnderflow :: "'a graph \<Rightarrow> node \<Rightarrow> nat \<Rightarrow> int option \<Rightarrow> bool option" where
  "node_willUnderflow g nd k nb =
     (if k < length (srcs nd) then
        let s = srcs nd ! k
        in Some (fo_willUnderflowWith (gfifo g (pfifo s)) (case nb of None \<Rightarrow> psize s | Some n \<Rightarrow> n))
      else None)"

definition node_willOverflow :: "'a graph \<Rightarrow> node \<Rightarrow> nat \<Rightarrow> int option \<Rightarrow> bool option" where
  "node_willOverflow g nd k nb =
     (if k < length (dsts nd) then
        let d = dsts nd ! k
        in Some (fo_willOverflowWith (gfifo g (pfifo d)) (case nb of None \<Rightarrow> psize d | Some n \<Rightarrow> n))
      else None)"

definition node_isReadArray :: "'a graph \<Rightarrow> node \<Rightarrow> nat \<Rightarrow> bool option" where
  "node_isReadArray g nd k =
     (if k < length (srcs nd) then Some (fo_isArray (gfifo g (pfifo (srcs nd ! k)))) else None)"

definition node_isWriteArray :: "'a graph \<Rightarrow> node \<Rightarrow> nat \<Rightarrow> bool option" where
  "node_isWriteArray g nd k =
     (if k < length (dsts nd) then Some (fo_isArray (gfifo g (pfifo (dsts nd ! k)))) else None)"

section \<open>NodeBase\<close>

datatype kCBStatus = kNewExecution | kResumedExecution

record node_base =
  mExecutionStatus :: kCBStatus

definition NodeBase_new :: node_base where
  "NodeBase_new = \<lparr>mExecutionStatus = kNewExecution\<rparr>"

definition setExecutionStatus :: "node_base \<Rightarrow> kCBStatus \<Rightarrow> node_base" where
  "setExecutionStatus nb i = nb\<lparr>mExecutionStatus := i\<rparr>"

definition executionStatus :: "node_base \<Rightarrow> kCBStatus" where
  "executionStatus nb = mExecutionStatus nb"

definition NodeBase_prepareForRunning :: "node_base \<Rightarrow> cg_status" where
  "NodeBase_prepareForRunning nb = CG_SKIP_EXECUTION"

section \<open>Duplicate\<close>

fun dup_overflow_loop :: "'a graph \<Rightarrow> node \<Rightarrow> nat list \<Rightarrow> cg_status option" where
  "dup_overflow_loop g nd [] = Some CG_SUCCESS"
| "dup_overflow_loop g nd (i # is) =
     (case node_willOverflow g nd i None of
        None \<Rightarrow> None
      | Some True \<Rightarrow> Some CG_SKIP_EXECUTION
      | Some False \<Rightarrow> dup_overflow_loop g nd is)"

definition Duplicate_prepareForRunning :: "'a graph \<Rightarrow> node \<Rightarrow> cg_status option" where
  "Duplicate_prepareForRunning g nd =
     (case node_willUnderflow g nd 0 None of
        None \<Rightarrow> None
      | Some True \<Rightarrow> Some CG_SKIP_EXECUTION
      | Some False \<Rightarrow> dup_overflow_loop g nd [0..<getNbOutputs nd])"

fun dup_copy_loop :: "'a graph \<Rightarrow> node \<Rightarrow> int \<Rightarrow> int \<Rightarrow> nat list \<Rightarrow> 'a graph option" where
  "dup_copy_loop g nd n a [] = Some g"
| "dup_copy_loop g nd n a (i # is) =
     (case node_getWriteBuffer g nd i None of
        None \<Rightarrow> None
      | Some (g1, b) \<Rightarrow>
          (case memcpy (gmem g1) b a n of
             None \<Rightarrow> None
           | Some m \<Rightarrow> dup_copy_loop (g1\<lparr>gmem := m\<rparr>) nd n a is))"

definition Duplicate_new :: "nat \<Rightarrow> nat list \<Rightarrow> int \<Rightarrow> node" where
  "Duplicate_new src dst inputOutputSize = GenericToManyNode src inputOutputSize dst inputOutputSize"

definition Duplicate_run :: "'a graph \<Rightarrow> node \<Rightarrow> int \<Rightarrow> ('a graph \<times> cg_status) option" where
  "Duplicate_run g nd inputOutputSize =
     (case node_getReadBuffer g nd 0 None of
        None \<Rightarrow> None
      | Some (g1, a) \<Rightarrow>
          map_option (\<lambda>g2. (g2, CG_SUCCESS))
            (dup_copy_loop g1 nd inputOutputSize a [0..<getNbOutputs nd]))"

section \<open>Shared buffers\<close>

text \<open>
  \<^verbatim>\<open>Shared<T, shared>\<close>: a pointer (\<open>None\<close> when null) with the static flag that says whether
  it was shared. The non-const \<^verbatim>\<open>get\<close> exists only for the unshared specialisation.
\<close>

record shared_ptr_t =
  sh_shared :: bool
  sh_val :: "int option"

definition Shared_new :: "bool \<Rightarrow> int option \<Rightarrow> shared_ptr_t" where
  "Shared_new is_shared t = \<lparr>sh_shared = is_shared, sh_val = t\<rparr>"

definition Shared_null :: "bool \<Rightarrow> shared_ptr_t" where
  "Shared_null is_shared = \<lparr>sh_shared = is_shared, sh_val = None\<rparr>"

definition Shared_get_const :: "shared_ptr_t \<Rightarrow> int option" where
  "Shared_get_const s = sh_val s"

definition Shared_get_mut :: "shared_ptr_t \<Rightarrow> int option" where
  "Shared_get_mut s = (if sh_shared s then None else sh_val s)"

definition Shared_share :: "shared_ptr_t \<Rightarrow> shared_ptr_t" where
  "Shared_share s = (if sh_shared s then s else Shared_new True (sh_val s))"

text \<open>The element loop of \<^verbatim>\<open>Duplicate<Shared<IO, s>, \<dots>>::run\<close>, one assignment at a time.\<close>

fun share_loop :: "shared_ptr_t mem \<Rightarrow> int \<Rightarrow> int \<Rightarrow> nat \<Rightarrow> shared_ptr_t mem" where
  "share_loop m b a 0 = m"
| "share_loop m b a (Suc left) = share_loop (m(b := Shared_share (m a))) (b + 1) (a + 1) left"

fun dup_share_loop ::
    "shared_ptr_t graph \<Rightarrow> node \<Rightarrow> int \<Rightarrow> int \<Rightarrow> nat list \<Rightarrow> shared_ptr_t graph option" where
  "dup_share_loop g nd n a [] = Some g"
| "dup_share_loop g nd n a (i # is) =
     (case node_getWriteBuffer g nd i None of
        None \<Rightarrow> None
      | Some (g1, b) \<Rightarrow>
          dup_share_loop (g1\<lparr>gmem := share_loop (gmem g1) b a (nat n)\<rparr>) nd n a is)"

definition DuplicateShared_new :: "nat \<Rightarrow> nat list \<Rightarrow> int \<Rightarrow> node" where
  "DuplicateShared_new src dst ioSize = GenericToManyNode src ioSize dst ioSize"

definition DuplicateShared_prepareForRunning :: "'a graph \<Rightarrow> node \<Rightarrow> cg_status option" where
  "DuplicateShared_prepareForRunning g nd =
     (case node_willUnderflow g nd 0 None of
        None \<Rightarrow> None
      | Some True \<Rightarrow> Some CG_SKIP_EXECUTION
      | Some False \<Rightarrow> dup_overflow_loop g nd [0..<getNbOutputs nd])"

definition DuplicateShared_run ::
    "shared_ptr_t graph \<Rightarrow> node \<Rightarrow> int \<Rightarrow> (shared_ptr_t graph \<times> cg_status) option" where
  "DuplicateShared_run g nd ioSize =
     (case node_getReadBuffer g nd 0 None of
        None \<Rightarrow> None
      | Some (g1, a) \<Rightarrow>
          map_option (\<lambda>g2. (g2, CG_SUCCESS))
            (dup_share_loop g1 nd ioSize a [0..<getNbOutputs nd]))"

section \<open>Contents and footprints of FIFO objects\<close>

fun fo_contents :: "'a mem \<Rightarrow> fifo_obj \<Rightarrow> 'a list" where
  "fo_contents m (SyncFIFO len f) = fifo_contents m f"
| "fo_contents m (AsyncFIFO len f) = fifo_contents m f"
| "fo_contents m (ArrayFIFO len f) = mem_read m (aBuffer f) (nat len)"

fun fo_len :: "fifo_obj \<Rightarrow> int" where
  "fo_len (SyncFIFO len f) = len"
| "fo_len (AsyncFIFO len f) = len"
| "fo_len (ArrayFIFO len f) = len"

fun fo_base :: "fifo_obj \<Rightarrow> int" where
  "fo_base (SyncFIFO len f) = mBuffer f"
| "fo_base (AsyncFIFO len f) = mBuffer f"
| "fo_base (ArrayFIFO len f) = aBuffer f"

text \<open>A FIFO proper (not an array), in its invariant.\<close>

fun fo_inv :: "fifo_obj \<Rightarrow> bool" where
  "fo_inv (SyncFIFO len f) = fifo_inv len f"
| "fo_inv (AsyncFIFO len f) = fifo_inv len f"
| "fo_inv (ArrayFIFO len f) = False"

definition fo_disjoint :: "fifo_obj \<Rightarrow> fifo_obj \<Rightarrow> bool" where
  "fo_disjoint f f' \<longleftrightarrow> fo_base f + fo_len f \<le> fo_base f' \<or> fo_base f' + fo_len f' \<le> fo_base f"

lemma fo_overflow_iff:
  "fo_inv f \<Longrightarrow> fo_willOverflowWith f n \<longleftrightarrow> int (length (fo_contents m f)) + n > fo_len f"
  by (cases f) (simp_all add: AFIFO_as_FIFO FIFO_overflow_iff [where m = m] del: length_fifo_contents)

lemma fo_underflow_iff:
  "fo_inv f \<Longrightarrow> fo_willUnderflowWith f n \<longleftrightarrow> int (length (fo_contents m f)) < n"
  by (cases f) (simp_all add: AFIFO_as_FIFO FIFO_underflow_iff [where m = m] del: length_fifo_contents)

lemma fo_contents_cong:
  assumes "fo_inv f" and "\<And>a. fo_base f \<le> a \<Longrightarrow> a < fo_base f + fo_len f \<Longrightarrow> m a = m' a"
  shows "fo_contents m f = fo_contents m' f"
  using assms by (cases f) (auto simp: fifo_contents_def fifo_inv_def intro!: mem_read_cong)

lemma fo_read_spec:
  assumes inv: "fo_inv f" and fit: "\<not> fo_willUnderflowWith f (int n)"
    and get: "fo_getReadBuffer f (int n) = (f', p)"
  shows "fo_inv f'" and "fo_contents m f = mem_read m p n @ fo_contents m f'"
    and "fo_base f' = fo_base f" and "fo_len f' = fo_len f"
    and "fo_base f \<le> p" and "p + int n \<le> fo_base f + fo_len f"
proof -
  have "fo_inv f' \<and> fo_contents m f = mem_read m p n @ fo_contents m f' \<and> fo_base f' = fo_base f \<and>
      fo_len f' = fo_len f \<and> fo_base f \<le> p \<and> p + int n \<le> fo_base f + fo_len f"
    using assms
    by (cases f; cases "FIFO_getReadBuffer (case f of SyncFIFO _ g \<Rightarrow> g | AsyncFIFO _ g \<Rightarrow> g) (int n)")
      (auto simp: AFIFO_as_FIFO dest: FIFO_getReadBuffer_contents(1), 
       auto simp: AFIFO_as_FIFO FIFO_getReadBuffer_contents(2), auto simp: fifo_defs)
  then show "fo_inv f'" and "fo_contents m f = mem_read m p n @ fo_contents m f'"
    and "fo_base f' = fo_base f" and "fo_len f' = fo_len f"
    and "fo_base f \<le> p" and "p + int n \<le> fo_base f + fo_len f" by blast+
qed

lemma fo_write_spec:
  assumes inv: "fo_inv f" and fit: "\<not> fo_willOverflowWith f (int (length xs))"
    and get: "fo_getWriteBuffer m f (int (length xs)) = Some (m1, f', p)"
  shows "fo_inv f' \<and> fo_contents (mem_write m1 p xs) f' = fo_contents m f @ xs \<and>
    fo_base f' = fo_base f \<and> fo_len f' = fo_len f \<and> fo_base f \<le> p \<and>
    p + int (length xs) \<le> fo_base f + fo_len f \<and>
    (\<forall>a. (a < fo_base f \<or> fo_base f + fo_len f \<le> a) \<longrightarrow> m1 a = m a)"
proof -
  have *: "fifo_inv len q' \<and> fifo_contents (mem_write m1 p xs) q' = fifo_contents m q @ xs \<and>
      mBuffer q' = mBuffer q \<and> mBuffer q \<le> p \<and> p + int (length xs) \<le> mBuffer q + len \<and>
      (\<forall>a. (a < mBuffer q \<or> mBuffer q + len \<le> a) \<longrightarrow> m1 a = m a)"
    if i: "fifo_inv len q" and o: "\<not> FIFO_willOverflowWith len q (int (length xs))"
      and g: "FIFO_getWriteBuffer m q (int (length xs)) = Some (m1, q', p)" for len q q'
  proof -
    have put: "FIFO_put (m, q) xs = Some (mem_write m1 p xs, q')"
      by (simp add: FIFO_put_def g)
    show ?thesis
      using FIFO_put_spec(1-3) [OF i o put] FIFO_getWriteBuffer_realign [OF i g] i o
      by (simp add: fifo_defs)
  qed
  from assms show ?thesis
    by (cases f) (auto simp: AFIFO_as_FIFO dest: *)
qed

definition gcontents :: "'a graph \<Rightarrow> nat \<Rightarrow> 'a list" where
  "gcontents g k = fo_contents (gmem g) (gfifo g k)"

text \<open>The FIFOs of \<open>S\<close> are in their invariant and their buffers do not overlap.\<close>

definition graph_ok :: "'a graph \<Rightarrow> nat set \<Rightarrow> bool" where
  "graph_ok g S \<longleftrightarrow> (\<forall>i\<in>S. fo_inv (gfifo g i)) \<and>
     (\<forall>i\<in>S. \<forall>j\<in>S. i \<noteq> j \<longrightarrow> fo_disjoint (gfifo g i) (gfifo g j))"

definition same_places :: "'a graph \<Rightarrow> 'a graph \<Rightarrow> bool" where
  "same_places g g' \<longleftrightarrow>
     (\<forall>k. fo_base (gfifo g' k) = fo_base (gfifo g k) \<and> fo_len (gfifo g' k) = fo_len (gfifo g k))"

lemma same_places_refl [simp]: "same_places g g"
  by (simp add: same_places_def)

lemma same_places_trans: "same_places g g1 \<Longrightarrow> same_places g1 g2 \<Longrightarrow> same_places g g2"
  by (simp add: same_places_def)

lemma graph_ok_transfer:
  "graph_ok g S \<Longrightarrow> same_places g g' \<Longrightarrow> (\<And>i. i \<in> S \<Longrightarrow> fo_inv (gfifo g' i)) \<Longrightarrow> graph_ok g' S"
  by (simp add: graph_ok_def fo_disjoint_def same_places_def)

lemma node_read_spec:
  assumes ok: "graph_ok g S" and s: "pfifo (srcs nd ! k) \<in> S" and k: "k < length (srcs nd)"
    and fit: "node_willUnderflow g nd k nb = Some False"
    and n: "(case nb of None \<Rightarrow> psize (srcs nd ! k) | Some n \<Rightarrow> n) = int n"
    and get: "node_getReadBuffer g nd k nb = Some (g', p)"
  shows "graph_ok g' S" and "same_places g g'" and "gmem g' = gmem g"
    and "gcontents g (pfifo (srcs nd ! k)) = mem_read (gmem g) p n @ gcontents g' (pfifo (srcs nd ! k))"
    and "\<And>j. j \<noteq> pfifo (srcs nd ! k) \<Longrightarrow> gfifo g' j = gfifo g j"
    and "fo_base (gfifo g (pfifo (srcs nd ! k))) \<le> p"
    and "p + int n \<le> fo_base (gfifo g (pfifo (srcs nd ! k))) + fo_len (gfifo g (pfifo (srcs nd ! k)))"
proof -
  let ?s = "pfifo (srcs nd ! k)"
  obtain f where f: "fo_getReadBuffer (gfifo g ?s) (int n) = (f, p)"
    and g': "g' = g\<lparr>gfifo := (gfifo g)(?s := f)\<rparr>"
    using get k by (auto simp: node_getReadBuffer_def Let_def n split: prod.splits)
  have "fo_inv (gfifo g ?s)" and "\<not> fo_willUnderflowWith (gfifo g ?s) (int n)"
    using ok s fit k by (auto simp: graph_ok_def node_willUnderflow_def Let_def n)
  note r = fo_read_spec [OF this f]
  show places: "same_places g g'" using r(3,4) by (simp add: g' same_places_def)
  show "graph_ok g' S"
    by (rule graph_ok_transfer [OF ok places]) (use ok r(1) in \<open>auto simp: g' graph_ok_def\<close>)
  show "gmem g' = gmem g" and "\<And>j. j \<noteq> ?s \<Longrightarrow> gfifo g' j = gfifo g j"
    by (simp_all add: g')
  show "gcontents g ?s = mem_read (gmem g) p n @ gcontents g' ?s"
    using r(2) by (simp add: gcontents_def g')
  show "fo_base (gfifo g ?s) \<le> p" and "p + int n \<le> fo_base (gfifo g ?s) + fo_len (gfifo g ?s)"
    by (fact r(5,6))+
qed

text \<open>Asking for a write buffer and storing \<open>xs\<close> through it.\<close>

lemma node_write_spec:
  assumes ok: "graph_ok g S" and d: "pfifo (dsts nd ! k) \<in> S" and k: "k < length (dsts nd)"
    and fit: "node_willOverflow g nd k nb = Some False"
    and n: "(case nb of None \<Rightarrow> psize (dsts nd ! k) | Some n \<Rightarrow> n) = int (length xs)"
    and get: "node_getWriteBuffer g nd k nb = Some (g1, p)"
    and g': "g' = g1\<lparr>gmem := mem_write (gmem g1) p xs\<rparr>"
  shows "graph_ok g' S" and "same_places g g'"
    and "gcontents g' (pfifo (dsts nd ! k)) = gcontents g (pfifo (dsts nd ! k)) @ xs"
    and "\<And>j. j \<noteq> pfifo (dsts nd ! k) \<Longrightarrow> gfifo g' j = gfifo g j"
    and "\<And>j. j \<in> S \<Longrightarrow> j \<noteq> pfifo (dsts nd ! k) \<Longrightarrow> gcontents g' j = gcontents g j"
    and "\<And>a. a < fo_base (gfifo g (pfifo (dsts nd ! k))) \<or>
           fo_base (gfifo g (pfifo (dsts nd ! k))) + fo_len (gfifo g (pfifo (dsts nd ! k))) \<le> a \<Longrightarrow>
           gmem g' a = gmem g a \<and> gmem g1 a = gmem g a"
    and "fo_base (gfifo g (pfifo (dsts nd ! k))) \<le> p"
    and "p + int (length xs)
           \<le> fo_base (gfifo g (pfifo (dsts nd ! k))) + fo_len (gfifo g (pfifo (dsts nd ! k)))"
proof -
  let ?d = "pfifo (dsts nd ! k)"
  obtain m f where f: "fo_getWriteBuffer (gmem g) (gfifo g ?d) (int (length xs)) = Some (m, f, p)"
    and g1: "g1 = g\<lparr>gmem := m, gfifo := (gfifo g)(?d := f)\<rparr>"
    using get k by (auto simp: node_getWriteBuffer_def Let_def n)
  have "fo_inv (gfifo g ?d)" and "\<not> fo_willOverflowWith (gfifo g ?d) (int (length xs))"
    using ok d fit k by (auto simp: graph_ok_def node_willOverflow_def Let_def n)
  note r = fo_write_spec [OF this f]
  have fifos: "gfifo g' = (gfifo g)(?d := f)" and mem: "gmem g' = mem_write m p xs"
    by (simp_all add: g' g1)
  show places: "same_places g g'" using r by (simp add: fifos same_places_def)
  show "graph_ok g' S"
    by (rule graph_ok_transfer [OF ok places]) (use ok r in \<open>auto simp: fifos graph_ok_def\<close>)
  show "gcontents g' ?d = gcontents g ?d @ xs" using r by (simp add: gcontents_def fifos mem)
  show other: "gfifo g' j = gfifo g j" if "j \<noteq> ?d" for j using that by (simp add: fifos)
  show "fo_base (gfifo g ?d) \<le> p" and "p + int (length xs) \<le> fo_base (gfifo g ?d) + fo_len (gfifo g ?d)"
    using r by blast+
  show frame: "gmem g' a = gmem g a \<and> gmem g1 a = gmem g a"
    if "a < fo_base (gfifo g ?d) \<or> fo_base (gfifo g ?d) + fo_len (gfifo g ?d) \<le> a" for a
    using that r by (auto simp: mem g1 mem_simps)
  show "gcontents g' j = gcontents g j" if "j \<in> S" "j \<noteq> ?d" for j
  proof -
    have "fo_inv (gfifo g j)" and "fo_disjoint (gfifo g j) (gfifo g ?d)"
      using ok d that by (auto simp: graph_ok_def)
    then show ?thesis
      unfolding gcontents_def other [OF that(2)]
      by (intro fo_contents_cong) (auto simp: fo_disjoint_def frame)
  qed
qed

section \<open>Sending one block to several outputs\<close>

abbreviation out_fifo :: "node \<Rightarrow> nat \<Rightarrow> nat" where
  "out_fifo nd i \<equiv> pfifo (dsts nd ! i)"

fun emit_loop :: "'a graph \<Rightarrow> node \<Rightarrow> 'a list \<Rightarrow> nat list \<Rightarrow> 'a graph option" where
  "emit_loop g nd xs [] = Some g"
| "emit_loop g nd xs (i # is) =
     (case node_getWriteBuffer g nd i None of
        None \<Rightarrow> None
      | Some (g1, b) \<Rightarrow> emit_loop (g1\<lparr>gmem := mem_write (gmem g1) b xs\<rparr>) nd xs is)"

definition outputs_ready :: "'a graph \<Rightarrow> node \<Rightarrow> nat set \<Rightarrow> nat \<Rightarrow> nat list \<Rightarrow> bool" where
  "outputs_ready g nd S n is \<longleftrightarrow> graph_ok g S \<and> distinct (map (out_fifo nd) is) \<and>
     (\<forall>i\<in>set is. i < length (dsts nd) \<and> psize (dsts nd ! i) = int n \<and> out_fifo nd i \<in> S \<and>
        node_willOverflow g nd i None = Some False)"

lemma outputs_ready_step:
  assumes ready: "outputs_ready g nd S (length xs) (i # is)"
    and get: "node_getWriteBuffer g nd i None = Some (g1, p)"
    and g': "g' = g1\<lparr>gmem := mem_write (gmem g1) p xs\<rparr>"
  shows "outputs_ready g' nd S (length xs) is" and "same_places g g'"
    and "gcontents g' (out_fifo nd i) = gcontents g (out_fifo nd i) @ xs"
    and "\<And>j. j \<noteq> out_fifo nd i \<Longrightarrow> gfifo g' j = gfifo g j"
    and "\<And>j. j \<in> S \<Longrightarrow> j \<noteq> out_fifo nd i \<Longrightarrow> gcontents g' j = gcontents g j"
    and "\<And>a. a < fo_base (gfifo g (out_fifo nd i)) \<or>
           fo_base (gfifo g (out_fifo nd i)) + fo_len (gfifo g (out_fifo nd i)) \<le> a \<Longrightarrow>
           gmem g' a = gmem g a \<and> gmem g1 a = gmem g a"
    and "fo_base (gfifo g (out_fifo nd i)) \<le> p"
    and "p + int (length xs)
           \<le> fo_base (gfifo g (out_fifo nd i)) + fo_len (gfifo g (out_fifo nd i))"
proof -
  from ready have ok: "graph_ok g S" and i: "i < length (dsts nd)" and d: "out_fifo nd i \<in> S"
    and fit: "node_willOverflow g nd i None = Some False"
    and n: "(case None of None \<Rightarrow> psize (dsts nd ! i) | Some n \<Rightarrow> n) = int (length xs)"
    by (simp_all add: outputs_ready_def)
  note r = node_write_spec [OF ok d i fit n get g']
  from r show "same_places g g'"
    and "gcontents g' (out_fifo nd i) = gcontents g (out_fifo nd i) @ xs"
    and "\<And>j. j \<noteq> out_fifo nd i \<Longrightarrow> gfifo g' j = gfifo g j"
    and "\<And>j. j \<in> S \<Longrightarrow> j \<noteq> out_fifo nd i \<Longrightarrow> gcontents g' j = gcontents g j"
    and "\<And>a. a < fo_base (gfifo g (out_fifo nd i)) \<or>
           fo_base (gfifo g (out_fifo nd i)) + fo_len (gfifo g (out_fifo nd i)) \<le> a \<Longrightarrow>
           gmem g' a = gmem g a \<and> gmem g1 a = gmem g a"
    and "fo_base (gfifo g (out_fifo nd i)) \<le> p"
    and "p + int (length xs)
           \<le> fo_base (gfifo g (out_fifo nd i)) + fo_len (gfifo g (out_fifo nd i))"
    by blast+
  have "node_willOverflow g' nd j None = Some False" if j: "j \<in> set is" for j
  proof -
    have "out_fifo nd i \<notin> out_fifo nd ` set is" using ready by (simp add: outputs_ready_def)
    then have "out_fifo nd j \<noteq> out_fifo nd i" using j by (metis image_eqI)
    then have "gfifo g' (out_fifo nd j) = gfifo g (out_fifo nd j)" by (rule r(4))
    then show ?thesis
      using ready j by (auto simp: outputs_ready_def node_willOverflow_def Let_def)
  qed
  then show "outputs_ready g' nd S (length xs) is"
    using ready r(1) by (auto simp: outputs_ready_def)
qed

lemma emit_loop_spec:
  "outputs_ready g nd S (length xs) is \<Longrightarrow> emit_loop g nd xs is = Some g' \<Longrightarrow>
   graph_ok g' S \<and> same_places g g' \<and>
   (\<forall>i\<in>set is. gcontents g' (out_fifo nd i) = gcontents g (out_fifo nd i) @ xs) \<and>
   (\<forall>j. j \<notin> out_fifo nd ` set is \<longrightarrow> gfifo g' j = gfifo g j \<and> (j \<in> S \<longrightarrow> gcontents g' j = gcontents g j))"
proof (induction "is" arbitrary: g)
  case Nil
  then show ?case by (simp add: outputs_ready_def)
next
  case (Cons i "is")
  from Cons.prems(2) obtain g1 b where get: "node_getWriteBuffer g nd i None = Some (g1, b)"
    and rest: "emit_loop (g1\<lparr>gmem := mem_write (gmem g1) b xs\<rparr>) nd xs is = Some g'"
    by (auto split: option.splits)
  note st = outputs_ready_step [OF Cons.prems(1) get refl]
  note ih = Cons.IH [OF st(1) rest]
  have notin: "out_fifo nd i \<notin> out_fifo nd ` set is"
    and S: "\<And>j. j \<in> set is \<Longrightarrow> out_fifo nd j \<in> S" "out_fifo nd i \<in> S"
    using Cons.prems(1) by (auto simp: outputs_ready_def)
  have "gcontents g' (out_fifo nd i) = gcontents g (out_fifo nd i) @ xs"
    using ih notin st(3) S by simp
  moreover have "gcontents g' (out_fifo nd j) = gcontents g (out_fifo nd j) @ xs" if "j \<in> set is" for j
    using ih that notin st(5) [of "out_fifo nd j"] S by (metis image_eqI)
  moreover have "gfifo g' j = gfifo g j \<and> (j \<in> S \<longrightarrow> gcontents g' j = gcontents g j)"
    if "j \<notin> out_fifo nd ` set (i # is)" for j
    using ih that st(4,5) by simp
  ultimately show ?case using ih same_places_trans [OF st(2)] by simp
qed

text \<open>
  The two loops of the Duplicate classes do this when the block read stays outside the
  buffers written; every \<^verbatim>\<open>memcpy\<close> is then between disjoint regions.
\<close>

definition window_outside :: "'a graph \<Rightarrow> node \<Rightarrow> int \<Rightarrow> nat \<Rightarrow> nat list \<Rightarrow> bool" where
  "window_outside g nd a n is \<longleftrightarrow>
     (\<forall>i\<in>set is. a + int n \<le> fo_base (gfifo g (out_fifo nd i)) \<or>
        fo_base (gfifo g (out_fifo nd i)) + fo_len (gfifo g (out_fifo nd i)) \<le> a)"

lemma window_outside_step:
  "window_outside g nd a n (i # is) \<Longrightarrow> same_places g g' \<Longrightarrow> window_outside g' nd a n is"
  by (simp add: window_outside_def same_places_def)

lemma dup_copy_loop_emit:
  "outputs_ready g nd S (length xs) is \<Longrightarrow> window_outside g nd a (length xs) is \<Longrightarrow>
   mem_read (gmem g) a (length xs) = xs \<Longrightarrow>
   dup_copy_loop g nd (int (length xs)) a is = emit_loop g nd xs is"
proof (induction "is" arbitrary: g)
  case Nil
  then show ?case by simp
next
  case (Cons i "is")
  show ?case
  proof (cases "node_getWriteBuffer g nd i None")
    case None
    then show ?thesis by simp
  next
    case (Some gb)
    obtain g1 b where get: "node_getWriteBuffer g nd i None = Some (g1, b)" using Some by (cases gb) auto
    let ?g' = "g1\<lparr>gmem := mem_write (gmem g1) b xs\<rparr>"
    note st = outputs_ready_step [OF Cons.prems(1) get refl]
    have out: "a + int (length xs) \<le> fo_base (gfifo g (out_fifo nd i)) \<or>
        fo_base (gfifo g (out_fifo nd i)) + fo_len (gfifo g (out_fifo nd i)) \<le> a"
      using Cons.prems(2) by (simp add: window_outside_def)
    have "mem_read (gmem g1) a (length xs) = mem_read (gmem g) a (length xs)"
      and "mem_read (gmem ?g') a (length xs) = mem_read (gmem g) a (length xs)"
      using st(6) out by (force intro!: mem_read_cong)+
    then have w: "mem_read (gmem g1) a (length xs) = xs" "mem_read (gmem ?g') a (length xs) = xs"
      using Cons.prems(3) by simp_all
    have "memcpy (gmem g1) b a (int (length xs)) = Some (mem_write (gmem g1) b xs)"
      using st(7,8) out by (auto simp: memcpy_def regions_overlap_def w(1))
    then show ?thesis
      using Cons.IH [OF st(1) window_outside_step [OF Cons.prems(2) st(2)] w(2)] get by simp
  qed
qed

lemma share_loop_write:
  "b + int n \<le> a \<or> a + int n \<le> b \<Longrightarrow>
   share_loop m b a n = mem_write m b (map Shared_share (mem_read m a n))"
proof (induction n arbitrary: m a b)
  case 0
  then show ?case by simp
next
  case (Suc n)
  let ?m = "m(b := Shared_share (m a))"
  have "mem_read ?m (a + 1) n = mem_read m (a + 1) n"
    using Suc.prems by (intro mem_read_cong) auto
  moreover have "share_loop ?m (b + 1) (a + 1) n
      = mem_write ?m (b + 1) (map Shared_share (mem_read ?m (a + 1) n))"
    using Suc.prems by (intro Suc.IH) auto
  ultimately have "share_loop m b a (Suc n)
      = mem_write ?m (b + 1) (map Shared_share (mem_read m (a + 1) n))"
    by (simp del: fun_upd_apply)
  also have "\<dots> = mem_write m b (Shared_share (m a) # map Shared_share (mem_read m (a + 1) n))"
    by (auto simp: mem_write_def nth_Cons' nat_diff_distrib' intro!: ext arg_cong [where f = Shared_share])
  finally show ?case
    using mem_read_add [of m a 1 n] by (simp add: mem_read_def)
qed

lemma dup_share_loop_emit:
  "outputs_ready g nd S (length xs) is \<Longrightarrow> window_outside g nd a (length xs) is \<Longrightarrow>
   map Shared_share (mem_read (gmem g) a (length xs)) = xs \<Longrightarrow>
   dup_share_loop g nd (int (length xs)) a is = emit_loop g nd xs is"
proof (induction "is" arbitrary: g)
  case Nil
  then show ?case by simp
next
  case (Cons i "is")
  show ?case
  proof (cases "node_getWriteBuffer g nd i None")
    case None
    then show ?thesis by simp
  next
    case (Some gb)
    obtain g1 b where get: "node_getWriteBuffer g nd i None = Some (g1, b)" using Some by (cases gb) auto
    let ?g' = "g1\<lparr>gmem := mem_write (gmem g1) b xs\<rparr>"
    note st = outputs_ready_step [OF Cons.prems(1) get refl]
    have out: "a + int (length xs) \<le> fo_base (gfifo g (out_fifo nd i)) \<or>
        fo_base (gfifo g (out_fifo nd i)) + fo_len (gfifo g (out_fifo nd i)) \<le> a"
      using Cons.prems(2) by (simp add: window_outside_def)
    have "mem_read (gmem g1) a (length xs) = mem_read (gmem g) a (length xs)"
      and "mem_read (gmem ?g') a (length xs) = mem_read (gmem g) a (length xs)"
      using st(6) out by (force intro!: mem_read_cong)+
    then have w: "map Shared_share (mem_read (gmem g1) a (length xs)) = xs"
        "map Shared_share (mem_read (gmem ?g') a (length xs)) = xs"
      using Cons.prems(3) by simp_all
    have "b + int (length xs) \<le> a \<or> a + int (length xs) \<le> b"
      using st(7,8) out by auto
    then have "share_loop (gmem g1) b a (length xs) = mem_write (gmem g1) b xs"
      by (simp add: share_loop_write w(1))
    then show ?thesis
      using Cons.IH [OF st(1) window_outside_step [OF Cons.prems(2) st(2)] w(2)] get by simp
  qed
qed

lemma dup_overflow_loop_success:
  "dup_overflow_loop g nd is = Some CG_SUCCESS \<longleftrightarrow>
   (\<forall>i\<in>set is. node_willOverflow g nd i None = Some False)"
  by (induction "is") (auto split: option.splits bool.splits)

text \<open>What prepareForRunning establishes for a Duplicate node over separate FIFOs.\<close>

lemma duplicate_ready:
  assumes ok: "graph_ok g (insert src (set dst))" and "distinct (src # dst)" and n: "0 \<le> n"
    and prep: "Duplicate_prepareForRunning g (Duplicate_new src dst n) = Some CG_SUCCESS"
    and read: "node_getReadBuffer g (Duplicate_new src dst n) 0 None = Some (g1, a)"
  shows "outputs_ready g1 (Duplicate_new src dst n) (insert src (set dst)) (nat n) [0..<length dst]"
    and "window_outside g1 (Duplicate_new src dst n) a (nat n) [0..<length dst]"
    and "gmem g1 = gmem g" and "same_places g g1"
    and "gcontents g src = mem_read (gmem g) a (nat n) @ gcontents g1 src"
    and "\<And>j. j \<noteq> src \<Longrightarrow> gfifo g1 j = gfifo g j"
proof -
  let ?nd = "Duplicate_new src dst n" and ?S = "insert src (set dst)"
  have nd: "srcs ?nd = [NodePort src n]" "dsts ?nd = map (\<lambda>d. NodePort d n) dst"
    by (simp_all add: Duplicate_new_def GenericToManyNode_def)
  have un: "node_willUnderflow g ?nd 0 None = Some False"
    and ov: "dup_overflow_loop g ?nd [0..<length dst] = Some CG_SUCCESS"
    using prep by (auto simp: Duplicate_prepareForRunning_def getNbOutputs_def nd
        split: option.splits bool.splits)
  have src0: "pfifo (srcs ?nd ! 0) = src" by (simp add: nd NodePort_def)
  have n': "(case None of None \<Rightarrow> psize (srcs ?nd ! 0) | Some n \<Rightarrow> n) = int (nat n)"
    using n by (simp add: nd NodePort_def)
  have inS: "pfifo (srcs ?nd ! 0) \<in> ?S" by (simp add: src0)
  have len: "0 < length (srcs ?nd)" by (simp add: nd)
  note r = node_read_spec [OF ok inS len un n' read, unfolded src0]
  show "gmem g1 = gmem g" and "same_places g g1"
    and "gcontents g src = mem_read (gmem g) a (nat n) @ gcontents g1 src"
    and same: "\<And>j. j \<noteq> src \<Longrightarrow> gfifo g1 j = gfifo g j"
    by (fact r)+
  have out: "out_fifo ?nd i = dst ! i \<and> psize (dsts ?nd ! i) = n" if "i < length dst" for i
    using that by (simp add: nd NodePort_def)
  have ne: "dst ! i \<noteq> src" if "i < length dst" for i
    using assms(2) that by (metis distinct.simps(2) nth_mem)
  have "node_willOverflow g1 ?nd i None = Some False" if i: "i < length dst" for i
  proof -
    have "node_willOverflow g ?nd i None = Some False"
      using ov i by (simp add: dup_overflow_loop_success)
    then show ?thesis
      using i out [OF i] same [OF ne [OF i]] by (simp add: node_willOverflow_def nd Let_def)
  qed
  moreover have "map (out_fifo ?nd) [0..<length dst] = dst"
    by (rule nth_equalityI) (simp_all add: out)
  ultimately show "outputs_ready g1 ?nd ?S (nat n) [0..<length dst]"
    using r(1) assms(2) n out by (auto simp: outputs_ready_def nd NodePort_def)
  show "window_outside g1 ?nd a (nat n) [0..<length dst]"
  proof -
    have "fo_disjoint (gfifo g src) (gfifo g (dst ! i))" if "i < length dst" for i
      using ok ne [OF that] that by (auto simp: graph_ok_def)
    with r(6,7) r(2) show ?thesis
      by (fastforce simp: window_outside_def out fo_disjoint_def same_places_def)
  qed
qed

lemma emit_outputs:
  assumes ready: "outputs_ready g nd S (length xs) [0..<length dst]"
    and ids: "map (out_fifo nd) [0..<length dst] = dst"
    and emit: "emit_loop g nd xs [0..<length dst] = Some g'"
  shows "graph_ok g' S" and "\<And>d. d \<in> set dst \<Longrightarrow> gcontents g' d = gcontents g d @ xs"
    and "\<And>j. j \<notin> set dst \<Longrightarrow> gfifo g' j = gfifo g j"
    and "\<And>j. j \<notin> set dst \<Longrightarrow> j \<in> S \<Longrightarrow> gcontents g' j = gcontents g j"
proof -
  have img: "out_fifo nd ` set [0..<length dst] = set dst"
    using arg_cong [OF ids, of set] by (simp only: set_map)
  note e = emit_loop_spec [OF ready emit, unfolded img]
  show "graph_ok g' S" and "\<And>j. j \<notin> set dst \<Longrightarrow> gfifo g' j = gfifo g j"
    and "\<And>j. j \<notin> set dst \<Longrightarrow> j \<in> S \<Longrightarrow> gcontents g' j = gcontents g j"
    using e by blast+
  show "gcontents g' d = gcontents g d @ xs" if "d \<in> set dst" for d
    using e that unfolding img [symmetric] by auto
qed

lemma Duplicate_new_outputs:
  "getNbOutputs (Duplicate_new src dst n) = length dst"
  "map (out_fifo (Duplicate_new src dst n)) [0..<length dst] = dst"
  by (auto simp: getNbOutputs_def Duplicate_new_def GenericToManyNode_def NodePort_def
      intro!: nth_equalityI)

section \<open>Properties\<close>

text \<open>
  C12. A Duplicate node that its prepareForRunning let run takes one block of \<open>n\<close> samples from
  its input and appends that block to every one of its outputs, returns CG_SUCCESS, keeps
  every FIFO in its invariant and touches no other FIFO.
\<close>

theorem duplicate_run_copies:
  assumes ok: "graph_ok g (insert src (set dst))" and dist: "distinct (src # dst)" and n: "0 \<le> n"
    and prep: "Duplicate_prepareForRunning g (Duplicate_new src dst n) = Some CG_SUCCESS"
    and run: "Duplicate_run g (Duplicate_new src dst n) n = Some (g', st)"
  shows "st = CG_SUCCESS \<and> graph_ok g' (insert src (set dst)) \<and>
    gcontents g' src = drop (nat n) (gcontents g src) \<and>
    (\<forall>d\<in>set dst. gcontents g' d = gcontents g d @ take (nat n) (gcontents g src)) \<and>
    (\<forall>j. j \<noteq> src \<and> j \<notin> set dst \<longrightarrow> gfifo g' j = gfifo g j)"
proof -
  let ?nd = "Duplicate_new src dst n"
  obtain g1 a where read: "node_getReadBuffer g ?nd 0 None = Some (g1, a)"
    and loop: "dup_copy_loop g1 ?nd n a [0..<length dst] = Some g'" and st: "st = CG_SUCCESS"
    using run by (auto simp: Duplicate_run_def Duplicate_new_outputs split: option.splits)
  note rdy = duplicate_ready [OF ok dist n prep read]
  let ?xs = "mem_read (gmem g) a (nat n)"
  have "emit_loop g1 ?nd ?xs [0..<length dst] = Some g'"
    using loop dup_copy_loop_emit [of g1 ?nd _ ?xs] rdy n by simp
  note e = emit_outputs [OF _ Duplicate_new_outputs(2) this, of "insert src (set dst)"]
  have rdy1: "outputs_ready g1 ?nd (insert src (set dst)) (length ?xs) [0..<length dst]"
    using rdy(1) by simp
  have same: "gcontents g1 d = gcontents g d" if "d \<noteq> src" for d
    using rdy(3) rdy(6) [OF that] by (simp add: gcontents_def)
  have "gcontents g' d = gcontents g d @ ?xs" if "d \<in> set dst" for d
    using e(2) [OF rdy1 that] same [of d] that dist by auto
  then show ?thesis
    using e(1,3,4) [OF rdy1] rdy(5,6) dist st by simp
qed

definition demo_graph :: "int graph" where
  "demo_graph =
     \<lparr>gmem = (\<lambda>a. a),
      gfifo = (\<lambda>i. if i = 0 then SyncFIFO 4 \<lparr>mBuffer = 0, readPos = 1, writePos = 4, mDelay = 0\<rparr>
                  else if i = 1 then SyncFIFO 4 (FIFO_new 10 1)
                  else AsyncFIFO 5 (AFIFO_new 20 0))\<rparr>"

lemma demo_graph_ok: "graph_ok demo_graph {0, 1, 2}"
  by (simp add: graph_ok_def demo_graph_def fo_disjoint_def fifo_defs AFIFO_as_FIFO)

theorem duplicate_run_copies_witness:
  "\<exists>g' st. Duplicate_run demo_graph (Duplicate_new 0 [1, 2] 2) 2 = Some (g', st) \<and>
     gcontents g' 0 = [3] \<and> gcontents g' 1 = [10, 1, 2] \<and> gcontents g' 2 = [1, 2]"
proof -
  have c: "gcontents demo_graph 0 = [1, 2, 3]" "gcontents demo_graph 1 = [10]"
      "gcontents demo_graph 2 = []"
    by code_simp+
  have "Duplicate_run demo_graph (Duplicate_new 0 [1, 2] 2) 2 \<noteq> None"
    and p: "Duplicate_prepareForRunning demo_graph (Duplicate_new 0 [1, 2] 2) = Some CG_SUCCESS"
    by code_simp+
  then obtain g' st where r: "Duplicate_run demo_graph (Duplicate_new 0 [1, 2] 2) 2 = Some (g', st)"
    by auto
  have ok: "graph_ok demo_graph (insert 0 (set [1, 2]))" using demo_graph_ok by simp
  show ?thesis
    using duplicate_run_copies [OF ok _ _ p r] r c by simp
qed

text \<open>
  The Duplicate node of shared buffers gives every output the same pointers as its input,
  all of them shared: no output can hand out a pointer to data that may be written.
\<close>

theorem duplicate_shared_run:
  assumes ok: "graph_ok g (insert src (set dst))" and dist: "distinct (src # dst)" and n: "0 \<le> n"
    and prep: "DuplicateShared_prepareForRunning g (DuplicateShared_new src dst n) = Some CG_SUCCESS"
    and run: "DuplicateShared_run g (DuplicateShared_new src dst n) n = Some (g', st)"
  shows "st = CG_SUCCESS \<and> gcontents g' src = drop (nat n) (gcontents g src) \<and>
    (\<forall>d\<in>set dst. \<exists>block. gcontents g' d = gcontents g d @ block \<and>
       map Shared_get_const block = map Shared_get_const (take (nat n) (gcontents g src)) \<and>
       map Shared_get_mut block = replicate (nat n) None)"
proof -
  let ?nd = "DuplicateShared_new src dst n"
  have as_dup: "?nd = Duplicate_new src dst n"
    by (simp add: DuplicateShared_new_def Duplicate_new_def)
  have prep': "Duplicate_prepareForRunning g (Duplicate_new src dst n) = Some CG_SUCCESS"
    using prep by (simp add: DuplicateShared_prepareForRunning_def Duplicate_prepareForRunning_def as_dup)
  obtain g1 a where read: "node_getReadBuffer g ?nd 0 None = Some (g1, a)"
    and loop: "dup_share_loop g1 ?nd n a [0..<length dst] = Some g'" and st: "st = CG_SUCCESS"
    using run by (auto simp: DuplicateShared_run_def Duplicate_new_outputs as_dup split: option.splits)
  note rdy = duplicate_ready [OF ok dist n prep' read [unfolded as_dup], folded as_dup]
  let ?xs = "map Shared_share (mem_read (gmem g) a (nat n))"
  have "emit_loop g1 ?nd ?xs [0..<length dst] = Some g'"
    using loop dup_share_loop_emit [of g1 ?nd _ ?xs] rdy n by simp
  note e = emit_outputs [OF _ Duplicate_new_outputs(2) this [unfolded as_dup], of "insert src (set dst)"]
  have rdy1: "outputs_ready g1 (Duplicate_new src dst n) (insert src (set dst)) (length ?xs) [0..<length dst]"
    using rdy(1) by (simp add: as_dup)
  have same: "gcontents g1 d = gcontents g d" if "d \<noteq> src" for d
    using rdy(3) rdy(6) [OF that] by (simp add: gcontents_def)
  have app: "gcontents g' d = gcontents g d @ ?xs" if "d \<in> set dst" for d
    using e(2) [OF rdy1 that] same [of d] that dist by auto
  have val: "Shared_get_const (Shared_share s) = Shared_get_const s" "Shared_get_mut (Shared_share s) = None" for s
    by (simp_all add: Shared_get_const_def Shared_get_mut_def Shared_share_def Shared_new_def)
  have "map Shared_get_mut ?xs = replicate (nat n) None"
    by (rule nth_equalityI) (simp_all add: val)
  moreover have "map Shared_get_const ?xs = map Shared_get_const (take (nat n) (gcontents g src))"
    using rdy(5) by (simp add: val)
  ultimately have "\<exists>block. gcontents g' d = gcontents g d @ block \<and>
       map Shared_get_const block = map Shared_get_const (take (nat n) (gcontents g src)) \<and>
       map Shared_get_mut block = replicate (nat n) None" if "d \<in> set dst" for d
    using app [OF that] by blast
  then show ?thesis
    using e(4) [OF rdy1] rdy(5) dist st by simp
qed

definition demo_shared_graph :: "shared_ptr_t graph" where
  "demo_shared_graph =
     \<lparr>gmem = (\<lambda>a. Shared_new False (Some (100 + a))),
      gfifo = (\<lambda>i. if i = 0 then SyncFIFO 4 (FIFO_new 0 2) else SyncFIFO 4 (FIFO_new (10 * int i) 0))\<rparr>"

theorem duplicate_shared_run_witness:
  "\<exists>g' st block. DuplicateShared_run demo_shared_graph (DuplicateShared_new 0 [1, 2] 1) 1 = Some (g', st) \<and>
     gcontents g' 2 = [block] \<and> Shared_get_const block = Some 100 \<and> Shared_get_mut block = None"
proof -
  have ok: "graph_ok demo_shared_graph (insert 0 (set [1, 2]))"
    by (simp add: graph_ok_def demo_shared_graph_def fo_disjoint_def fifo_defs)
  have c: "map Shared_get_const (take 1 (gcontents demo_shared_graph 0)) = [Some 100]"
      "gcontents demo_shared_graph 2 = []"
    by code_simp+
  have "DuplicateShared_run demo_shared_graph (DuplicateShared_new 0 [1, 2] 1) 1 \<noteq> None"
    and p: "DuplicateShared_prepareForRunning demo_shared_graph (DuplicateShared_new 0 [1, 2] 1)
      = Some CG_SUCCESS"
    by code_simp+
  then obtain g' st where r: "DuplicateShared_run demo_shared_graph (DuplicateShared_new 0 [1, 2] 1) 1 = Some (g', st)"
    by auto
  from duplicate_shared_run [OF ok _ _ p r] c obtain block
    where "gcontents g' 2 = block" and "map Shared_get_const block = [Some 100]"
      and "map Shared_get_mut block = [None]"
    by auto
  with r show ?thesis by (auto simp: map_eq_Cons_conv)
qed

end
