(* ===== verification/CoreNodes.thy ===== *)
theory CoreNodes
  imports Nodes
begin

text \<open>
  The nodes of \<^verbatim>\<open>platform/core_nodes\<close>: \<^verbatim>\<open>SlidingBuffer\<close> turns a stream into overlapping
  windows and \<^verbatim>\<open>OverlapAdd\<close> adds overlapping windows back into a stream. Both keep
  \<open>overlap\<close> samples in a vector between two executions. The template parameters
  \<^verbatim>\<open>windowSize\<close> and \<^verbatim>\<open>overlap\<close> are arguments.
\<close>

section \<open>SlidingBuffer\<close>

record 'a window_node =
  wn_node :: node
  wn_memory :: "'a list"

text \<open>The constructor; its static assertion is the \<open>None\<close> branch.\<close>

definition SlidingBuffer_new :: "nat \<Rightarrow> nat \<Rightarrow> int \<Rightarrow> int \<Rightarrow> 'a :: zero window_node option" where
  "SlidingBuffer_new src dst windowSize overlap =
     (if windowSize - overlap > 0 then
        Some \<lparr>wn_node = GenericNode src (windowSize - overlap) dst windowSize,
              wn_memory = replicate (nat overlap) 0\<rparr>
      else None)"

definition SlidingBuffer_prepareForRunning :: "'a graph \<Rightarrow> 'a window_node \<Rightarrow> cg_status" where
  "SlidingBuffer_prepareForRunning g sb =
     (if node_willOverflow g (wn_node sb) 0 None = Some True \<or>
         node_willUnderflow g (wn_node sb) 0 None = Some True
      then CG_SKIP_EXECUTION else CG_SUCCESS)"

definition SlidingBuffer_run ::
    "int \<Rightarrow> int \<Rightarrow> 'a graph \<Rightarrow> 'a window_node \<Rightarrow> ('a graph \<times> 'a window_node \<times> cg_status) option" where
  "SlidingBuffer_run windowSize overlap g sb =
     (case node_getReadBuffer g (wn_node sb) 0 None of
        None \<Rightarrow> None
      | Some (g1, a) \<Rightarrow>
          (case node_getWriteBuffer g1 (wn_node sb) 0 None of
             None \<Rightarrow> None
           | Some (g2, b) \<Rightarrow>
               let m1 = mem_write (gmem g2) b (take (nat overlap) (wn_memory sb))
               in (case memcpy m1 (b + overlap) a (windowSize - overlap) of
                     None \<Rightarrow> None
                   | Some m2 \<Rightarrow>
                       Some (g2\<lparr>gmem := m2\<rparr>,
                             sb\<lparr>wn_memory := mem_read m2 (b + windowSize - overlap) (nat overlap)\<rparr>,
                             CG_SUCCESS))))"

section \<open>OverlapAdd\<close>

definition OverlapAdd_new :: "nat \<Rightarrow> nat \<Rightarrow> int \<Rightarrow> int \<Rightarrow> 'a :: zero window_node option" where
  "OverlapAdd_new src dst windowSize overlap =
     (if windowSize - overlap > 0 then
        Some \<lparr>wn_node = GenericNode src windowSize dst (windowSize - overlap),
              wn_memory = replicate (nat overlap) 0\<rparr>
      else None)"

definition OverlapAdd_prepareForRunning :: "'a graph \<Rightarrow> 'a window_node \<Rightarrow> cg_status" where
  "OverlapAdd_prepareForRunning g oa =
     (if node_willOverflow g (wn_node oa) 0 None = Some True \<or>
         node_willUnderflow g (wn_node oa) 0 None = Some True
      then CG_SKIP_EXECUTION else CG_SUCCESS)"

text \<open>The loop \<^verbatim>\<open>memory[i] = a[i] + memory[i]\<close>, from index \<open>i\<close>.\<close>

fun ola_loop :: "'a :: plus mem \<Rightarrow> int \<Rightarrow> nat \<Rightarrow> nat \<Rightarrow> 'a list \<Rightarrow> 'a list" where
  "ola_loop m a i 0 mem = mem"
| "ola_loop m a i (Suc left) mem =
     ola_loop m a (Suc i) left (mem[i := m (a + int i) + mem ! i])"

text \<open>Storing \<open>xs\<close> at offset \<open>i\<close> of the vector (\<^verbatim>\<open>memcpy\<close> and \<^verbatim>\<open>memmove\<close> into it).\<close>

definition vec_write :: "'a list \<Rightarrow> nat \<Rightarrow> 'a list \<Rightarrow> 'a list" where
  "vec_write v i xs = take i v @ xs @ drop (i + length xs) v"

definition OverlapAdd_run ::
    "int \<Rightarrow> int \<Rightarrow> 'a :: plus graph \<Rightarrow> 'a window_node \<Rightarrow>
     ('a graph \<times> 'a window_node \<times> cg_status) option" where
  "OverlapAdd_run windowSize overlap g oa =
     (case node_getReadBuffer g (wn_node oa) 0 None of
        None \<Rightarrow> None
      | Some (g1, a) \<Rightarrow>
          (case node_getWriteBuffer g1 (wn_node oa) 0 None of
             None \<Rightarrow> None
           | Some (g2, b) \<Rightarrow>
               let mem = ola_loop (gmem g2) a 0 (nat overlap) (wn_memory oa);
                   hop = nat (windowSize - overlap)
               in if 2 * overlap - windowSize > 0 then
                    let m1 = mem_write (gmem g2) b (take hop mem);
                        kept = nat (2 * overlap - windowSize);
                        mem1 = vec_write mem 0 (take kept (drop hop mem));
                        mem2 = vec_write mem1 kept (mem_read m1 (a + overlap) hop)
                    in Some (g2\<lparr>gmem := m1\<rparr>, oa\<lparr>wn_memory := mem2\<rparr>, CG_SUCCESS)
                  else if 2 * overlap - windowSize < 0 then
                    let m1 = mem_write (gmem g2) b (take (nat overlap) mem)
                    in (case memcpy m1 (b + overlap) (a + overlap) (windowSize - 2 * overlap) of
                          None \<Rightarrow> None
                        | Some m2 \<Rightarrow>
                            Some (g2\<lparr>gmem := m2\<rparr>,
                                  oa\<lparr>wn_memory := vec_write mem 0
                                       (mem_read m2 (a + windowSize - overlap) (nat overlap))\<rparr>,
                                  CG_SUCCESS))
                  else
                    let m1 = mem_write (gmem g2) b (take (nat overlap) mem)
                    in Some (g2\<lparr>gmem := m1\<rparr>,
                             oa\<lparr>wn_memory := vec_write mem 0 (mem_read m1 (a + overlap) (nat overlap))\<rparr>,
                             CG_SUCCESS)))"

section \<open>What one execution computes\<close>

text \<open>The two nodes as functions of the memory kept and the block read.\<close>

definition sliding_step :: "nat \<Rightarrow> 'a list \<Rightarrow> 'a list \<Rightarrow> 'a list \<times> 'a list" where
  "sliding_step hop mem x = (mem @ x, drop hop (mem @ x))"

definition ola_sum :: "'a :: plus list \<Rightarrow> 'a list \<Rightarrow> 'a list" where
  "ola_sum mem x = map2 (+) x mem @ drop (length mem) x"

definition ola_step :: "nat \<Rightarrow> 'a :: plus list \<Rightarrow> 'a list \<Rightarrow> 'a list \<times> 'a list" where
  "ola_step hop mem x = (take hop (ola_sum mem x), drop hop (ola_sum mem x))"

lemma length_ola_sum [simp]: "length mem \<le> length x \<Longrightarrow> length (ola_sum mem x) = length x"
  by (simp add: ola_sum_def)

lemma nth_ola_sum:
  "i < length x \<Longrightarrow> length mem \<le> length x \<Longrightarrow>
   ola_sum mem x ! i = (if i < length mem then x ! i + mem ! i else x ! i)"
  by (simp add: ola_sum_def nth_append)

text \<open>
  A filter node keeps a memory and maps every block read to a block written; both blocks and
  the memory have fixed lengths. Whatever such a node is, its output is as long as its
  blocks say, and running two streams one after the other is running their concatenation.
\<close>

fun run_blocks :: "('m \<Rightarrow> 'a list \<Rightarrow> 'b list \<times> 'm) \<Rightarrow> 'm \<Rightarrow> 'a list list \<Rightarrow> 'b list list \<times> 'm" where
  "run_blocks step mem [] = ([], mem)"
| "run_blocks step mem (x # xs) =
     (let (y, mem') = step mem x; (ys, mem'') = run_blocks step mem' xs in (y # ys, mem''))"

locale block_filter =
  fixes step :: "'a list \<Rightarrow> 'a list \<Rightarrow> 'b list \<times> 'a list"
    and mem_len :: nat and in_len :: nat and out_len :: nat
  assumes step_out: "length mem = mem_len \<Longrightarrow> length x = in_len \<Longrightarrow> length (fst (step mem x)) = out_len"
    and step_mem: "length mem = mem_len \<Longrightarrow> length x = in_len \<Longrightarrow> length (snd (step mem x)) = mem_len"

context block_filter
begin

lemma run_blocks_lengths:
  "length mem = mem_len \<Longrightarrow> \<forall>x\<in>set xs. length x = in_len \<Longrightarrow> run_blocks step mem xs = (ys, mem') \<Longrightarrow>
   length ys = length xs \<and> (\<forall>y\<in>set ys. length y = out_len) \<and> length mem' = mem_len"
proof (induction xs arbitrary: mem ys)
  case Nil
  then show ?case by simp
next
  case (Cons x xs)
  obtain y mem1 where st: "step mem x = (y, mem1)" by fastforce
  from step_out [of mem x] step_mem [of mem x] st Cons.prems(1,2)
  have "length y = out_len" and "length mem1 = mem_len" by simp_all
  with Cons st show ?case by (auto split: prod.splits)
qed

lemma run_blocks_append:
  "run_blocks step mem (xs @ zs) =
   (let (ys, mem') = run_blocks step mem xs; (ys', mem'') = run_blocks step mem' zs
    in (ys @ ys', mem''))"
  by (induction xs arbitrary: mem) (auto split: prod.splits)

end

interpretation sliding: block_filter "sliding_step hop" ov hop "ov + hop" for hop ov
  by unfold_locales (simp_all add: sliding_step_def)

interpretation ola: block_filter "ola_step hop" ov "ov + hop" hop for hop ov
  by unfold_locales (simp_all add: ola_step_def)

section \<open>Streams\<close>

lemma sliding_blocks:
  "length mem = ov \<Longrightarrow> \<forall>x\<in>set xs. length x = hop \<Longrightarrow>
   run_blocks (sliding_step hop) mem xs = (ys, mem') \<Longrightarrow>
   (\<forall>k<length xs. ys ! k = take (ov + hop) (drop (k * hop) (mem @ concat xs))) \<and>
   mem' = drop (length xs * hop) (mem @ concat xs)"
proof (induction xs arbitrary: mem ys)
  case Nil
  then show ?case by simp
next
  case (Cons x xs)
  let ?mem1 = "drop hop (mem @ x)"
  obtain ys1 m1 where r: "run_blocks (sliding_step hop) ?mem1 xs = (ys1, m1)" by fastforce
  have "sliding_step hop mem x = (mem @ x, ?mem1)" by (simp add: sliding_step_def)
  with Cons.prems(3) r have rest: "run_blocks (sliding_step hop) ?mem1 xs = (ys1, mem')"
    and ys: "ys = (mem @ x) # ys1" by simp_all
  have "length ?mem1 = ov" and x: "length x = hop" using Cons.prems by simp_all
  with Cons.IH [OF _ _ rest] Cons.prems(2)
  have ih: "\<And>k. k < length xs \<Longrightarrow> ys1 ! k = take (ov + hop) (drop (k * hop) (?mem1 @ concat xs))"
    and m: "mem' = drop (length xs * hop) (?mem1 @ concat xs)" by auto
  have shift: "?mem1 @ concat xs = drop hop (mem @ concat (x # xs))" using x by simp
  have "ys ! k = take (ov + hop) (drop (k * hop) (mem @ concat (x # xs)))" if "k < length (x # xs)" for k
  proof (cases k)
    case 0
    then show ?thesis using x Cons.prems(1) by (simp add: ys)
  next
    case (Suc j)
    with that ih [of j] show ?thesis
      unfolding shift drop_drop by (simp add: ys add.commute)
  qed
  moreover have "mem' = drop (length (x # xs) * hop) (mem @ concat (x # xs))"
    unfolding m shift drop_drop by (simp add: add.commute)
  ultimately show ?case by blast
qed

text \<open>
  The reference for overlap-add: sample \<open>t\<close> of the output is the memory's sample, while it
  lasts, plus that of every window that covers \<open>t\<close>; window \<open>k\<close> starts at \<open>k * hop\<close>.
\<close>

definition sample_at :: "'a :: comm_monoid_add list \<Rightarrow> nat \<Rightarrow> 'a" where
  "sample_at xs t = (if t < length xs then xs ! t else 0)"

definition ola_reference :: "nat \<Rightarrow> 'a :: comm_monoid_add list \<Rightarrow> 'a list list \<Rightarrow> nat \<Rightarrow> 'a" where
  "ola_reference hop mem xs t =
     sample_at mem t + (\<Sum>k<length xs. if k * hop \<le> t then sample_at (xs ! k) (t - k * hop) else 0)"

lemma ola_reference_Cons:
  fixes x :: "'a :: comm_monoid_add list"
  assumes "length mem \<le> length x"
  shows "ola_reference hop mem (x # xs) t =
    (if t < hop then (\<Sum>k<length xs. if Suc k * hop \<le> t then sample_at (xs ! k) (t - Suc k * hop) else 0)
        + sample_at (ola_sum mem x) t
     else ola_reference hop (drop hop (ola_sum mem x)) xs (t - hop))"
proof -
  have first: "sample_at mem t + sample_at x t = sample_at (ola_sum mem x) t"
    using assms by (auto simp: sample_at_def nth_ola_sum add.commute)
  have "ola_reference hop mem (x # xs) t = sample_at (ola_sum mem x) t +
      (\<Sum>k<length xs. if Suc k * hop \<le> t then sample_at (xs ! k) (t - Suc k * hop) else 0)"
    by (simp add: ola_reference_def sum.lessThan_Suc_shift first [symmetric] add.assoc del: sum.lessThan_Suc
        cong: if_cong)
  moreover have "sample_at (ola_sum mem x) t = sample_at (drop hop (ola_sum mem x)) (t - hop)" if "hop \<le> t"
    using that by (auto simp: sample_at_def)
  moreover have "(\<Sum>k<length xs. if Suc k * hop \<le> t then sample_at (xs ! k) (t - Suc k * hop) else 0)
      = (\<Sum>k<length xs. if k * hop \<le> t - hop then sample_at (xs ! k) (t - hop - k * hop) else 0)"
    if "hop \<le> t"
    by (intro sum.cong if_cong) (use that in auto)
  ultimately show ?thesis
    by (simp add: ola_reference_def add.commute)
qed

lemma ola_blocks:
  fixes mem :: "'a :: comm_monoid_add list"
  shows "length mem = ov \<Longrightarrow> \<forall>x\<in>set xs. length x = ov + hop \<Longrightarrow>
   run_blocks (ola_step hop) mem xs = (ys, mem') \<Longrightarrow>
   length (concat ys) = length xs * hop \<and>
   (\<forall>t<length xs * hop. concat ys ! t = ola_reference hop mem xs t)"
proof (induction xs arbitrary: mem ys)
  case Nil
  then show ?case by simp
next
  case (Cons x xs)
  let ?s = "ola_sum mem x"
  obtain ys1 m1 where r: "run_blocks (ola_step hop) (drop hop ?s) xs = (ys1, m1)" by fastforce
  have "ola_step hop mem x = (take hop ?s, drop hop ?s)" by (simp add: ola_step_def)
  with Cons.prems(3) r have rest: "run_blocks (ola_step hop) (drop hop ?s) xs = (ys1, mem')"
    and ys: "ys = take hop ?s # ys1" by simp_all
  have x: "length x = ov + hop" "length mem \<le> length x" using Cons.prems by simp_all
  then have "length (drop hop ?s) = ov" by simp
  with Cons.IH [OF _ _ rest] Cons.prems(2)
  have ih: "length (concat ys1) = length xs * hop"
      "\<And>t. t < length xs * hop \<Longrightarrow> concat ys1 ! t = ola_reference hop (drop hop ?s) xs t" by auto
  have "concat ys ! t = ola_reference hop mem (x # xs) t" if t: "t < length (x # xs) * hop" for t
  proof (cases "t < hop")
    case True
    then have "\<not> Suc k * hop \<le> t" for k by simp
    then have "ola_reference hop mem (x # xs) t = sample_at ?s t"
      using True by (simp add: ola_reference_Cons [OF x(2)])
    with True x show ?thesis by (simp add: ys nth_append sample_at_def)
  next
    case False
    with t ih(2) [of "t - hop"] x show ?thesis
      by (simp add: ys nth_append ola_reference_Cons [OF x(2)])
  qed
  with ih(1) x show ?case by (simp add: ys)
qed

section \<open>Executions over the graph\<close>

lemma mem_write_append:
  "mem_write (mem_write m p xs) (p + int (length xs)) ys = mem_write m p (xs @ ys)"
proof (rule ext)
  fix x
  have "nat (x - (p + int (length xs))) = nat (x - p) - length xs"
    if "p + int (length xs) \<le> x" using that by arith
  then show "mem_write (mem_write m p xs) (p + int (length xs)) ys x = mem_write m p (xs @ ys) x"
    by (cases "p \<le> x"; cases "p + int (length xs) \<le> x") (auto simp: mem_write_def nth_append)
qed

text \<open>One input, one output: what reading a block, asking for a write buffer and storing a
  block through it does.\<close>

lemma filter_node_run:
  assumes ok: "graph_ok g {src, dst}" and ne: "src \<noteq> dst" and n: "0 \<le> n"
    and un: "node_willUnderflow g (GenericNode src n dst k) 0 None \<noteq> Some True"
    and ov: "node_willOverflow g (GenericNode src n dst k) 0 None \<noteq> Some True"
    and rd: "node_getReadBuffer g (GenericNode src n dst k) 0 None = Some (g1, a)"
    and wr: "node_getWriteBuffer g1 (GenericNode src n dst k) 0 None = Some (g2, b)"
    and ys: "int (length ys) = k"
  shows "mem_read (gmem g2) a (nat n) = take (nat n) (gcontents g src)"
    and "nat n \<le> length (gcontents g src)"
    and "a + n \<le> b \<or> b + k \<le> a"
    and "graph_ok (g2\<lparr>gmem := mem_write (gmem g2) b ys\<rparr>) {src, dst}"
    and "gcontents (g2\<lparr>gmem := mem_write (gmem g2) b ys\<rparr>) src = drop (nat n) (gcontents g src)"
    and "gcontents (g2\<lparr>gmem := mem_write (gmem g2) b ys\<rparr>) dst = gcontents g dst @ ys"
proof -
  let ?nd = "GenericNode src n dst k" and ?g' = "g2\<lparr>gmem := mem_write (gmem g2) b ys\<rparr>"
  have nd: "srcs ?nd = [NodePort src n]" "dsts ?nd = [NodePort dst k]"
      "pfifo (srcs ?nd ! 0) = src" "pfifo (dsts ?nd ! 0) = dst"
    by (simp_all add: GenericNode_def NodePort_def)
  have un': "node_willUnderflow g ?nd 0 None = Some False"
    and ov': "node_willOverflow g ?nd 0 None = Some False"
    using un ov by (simp_all add: node_willUnderflow_def node_willOverflow_def nd(1,2) Let_def)
  have n': "(case None of None \<Rightarrow> psize (srcs ?nd ! 0) | Some n \<Rightarrow> n) = int (nat n)"
    using n by (simp add: nd(1) NodePort_def)
  have k': "(case None of None \<Rightarrow> psize (dsts ?nd ! 0) | Some n \<Rightarrow> n) = int (length ys)"
    using ys by (simp add: nd(2) NodePort_def)
  have s: "pfifo (srcs ?nd ! 0) \<in> {src, dst}" "pfifo (dsts ?nd ! 0) \<in> {src, dst}"
    by (simp_all only: nd(3,4)) simp_all
  have len: "0 < length (srcs ?nd)" "0 < length (dsts ?nd)" by (simp_all add: nd(1,2))
  note r = node_read_spec [OF ok s(1) len(1) un' n' rd, unfolded nd]
  have "node_willOverflow g1 ?nd 0 None = Some False"
    using ov' r(5) [of dst] ne by (simp add: node_willOverflow_def nd(2) NodePort_def)
  note w = node_write_spec [OF r(1) s(2) len(2) this k' wr refl, unfolded nd]
  have disj: "fo_disjoint (gfifo g src) (gfifo g dst)"
    using ok ne by (simp add: graph_ok_def)
  have dst1: "gfifo g1 dst = gfifo g dst" using r(5) [of dst] ne by (simp add: NodePort_def)
  show regions: "a + n \<le> b \<or> b + k \<le> a"
    using disj r(6,7) w(7,8) n ys by (auto simp: dst1 fo_disjoint_def NodePort_def)
  have "gmem g2 x = gmem g x" if "a \<le> x" "x < a + n" for x
    using w(6) [of x] disj r(3,6,7) that n by (auto simp: dst1 fo_disjoint_def NodePort_def)
  then have win: "mem_read (gmem g2) a (nat n) = mem_read (gmem g) a (nat n)"
    by (intro mem_read_cong) auto
  have blk: "gcontents g src = mem_read (gmem g) a (nat n) @ gcontents g1 src"
    using r(4) by (simp add: NodePort_def)
  then show "mem_read (gmem g2) a (nat n) = take (nat n) (gcontents g src)"
    and "nat n \<le> length (gcontents g src)" by (simp_all add: win)
  show "graph_ok ?g' {src, dst}" by (rule w(1))
  show "gcontents ?g' src = drop (nat n) (gcontents g src)"
    using w(5) [of src] blk ne by (simp add: NodePort_def)
  show "gcontents ?g' dst = gcontents g dst @ ys"
    using w(3) r(3) dst1 by (simp add: gcontents_def NodePort_def)
qed

text \<open>A filter node with memory implements a step of its block function.\<close>

definition implements_step ::
    "'a graph \<Rightarrow> 'a graph \<Rightarrow> nat \<Rightarrow> nat \<Rightarrow> nat \<Rightarrow> 'a list \<times> 'a list \<Rightarrow> 'a list \<Rightarrow> bool" where
  "implements_step g g' src dst n r mem' \<longleftrightarrow>
     graph_ok g' {src, dst} \<and> n \<le> length (gcontents g src) \<and>
     gcontents g' src = drop n (gcontents g src) \<and>
     gcontents g' dst = gcontents g dst @ fst r \<and> mem' = snd r"

lemma SlidingBuffer_run_spec:
  assumes ok: "graph_ok g {src, dst}" and ne: "src \<noteq> dst" and h: "0 \<le> ov" "ov < w"
    and nd: "wn_node sb = GenericNode src (w - ov) dst w" and m: "length (wn_memory sb) = nat ov"
    and prep: "SlidingBuffer_prepareForRunning g sb = CG_SUCCESS"
    and run: "SlidingBuffer_run w ov g sb = Some (g', sb', st)"
  shows "st = CG_SUCCESS \<and> wn_node sb' = wn_node sb \<and>
    implements_step g g' src dst (nat (w - ov))
      (sliding_step (nat (w - ov)) (wn_memory sb) (take (nat (w - ov)) (gcontents g src))) (wn_memory sb')"
proof -
  obtain g1 a g2 b m2 where rd: "node_getReadBuffer g (wn_node sb) 0 None = Some (g1, a)"
    and wr: "node_getWriteBuffer g1 (wn_node sb) 0 None = Some (g2, b)"
    and cp: "memcpy (mem_write (gmem g2) b (wn_memory sb)) (b + ov) a (w - ov) = Some m2"
    and g': "g' = g2\<lparr>gmem := m2\<rparr>" and st: "st = CG_SUCCESS"
    and sb': "sb' = sb\<lparr>wn_memory := mem_read m2 (b + w - ov) (nat ov)\<rparr>"
    using run m by (auto simp: SlidingBuffer_run_def Let_def split: option.splits)
  have pre: "node_willUnderflow g (GenericNode src (w - ov) dst w) 0 None \<noteq> Some True"
      "node_willOverflow g (GenericNode src (w - ov) dst w) 0 None \<noteq> Some True"
    using prep by (auto simp: SlidingBuffer_prepareForRunning_def nd split: if_splits)
  have hop: "0 \<le> w - ov" using h by simp
  let ?x = "mem_read (gmem g2) a (nat (w - ov))"
  have len: "int (length (wn_memory sb @ ?x)) = w" using m h by simp
  note r = filter_node_run [OF ok ne hop pre rd [unfolded nd] wr [unfolded nd] len]
  have x: "?x = take (nat (w - ov)) (gcontents g src)" by (rule r(1))
  have "mem_read (mem_write (gmem g2) b (wn_memory sb)) a (nat (w - ov)) = ?x"
    using r(3) h m by (intro mem_read_cong) (auto simp: mem_write_def)
  then have m2: "m2 = mem_write (gmem g2) b (wn_memory sb @ ?x)"
    using memcpy_SomeD(2) [OF cp] mem_write_append [of "gmem g2" b "wn_memory sb" ?x] m h by simp
  have w: "nat w = length (wn_memory sb @ ?x)"
    using arg_cong [OF len, of nat] unfolding nat_int by (rule sym)
  have "mem_read m2 b (nat w) = wn_memory sb @ ?x" unfolding m2 by (rule mem_read_write_same [OF w])
  then have "mem_read m2 (b + w - ov) (nat ov) = drop (nat (w - ov)) (wn_memory sb @ ?x)"
    using drop_mem_read [of "nat (w - ov)" m2 b "nat w"] h by (simp add: nat_diff_distrib' algebra_simps)
  then show ?thesis
    using r(2,4-6) by (simp add: implements_step_def sliding_step_def st g' sb' m2 x [symmetric])
qed

text \<open>The loop of \<^verbatim>\<open>OverlapAdd::run\<close> adds the first samples of the window to the memory.\<close>

lemma ola_loop_nth:
  "length (ola_loop m a i n mem) = length mem \<and>
   (\<forall>j<length mem. ola_loop m a i n mem ! j =
      (if i \<le> j \<and> j < i + n then m (a + int j) + mem ! j else mem ! j))"
  by (induction n arbitrary: i mem) (auto simp: nth_list_update not_less_eq_eq dest: le_antisym)

lemma ola_loop_sum:
  assumes "length mem = ov" and "ov \<le> w"
  shows "ola_sum mem (mem_read m a w) = ola_loop m a 0 ov mem @ mem_read m (a + int ov) (w - ov)"
proof -
  have "ola_loop m a 0 ov mem = map2 (+) (mem_read m a w) mem"
    using assms ola_loop_nth [of m a 0 ov mem]
    by (intro nth_equalityI) (auto simp: mem_read_def)
  then show ?thesis using assms drop_mem_read [of ov m a w] by (simp add: ola_sum_def)
qed

lemma vec_write_all: "length xs = length v \<Longrightarrow> vec_write v 0 xs = xs"
  by (simp add: vec_write_def)

lemma vec_write_two:
  "length xs + length ys = length v \<Longrightarrow> k = length xs \<Longrightarrow>
   vec_write (vec_write v 0 xs) k ys = xs @ ys"
  by (simp add: vec_write_def)

text \<open>What the three branches leave: a block in the write buffer and a new memory.\<close>

lemma OverlapAdd_run_parts:
  assumes h: "0 \<le> ov" "ov < w" and m: "length (wn_memory oa) = nat ov"
    and rd: "node_getReadBuffer g (wn_node oa) 0 None = Some (g1, a)"
    and wr: "node_getWriteBuffer g1 (wn_node oa) 0 None = Some (g2, b)"
    and apart: "a + w \<le> b \<or> b + (w - ov) \<le> a"
    and run: "OverlapAdd_run w ov g oa = Some (g', oa', st)"
  shows "st = CG_SUCCESS \<and> wn_node oa' = wn_node oa \<and>
    g' = g2\<lparr>gmem := mem_write (gmem g2) b
      (fst (ola_step (nat (w - ov)) (wn_memory oa) (mem_read (gmem g2) a (nat w))))\<rparr> \<and>
    wn_memory oa' = snd (ola_step (nat (w - ov)) (wn_memory oa) (mem_read (gmem g2) a (nat w)))"
proof -
  define L where "L = ola_loop (gmem g2) a 0 (nat ov) (wn_memory oa)"
  define hop where "hop = nat (w - ov)"
  have len: "length L = nat ov" using ola_loop_nth [of "gmem g2" a 0 "nat ov" "wn_memory oa"] m
    by (simp add: L_def)
  have sum: "ola_sum (wn_memory oa) (mem_read (gmem g2) a (nat w))
      = L @ mem_read (gmem g2) (a + ov) hop"
    using ola_loop_sum [of "wn_memory oa" "nat ov" "nat w" "gmem g2" a] m h
    by (simp add: L_def hop_def nat_diff_distrib)
  have keep: "mem_read (mem_write (gmem g2) b ys) p n = mem_read (gmem g2) p n"
    if "int (length ys) \<le> w - ov" "a \<le> p" "p + int n \<le> a + w" for ys :: "'a list" and p n
    using that apart by (intro mem_read_cong) (auto simp: mem_write_def)
  note run' = run [unfolded OverlapAdd_run_def Let_def rd wr option.case prod.case, folded L_def hop_def]
  consider (more) "2 * ov - w > 0" | (less) "2 * ov - w < 0" | (same) "2 * ov - w = 0" by linarith
  then show ?thesis
  proof cases
    case more
    have "hop \<le> nat ov" and k: "nat (2 * ov - w) = nat ov - hop" using more h by (auto simp: hop_def)
    then show ?thesis
      using run' more len keep [of "take hop L" "a + ov" hop] h
      by (auto simp: ola_step_def sum vec_write_two hop_def [symmetric])
  next
    case less
    let ?m1 = "mem_write (gmem g2) b L" and ?mid = "mem_read (gmem g2) (a + ov) (hop - nat ov)"
    obtain m2 where cp: "memcpy ?m1 (b + ov) (a + ov) (w - 2 * ov) = Some m2"
      and res: "g' = g2\<lparr>gmem := m2\<rparr>" "st = CG_SUCCESS"
        "oa' = oa\<lparr>wn_memory := vec_write L 0 (mem_read m2 (a + w - ov) (nat ov))\<rparr>"
      using run' less len by (auto split: option.splits)
    have le: "nat ov \<le> hop" and n: "nat (w - 2 * ov) = hop - nat ov"
      using less h by (auto simp: hop_def)
    have "m2 = mem_write ?m1 (b + int (length L)) ?mid"
      using memcpy_SomeD(2) [OF cp] keep [of L "a + ov" "hop - nat ov"] len less h le
      by (simp add: n hop_def)
    then have m2: "m2 = mem_write (gmem g2) b (L @ ?mid)" by (simp only: mem_write_append)
    have split: "mem_read (gmem g2) (a + ov) hop = ?mid @ mem_read (gmem g2) (a + w - ov) (nat ov)"
      using mem_read_add [of "gmem g2" "a + ov" "hop - nat ov" "nat ov"] le h
      by (simp add: hop_def algebra_simps)
    have "mem_read m2 (a + w - ov) (nat ov) = mem_read (gmem g2) (a + w - ov) (nat ov)"
      unfolding m2 by (rule keep) (use len le h in \<open>auto simp: hop_def\<close>)
    then show ?thesis
      using res m2 len le
      by (simp add: ola_step_def sum split vec_write_all hop_def [symmetric])
  next
    case same
    have "nat ov = hop" using same h by (auto simp: hop_def)
    then show ?thesis
      using run' same len keep [of L "a + ov" hop] h
      by (auto simp: ola_step_def sum vec_write_all hop_def [symmetric])
  qed
qed

lemma OverlapAdd_run_spec:
  assumes ok: "graph_ok g {src, dst}" and ne: "src \<noteq> dst" and h: "0 \<le> ov" "ov < w"
    and nd: "wn_node oa = GenericNode src w dst (w - ov)" and m: "length (wn_memory oa) = nat ov"
    and prep: "OverlapAdd_prepareForRunning g oa = CG_SUCCESS"
    and run: "OverlapAdd_run w ov g oa = Some (g', oa', st)"
  shows "st = CG_SUCCESS \<and> wn_node oa' = wn_node oa \<and>
    implements_step g g' src dst (nat w)
      (ola_step (nat (w - ov)) (wn_memory oa) (take (nat w) (gcontents g src))) (wn_memory oa')"
proof -
  obtain g1 a g2 b where rd: "node_getReadBuffer g (wn_node oa) 0 None = Some (g1, a)"
    and wr: "node_getWriteBuffer g1 (wn_node oa) 0 None = Some (g2, b)"
    using run by (auto simp: OverlapAdd_run_def split: option.splits)
  have pre: "node_willUnderflow g (GenericNode src w dst (w - ov)) 0 None \<noteq> Some True"
      "node_willOverflow g (GenericNode src w dst (w - ov)) 0 None \<noteq> Some True"
    using prep by (auto simp: OverlapAdd_prepareForRunning_def nd split: if_splits)
  have w: "0 \<le> w" using h by simp
  let ?y = "fst (ola_step (nat (w - ov)) (wn_memory oa) (mem_read (gmem g2) a (nat w)))"
  have len: "int (length ?y) = w - ov" using m h by (simp add: ola_step_def)
  note r = filter_node_run [OF ok ne w pre rd [unfolded nd] wr [unfolded nd] len]
  note parts = OverlapAdd_run_parts [OF h m rd wr r(3) run]
  show ?thesis
    using parts r(2,4-6) by (simp add: implements_step_def r(1) [symmetric])
qed

section \<open>Sequences of executions\<close>

text \<open>The scheduler's use of such a node: \<open>n\<close> executions, each behind its prepareForRunning.\<close>

fun node_runs :: "('g \<Rightarrow> 's \<Rightarrow> cg_status) \<Rightarrow> ('g \<Rightarrow> 's \<Rightarrow> ('g \<times> 's \<times> cg_status) option) \<Rightarrow>
    nat \<Rightarrow> 'g \<Rightarrow> 's \<Rightarrow> ('g \<times> 's) option" where
  "node_runs prep run 0 g s = Some (g, s)"
| "node_runs prep run (Suc n) g s =
     (if prep g s = CG_SUCCESS then
        (case run g s of
           Some (g', s', st) \<Rightarrow> node_runs prep run n g' s'
         | None \<Rightarrow> None)
      else None)"

definition blocks :: "nat \<Rightarrow> nat \<Rightarrow> 'a list \<Rightarrow> 'a list list" where
  "blocks k n xs = map (\<lambda>i. take k (drop (i * k) xs)) [0..<n]"

lemma blocks_Suc: "blocks k (Suc n) xs = take k xs # blocks k n (drop k xs)"
  by (simp add: blocks_def upt_conv_Cons map_Suc_upt [symmetric] add.commute del: upt_Suc)

lemma length_blocks [simp]: "length (blocks k n xs) = n"
  by (simp add: blocks_def)

lemma blocks_0 [simp]: "blocks k 0 xs = []"
  by (simp add: blocks_def)

lemma blocks_lengths: "n * k \<le> length xs \<Longrightarrow> \<forall>b\<in>set (blocks k n xs). length b = k"
proof (induction n arbitrary: xs)
  case (Suc n)
  then have "n * k \<le> length (drop k xs)" by simp
  from Suc.IH [OF this] Suc.prems show ?case unfolding blocks_Suc by simp
qed simp

lemma concat_blocks: "concat (blocks k n xs) = take (n * k) xs"
  by (induction n arbitrary: xs) (simp_all add: blocks_Suc take_add)

text \<open>A node each of whose executions implements a step runs the block filter on the stream.\<close>

definition implements_filter ::
    "('a graph \<Rightarrow> 'a window_node \<Rightarrow> cg_status) \<Rightarrow>
     ('a graph \<Rightarrow> 'a window_node \<Rightarrow> ('a graph \<times> 'a window_node \<times> cg_status) option) \<Rightarrow>
     node \<Rightarrow> nat \<Rightarrow> nat \<Rightarrow> nat \<Rightarrow> nat \<Rightarrow> ('a list \<Rightarrow> 'a list \<Rightarrow> 'a list \<times> 'a list) \<Rightarrow> bool" where
  "implements_filter prep run nd src dst ml il step \<longleftrightarrow>
     (\<forall>g s g' s' st. graph_ok g {src, dst} \<longrightarrow> wn_node s = nd \<longrightarrow> length (wn_memory s) = ml \<longrightarrow>
        prep g s = CG_SUCCESS \<longrightarrow> run g s = Some (g', s', st) \<longrightarrow>
        wn_node s' = nd \<and>
        implements_step g g' src dst il (step (wn_memory s) (take il (gcontents g src))) (wn_memory s'))"

lemma SlidingBuffer_implements:
  assumes "src \<noteq> dst" and "0 \<le> ov" and "ov < w"
  shows "implements_filter SlidingBuffer_prepareForRunning (SlidingBuffer_run w ov)
    (GenericNode src (w - ov) dst w) src dst (nat ov) (nat (w - ov)) (sliding_step (nat (w - ov)))"
  unfolding implements_filter_def using SlidingBuffer_run_spec [OF _ assms] by metis

lemma OverlapAdd_implements:
  assumes "src \<noteq> dst" and "0 \<le> ov" and "ov < w"
  shows "implements_filter OverlapAdd_prepareForRunning (OverlapAdd_run w ov)
    (GenericNode src w dst (w - ov)) src dst (nat ov) (nat w) (ola_step (nat (w - ov)))"
  unfolding implements_filter_def using OverlapAdd_run_spec [OF _ assms] by metis

lemma node_runs_stream:
  fixes step :: "'a list \<Rightarrow> 'a list \<Rightarrow> 'a list \<times> 'a list" and s :: "'a window_node"
  assumes filter: "block_filter step ml il ol"
    and one: "implements_filter prep run nd src dst ml il step"
  shows "graph_ok g {src, dst} \<Longrightarrow> wn_node s = nd \<Longrightarrow> length (wn_memory s) = ml \<Longrightarrow>
    node_runs prep run n g s = Some (g', s') \<Longrightarrow>
    graph_ok g' {src, dst} \<and> n * il \<le> length (gcontents g src) \<and>
    gcontents g' src = drop (n * il) (gcontents g src) \<and>
    (\<exists>ys. run_blocks step (wn_memory s) (blocks il n (gcontents g src)) = (ys, wn_memory s') \<and>
      gcontents g' dst = gcontents g dst @ concat ys)"
proof (induction n arbitrary: g s)
  case 0
  then show ?case by simp
next
  case (Suc n)
  let ?x = "take il (gcontents g src)"
  obtain g1 s1 st where p: "prep g s = CG_SUCCESS" and r: "run g s = Some (g1, s1, st)"
    and rest: "node_runs prep run n g1 s1 = Some (g', s')"
    using Suc.prems(4) by (auto split: if_splits option.splits)
  have o: "wn_node s1 = nd" and i: "implements_step g g1 src dst il (step (wn_memory s) ?x) (wn_memory s1)"
    using one Suc.prems(1-3) p r unfolding implements_filter_def by blast+
  obtain y m1 where st: "step (wn_memory s) ?x = (y, m1)" by fastforce
  have g1: "graph_ok g1 {src, dst}" and len: "il \<le> length (gcontents g src)"
    and src: "gcontents g1 src = drop il (gcontents g src)"
    and dst: "gcontents g1 dst = gcontents g dst @ y" and m1: "wn_memory s1 = m1"
    using i by (simp_all add: implements_step_def st)
  have "length (wn_memory s1) = ml"
    using block_filter.step_mem [OF filter Suc.prems(3), of ?x] len by (simp add: st m1)
  note ih = Suc.IH [OF g1 o this rest]
  then obtain ys where ys: "run_blocks step m1 (blocks il n (drop il (gcontents g src))) = (ys, wn_memory s')"
    and d: "gcontents g' dst = gcontents g1 dst @ concat ys" by (auto simp: src m1)
  have "run_blocks step (wn_memory s) (blocks il (Suc n) (gcontents g src)) = (y # ys, wn_memory s')"
    by (simp add: blocks_Suc st ys)
  moreover have "gcontents g' dst = gcontents g dst @ concat (y # ys)" by (simp add: d dst)
  moreover have "graph_ok g' {src, dst}" "gcontents g' src = drop (Suc n * il) (gcontents g src)"
      and "n * il \<le> length (gcontents g src) - il"
    using ih by (simp_all add: src add.commute)
  moreover from this(3) len have "Suc n * il \<le> length (gcontents g src)" by simp
  ultimately show ?case by blast
qed

section \<open>Properties\<close>

text \<open>
  C14. Run \<open>n\<close> times, a SlidingBuffer consumes \<open>n\<close> hops of the input and appends \<open>n\<close> windows:
  window \<open>k\<close> is the \<open>windowSize\<close> samples at \<open>k * hop\<close> of the stream made of the samples the
  node kept and the input, and what it keeps at the end is the rest of that stream.
\<close>

theorem sliding_buffer_windows:
  assumes ok: "graph_ok g {src, dst}" and ne: "src \<noteq> dst" and h: "0 \<le> ov" "ov < w"
    and nd: "wn_node sb = GenericNode src (w - ov) dst w" and m: "length (wn_memory sb) = nat ov"
    and run: "node_runs SlidingBuffer_prepareForRunning (SlidingBuffer_run w ov) n g sb = Some (g', sb')"
  shows "\<exists>ys. gcontents g' dst = gcontents g dst @ concat ys \<and> length ys = n \<and>
     (\<forall>k<n. ys ! k = take (nat w) (drop (k * nat (w - ov))
        (wn_memory sb @ take (n * nat (w - ov)) (gcontents g src)))) \<and>
     wn_memory sb' = drop (n * nat (w - ov)) (wn_memory sb @ take (n * nat (w - ov)) (gcontents g src)) \<and>
     gcontents g' src = drop (n * nat (w - ov)) (gcontents g src) \<and> graph_ok g' {src, dst}"
proof -
  let ?hop = "nat (w - ov)"
  have w: "nat ov + ?hop = nat w" using h by simp
  from node_runs_stream [OF sliding.block_filter_axioms SlidingBuffer_implements [OF ne h] ok nd m run] obtain ys
    where ys: "run_blocks (sliding_step ?hop) (wn_memory sb) (blocks ?hop n (gcontents g src)) = (ys, wn_memory sb')"
      and out: "gcontents g' dst = gcontents g dst @ concat ys" "graph_ok g' {src, dst}"
        "gcontents g' src = drop (n * ?hop) (gcontents g src)"
      and len: "n * ?hop \<le> length (gcontents g src)"
    by blast
  note b = blocks_lengths [OF len]
  have "length ys = n" using sliding.run_blocks_lengths [OF m b ys] by simp
  with sliding_blocks [OF m b ys] out show ?thesis
    by (intro exI [of _ ys]) (simp add: concat_blocks w)
qed

definition demo_stream_graph :: "int graph" where
  "demo_stream_graph =
     \<lparr>gmem = (\<lambda>a. a),
      gfifo = (\<lambda>i. if i = 0 then SyncFIFO 8 \<lparr>mBuffer = 0, readPos = 1, writePos = 7, mDelay = 0\<rparr>
                  else SyncFIFO 12 (FIFO_new (20 * int i) 0))\<rparr>"

lemma demo_stream_graph_ok: "graph_ok demo_stream_graph {0, 2}"
  by (simp add: graph_ok_def demo_stream_graph_def fo_disjoint_def fifo_defs)

lemma demo_stream_contents: "gcontents demo_stream_graph 0 = [1, 2, 3, 4, 5, 6]" "gcontents demo_stream_graph 2 = []"
  by code_simp+

theorem sliding_buffer_windows_witness:
  "\<exists>g' sb'. node_runs SlidingBuffer_prepareForRunning (SlidingBuffer_run 3 1) 2 demo_stream_graph
       (the (SlidingBuffer_new 0 2 3 1)) = Some (g', sb') \<and> wn_memory sb' = [4] \<and>
     (\<exists>v w. gcontents g' 2 = v @ w \<and> v = [0, 1, 2] \<and> w = [2, 3, 4])"
proof -
  let ?sb = "the (SlidingBuffer_new 0 2 3 1) :: int window_node"
  have "node_runs SlidingBuffer_prepareForRunning (SlidingBuffer_run 3 1) 2 demo_stream_graph ?sb \<noteq> None"
    by code_simp
  then obtain g' sb' where r: "node_runs SlidingBuffer_prepareForRunning (SlidingBuffer_run 3 1) 2
      demo_stream_graph ?sb = Some (g', sb')"
    by auto
  have sb: "wn_node ?sb = GenericNode 0 (3 - 1) 2 3" "wn_memory ?sb = [0]"
    by (simp_all add: SlidingBuffer_new_def)
  obtain ys where "gcontents g' 2 = concat ys" "length ys = 2" and ys: "\<forall>k<2. ys ! k = take 3 (drop (k * 2) [0, 1, 2, 3, 4])"
      and "wn_memory sb' = [4]"
    using sliding_buffer_windows [OF demo_stream_graph_ok _ _ _ sb(1) _ r] sb(2)
    by (auto simp: demo_stream_contents simp del: take_append drop_append)
  moreover have "ys = [[0, 1, 2], [2, 3, 4]]"
    using \<open>length ys = 2\<close> ys by (intro nth_equalityI) (auto simp: less_2_cases_iff)
  ultimately show ?thesis using r by auto
qed

text \<open>
  C13. Run \<open>n\<close> times, an OverlapAdd node consumes \<open>n\<close> windows and appends \<open>n\<close> hops: sample \<open>t\<close>
  of what it appends is the memory's sample, while the memory lasts, plus the samples of all
  windows that cover \<open>t\<close>, whichever of the three cases of the overlap the code takes.
\<close>

theorem overlap_add_reference:
  fixes g :: "'a :: comm_monoid_add graph"
  assumes ok: "graph_ok g {src, dst}" and ne: "src \<noteq> dst" and h: "0 \<le> ov" "ov < w"
    and nd: "wn_node oa = GenericNode src w dst (w - ov)" and m: "length (wn_memory oa) = nat ov"
    and run: "node_runs OverlapAdd_prepareForRunning (OverlapAdd_run w ov) n g oa = Some (g', oa')"
  shows "\<exists>out. gcontents g' dst = gcontents g dst @ out \<and> length out = n * nat (w - ov) \<and>
     (\<forall>t<length out. out ! t = ola_reference (nat (w - ov)) (wn_memory oa)
        (blocks (nat w) n (gcontents g src)) t) \<and>
     gcontents g' src = drop (n * nat w) (gcontents g src) \<and> graph_ok g' {src, dst}"
proof -
  let ?hop = "nat (w - ov)"
  have w: "nat ov + ?hop = nat w" using h by simp
  from node_runs_stream [OF ola.block_filter_axioms [of ?hop "nat ov", unfolded w]
      OverlapAdd_implements [OF ne h] ok nd m run] obtain ys
    where ys: "run_blocks (ola_step ?hop) (wn_memory oa) (blocks (nat w) n (gcontents g src)) = (ys, wn_memory oa')"
      and out: "gcontents g' dst = gcontents g dst @ concat ys" "graph_ok g' {src, dst}"
        "gcontents g' src = drop (n * nat w) (gcontents g src)"
      and len: "n * nat w \<le> length (gcontents g src)"
    by blast
  note b = blocks_lengths [OF len]
  from ola_blocks [OF m b [folded w] ys [folded w]] out show ?thesis
    by (intro exI [of _ "concat ys"]) (simp add: w)
qed

theorem overlap_add_reference_witness:
  "\<exists>g' oa'. node_runs OverlapAdd_prepareForRunning (OverlapAdd_run 3 2) 2 demo_stream_graph
       (the (OverlapAdd_new 0 2 3 2)) = Some (g', oa') \<and> gcontents g' 2 = [1, 2 + 4]"
proof -
  let ?oa = "the (OverlapAdd_new 0 2 3 2) :: int window_node"
  have "node_runs OverlapAdd_prepareForRunning (OverlapAdd_run 3 2) 2 demo_stream_graph ?oa \<noteq> None"
    by code_simp
  then obtain g' oa' where r: "node_runs OverlapAdd_prepareForRunning (OverlapAdd_run 3 2) 2
      demo_stream_graph ?oa = Some (g', oa')"
    by auto
  have oa: "wn_node ?oa = GenericNode 0 3 2 (3 - 2)" "wn_memory ?oa = [0, 0]"
    by (simp_all add: OverlapAdd_new_def numeral_2_eq_2)
  have val: "ola_reference 1 [0, 0] (blocks 3 2 [1, 2, 3, 4, 5, 6 :: int]) 0 = 1"
      "ola_reference 1 [0, 0] (blocks 3 2 [1, 2, 3, 4, 5, 6 :: int]) 1 = 2 + 4"
    by code_simp+
  obtain out where "gcontents g' 2 = out" "length out = 2"
      and "\<forall>t<2. out ! t = ola_reference 1 [0, 0] (blocks 3 2 [1, 2, 3, 4, 5, 6]) t"
    using overlap_add_reference [OF demo_stream_graph_ok _ _ _ oa(1) _ r] oa(2)
    by (auto simp: demo_stream_contents simp del: take_append drop_append)
  with val have "out = [1, 2 + 4]" by (intro nth_equalityI) (auto simp: less_2_cases_iff)
  with \<open>gcontents g' 2 = out\<close> r show ?thesis by blast
qed

end
