(* ===== verification/Scheduler.thy ===== *)
theory Scheduler
  imports CoreNodes
begin

text \<open>
  The scheduler function the generator writes for a dataflow graph with a static schedule
  (\<^verbatim>\<open>scheduler.cpp\<close> of the examples): FIFO and node objects, the initialisation of the nodes and the loop
  over the schedule. The code of the nodes and the macros of the application are parameters. A schedule
  is checked by counting samples; a graph that passes behaves as a network of unbounded queues for as
  many iterations as one likes.
\<close>

section \<open>The generated function\<close>

text \<open>A FIFO declaration: \<^verbatim>\<open>FIFO<T, length, isArray, 0>\<close> and the delay of its constructor.\<close>

record fifo_decl =
  fd_length :: int
  fd_array :: bool
  fd_delay :: int

record graph_decl =
  gd_fifos :: "fifo_decl list"
  gd_nodes :: "node list"
  gd_schedule :: "nat list"

definition new_fifo :: "fifo_decl \<Rightarrow> int \<Rightarrow> fifo_obj" where
  "new_fifo d buf =
     (if fd_array d then ArrayFIFO (fd_length d) (ARRAY_new buf) else SyncFIFO (fd_length d) (FIFO_new buf (fd_delay d)))"

text \<open>\<open>bufs\<close> are the addresses of the buffers, which are zero at first.\<close>

definition new_fifos :: "fifo_decl list \<Rightarrow> int list \<Rightarrow> nat \<Rightarrow> fifo_obj" where
  "new_fifos ds bufs k = new_fifo (ds ! k) (bufs ! k)"

text \<open>
  What the code of the nodes does: \<open>nd_init\<close> and \<open>nd_step\<close>, of node \<open>k\<close> on the state \<open>'w\<close> of all nodes;
  a step maps the blocks read to the blocks written and a status. \<open>nd_before\<close> is the macro
  \<^verbatim>\<open>CG_BEFORE_NODE_EXECUTION\<close>, which may end the loop with a status.
\<close>

record ('w, 'a) node_code =
  nd_init :: "nat \<Rightarrow> 'w \<Rightarrow> 'w \<times> int"
  nd_before :: "nat \<Rightarrow> 'w \<Rightarrow> 'w \<times> int option"
  nd_step :: "nat \<Rightarrow> 'w \<Rightarrow> 'a list list \<Rightarrow> 'w \<times> 'a list list \<times> int"

text \<open>\<^verbatim>\<open>getReadBuffer\<close> of all inputs, then \<^verbatim>\<open>getWriteBuffer\<close> of all outputs.\<close>

fun get_reads :: "'a graph \<Rightarrow> port list \<Rightarrow> 'a graph \<times> int list" where
  "get_reads g [] = (g, [])"
| "get_reads g (s # ss) =
     (let (f, p) = fo_getReadBuffer (gfifo g (pfifo s)) (psize s);
          (g', ps) = get_reads (g\<lparr>gfifo := (gfifo g)(pfifo s := f)\<rparr>) ss
      in (g', p # ps))"

fun get_writes :: "'a graph \<Rightarrow> port list \<Rightarrow> ('a graph \<times> int list) option" where
  "get_writes g [] = Some (g, [])"
| "get_writes g (d # ds) =
     (case fo_getWriteBuffer (gmem g) (gfifo g (pfifo d)) (psize d) of
        None \<Rightarrow> None
      | Some (m, f, p) \<Rightarrow>
          (case get_writes (g\<lparr>gmem := m, gfifo := (gfifo g)(pfifo d := f)\<rparr>) ds of
             None \<Rightarrow> None
           | Some (g', ps) \<Rightarrow> Some (g', p # ps)))"

fun load_all :: "'a mem \<Rightarrow> port list \<Rightarrow> int list \<Rightarrow> 'a list list" where
  "load_all m (s # ss) (p # ps) = mem_read m p (nat (psize s)) # load_all m ss ps"
| "load_all m ss ps = []"

fun store_all :: "'a mem \<Rightarrow> int list \<Rightarrow> 'a list list \<Rightarrow> 'a mem" where
  "store_all m (p # ps) (xs # xss) = store_all (mem_write m p xs) ps xss"
| "store_all m ps xss = m"

definition node_run :: "('w, 'a) node_code \<Rightarrow> node list \<Rightarrow> nat \<Rightarrow> 'a graph \<Rightarrow> 'w \<Rightarrow> ('a graph \<times> 'w \<times> int) option" where
  "node_run C nodes k g w =
     (let nd = nodes ! k; (g1, as) = get_reads g (srcs nd) in
      case get_writes g1 (dsts nd) of
        None \<Rightarrow> None
      | Some (g2, bs) \<Rightarrow>
          (let (w', outs, status) = nd_step C k w (load_all (gmem g2) (srcs nd) as)
           in Some (g2\<lparr>gmem := store_all (gmem g2) bs outs\<rparr>, w', status)))"

text \<open>
  One iteration over the schedule; the last result says whether the loop was left by a jump to
  \<^verbatim>\<open>errorHandling\<close>. A number that is no node keeps the status.
\<close>

fun run_schedule ::
    "('w, 'a) node_code \<Rightarrow> node list \<Rightarrow> nat list \<Rightarrow> 'a graph \<Rightarrow> 'w \<Rightarrow> int \<Rightarrow> ('a graph \<times> 'w \<times> int \<times> bool) option" where
  "run_schedule C nodes [] g w err = Some (g, w, err, False)"
| "run_schedule C nodes (k # ks) g w err =
     (case nd_before C k w of
        (w1, Some e) \<Rightarrow> Some (g, w1, e, True)
      | (w1, None) \<Rightarrow>
          (case (if k < length nodes then node_run C nodes k g w1 else Some (g, w1, err)) of
             None \<Rightarrow> None
           | Some (g2, w2, e) \<Rightarrow> if e < 0 then Some (g2, w2, e, True) else run_schedule C nodes ks g2 w2 e))"

text \<open>The loop, with the iterations left and the number of iterations done.\<close>

fun schedule_loop ::
    "('w, 'a) node_code \<Rightarrow> node list \<Rightarrow> nat list \<Rightarrow> nat \<Rightarrow> 'a graph \<Rightarrow> 'w \<Rightarrow> nat \<Rightarrow> ('a graph \<times> 'w \<times> nat \<times> int) option" where
  "schedule_loop C nodes sched 0 g w nb = Some (g, w, nb, 0)"
| "schedule_loop C nodes sched (Suc debugCounter) g w nb =
     (case run_schedule C nodes sched g w 0 of
        None \<Rightarrow> None
      | Some (g', w', e, jump) \<Rightarrow>
          if jump then Some (g', w', nb, e)
          else if e = 0 then schedule_loop C nodes sched debugCounter g' w' (Suc nb)
          else Some (g', w', Suc nb, e))"

fun init_nodes :: "('w, 'a) node_code \<Rightarrow> nat list \<Rightarrow> 'w \<Rightarrow> 'w \<times> int" where
  "init_nodes C [] w = (w, 0)"
| "init_nodes C (k # ks) w =
     (case nd_init C k w of (w', e) \<Rightarrow> if e \<noteq> 0 then (w', e) else init_nodes C ks w')"

text \<open>The result is the number of iterations and the status left in \<^verbatim>\<open>*error\<close>.\<close>

definition scheduler ::
    "('w, 'a) node_code \<Rightarrow> graph_decl \<Rightarrow> int list \<Rightarrow> nat \<Rightarrow> 'a mem \<Rightarrow> 'w \<Rightarrow> ('a graph \<times> 'w \<times> nat \<times> int) option" where
  "scheduler C G bufs debugCounter m w =
     (let g = \<lparr>gmem = m, gfifo = new_fifos (gd_fifos G) bufs\<rparr> in
      case init_nodes C [0..<length (gd_nodes G)] w of
        (w', e) \<Rightarrow> if e \<noteq> 0 then Some (g, w', 0, e)
                   else schedule_loop C (gd_nodes G) (gd_schedule G) debugCounter g w' 0)"

section \<open>Counting samples\<close>

text \<open>
  The check: read and write position of every FIFO. Reading needs the samples, writing the room, and
  where samples are left the realignment must not overlap. An array is full or empty.
\<close>

type_synonym positions = "(int \<times> int) list"

definition count_read :: "fifo_decl \<Rightarrow> int \<Rightarrow> int \<times> int \<Rightarrow> (int \<times> int) option" where
  "count_read d n p =
     (let (r, w) = p in
      if n < 0 then None
      else if fd_array d then (if w = n \<and> n = fd_length d then Some (0, 0) else None)
      else if r + n \<le> w then Some (r + n, w) else None)"

definition count_write :: "fifo_decl \<Rightarrow> int \<Rightarrow> int \<times> int \<Rightarrow> (int \<times> int) option" where
  "count_write d n p =
     (let (r, w) = p in
      if n < 0 then None
      else if fd_array d then (if w = 0 \<and> n = fd_length d then Some (0, n) else None)
      else if w - r + n > fd_length d \<or> 0 < r \<and> r < w - r then None
      else if 0 < r then Some (0, w - r + n)
      else if w + n \<le> fd_length d then Some (r, w + n) else None)"

fun count_ports ::
    "(fifo_decl \<Rightarrow> int \<Rightarrow> int \<times> int \<Rightarrow> (int \<times> int) option) \<Rightarrow> fifo_decl list \<Rightarrow> port list \<Rightarrow> positions \<Rightarrow> positions option" where
  "count_ports count ds [] t = Some t"
| "count_ports count ds (s # ss) t =
     (if pfifo s < length t then
        (case count (ds ! pfifo s) (psize s) (t ! pfifo s) of
           None \<Rightarrow> None
         | Some p \<Rightarrow> count_ports count ds ss (t[pfifo s := p]))
      else None)"

text \<open>
  The generator may put several FIFOs into one buffer (\<^verbatim>\<open>memoryOptimization\<close>): \<open>place ! i\<close> is the buffer of
  FIFO \<open>i\<close>. A node may write into a buffer when the other FIFOs there are empty and none of its own.
\<close>

definition clash :: "nat list \<Rightarrow> nat \<Rightarrow> nat \<Rightarrow> bool" where
  "clash place i j \<longleftrightarrow> i \<noteq> j \<and> place ! i = place ! j"

definition may_write :: "nat list \<Rightarrow> node \<Rightarrow> positions \<Rightarrow> bool" where
  "may_write place nd t \<longleftrightarrow>
     list_all (\<lambda>d. list_all (\<lambda>i. clash place i (pfifo d) \<longrightarrow>
         i \<notin> set (map pfifo (srcs nd @ dsts nd)) \<and> fst (t ! i) = snd (t ! i)) [0..<length t]) (dsts nd)"

definition count_node :: "fifo_decl list \<Rightarrow> nat list \<Rightarrow> node \<Rightarrow> positions \<Rightarrow> positions option" where
  "count_node ds place nd t =
     (if distinct (map pfifo (srcs nd @ dsts nd)) \<and> may_write place nd t then
        (case count_ports count_read ds (srcs nd) t of
           None \<Rightarrow> None
         | Some t' \<Rightarrow> count_ports count_write ds (dsts nd) t')
      else None)"

fun count_schedule :: "fifo_decl list \<Rightarrow> nat list \<Rightarrow> node list \<Rightarrow> nat list \<Rightarrow> positions \<Rightarrow> positions option" where
  "count_schedule ds place nodes [] t = Some t"
| "count_schedule ds place nodes (k # ks) t =
     (if k < length nodes then
        (case count_node ds place (nodes ! k) t of None \<Rightarrow> None | Some t' \<Rightarrow> count_schedule ds place nodes ks t')
      else None)"

definition start_positions :: "fifo_decl list \<Rightarrow> positions" where
  "start_positions ds = map (\<lambda>d. (0, fd_delay d)) ds"

text \<open>
  The schedule works from the start, and after one iteration it repeats: the next one leads from the
  positions reached to the same positions.
\<close>

definition balanced_on :: "nat list \<Rightarrow> graph_decl \<Rightarrow> bool" where
  "balanced_on place G \<longleftrightarrow>
     (\<forall>d\<in>set (gd_fifos G). 0 \<le> fd_length d \<and> 0 \<le> fd_delay d \<and> fd_delay d \<le> fd_length d \<and> (fd_array d \<longrightarrow> fd_delay d = 0)) \<and>
     (case count_schedule (gd_fifos G) place (gd_nodes G) (gd_schedule G) (start_positions (gd_fifos G)) of
        None \<Rightarrow> False
      | Some t \<Rightarrow> count_schedule (gd_fifos G) place (gd_nodes G) (gd_schedule G) t = Some t)"

text \<open>Every FIFO with a buffer of its own.\<close>

definition balanced :: "graph_decl \<Rightarrow> bool" where
  "balanced G \<longleftrightarrow> balanced_on [0..<length (gd_fifos G)] G"

section \<open>The network of queues\<close>

text \<open>What a graph means: every node takes its blocks from the input queues and appends to the output queues.\<close>

type_synonym 'a queues = "nat \<Rightarrow> 'a list"

fun dequeue :: "port list \<Rightarrow> 'a queues \<Rightarrow> 'a queues" where
  "dequeue [] q = q"
| "dequeue (s # ss) q = dequeue ss (q(pfifo s := drop (nat (psize s)) (q (pfifo s))))"

fun enqueue :: "port list \<Rightarrow> 'a list list \<Rightarrow> 'a queues \<Rightarrow> 'a queues" where
  "enqueue (d # ds) (xs # xss) q = enqueue ds xss (q(pfifo d := q (pfifo d) @ xs))"
| "enqueue ds xss q = q"

definition queue_node :: "('w, 'a) node_code \<Rightarrow> node list \<Rightarrow> nat \<Rightarrow> 'a queues \<Rightarrow> 'w \<Rightarrow> 'a queues \<times> 'w \<times> int" where
  "queue_node C nodes k q w =
     (let nd = nodes ! k;
          (w', outs, status) = nd_step C k w (map (\<lambda>s. take (nat (psize s)) (q (pfifo s))) (srcs nd))
      in (enqueue (dsts nd) outs (dequeue (srcs nd) q), w', status))"

fun queue_schedule ::
    "('w, 'a) node_code \<Rightarrow> node list \<Rightarrow> nat list \<Rightarrow> 'a queues \<Rightarrow> 'w \<Rightarrow> int \<Rightarrow> 'a queues \<times> 'w \<times> int \<times> bool" where
  "queue_schedule C nodes [] q w err = (q, w, err, False)"
| "queue_schedule C nodes (k # ks) q w err =
     (case nd_before C k w of
        (w1, Some e) \<Rightarrow> (q, w1, e, True)
      | (w1, None) \<Rightarrow>
          (case queue_node C nodes k q w1 of
             (q2, w2, e) \<Rightarrow> if e < 0 then (q2, w2, e, True) else queue_schedule C nodes ks q2 w2 e))"

fun queue_loop ::
    "('w, 'a) node_code \<Rightarrow> node list \<Rightarrow> nat list \<Rightarrow> nat \<Rightarrow> 'a queues \<Rightarrow> 'w \<Rightarrow> nat \<Rightarrow> 'a queues \<times> 'w \<times> nat \<times> int" where
  "queue_loop C nodes sched 0 q w nb = (q, w, nb, 0)"
| "queue_loop C nodes sched (Suc debugCounter) q w nb =
     (case queue_schedule C nodes sched q w 0 of
        (q', w', e, jump) \<Rightarrow>
          if jump then (q', w', nb, e)
          else if e = 0 then queue_loop C nodes sched debugCounter q' w' (Suc nb)
          else (q', w', Suc nb, e))"

definition queue_scheduler ::
    "('w, 'a) node_code \<Rightarrow> graph_decl \<Rightarrow> nat \<Rightarrow> 'a queues \<Rightarrow> 'w \<Rightarrow> 'w \<times> nat \<times> int" where
  "queue_scheduler C G debugCounter q w =
     (case init_nodes C [0..<length (gd_nodes G)] w of
        (w', e) \<Rightarrow> if e \<noteq> 0 then (w', 0, e)
                   else (case queue_loop C (gd_nodes G) (gd_schedule G) debugCounter q w' 0 of (q', w'', nb, e) \<Rightarrow> (w'', nb, e)))"

section \<open>A FIFO at its positions\<close>

definition port_state :: "fifo_decl \<Rightarrow> int \<Rightarrow> fifo_obj \<Rightarrow> int \<times> int \<Rightarrow> bool" where
  "port_state d buf fo p \<longleftrightarrow>
     (if fd_array d then fo = ArrayFIFO (fd_length d) \<lparr>aBuffer = buf\<rparr> \<and> fst p = 0 \<and> (snd p = 0 \<or> snd p = fd_length d) \<and>
        0 \<le> fd_length d
      else (\<exists>delay. fo = SyncFIFO (fd_length d) \<lparr>mBuffer = buf, readPos = fst p, writePos = snd p, mDelay = delay\<rparr>) \<and>
        0 \<le> fst p \<and> fst p \<le> snd p \<and> snd p \<le> fd_length d)"

definition queue_at :: "'a mem \<Rightarrow> int \<Rightarrow> int \<times> int \<Rightarrow> 'a list" where
  "queue_at m buf p = mem_read m (buf + fst p) (nat (snd p - fst p))"

lemma count_read_ok:
  assumes st: "port_state d buf fo p" and c: "count_read d n p = Some p'"
  obtains fo' a where "fo_getReadBuffer fo n = (fo', a)" "port_state d buf fo' p'"
    "buf \<le> a" "a + n \<le> buf + fd_length d" "0 \<le> n"
    "queue_at m buf p = mem_read m a (nat n) @ queue_at m buf p'"
proof (cases "fd_array d")
  case True
  with st c show thesis
    by (intro that [of fo buf])
      (auto simp: port_state_def count_read_def queue_at_def ARRAY_getReadBuffer_def Let_def split: if_splits prod.splits)
next
  case False
  obtain r w where p: "p = (r, w)" by fastforce
  with False c have n: "0 \<le> n" "r + n \<le> w" "p' = (r + n, w)" by (auto simp: count_read_def split: if_splits)
  from False st p obtain delay where fo: "fo = SyncFIFO (fd_length d) \<lparr>mBuffer = buf, readPos = r, writePos = w, mDelay = delay\<rparr>"
    and b: "0 \<le> r" "r \<le> w" "w \<le> fd_length d"
    by (auto simp: port_state_def)
  have "nat (w - r) = nat n + nat (w - (r + n))" using n by simp
  then have "queue_at m buf p = mem_read m (buf + r) (nat n) @ queue_at m buf p'"
    using n(1,3) p by (simp add: queue_at_def mem_read_add add.assoc)
  then show thesis
    using False fo b n p
    by (intro that [of "SyncFIFO (fd_length d) \<lparr>mBuffer = buf, readPos = r + n, writePos = w, mDelay = delay\<rparr>" "buf + r"])
      (auto simp: port_state_def FIFO_getReadBuffer_def)
qed

lemma count_write_ok:
  assumes st: "port_state d buf fo p" and c: "count_write d n p = Some p'"
  obtains m1 fo' a where "fo_getWriteBuffer m fo n = Some (m1, fo', a)" "port_state d buf fo' p'"
    "buf \<le> a" "a + n = buf + snd p'" "a + n \<le> buf + fd_length d" "0 \<le> n" "fst p' \<le> snd p' - n"
    "\<forall>x. x < buf \<or> buf + fd_length d \<le> x \<longrightarrow> m1 x = m x"
    "mem_read m1 (buf + fst p') (nat (snd p' - n - fst p')) = queue_at m buf p"
proof (cases "fd_array d")
  case True
  with st c show thesis
    by (intro that [of m fo buf])
      (auto simp: port_state_def count_write_def queue_at_def ARRAY_getWriteBuffer_def Let_def split: if_splits prod.splits)
next
  case False
  obtain r w where p: "p = (r, w)" by fastforce
  from False st p obtain delay where fo: "fo = SyncFIFO (fd_length d) \<lparr>mBuffer = buf, readPos = r, writePos = w, mDelay = delay\<rparr>"
    and b: "0 \<le> r" "r \<le> w" "w \<le> fd_length d"
    by (auto simp: port_state_def)
  show thesis
  proof (cases "0 < r")
    case True
    with False c p have n: "0 \<le> n" "w - r + n \<le> fd_length d" "\<not> r < w - r" "p' = (0, w - r + n)"
      by (auto simp: count_write_def split: if_splits)
    then obtain m1 where cp: "memcpy m buf (buf + r) (w - r) = Some m1"
      using b by (auto simp: memcpy_def regions_overlap_def)
    have "m1 x = m x" if "x < buf \<or> buf + fd_length d \<le> x" for x
      using memcpy_frame [OF cp, of x] that b by linarith
    moreover have "mem_read m1 buf (nat (w - r)) = mem_read m (buf + r) (nat (w - r))" by (rule memcpy_target [OF cp])
    ultimately show thesis
      using False True fo b n p cp
      by (intro that [of m1 "SyncFIFO (fd_length d) \<lparr>mBuffer = buf, readPos = 0, writePos = w - r + n, mDelay = delay\<rparr>"
            "buf + (w - r)"])
        (auto simp: port_state_def FIFO_getWriteBuffer_def queue_at_def Let_def)
  next
    case r0: False
    with False c p b have n: "0 \<le> n" "w + n \<le> fd_length d" "p' = (r, w + n)"
      by (auto simp: count_write_def split: if_splits)
    then show thesis
      using False r0 fo b p
      by (intro that [of m "SyncFIFO (fd_length d) \<lparr>mBuffer = buf, readPos = r, writePos = w + n, mDelay = delay\<rparr>" "buf + w"])
        (auto simp: port_state_def FIFO_getWriteBuffer_def queue_at_def)
  qed
qed

section \<open>A graph at its positions\<close>

abbreviation disjoint_bufs :: "fifo_decl list \<Rightarrow> int list \<Rightarrow> nat \<Rightarrow> nat \<Rightarrow> bool" where
  "disjoint_bufs ds bufs i j \<equiv> bufs ! i + fd_length (ds ! i) \<le> bufs ! j \<or> bufs ! j + fd_length (ds ! j) \<le> bufs ! i"

definition apart :: "fifo_decl list \<Rightarrow> int list \<Rightarrow> bool" where
  "apart ds bufs \<longleftrightarrow> length bufs = length ds \<and> (\<forall>i<length ds. \<forall>j<length ds. i \<noteq> j \<longrightarrow> disjoint_bufs ds bufs i j)"

text \<open>FIFOs in different places do not overlap; those in the same place may.\<close>

definition apart_on :: "nat list \<Rightarrow> fifo_decl list \<Rightarrow> int list \<Rightarrow> bool" where
  "apart_on place ds bufs \<longleftrightarrow> length bufs = length ds \<and>
     (\<forall>i<length ds. \<forall>j<length ds. i \<noteq> j \<longrightarrow> \<not> clash place i j \<longrightarrow> disjoint_bufs ds bufs i j)"

lemma apart_own_places: "apart ds bufs \<longleftrightarrow> apart_on [0..<length ds] ds bufs"
  by (simp add: apart_def apart_on_def clash_def)

abbreviation outside :: "fifo_decl list \<Rightarrow> int list \<Rightarrow> nat \<Rightarrow> int \<Rightarrow> bool" where
  "outside ds bufs i x \<equiv> x < bufs ! i \<or> bufs ! i + fd_length (ds ! i) \<le> x"

definition untouched :: "fifo_decl list \<Rightarrow> int list \<Rightarrow> 'a mem \<Rightarrow> 'a mem \<Rightarrow> bool" where
  "untouched ds bufs m m' \<longleftrightarrow> (\<forall>x. (\<forall>i<length ds. outside ds bufs i x) \<longrightarrow> m' x = m x)"

lemma untouched_refl [simp]: "untouched ds bufs m m"
  by (simp add: untouched_def)

lemma untouched_trans: "untouched ds bufs m m1 \<Longrightarrow> untouched ds bufs m1 m2 \<Longrightarrow> untouched ds bufs m m2"
  by (simp add: untouched_def)

definition ports_at :: "fifo_decl list \<Rightarrow> int list \<Rightarrow> 'a graph \<Rightarrow> positions \<Rightarrow> bool" where
  "ports_at ds bufs g t \<longleftrightarrow> length t = length ds \<and>
     (\<forall>i<length ds. port_state (ds ! i) (bufs ! i) (gfifo g i) (t ! i))"

definition represents :: "fifo_decl list \<Rightarrow> int list \<Rightarrow> 'a graph \<Rightarrow> positions \<Rightarrow> 'a queues \<Rightarrow> bool" where
  "represents ds bufs g t q \<longleftrightarrow> ports_at ds bufs g t \<and>
     (\<forall>i<length ds. q i = queue_at (gmem g) (bufs ! i) (t ! i))"

lemma port_state_range: "port_state d buf fo p \<Longrightarrow> 0 \<le> fst p \<and> fst p \<le> snd p \<and> snd p \<le> fd_length d"
  by (auto simp: port_state_def split: if_splits)

lemma queue_at_cong:
  assumes "port_state d buf fo p" "\<And>x. buf \<le> x \<Longrightarrow> x < buf + fd_length d \<Longrightarrow> m x = m' x"
  shows "queue_at m buf p = queue_at m' buf p"
  unfolding queue_at_def using port_state_range [OF assms(1)] by (intro mem_read_cong assms(2)) auto

lemma disjoint_inside:
  assumes "disjoint_bufs ds bufs i j" "bufs ! i \<le> x" "x < bufs ! i + fd_length (ds ! i)"
  shows "outside ds bufs j x"
  using assms by linarith

abbreviation apart_ports :: "fifo_decl list \<Rightarrow> int list \<Rightarrow> port list \<Rightarrow> bool" where
  "apart_ports ds bufs ps \<equiv> (\<forall>d\<in>set ps. \<forall>e\<in>set ps. pfifo d \<noteq> pfifo e \<longrightarrow> disjoint_bufs ds bufs (pfifo d) (pfifo e))"

definition read_at :: "fifo_decl list \<Rightarrow> int list \<Rightarrow> port \<Rightarrow> int \<Rightarrow> bool" where
  "read_at ds bufs s a \<longleftrightarrow> pfifo s < length ds \<and> bufs ! pfifo s \<le> a \<and>
     a + psize s \<le> bufs ! pfifo s + fd_length (ds ! pfifo s) \<and> 0 \<le> psize s"

lemma get_reads_ok:
  assumes "represents ds bufs g t q" "count_ports count_read ds ss t = Some t'" "distinct (map pfifo ss)"
  shows "\<exists>g' as. get_reads g ss = (g', as) \<and> gmem g' = gmem g \<and> represents ds bufs g' t' (dequeue ss q) \<and>
    list_all2 (read_at ds bufs) ss as \<and>
    load_all (gmem g) ss as = map (\<lambda>s. take (nat (psize s)) (q (pfifo s))) ss"
  using assms
proof (induction ss arbitrary: g t q)
  case (Cons s ss)
  let ?i = "pfifo s" and ?d = "ds ! pfifo s" and ?b = "bufs ! pfifo s"
  have t: "length t = length ds" using Cons.prems(1) by (simp add: represents_def ports_at_def)
  from Cons.prems(2) t have i: "?i < length ds" by (auto split: if_splits)
  with Cons.prems(2) t obtain p' where p': "count_read ?d (psize s) (t ! ?i) = Some p'"
    and rest: "count_ports count_read ds ss (t[?i := p']) = Some t'" by (auto split: option.splits)
  have st: "port_state ?d ?b (gfifo g ?i) (t ! ?i)" and qi: "q ?i = queue_at (gmem g) ?b (t ! ?i)"
    using Cons.prems(1) i by (simp_all add: represents_def ports_at_def)
  from count_read_ok [OF st p', of "gmem g"] obtain fo' a where fo': "fo_getReadBuffer (gfifo g ?i) (psize s) = (fo', a)"
    "port_state ?d ?b fo' p'" "?b \<le> a" "a + psize s \<le> ?b + fd_length ?d" "0 \<le> psize s"
    "queue_at (gmem g) ?b (t ! ?i) = mem_read (gmem g) a (nat (psize s)) @ queue_at (gmem g) ?b p'"
    by metis
  let ?g = "g\<lparr>gfifo := (gfifo g)(?i := fo')\<rparr>" and ?q = "q(?i := drop (nat (psize s)) (q ?i))"
  have "represents ds bufs ?g (t[?i := p']) ?q"
    using Cons.prems(1) i t fo'(2,6) qi by (auto simp: represents_def ports_at_def nth_list_update)
  moreover have "distinct (map pfifo ss)" using Cons.prems(3) by simp
  moreover have mem: "gmem ?g = gmem g" by simp
  ultimately obtain g' as where g': "get_reads ?g ss = (g', as)" "gmem g' = gmem g"
    "represents ds bufs g' t' (dequeue ss ?q)" "list_all2 (read_at ds bufs) ss as"
    "load_all (gmem g) ss as = map (\<lambda>s. take (nat (psize s)) (?q (pfifo s))) ss"
    using Cons.IH [of ?g "t[?i := p']" ?q] rest unfolding mem by blast
  have same: "map (\<lambda>s. take (nat (psize s)) (?q (pfifo s))) ss = map (\<lambda>s. take (nat (psize s)) (q (pfifo s))) ss"
    using Cons.prems(3) by (auto simp: image_iff)
  have "read_at ds bufs s a" using i fo'(3-5) by (simp add: read_at_def)
  moreover have "mem_read (gmem g) a (nat (psize s)) = take (nat (psize s)) (q ?i)" using qi fo'(6) by simp
  ultimately show ?case using g' fo'(1) same by (intro exI [of _ g'] exI [of _ "a # as"]) simp
qed simp

text \<open>What is known of a write pointer: the samples before it are the queue, those behind it are to be stored.\<close>

definition write_at :: "fifo_decl list \<Rightarrow> int list \<Rightarrow> positions \<Rightarrow> 'a queues \<Rightarrow> 'a mem \<Rightarrow> port \<Rightarrow> int \<Rightarrow> bool" where
  "write_at ds bufs t q m d a \<longleftrightarrow>
     (let i = pfifo d; (r, w) = t ! i in
      i < length ds \<and> 0 \<le> psize d \<and> bufs ! i \<le> a \<and> a + psize d = bufs ! i + w \<and> 0 \<le> r \<and> r \<le> w - psize d \<and>
      w \<le> fd_length (ds ! i) \<and> mem_read m (bufs ! i + r) (nat (w - psize d - r)) = q i)"

lemma write_at_cong:
  assumes "write_at ds bufs t q m d a" "t' ! pfifo d = t ! pfifo d" "q' (pfifo d) = q (pfifo d)"
    "\<And>x. bufs ! pfifo d \<le> x \<Longrightarrow> x < bufs ! pfifo d + fd_length (ds ! pfifo d) \<Longrightarrow> m' x = m x"
  shows "write_at ds bufs t' q' m' d a"
proof -
  obtain r w where t: "t ! pfifo d = (r, w)" by fastforce
  with assms(1) have b: "0 \<le> psize d" "0 \<le> r" "r \<le> w - psize d" "w \<le> fd_length (ds ! pfifo d)"
    by (simp_all add: write_at_def Let_def)
  have "mem_read m' (bufs ! pfifo d + r) (nat (w - psize d - r)) = mem_read m (bufs ! pfifo d + r) (nat (w - psize d - r))"
    by (intro mem_read_cong assms(4)) (use b in auto)
  with assms(1-3) t show ?thesis by (simp add: write_at_def Let_def)
qed

lemma count_ports_bound: "count_ports count ds ps t = Some t' \<Longrightarrow> e \<in> set ps \<Longrightarrow> pfifo e < length t"
  by (induction ps arbitrary: t) (fastforce split: if_splits option.splits)+

lemma get_writes_ok:
  assumes "apart_ports ds bufs ps" "ports_at ds bufs g t" "\<forall>d\<in>set ps. q (pfifo d) = queue_at (gmem g) (bufs ! pfifo d) (t ! pfifo d)"
    "count_ports count_write ds ps t = Some t'" "distinct (map pfifo ps)"
  shows "\<exists>g' bs. get_writes g ps = Some (g', bs) \<and> ports_at ds bufs g' t' \<and>
    (\<forall>i. i \<notin> pfifo ` set ps \<longrightarrow> t' ! i = t ! i) \<and>
    (\<forall>x. (\<forall>d\<in>set ps. outside ds bufs (pfifo d) x) \<longrightarrow> gmem g' x = gmem g x) \<and>
    list_all2 (write_at ds bufs t' q (gmem g')) ps bs"
  using assms
proof (induction ps arbitrary: g t)
  case (Cons d ps)
  let ?i = "pfifo d" and ?d = "ds ! pfifo d" and ?b = "bufs ! pfifo d"
  have t: "length t = length ds" using Cons.prems(2) by (simp add: ports_at_def)
  from Cons.prems(4) t have i: "?i < length ds" by (auto split: if_splits)
  with Cons.prems(4) t obtain p' where p': "count_write ?d (psize d) (t ! ?i) = Some p'"
    and rest: "count_ports count_write ds ps (t[?i := p']) = Some t'" by (auto split: option.splits)
  have st: "port_state ?d ?b (gfifo g ?i) (t ! ?i)" using Cons.prems(2) i by (simp add: ports_at_def)
  from count_write_ok [OF st p', of "gmem g"] obtain m1 fo' a where fo': "fo_getWriteBuffer (gmem g) (gfifo g ?i) (psize d) = Some (m1, fo', a)"
    "port_state ?d ?b fo' p'" "?b \<le> a" "a + psize d = ?b + snd p'" "0 \<le> psize d" "fst p' \<le> snd p' - psize d"
    "\<forall>x. outside ds bufs ?i x \<longrightarrow> m1 x = gmem g x"
    "mem_read m1 (?b + fst p') (nat (snd p' - psize d - fst p')) = queue_at (gmem g) ?b (t ! ?i)"
    by metis
  let ?g = "g\<lparr>gmem := m1, gfifo := (gfifo g)(?i := fo')\<rparr>" and ?t = "t[?i := p']"
  have ports: "ports_at ds bufs ?g ?t"
    using Cons.prems(2) i t fo'(2) by (auto simp: ports_at_def nth_list_update)
  have others: "pfifo e < length ds \<and> pfifo e \<noteq> ?i" if "e \<in> set ps" for e
  proof -
    have "pfifo e \<noteq> ?i" using Cons.prems(5) that by (auto simp: image_iff)
    moreover have "pfifo e < length ds" using count_ports_bound [OF rest that] t by simp
    ultimately show ?thesis by simp
  qed
  have queues: "q (pfifo e) = queue_at (gmem ?g) (bufs ! pfifo e) (?t ! pfifo e)" if e: "e \<in> set ps" for e
  proof -
    have j: "pfifo e < length ds" "pfifo e \<noteq> ?i" using others [OF e] by simp_all
    have "port_state (ds ! pfifo e) (bufs ! pfifo e) (gfifo g (pfifo e)) (t ! pfifo e)"
      using Cons.prems(2) j by (simp add: ports_at_def)
    then have "queue_at (gmem g) (bufs ! pfifo e) (t ! pfifo e) = queue_at m1 (bufs ! pfifo e) (t ! pfifo e)"
    proof (rule queue_at_cong)
      fix x
      assume "bufs ! pfifo e \<le> x" "x < bufs ! pfifo e + fd_length (ds ! pfifo e)"
      moreover have "disjoint_bufs ds bufs (pfifo e) ?i" using Cons.prems(1) e j(2) by simp
      ultimately have "outside ds bufs ?i x" using disjoint_inside by blast
      with fo'(7) show "gmem g x = m1 x" by metis
    qed
    then show ?thesis using Cons.prems(3) e j by simp
  qed
  obtain g' bs where g': "get_writes ?g ps = Some (g', bs)" "ports_at ds bufs g' t'"
    "\<forall>i. i \<notin> pfifo ` set ps \<longrightarrow> t' ! i = ?t ! i"
    "\<forall>x. (\<forall>d\<in>set ps. outside ds bufs (pfifo d) x) \<longrightarrow> gmem g' x = gmem ?g x"
    "list_all2 (write_at ds bufs t' q (gmem g')) ps bs"
    using Cons.IH [OF _ ports ballI [OF queues] rest] Cons.prems(1,5) by auto
  have "?i \<notin> pfifo ` set ps" using Cons.prems(5) by simp
  then have t'i: "t' ! ?i = p'" using g'(3) i t by simp
  have mem: "gmem g' x = m1 x" if x: "?b \<le> x" "x < ?b + fd_length ?d" for x
  proof -
    have "outside ds bufs (pfifo e) x" if "e \<in> set ps" for e
    proof -
      have "pfifo e \<noteq> ?i" using others [OF that] by simp
      then have "disjoint_bufs ds bufs ?i (pfifo e)" using Cons.prems(1) that by auto
      with x show ?thesis using disjoint_inside by blast
    qed
    then show ?thesis using g'(4) by simp
  qed
  have r: "0 \<le> fst p'" "snd p' \<le> fd_length ?d" using port_state_range [OF fo'(2)] by simp_all
  have "mem_read (gmem g') (?b + fst p') (nat (snd p' - psize d - fst p')) =
      mem_read m1 (?b + fst p') (nat (snd p' - psize d - fst p'))"
    by (intro mem_read_cong mem) (use r fo'(5,6) in auto)
  then have "write_at ds bufs t' q (gmem g') d a"
    using t'i i r fo'(3-6,8) Cons.prems(3) by (simp add: write_at_def Let_def case_prod_beta)
  moreover have "t' ! j = t ! j" if "j \<notin> pfifo ` set (d # ps)" for j
    using g'(3) that by simp
  moreover have "gmem g' x = gmem g x" if "\<forall>e\<in>set (d # ps). outside ds bufs (pfifo e) x" for x
  proof -
    have "gmem g' x = m1 x" using g'(4) that by simp
    also have "m1 x = gmem g x" using fo'(7) that by (metis list.set_intros(1))
    finally show ?thesis .
  qed
  ultimately show ?case
    using g'(1,2,5) fo'(1) by (intro exI [of _ g'] exI [of _ "a # bs"]) simp
qed (simp add: ports_at_def)

lemma enqueue_other: "i \<notin> pfifo ` set ds \<Longrightarrow> enqueue ds xss q i = q i"
  by (induction ds xss q rule: enqueue.induct) simp_all

lemma store_all_ok:
  assumes "apart_ports ds bufs ps" "list_all2 (write_at ds bufs t q m) ps bs" "distinct (map pfifo ps)"
    "map length outs = map (\<lambda>d. nat (psize d)) ps"
  shows "(\<forall>d\<in>set ps. queue_at (store_all m bs outs) (bufs ! pfifo d) (t ! pfifo d) = enqueue ps outs q (pfifo d)) \<and>
    (\<forall>x. (\<forall>d\<in>set ps. outside ds bufs (pfifo d) x) \<longrightarrow> store_all m bs outs x = m x)"
  using assms
proof (induction ps arbitrary: m bs outs q)
  case (Cons d ps)
  let ?i = "pfifo d" and ?b = "bufs ! pfifo d"
  obtain a bs1 where bs: "bs = a # bs1" "write_at ds bufs t q m d a" "list_all2 (write_at ds bufs t q m) ps bs1"
    using Cons.prems(2) by (cases bs) auto
  obtain xs outs1 where outs: "outs = xs # outs1" "length xs = nat (psize d)" "map length outs1 = map (\<lambda>d. nat (psize d)) ps"
    using Cons.prems(4) by (cases outs) auto
  obtain r w where tw: "t ! ?i = (r, w)" by fastforce
  with bs(2) have b: "?i < length ds" "0 \<le> psize d" "?b \<le> a" "a + psize d = ?b + w" "0 \<le> r" "r \<le> w - psize d"
    "w \<le> fd_length (ds ! ?i)" "mem_read m (?b + r) (nat (w - psize d - r)) = q ?i"
    by (simp_all add: write_at_def Let_def)
  let ?m = "mem_write m a xs" and ?q = "q(?i := q ?i @ xs)"
  have len: "int (length xs) = psize d" using outs(2) b(2) by simp
  have inside: "outside ds bufs j x \<Longrightarrow> j = ?i \<Longrightarrow> ?m x = m x" for j x
    using b len by (auto simp: mem_write_out)
  have others: "pfifo e < length ds \<and> pfifo e \<noteq> ?i" if "e \<in> set ps" for e
  proof -
    have "pfifo e \<noteq> ?i" using Cons.prems(3) that by (auto simp: image_iff)
    moreover have "\<exists>a. write_at ds bufs t q m e a" using bs(3) that by (auto simp: list_all2_conv_all_nth in_set_conv_nth)
    ultimately show ?thesis by (auto simp: write_at_def Let_def)
  qed
  have tail: "list_all2 (write_at ds bufs t ?q ?m) ps bs1"
  proof (rule list.rel_mono_strong [OF bs(3)])
    fix e a'
    assume e: "e \<in> set ps" and w: "write_at ds bufs t q m e a'"
    show "write_at ds bufs t ?q ?m e a'"
    proof (rule write_at_cong [OF w])
      fix x
      assume x: "bufs ! pfifo e \<le> x" "x < bufs ! pfifo e + fd_length (ds ! pfifo e)"
      have "disjoint_bufs ds bufs (pfifo e) ?i" using Cons.prems(1) others [OF e] e by simp
      from disjoint_inside [OF this x] inside show "?m x = m x" by blast
    qed (use others [OF e] in simp_all)
  qed
  have dist: "distinct (map pfifo ps)" using Cons.prems(3) by simp
  have "apart_ports ds bufs ps" using Cons.prems(1) by simp
  note IH = Cons.IH [OF this tail dist outs(3)]
  have i: "?i \<notin> pfifo ` set ps" using Cons.prems(3) by simp
  have stored: "store_all ?m bs1 outs1 x = ?m x" if "?b \<le> x" "x < ?b + fd_length (ds ! ?i)" for x
  proof -
    have "outside ds bufs (pfifo e) x" if e: "e \<in> set ps" for e
    proof -
      have "pfifo e \<noteq> ?i" using others [OF e] by simp
      then have "disjoint_bufs ds bufs ?i (pfifo e)" using Cons.prems(1) e by auto
      from disjoint_inside [OF this \<open>?b \<le> x\<close> \<open>x < ?b + fd_length (ds ! ?i)\<close>] show ?thesis .
    qed
    then show ?thesis using IH by simp
  qed
  have "queue_at (store_all ?m bs1 outs1) ?b (t ! ?i) = mem_read ?m (?b + r) (nat (w - r))"
    unfolding queue_at_def tw by (simp, intro mem_read_cong stored) (use b in auto)
  also have "nat (w - r) = nat (w - psize d - r) + nat (psize d)" using b by simp
  also have "mem_read ?m (?b + r) \<dots> = mem_read ?m (?b + r) (nat (w - psize d - r)) @ mem_read ?m a (nat (psize d))"
  proof -
    have "?b + r + int (nat (w - psize d - r)) = a" using b by simp
    then show ?thesis by (simp only: mem_read_add)
  qed
  also have "mem_read ?m (?b + r) (nat (w - psize d - r)) = mem_read m (?b + r) (nat (w - psize d - r))"
    using b by (intro mem_read_write_disj) simp
  also have "mem_read ?m a (nat (psize d)) = xs" using outs(2) by (simp add: mem_read_write_same)
  finally have head: "queue_at (store_all ?m bs1 outs1) ?b (t ! ?i) = enqueue (d # ps) outs q ?i"
    using b(8) outs(1) i by (simp add: enqueue_other)
  show ?case using IH head inside bs(1) outs(1) by (auto simp del: fun_upd_apply)
qed simp

section \<open>Refinement\<close>

text \<open>The code of the nodes writes blocks of the sizes of its outputs.\<close>

definition block_sizes :: "('w, 'a) node_code \<Rightarrow> node list \<Rightarrow> bool" where
  "block_sizes C nodes \<longleftrightarrow>
     (\<forall>k<length nodes. \<forall>w ins. map length ins = map (\<lambda>s. nat (psize s)) (srcs (nodes ! k)) \<longrightarrow>
        (case nd_step C k w ins of (w', outs, status) \<Rightarrow> map length outs = map (\<lambda>d. nat (psize d)) (dsts (nodes ! k))))"

lemma load_all_cong:
  assumes "list_all2 (read_at ds bufs) ss as"
    "\<And>x s. s \<in> set ss \<Longrightarrow> bufs ! pfifo s \<le> x \<Longrightarrow> x < bufs ! pfifo s + fd_length (ds ! pfifo s) \<Longrightarrow> m' x = m x"
  shows "load_all m' ss as = load_all m ss as"
  using assms
proof (induction ss as rule: list_all2_induct)
  case (Cons s ss a as)
  have "mem_read m' a (nat (psize s)) = mem_read m a (nat (psize s))"
    by (intro mem_read_cong Cons.prems [of s]) (use Cons.hyps(1) in \<open>auto simp: read_at_def\<close>)
  moreover have "load_all m' ss as = load_all m ss as" by (intro Cons.IH) (use Cons.prems in auto)
  ultimately show ?case by simp
qed simp

lemma ports_at_mem [simp]: "ports_at ds bufs (g\<lparr>gmem := m\<rparr>) t = ports_at ds bufs g t"
  by (simp add: ports_at_def)

lemma dequeue_other: "i \<notin> pfifo ` set ss \<Longrightarrow> dequeue ss q i = q i"
  by (induction ss q rule: dequeue.induct) simp_all

lemma queue_lengths:
  assumes "represents ds bufs g t q" "count_ports count_read ds ss t = Some t'" "distinct (map pfifo ss)"
  shows "map length (map (\<lambda>s. take (nat (psize s)) (q (pfifo s))) ss) = map (\<lambda>s. nat (psize s)) ss"
proof -
  obtain g' as where as: "list_all2 (read_at ds bufs) ss as"
    "load_all (gmem g) ss as = map (\<lambda>s. take (nat (psize s)) (q (pfifo s))) ss"
    using get_reads_ok [OF assms] by blast
  from as(1) have "map length (load_all (gmem g) ss as) = map (\<lambda>s. nat (psize s)) ss"
    by (induction ss as rule: list_all2_induct) simp_all
  with as(2) show ?thesis by simp
qed

lemma count_ports_other: "count_ports count ds ps t = Some t' \<Longrightarrow> i \<notin> pfifo ` set ps \<Longrightarrow> t' ! i = t ! i"
  by (induction ps arbitrary: t) (fastforce split: if_splits option.splits)+

lemma may_write_clash:
  assumes "may_write place nd t" "d \<in> set (dsts nd)" "i < length t" "clash place i (pfifo d)"
  shows "i \<notin> pfifo ` set (srcs nd) \<and> i \<notin> pfifo ` set (dsts nd) \<and> fst (t ! i) = snd (t ! i)"
  using assms by (fastforce simp: may_write_def list_all_iff)

text \<open>What a node writes does not touch the FIFOs it reads and those that hold samples.\<close>

lemma may_write_disjoint:
  assumes "apart_on place ds bufs" "may_write place nd t" "d \<in> set (dsts nd)" "i < length ds" "length t = length ds"
    "pfifo d < length ds" "i \<noteq> pfifo d" "i \<in> pfifo ` set (srcs nd) \<or> i \<in> pfifo ` set (dsts nd) \<or> fst (t ! i) \<noteq> snd (t ! i)"
  shows "disjoint_bufs ds bufs i (pfifo d)"
  using may_write_clash [OF assms(2,3), of i] assms(1,4-8) by (auto simp: apart_on_def)

lemma node_run_ok:
  assumes ap: "apart_on place ds bufs" and rep: "represents ds bufs g t q" and c: "count_node ds place (nodes ! k) t = Some t'"
    and code: "block_sizes C nodes" "k < length nodes"
  obtains g' where "node_run C nodes k g w = (case queue_node C nodes k q w of (q', w', e) \<Rightarrow> Some (g', w', e))"
    "represents ds bufs g' t' (fst (queue_node C nodes k q w))" "untouched ds bufs (gmem g) (gmem g')"
proof -
  let ?nd = "nodes ! k"
  from c obtain t1 where dist: "distinct (map pfifo (srcs ?nd))" "distinct (map pfifo (dsts ?nd))"
      "pfifo ` set (srcs ?nd) \<inter> pfifo ` set (dsts ?nd) = {}"
    and may: "may_write place ?nd t"
    and t1: "count_ports count_read ds (srcs ?nd) t = Some t1" "count_ports count_write ds (dsts ?nd) t1 = Some t'"
    by (auto simp: count_node_def split: if_splits option.splits)
  have tlen: "length t = length ds" using rep by (simp add: represents_def ports_at_def)
  obtain g1 as where g1: "get_reads g (srcs ?nd) = (g1, as)" "gmem g1 = gmem g"
    "represents ds bufs g1 t1 (dequeue (srcs ?nd) q)" "list_all2 (read_at ds bufs) (srcs ?nd) as"
    "load_all (gmem g) (srcs ?nd) as = map (\<lambda>s. take (nat (psize s)) (q (pfifo s))) (srcs ?nd)"
    using get_reads_ok [OF rep t1(1) dist(1)] by blast
  let ?q = "dequeue (srcs ?nd) q" and ?ins = "map (\<lambda>s. take (nat (psize s)) (q (pfifo s))) (srcs ?nd)"
  have ports: "ports_at ds bufs g1 t1" "length t1 = length ds"
    using g1(3) by (simp_all add: represents_def ports_at_def)
  have dst: "pfifo d < length ds" if "d \<in> set (dsts ?nd)" for d
    using count_ports_bound [OF t1(2) that] ports(2) by simp
  have "\<forall>d\<in>set (dsts ?nd). ?q (pfifo d) = queue_at (gmem g1) (bufs ! pfifo d) (t1 ! pfifo d)"
    using g1(3) dst by (simp add: represents_def)
  moreover have own: "apart_ports ds bufs (dsts ?nd)"
    using may_write_disjoint [OF ap may _ dst tlen dst] by blast
  ultimately obtain g2 bs where
    g2: "get_writes g1 (dsts ?nd) = Some (g2, bs)" "ports_at ds bufs g2 t'"
    "\<forall>i. i \<notin> pfifo ` set (dsts ?nd) \<longrightarrow> t' ! i = t1 ! i"
    "\<forall>x. (\<forall>d\<in>set (dsts ?nd). outside ds bufs (pfifo d) x) \<longrightarrow> gmem g2 x = gmem g1 x"
    "list_all2 (write_at ds bufs t' ?q (gmem g2)) (dsts ?nd) bs"
    using get_writes_ok [OF own ports(1) _ t1(2) dist(2)] by blast
  have other: "outside ds bufs (pfifo d) x"
    if "d \<in> set (dsts ?nd)" "i < length ds" "i \<notin> pfifo ` set (dsts ?nd)" "bufs ! i \<le> x" "x < bufs ! i + fd_length (ds ! i)"
      "i \<in> pfifo ` set (srcs ?nd) \<or> fst (t ! i) \<noteq> snd (t ! i)"
    for d i x
  proof -
    have "i \<noteq> pfifo d" using that(1,3) by blast
    with may_write_disjoint [OF ap may that(1,2) tlen dst [OF that(1)]] that(6) have "disjoint_bufs ds bufs i (pfifo d)" by blast
    from disjoint_inside [OF this that(4,5)] show ?thesis .
  qed
  have "load_all (gmem g2) (srcs ?nd) as = load_all (gmem g) (srcs ?nd) as"
  proof (rule load_all_cong [OF g1(4)])
    fix x s
    assume s: "s \<in> set (srcs ?nd)" and x: "bufs ! pfifo s \<le> x" "x < bufs ! pfifo s + fd_length (ds ! pfifo s)"
    have "pfifo s < length ds" using g1(4) s by (auto simp: list_all2_conv_all_nth in_set_conv_nth read_at_def)
    moreover have "pfifo s \<notin> pfifo ` set (dsts ?nd)" "pfifo s \<in> pfifo ` set (srcs ?nd)" using dist(3) s by blast+
    ultimately show "gmem g2 x = gmem g x" using other x g2(4) g1(2) by metis
  qed
  then have ins: "load_all (gmem g2) (srcs ?nd) as = ?ins" using g1(5) by simp
  obtain w' outs e where step: "nd_step C k w ?ins = (w', outs, e)" by (cases "nd_step C k w ?ins") auto
  have outs: "map length outs = map (\<lambda>d. nat (psize d)) (dsts ?nd)"
  proof -
    have "case nd_step C k w ?ins of (w', outs, status) \<Rightarrow> map length outs = map (\<lambda>d. nat (psize d)) (dsts ?nd)"
      using code(1) [unfolded block_sizes_def, rule_format, OF code(2) queue_lengths [OF rep t1(1) dist(1)]] .
    then show ?thesis by (simp only: step prod.case)
  qed
  let ?m = "store_all (gmem g2) bs outs"
  note stored = store_all_ok [OF own g2(5) dist(2) outs]
  have "represents ds bufs (g2\<lparr>gmem := ?m\<rparr>) t' (enqueue (dsts ?nd) outs ?q)"
    unfolding represents_def
  proof (intro conjI allI impI)
    show "ports_at ds bufs (g2\<lparr>gmem := ?m\<rparr>) t'" using g2(2) by simp
    fix i
    assume i: "i < length ds"
    show "enqueue (dsts ?nd) outs ?q i = queue_at (gmem (g2\<lparr>gmem := ?m\<rparr>)) (bufs ! i) (t' ! i)"
    proof (cases "i \<in> pfifo ` set (dsts ?nd)")
      case True
      with stored show ?thesis by auto
    next
      case False
      have st: "port_state (ds ! i) (bufs ! i) (gfifo g1 i) (t1 ! i)" using ports(1) i by (simp add: ports_at_def)
      have "queue_at (gmem g1) (bufs ! i) (t1 ! i) = queue_at ?m (bufs ! i) (t1 ! i)"
      proof (cases "i \<in> pfifo ` set (srcs ?nd) \<or> fst (t ! i) \<noteq> snd (t ! i)")
        case True
        show ?thesis
        proof (rule queue_at_cong [OF st])
          fix x
          assume "bufs ! i \<le> x" "x < bufs ! i + fd_length (ds ! i)"
          with other [OF _ i False _ _ True] g2(4) stored show "gmem g1 x = ?m x" by metis
        qed
      next
        case empty: False
        then have "t1 ! i = t ! i" using count_ports_other [OF t1(1)] by blast
        with empty show ?thesis by (simp add: queue_at_def)
      qed
      moreover have "?q i = queue_at (gmem g1) (bufs ! i) (t1 ! i)" using g1(3) i by (simp add: represents_def)
      ultimately show ?thesis using False g2(3) by (simp add: enqueue_other)
    qed
  qed
  moreover have "untouched ds bufs (gmem g) ?m"
    unfolding untouched_def
  proof (intro allI impI)
    fix x
    assume "\<forall>i<length ds. outside ds bufs i x"
    then have "\<forall>d\<in>set (dsts ?nd). outside ds bufs (pfifo d) x" using dst by blast
    with stored g2(4) g1(2) show "?m x = gmem g x" by metis
  qed
  ultimately show thesis
    using g1(1) g2(1) ins step
    by (intro that [of "g2\<lparr>gmem := ?m\<rparr>"]) (simp_all add: node_run_def queue_node_def Let_def)
qed

lemma run_schedule_ok:
  assumes ap: "apart_on place ds bufs" and code: "block_sizes C nodes"
  shows "represents ds bufs g t q \<Longrightarrow> count_schedule ds place nodes ks t = Some t' \<Longrightarrow>
    (case queue_schedule C nodes ks q w err of (q', w', e, jump) \<Rightarrow>
       \<exists>g'. run_schedule C nodes ks g w err = Some (g', w', e, jump) \<and> untouched ds bufs (gmem g) (gmem g') \<and>
         (\<not> jump \<longrightarrow> represents ds bufs g' t' q'))"
proof (induction ks arbitrary: g t q w err)
  case (Cons k ks)
  from Cons.prems(2) have k: "k < length nodes" by (auto split: if_splits)
  with Cons.prems(2) obtain t1 where t1: "count_node ds place (nodes ! k) t = Some t1" "count_schedule ds place nodes ks t1 = Some t'"
    by (auto split: option.splits)
  obtain w1 b where before: "nd_before C k w = (w1, b)" by fastforce
  show ?case
  proof (cases b)
    case (Some e)
    with before show ?thesis by simp
  next
    case None
    obtain q2 w2 e where node: "queue_node C nodes k q w1 = (q2, w2, e)" by (cases "queue_node C nodes k q w1") auto
    obtain g2 where g2: "node_run C nodes k g w1 = Some (g2, w2, e)" "represents ds bufs g2 t1 q2"
      "untouched ds bufs (gmem g) (gmem g2)"
      using node_run_ok [OF ap Cons.prems(1) t1(1) code k, of w1] node by auto
    show ?thesis
    proof (cases "e < 0")
      case True
      with before None k node g2 show ?thesis by simp
    next
      case False
      obtain q3 w3 e3 jump where q3: "queue_schedule C nodes ks q2 w2 e = (q3, w3, e3, jump)"
        by (cases "queue_schedule C nodes ks q2 w2 e") auto
      with Cons.IH [OF g2(2) t1(2), of w2 e] obtain g3 where g3:
        "run_schedule C nodes ks g2 w2 e = Some (g3, w3, e3, jump)" "untouched ds bufs (gmem g2) (gmem g3)"
        "\<not> jump \<longrightarrow> represents ds bufs g3 t' q3" by auto
      have "untouched ds bufs (gmem g) (gmem g3)" by (rule untouched_trans [OF g2(3) g3(2)])
      with False before None k node g2(1) g3(1,3) q3 show ?thesis by simp
    qed
  qed
qed simp

lemma schedule_loop_ok:
  assumes ap: "apart_on place ds bufs" and code: "block_sizes C nodes" and again: "count_schedule ds place nodes sched t' = Some t'"
  shows "represents ds bufs g t q \<Longrightarrow> count_schedule ds place nodes sched t = Some t' \<Longrightarrow>
    (case queue_loop C nodes sched limit q w nb of (q', w', nb', e) \<Rightarrow>
       \<exists>g'. schedule_loop C nodes sched limit g w nb = Some (g', w', nb', e) \<and> untouched ds bufs (gmem g) (gmem g'))"
proof (induction limit arbitrary: g t q w nb)
  case (Suc limit)
  obtain q1 w1 e jump where q1: "queue_schedule C nodes sched q w 0 = (q1, w1, e, jump)"
    by (cases "queue_schedule C nodes sched q w 0") auto
  then obtain g1 where g1: "run_schedule C nodes sched g w 0 = Some (g1, w1, e, jump)"
    "\<not> jump \<longrightarrow> represents ds bufs g1 t' q1" "untouched ds bufs (gmem g) (gmem g1)"
    using run_schedule_ok [OF ap code Suc.prems, of w 0] by auto
  show ?case
  proof (cases "jump \<or> e \<noteq> 0")
    case True
    with q1 g1 show ?thesis by (auto split: prod.splits)
  next
    case False
    with g1 have "represents ds bufs g1 t' q1" by simp
    obtain q2 w2 nb2 e2 where q2: "queue_loop C nodes sched limit q1 w1 (Suc nb) = (q2, w2, nb2, e2)"
      by (cases "queue_loop C nodes sched limit q1 w1 (Suc nb)") auto
    with Suc.IH [OF \<open>represents ds bufs g1 t' q1\<close> again, of w1 "Suc nb"] obtain g2 where
      "schedule_loop C nodes sched limit g1 w1 (Suc nb) = Some (g2, w2, nb2, e2)"
      "untouched ds bufs (gmem g1) (gmem g2)" by auto
    with untouched_trans [OF g1(3)] False q1 q2 g1(1) show ?thesis by simp
  qed
qed simp

lemma new_fifos_represents:
  assumes "length bufs = length ds"
    "\<forall>d\<in>set ds. 0 \<le> fd_length d \<and> 0 \<le> fd_delay d \<and> fd_delay d \<le> fd_length d \<and> (fd_array d \<longrightarrow> fd_delay d = 0)"
  shows "represents ds bufs \<lparr>gmem = m, gfifo = new_fifos ds bufs\<rparr> (start_positions ds)
    (\<lambda>i. mem_read m (bufs ! i) (nat (fd_delay (ds ! i))))"
  unfolding represents_def ports_at_def
proof (intro conjI allI impI)
  show "length (start_positions ds) = length ds" by (simp add: start_positions_def)
next
  fix i
  assume i: "i < length ds"
  then have "ds ! i \<in> set ds" by simp
  with assms(2) have d: "0 \<le> fd_length (ds ! i)" "0 \<le> fd_delay (ds ! i)" "fd_delay (ds ! i) \<le> fd_length (ds ! i)"
    "fd_array (ds ! i) \<longrightarrow> fd_delay (ds ! i) = 0" by blast+
  have t: "start_positions ds ! i = (0, fd_delay (ds ! i))" using i by (simp add: start_positions_def)
  show "port_state (ds ! i) (bufs ! i) (gfifo \<lparr>gmem = m, gfifo = new_fifos ds bufs\<rparr> i) (start_positions ds ! i)"
    using d unfolding t by (simp add: port_state_def new_fifos_def new_fifo_def ARRAY_new_def FIFO_new_def)
  show "mem_read m (bufs ! i) (nat (fd_delay (ds ! i))) =
      queue_at (gmem \<lparr>gmem = m, gfifo = new_fifos ds bufs\<rparr>) (bufs ! i) (start_positions ds ! i)"
    unfolding t by (simp add: queue_at_def)
qed

lemma scheduler_refines:
  assumes "balanced_on place G" "apart_on place (gd_fifos G) bufs" "block_sizes C (gd_nodes G)"
  shows "\<exists>g'. scheduler C G bufs debugCounter m w =
    (case queue_scheduler C G debugCounter (\<lambda>i. mem_read m (bufs ! i) (nat (fd_delay (gd_fifos G ! i)))) w of
       (w', nb, e) \<Rightarrow> Some (g', w', nb, e)) \<and> untouched (gd_fifos G) bufs m (gmem g')"
proof -
  let ?ds = "gd_fifos G" and ?q = "\<lambda>i. mem_read m (bufs ! i) (nat (fd_delay (gd_fifos G ! i)))"
  from assms(1) obtain t where t: "count_schedule ?ds place (gd_nodes G) (gd_schedule G) (start_positions ?ds) = Some t"
    "count_schedule ?ds place (gd_nodes G) (gd_schedule G) t = Some t"
    and d: "\<forall>d\<in>set ?ds. 0 \<le> fd_length d \<and> 0 \<le> fd_delay d \<and> fd_delay d \<le> fd_length d \<and> (fd_array d \<longrightarrow> fd_delay d = 0)"
    by (auto simp: balanced_on_def split: option.splits)
  have len: "length bufs = length ?ds" using assms(2) by (simp add: apart_on_def)
  obtain w1 e where init: "init_nodes C [0..<length (gd_nodes G)] w = (w1, e)" by fastforce
  note loop = schedule_loop_ok [OF assms(2,3) t(2) new_fifos_represents [OF len d, of m] t(1), where limit = debugCounter and w = w1 and nb = 0]
  show ?thesis
  proof (cases "e = 0")
    case True
    obtain q2 w2 nb2 e2 where q2: "queue_loop C (gd_nodes G) (gd_schedule G) debugCounter ?q w1 0 = (q2, w2, nb2, e2)"
      by (cases "queue_loop C (gd_nodes G) (gd_schedule G) debugCounter ?q w1 0") auto
    with loop obtain g' where
      "schedule_loop C (gd_nodes G) (gd_schedule G) debugCounter \<lparr>gmem = m, gfifo = new_fifos ?ds bufs\<rparr> w1 0 = Some (g', w2, nb2, e2)"
      "untouched ?ds bufs m (gmem g')" by auto
    with True init q2 show ?thesis
      by (intro exI [of _ g']) (simp add: scheduler_def queue_scheduler_def Let_def)
  next
    case False
    with init show ?thesis
      by (intro exI [of _ "\<lparr>gmem = m, gfifo = new_fifos ?ds bufs\<rparr>"]) (simp add: scheduler_def queue_scheduler_def Let_def)
  qed
qed

text \<open>
  C2. A graph whose schedule passes the count behaves, for any number of iterations and whatever blocks
  its nodes compute, as the network of unbounded queues, also where FIFOs share a buffer: the generated
  scheduler is defined, its nodes see the blocks and it returns the count and the status that the network
  gives - so no sample is lost, overwritten or read before it is there - and it writes nothing outside its
  buffers.
\<close>
theorem scheduler_refines_queues:
  assumes "balanced_on place G" "apart_on place (gd_fifos G) bufs" "block_sizes C (gd_nodes G)"
  shows "\<exists>g'. scheduler C G bufs debugCounter m w =
    (case queue_scheduler C G debugCounter (\<lambda>i. mem_read m (bufs ! i) (nat (fd_delay (gd_fifos G ! i)))) w of
       (w', nb, e) \<Rightarrow> Some (g', w', nb, e)) \<and> untouched (gd_fifos G) bufs m (gmem g')"
  by (rule scheduler_refines [OF assms])

end
