(* ===== verification/SchedulerExamples.thy ===== *)
theory SchedulerExamples
  imports Scheduler
begin

text \<open>
  The graphs of the examples whose FIFOs are synchronous, with the schedules and FIFO sizes the generator
  chose. Their schedules pass the count; for the first one, whose nodes are simple, the samples that
  arrive at the sink are computed.
\<close>

section \<open>The graphs\<close>

definition sync_fifo :: "int \<Rightarrow> fifo_decl" where
  "sync_fifo len = \<lparr>fd_length = len, fd_array = False, fd_delay = 0\<rparr>"

definition array_fifo :: "int \<Rightarrow> fifo_decl" where
  "array_fifo len = \<lparr>fd_length = len, fd_array = True, fd_delay = 0\<rparr>"

definition simple_graph :: graph_decl where
  "simple_graph = \<lparr>
     gd_fifos = [sync_fifo 11, sync_fifo 11],
     gd_nodes = [GenericNode 0 7 1 7, GenericSink 1 5, GenericSource 0 5],
     gd_schedule = [2, 2, 0, 1, 2, 0, 1, 2, 2, 0, 1, 1, 2, 0, 1, 2, 0, 1, 1]\<rparr>"

definition example1_graph :: graph_decl where
  "example1_graph = \<lparr>
     gd_fifos = [sync_fifo 11, array_fifo 5],
     gd_nodes = [GenericNode 0 7 1 5, GenericSink 1 5, GenericSource 0 5],
     gd_schedule = [2, 2, 0, 1, 2, 0, 1, 2, 2, 0, 1, 2, 0, 1, 2, 0, 1]\<rparr>"

text \<open>The nodes 1, 2 and 3 are calls of functions on the buffers of their FIFOs.\<close>

definition example2_graph :: graph_decl where
  "example2_graph = \<lparr>
     gd_fifos = [(sync_fifo 330)\<lparr>fd_delay := 10\<rparr>, array_fifo 160, array_fifo 160, array_fifo 160, array_fifo 160,
       sync_fifo 320, array_fifo 640, sync_fifo 250, array_fifo 500],
     gd_nodes = [GenericSink 8 500, GenericNode21 3 160 4 160 5 160, GenericNode 1 160 3 160, GenericNode 2 160 4 160,
       GenericNode 5 (640 - 320) 6 640, GenericNode 6 640 7 10, GenericNode 7 (500 - 250) 8 500,
       GenericSource 0 320, GenericNode12 0 320 1 160 2 160],
     gd_schedule = concat (replicate 25 [7, 8, 2, 3, 1, 7, 8, 2, 3, 1, 4, 5]) @ [6, 0]\<rparr>"

definition example3_graph :: graph_decl where
  "example3_graph = \<lparr>
     gd_fifos = [sync_fifo 256, array_fifo 256, array_fifo 256, array_fifo 512, array_fifo 512, array_fifo 512,
       array_fifo 256, sync_fifo 256],
     gd_nodes = [GenericNode 1 256 2 256, GenericNode 6 256 7 (256 - 128), GenericNode 0 (256 - 128) 1 256,
       GenericNode 3 512 4 512, GenericNode 4 512 5 512, GenericSink 7 192, GenericSource 0 192,
       GenericNode 2 256 3 512, GenericNode 5 512 6 256],
     gd_schedule = [6, 2, 0, 7, 3, 4, 8, 1, 6, 2, 0, 7, 3, 4, 8, 1, 5, 2, 0, 7, 3, 4, 8, 1, 5]\<rparr>"

definition example6_graph :: graph_decl where
  "example6_graph = \<lparr>
     gd_fifos = [sync_fifo 256, array_fifo 256, array_fifo 13, sync_fifo 26],
     gd_nodes = [GenericNode 0 (256 - 128) 1 256, GenericNode 1 256 2 13, GenericNode 2 (26 - 13) 3 26,
       GenericSink 3 13, GenericSource 0 192],
     gd_schedule = [4, 0, 1, 2, 3, 3, 4, 0, 1, 2, 3, 3, 0, 1, 2, 3, 3]\<rparr>"

text \<open>A loop over a FIFO that holds five samples at the start.\<close>

definition example9_graph :: graph_decl where
  "example9_graph = \<lparr>
     gd_fifos = [array_fifo 5, array_fifo 5, array_fifo 5, (sync_fifo 5)\<lparr>fd_delay := 5\<rparr>],
     gd_nodes = [Duplicate_new 1 [2, 3] 5, GenericNode21 0 5 3 5 1 5, GenericSink 2 5, GenericSource 0 5],
     gd_schedule = [3, 1, 0, 2]\<rparr>"

text \<open>The node 0 is a call of a function.\<close>

definition functionexample_graph :: graph_decl where
  "functionexample_graph = \<lparr>
     gd_fifos = [array_fifo 7, array_fifo 7, array_fifo 5],
     gd_nodes = [GenericNode21 0 7 1 7 2 5, GenericSink 2 5, GenericSource 0 7, GenericSource 1 7],
     gd_schedule = [2, 3, 0, 1]\<rparr>"

definition yaml_graph :: graph_decl where
  "yaml_graph = \<lparr>
     gd_fifos = [array_fifo 1, sync_fifo 11, sync_fifo 11, sync_fifo 11, sync_fifo 11, sync_fifo 11,
       array_fifo 5, array_fifo 5, array_fifo 5, array_fifo 5, array_fifo 5, array_fifo 5, array_fifo 5,
       array_fifo 1, array_fifo 1, array_fifo 1, array_fifo 1],
     gd_nodes = [Duplicate_new 14 [15, 16] 1, GenericToManyNode 0 1 [1, 2, 3, 4, 5] 5,
       GenericManyToManyNode [1, 2, 3, 4, 5] 7 [6, 7, 8, 9, 10, 11, 12] 5,
       \<lparr>srcs = [NodePort 16 1, NodePort 13 1], dsts = []\<rparr>, GenericSource 13 1, GenericSink 15 1, GenericSource 0 1,
       GenericFromManyNode [6, 7, 8, 9, 10, 11, 12] 5 14 1],
     gd_schedule = [4, 6, 1, 6, 1, 2, 7, 0, 3, 5, 4, 6, 1, 2, 7, 0, 3, 5, 4, 6, 1, 6, 1, 2, 7, 0, 3, 5, 4, 6, 1, 2, 7, 0, 3,
       5, 4, 6, 1, 2, 7, 0, 3, 5]\<rparr>"

definition hello_graph :: graph_decl where
  "hello_graph = \<lparr>
     gd_fifos = [array_fifo 10, array_fifo 1],
     gd_nodes = [GenericNode 0 10 1 1, GenericSink 1 1, GenericSource 0 10],
     gd_schedule = [2, 0, 1]\<rparr>"

definition callback_graph :: graph_decl where
  "callback_graph = \<lparr>
     gd_fifos = [sync_fifo 11, array_fifo 7, sync_fifo 11],
     gd_nodes = [GenericNode 1 7 2 7, GenericNode 0 7 1 7, GenericSink 2 5, GenericSource 0 5],
     gd_schedule = [3, 3, 1, 0, 2, 3, 1, 0, 2, 3, 3, 1, 0, 2, 2, 3, 1, 0, 2, 3, 1, 0, 2, 2]\<rparr>"

text \<open>Fourteen FIFOs in four buffers.\<close>

definition memory_graph :: graph_decl where
  "memory_graph = \<lparr>
     gd_fifos = replicate 14 (array_fifo 100),
     gd_nodes = [GenericNode 3 100 7 100, GenericNode 4 100 8 100, GenericNode 5 100 9 100, GenericNode 6 100 10 100,
       GenericNode21 7 100 8 100 11 100, GenericNode21 9 100 10 100 12 100, GenericNode21 11 100 12 100 13 100,
       GenericNode12 0 100 1 100 2 100, GenericNode12 1 100 3 100 4 100, GenericNode12 2 100 5 100 6 100,
       GenericSink 13 100, GenericSource 0 100],
     gd_schedule = [11, 7, 8, 0, 1, 4, 9, 2, 3, 5, 6, 10]\<rparr>"

definition memory_places :: "nat list" where
  "memory_places = [1, 2, 0, 3, 1, 3, 2, 2, 3, 0, 3, 1, 2, 0]"

definition own_places :: "graph_decl \<Rightarrow> nat list \<times> graph_decl" where
  "own_places G = ([0..<length (gd_fifos G)], G)"

definition shipped_graphs :: "(nat list \<times> graph_decl) list" where
  "shipped_graphs = map own_places [simple_graph, example1_graph, example2_graph, example3_graph, example6_graph,
     example9_graph, functionexample_graph, yaml_graph, hello_graph, callback_graph] @ [(memory_places, memory_graph)]"

lemma shipped_balanced: "\<forall>(place, G)\<in>set shipped_graphs. balanced_on place G"
  by code_simp

lemma simple_balanced: "balanced_on [0..<length (gd_fifos simple_graph)] simple_graph"
  using shipped_balanced by (simp add: shipped_graphs_def own_places_def)

section \<open>The nodes of the first example\<close>

text \<open>
  The sample type and its conversions are parameters: \<open>of_i\<close> and \<open>to_i\<close> are the casts from and to
  \<^verbatim>\<open>int\<close>, \<open>inc\<close> adds 1. The state is what has been printed.
\<close>

datatype printed = Line string | Number int

definition Sink_step :: "('a \<Rightarrow> int) \<Rightarrow> printed list \<Rightarrow> 'a list \<Rightarrow> printed list" where
  "Sink_step to_i out b = out @ Line ''Sink'' # map (\<lambda>x. Number (to_i x)) b"

definition Source_step :: "(int \<Rightarrow> 'a) \<Rightarrow> nat \<Rightarrow> printed list \<Rightarrow> printed list \<times> 'a list" where
  "Source_step of_i outputSize out = (out @ [Line ''Source''], map (\<lambda>i. of_i (int i)) [0..<outputSize])"

definition ProcessingNode_step :: "('a \<Rightarrow> 'a) \<Rightarrow> printed list \<Rightarrow> 'a list \<Rightarrow> printed list \<times> 'a list" where
  "ProcessingNode_step inc out a = (out @ [Line ''ProcessingNode''], map inc a)"

definition simple_step ::
    "(int \<Rightarrow> 'a) \<Rightarrow> ('a \<Rightarrow> 'a) \<Rightarrow> ('a \<Rightarrow> int) \<Rightarrow> nat \<Rightarrow> printed list \<Rightarrow> 'a list list \<Rightarrow> printed list \<times> 'a list list \<times> int" where
  "simple_step of_i inc to_i k out ins =
     (if k = 0 then (case ProcessingNode_step inc out (hd ins) of (out', b) \<Rightarrow> (out', [b], 0))
      else if k = 1 then (Sink_step to_i out (hd ins), [], 0)
      else (case Source_step of_i 5 out of (out', b) \<Rightarrow> (out', [b], 0)))"

text \<open>The nodes have the initialisation of \<^verbatim>\<open>StreamNode\<close>, and the macro before a node is empty.\<close>

definition simple_code :: "(int \<Rightarrow> 'a) \<Rightarrow> ('a \<Rightarrow> 'a) \<Rightarrow> ('a \<Rightarrow> int) \<Rightarrow> (printed list, 'a) node_code" where
  "simple_code of_i inc to_i =
     \<lparr>nd_init = (\<lambda>k w. (w, 0)), nd_before = (\<lambda>k w. (w, None)), nd_step = simple_step of_i inc to_i\<rparr>"

fun numbers :: "printed list \<Rightarrow> int list" where
  "numbers [] = []"
| "numbers (Line s # out) = numbers out"
| "numbers (Number n # out) = n # numbers out"

lemma numbers_append [simp]: "numbers (a @ b) = numbers a @ numbers b"
  by (induction a rule: numbers.induct) simp_all

lemma numbers_map [simp]: "numbers (map (\<lambda>x. Number (f x)) xs) = map f xs"
  by (induction xs) simp_all

lemma simple_block_sizes: "block_sizes (simple_code of_i inc to_i) (gd_nodes simple_graph)"
  by (auto simp: block_sizes_def simple_code_def simple_step_def ProcessingNode_step_def Source_step_def simple_graph_def
      GenericNode_def GenericSink_def GenericSource_def NodePort_def less_Suc_eq numeral_3_eq_3)

text \<open>One node of the network at a time.\<close>

lemma simple_nodes:
  "queue_node (simple_code of_i inc to_i) (gd_nodes simple_graph) 0 q out =
     (q(0 := drop 7 (q 0), 1 := q 1 @ map inc (take 7 (q 0))), out @ [Line ''ProcessingNode''], 0)"
  "queue_node (simple_code of_i inc to_i) (gd_nodes simple_graph) 1 q out =
     (q(1 := drop 5 (q 1)), Sink_step to_i out (take 5 (q 1)), 0)"
  "queue_node (simple_code of_i inc to_i) (gd_nodes simple_graph) 2 q out =
     (q(0 := q 0 @ map (\<lambda>i. of_i (int i)) [0..<5]), out @ [Line ''Source''], 0)"
  by (simp_all add: queue_node_def simple_code_def simple_step_def ProcessingNode_step_def Source_step_def
      simple_graph_def GenericNode_def GenericSink_def GenericSource_def NodePort_def)

text \<open>One iteration of the network: it starts and ends with empty queues.\<close>

abbreviation simple_block :: "(int \<Rightarrow> 'a) \<Rightarrow> ('a \<Rightarrow> 'a) \<Rightarrow> ('a \<Rightarrow> int) \<Rightarrow> int list" where
  "simple_block of_i inc to_i \<equiv> map (\<lambda>i. to_i (inc (of_i i))) [0, 1, 2, 3, 4]"

lemma simple_queue_step:
  assumes "queue_node (simple_code of_i inc to_i) nodes k q out = (q', out', 0)"
  shows "queue_schedule (simple_code of_i inc to_i) nodes (k # ks) q out err =
    queue_schedule (simple_code of_i inc to_i) nodes ks q' out' 0"
proof -
  have b: "nd_before (simple_code of_i inc to_i) k out = (out, None)" by (simp add: simple_code_def)
  show ?thesis unfolding queue_schedule.simps(2) b prod.case option.case assms by simp
qed

lemmas simple_queue_steps = simple_nodes [THEN simple_queue_step]

lemma simple_iteration:
  assumes "q 0 = []" "q 1 = []"
  shows "\<exists>q' out'. queue_schedule (simple_code of_i inc to_i) (gd_nodes simple_graph) (gd_schedule simple_graph) q out 0 =
      (q', out', 0, False) \<and> q' 0 = [] \<and> q' 1 = [] \<and>
    numbers out' = numbers out @ concat (replicate 7 (simple_block of_i inc to_i))"
proof -
  have sched: "gd_schedule simple_graph = [2, 2, 0, 1, 2, 0, 1, 2, 2, 0, 1, 1, 2, 0, 1, 2, 0, 1, 1]"
    by (simp add: simple_graph_def)
  have src: "map (\<lambda>i. of_i (int i)) [0..<5] = [of_i 0, of_i 1, of_i 2, of_i 3, of_i 4]"
    by (simp add: upt_rec)
  have seven: "concat (replicate 7 b) = b @ b @ b @ b @ b @ b @ b" for b :: "int list"
    by (simp add: numeral_eq_Suc)
  show ?thesis
    unfolding sched seven using assms
    by (simp add: simple_queue_steps src Sink_step_def del: queue_schedule.simps(2) One_nat_def)
qed

lemma simple_loop:
  assumes "q 0 = []" "q 1 = []"
  shows "\<exists>q' out'. queue_loop (simple_code of_i inc to_i) (gd_nodes simple_graph) (gd_schedule simple_graph) n q out nb =
      (q', out', nb + n, 0) \<and>
    numbers out' = numbers out @ concat (replicate n (concat (replicate 7 (simple_block of_i inc to_i))))"
  using assms
proof (induction n arbitrary: q out nb)
  case (Suc n)
  let ?b = "concat (replicate 7 (simple_block of_i inc to_i))"
  from simple_iteration [OF Suc.prems, of of_i inc to_i out] obtain q1 out1 where one:
    "queue_schedule (simple_code of_i inc to_i) (gd_nodes simple_graph) (gd_schedule simple_graph) q out 0 = (q1, out1, 0, False)"
    "q1 0 = []" "q1 1 = []" "numbers out1 = numbers out @ ?b" by blast
  from Suc.IH [OF one(2,3), of out1 "Suc nb"] obtain q' out' where rest:
    "queue_loop (simple_code of_i inc to_i) (gd_nodes simple_graph) (gd_schedule simple_graph) n q1 out1 (Suc nb) = (q', out', nb + Suc n, 0)"
    "numbers out' = numbers out1 @ concat (replicate n ?b)" by auto
  show ?case
    by (intro exI [of _ q'] exI [of _ out']) (simp add: one rest del: replicate.simps(2) add: replicate_Suc)
qed simp

lemma queue_loop_count: "queue_loop C nodes sched n q w nb = (q', w', nb', e) \<Longrightarrow> nb' \<le> nb + n"
proof (induction n arbitrary: q w nb)
  case (Suc n)
  then show ?case by (fastforce split: prod.splits if_splits)
qed simp

lemma queue_scheduler_count: "queue_scheduler C G n q w = (w', nb, e) \<Longrightarrow> nb \<le> n"
  using queue_loop_count [of C "gd_nodes G" "gd_schedule G" n q _ 0]
  by (auto simp: queue_scheduler_def split: prod.splits if_splits)

lemma simple_init: "init_nodes (simple_code of_i inc to_i) ks out = (out, 0)"
  by (induction ks) (simp_all add: simple_code_def)

text \<open>
  C3. The generated scheduler of the first example, run for any number of iterations on any two buffers
  that do not overlap, returns that number and no error, and its sink has printed the numbers that its
  source makes, each increased by one, seven blocks of five in every iteration.
\<close>
theorem simple_scheduler_output:
  assumes "apart (gd_fifos simple_graph) bufs"
  shows "\<exists>g' out'. scheduler (simple_code of_i inc to_i) simple_graph bufs n m out = Some (g', out', n, 0) \<and>
    numbers out' = numbers out @
      concat (replicate n (concat (replicate 7 (map (\<lambda>i. to_i (inc (of_i i))) [0, 1, 2, 3, 4]))))"
proof -
  let ?q = "\<lambda>i. mem_read m (bufs ! i) (nat (fd_delay (gd_fifos simple_graph ! i)))"
  have "?q 0 = []" "?q 1 = []" by (simp_all add: simple_graph_def sync_fifo_def)
  from simple_loop [OF this, of of_i inc to_i n out 0] obtain q' out' where loop:
    "queue_loop (simple_code of_i inc to_i) (gd_nodes simple_graph) (gd_schedule simple_graph) n ?q out 0 = (q', out', n, 0)"
    "numbers out' = numbers out @ concat (replicate n (concat (replicate 7 (simple_block of_i inc to_i))))" by auto
  from scheduler_refines [OF simple_balanced assms [unfolded apart_own_places] simple_block_sizes, of of_i inc to_i n m out] loop(1)
  obtain g' where "scheduler (simple_code of_i inc to_i) simple_graph bufs n m out = Some (g', out', n, 0)"
    by (auto simp: queue_scheduler_def simple_init)
  with loop(2) show ?thesis by (intro exI conjI)
qed

definition demo_float_code :: "(printed list, int) node_code" where
  "demo_float_code = simple_code (\<lambda>i. i) (\<lambda>x. x + 1) (\<lambda>x. x)"

theorem simple_scheduler_output_witness:
  "\<exists>g' out'. scheduler demo_float_code simple_graph [0, 11] 2 (\<lambda>a. 0) [] = Some (g', out', 2, 0) \<and>
     take 6 (numbers out') = [1, 2, 3, 4, 5, 1] \<and> length (numbers out') = 70"
proof -
  have "apart (gd_fifos simple_graph) [0, 11]"
    by (simp add: apart_def simple_graph_def sync_fifo_def less_Suc_eq numeral_2_eq_2)
  from simple_scheduler_output [OF this, of "\<lambda>i. i" "\<lambda>x. x + 1" "\<lambda>x. x" 2 "\<lambda>a. 0" "[]"] show ?thesis
    unfolding demo_float_code_def by (auto simp: numeral_eq_Suc)
qed

text \<open>
  C4. With the FIFO sizes, schedules and shared buffers the generator chose for the examples the scheduler
  is defined for any number of iterations and whatever blocks the nodes compute - no realignment overlaps -
  every node gets the samples the network of queues gives it, and nothing is written outside the buffers.
\<close>
theorem shipped_schedulers_defined:
  assumes "(place, G) \<in> set shipped_graphs" "apart_on place (gd_fifos G) bufs" "block_sizes C (gd_nodes G)"
  shows "\<exists>g' w' nb e. scheduler C G bufs n m w = Some (g', w', nb, e) \<and> nb \<le> n \<and>
    queue_scheduler C G n (\<lambda>i. mem_read m (bufs ! i) (nat (fd_delay (gd_fifos G ! i)))) w = (w', nb, e) \<and>
    untouched (gd_fifos G) bufs m (gmem g')"
proof -
  have "balanced_on place G" using assms(1) shipped_balanced by blast
  obtain w' nb e where q: "queue_scheduler C G n (\<lambda>i. mem_read m (bufs ! i) (nat (fd_delay (gd_fifos G ! i)))) w = (w', nb, e)"
    by (cases "queue_scheduler C G n (\<lambda>i. mem_read m (bufs ! i) (nat (fd_delay (gd_fifos G ! i)))) w") auto
  from scheduler_refines [OF \<open>balanced_on place G\<close> assms(2,3), of n m w] q obtain g' where
    "scheduler C G bufs n m w = Some (g', w', nb, e)" "untouched (gd_fifos G) bufs m (gmem g')" by auto
  moreover have "nb \<le> n" using queue_scheduler_count [OF q] .
  ultimately show ?thesis using q by blast
qed

definition constant_code :: "node list \<Rightarrow> (unit, int) node_code" where
  "constant_code nodes = \<lparr>nd_init = (\<lambda>k w. (w, 0)), nd_before = (\<lambda>k w. (w, None)),
     nd_step = (\<lambda>k w ins. (w, map (\<lambda>d. replicate (nat (psize d)) 7) (dsts (nodes ! k)), 0))\<rparr>"

definition memory_buffers :: "int list" where
  "memory_buffers = map (\<lambda>p. 100 * int p) memory_places"

lemma memory_apart: "apart_on memory_places (gd_fifos memory_graph) memory_buffers"
  by code_simp

theorem shipped_schedulers_defined_witness:
  "\<exists>g' w' nb e. scheduler (constant_code (gd_nodes memory_graph)) memory_graph memory_buffers 1000 (\<lambda>a. 0) () = Some (g', w', nb, e) \<and>
     nb \<le> 1000 \<and>
     queue_scheduler (constant_code (gd_nodes memory_graph)) memory_graph 1000
       (\<lambda>i. mem_read (\<lambda>a. 0) (memory_buffers ! i) (nat (fd_delay (gd_fifos memory_graph ! i)))) () = (w', nb, e) \<and>
     untouched (gd_fifos memory_graph) memory_buffers (\<lambda>a. 0) (gmem g')"
proof (rule shipped_schedulers_defined [OF _ memory_apart])
  show "(memory_places, memory_graph) \<in> set shipped_graphs" by (simp add: shipped_graphs_def)
  show "block_sizes (constant_code (gd_nodes memory_graph)) (gd_nodes memory_graph)"
    by (simp add: block_sizes_def constant_code_def)
qed

theorem scheduler_refines_queues_witness:
  "\<exists>g'. scheduler demo_float_code simple_graph [0, 11] 3 (\<lambda>a. 0) [] =
    (case queue_scheduler demo_float_code simple_graph 3
        (\<lambda>i. mem_read (\<lambda>a. 0) ([0, 11] ! i) (nat (fd_delay (gd_fifos simple_graph ! i)))) [] of
       (w', nb, e) \<Rightarrow> Some (g', w', nb, e)) \<and> untouched (gd_fifos simple_graph) [0, 11] (\<lambda>a. 0) (gmem g')"
proof (rule scheduler_refines_queues [OF simple_balanced])
  show "apart_on [0..<length (gd_fifos simple_graph)] (gd_fifos simple_graph) [0, 11]"
    unfolding apart_own_places [symmetric]
    by (simp add: apart_def simple_graph_def sync_fifo_def less_Suc_eq numeral_2_eq_2)
  show "block_sizes demo_float_code (gd_nodes simple_graph)"
    unfolding demo_float_code_def by (rule simple_block_sizes)
qed

end
