(* ===== verification/AsyncScheduler.thy ===== *)
theory AsyncScheduler
  imports Scheduler
begin

text \<open>
  The scheduler function the generator writes in asynchronous mode (\<^verbatim>\<open>fullyAsynchronous\<close>), where the flow
  on an edge may change at every execution: before a node runs, its \<^verbatim>\<open>prepareForRunning\<close> looks at the FIFOs
  and may skip the execution. Nodes are programs over the operations of their ports. When they follow the
  rule of the documentation - ask before reading or writing - and no FIFO holds three blocks or more, the
  graph behaves as a network of bounded queues.
\<close>

section \<open>Nodes as programs\<close>

text \<open>
  The code of a method, as the operations on its ports it calls and what it does next: \<^verbatim>\<open>willUnderflow\<close>
  and \<^verbatim>\<open>willOverflow\<close> of a port, \<^verbatim>\<open>getReadBuffer\<close> followed by loading the block, \<^verbatim>\<open>getWriteBuffer\<close> followed
  by storing one, and the return of a status with the new state of the nodes.
\<close>

datatype ('w, 'a) node_prog =
    Return 'w int
  | AskUnderflow nat "int option" "bool \<Rightarrow> ('w, 'a) node_prog"
  | AskOverflow nat "int option" "bool \<Rightarrow> ('w, 'a) node_prog"
  | ReadBlock nat "int option" "'a list \<Rightarrow> ('w, 'a) node_prog"
  | WriteBlock nat "int option" "'a list" "('w, 'a) node_prog"

definition port_nb :: "port \<Rightarrow> int option \<Rightarrow> int" where
  "port_nb p nb = (case nb of None \<Rightarrow> psize p | Some n \<Rightarrow> n)"

primrec run_prog :: "('w, 'a) node_prog \<Rightarrow> node \<Rightarrow> 'a graph \<Rightarrow> ('a graph \<times> 'w \<times> int) option" where
  "run_prog (Return w e) nd g = Some (g, w, e)"
| "run_prog (AskUnderflow k nb c) nd g =
     (case node_willUnderflow g nd k nb of None \<Rightarrow> None | Some b \<Rightarrow> run_prog (c b) nd g)"
| "run_prog (AskOverflow k nb c) nd g =
     (case node_willOverflow g nd k nb of None \<Rightarrow> None | Some b \<Rightarrow> run_prog (c b) nd g)"
| "run_prog (ReadBlock k nb c) nd g =
     (case node_getReadBuffer g nd k nb of
        None \<Rightarrow> None
      | Some (g', p) \<Rightarrow> run_prog (c (mem_read (gmem g') p (nat (port_nb (srcs nd ! k) nb)))) nd g')"
| "run_prog (WriteBlock k nb xs c) nd g =
     (case node_getWriteBuffer g nd k nb of
        None \<Rightarrow> None
      | Some (g', p) \<Rightarrow> run_prog c nd (g'\<lparr>gmem := mem_write (gmem g') p xs\<rparr>))"

text \<open>
  The programs of the methods every graph may use: \<^verbatim>\<open>prepareForRunning\<close> and \<^verbatim>\<open>run\<close> of \<^verbatim>\<open>Duplicate\<close>, and the
  code written in line for a function that is no class.
\<close>

fun ask_outputs :: "nat list \<Rightarrow> 'w \<Rightarrow> ('w, 'a) node_prog" where
  "ask_outputs [] w = Return w 0"
| "ask_outputs (i # is) w =
     AskOverflow i None (\<lambda>b. if b then Return w (cg_status_code CG_SKIP_EXECUTION) else ask_outputs is w)"

definition duplicate_prepare :: "nat \<Rightarrow> 'w \<Rightarrow> ('w, 'a) node_prog" where
  "duplicate_prepare n w =
     AskUnderflow 0 None (\<lambda>b. if b then Return w (cg_status_code CG_SKIP_EXECUTION) else ask_outputs [0..<n] w)"

fun write_outputs :: "nat list \<Rightarrow> 'a list \<Rightarrow> 'w \<Rightarrow> ('w, 'a) node_prog" where
  "write_outputs [] xs w = Return w 0"
| "write_outputs (i # is) xs w = WriteBlock i None xs (write_outputs is xs w)"

definition duplicate_run :: "nat \<Rightarrow> 'w \<Rightarrow> ('w, 'a) node_prog" where
  "duplicate_run n w = ReadBlock 0 None (\<lambda>xs. write_outputs [0..<n] xs w)"

definition function_prepare :: "int \<Rightarrow> 'w \<Rightarrow> ('w, 'a) node_prog" where
  "function_prepare refused w =
     AskUnderflow 0 None (\<lambda>u. AskOverflow 0 None (\<lambda>v. Return w (if \<not> u \<and> \<not> v then 0 else refused)))"

definition function_run :: "('a list \<Rightarrow> 'a list) \<Rightarrow> 'w \<Rightarrow> ('w, 'a) node_prog" where
  "function_run f w = ReadBlock 0 None (\<lambda>xs. WriteBlock 0 None (f xs) (Return w 0))"

text \<open>For \<^verbatim>\<open>Duplicate\<close> these are the methods of the class, over any FIFOs in order.\<close>

lemma ask_outputs_run:
  "run_prog (ask_outputs is w) nd g = map_option (\<lambda>st. (g, w, cg_status_code st)) (dup_overflow_loop g nd is)"
  by (induction "is") (auto split: option.splits)

lemma duplicate_prepare_run:
  "run_prog (duplicate_prepare (getNbOutputs nd) w) nd g =
     map_option (\<lambda>st. (g, w, cg_status_code st)) (Duplicate_prepareForRunning g nd)"
  by (simp add: duplicate_prepare_def Duplicate_prepareForRunning_def ask_outputs_run split: option.splits)

lemma write_outputs_run: "run_prog (write_outputs is xs w) nd g = map_option (\<lambda>g'. (g', w, 0)) (emit_loop g nd xs is)"
  by (induction "is" arbitrary: g) (auto split: option.splits)

lemma duplicate_run_run:
  assumes "graph_ok g (insert src (set dst))" and "distinct (src # dst)" and "0 \<le> n"
    and "Duplicate_prepareForRunning g (Duplicate_new src dst n) = Some CG_SUCCESS"
  shows "run_prog (duplicate_run (length dst) w) (Duplicate_new src dst n) g =
    map_option (\<lambda>(g', st). (g', w, cg_status_code st)) (Duplicate_run g (Duplicate_new src dst n) n)"
proof (cases "node_getReadBuffer g (Duplicate_new src dst n) 0 None")
  case None
  then show ?thesis by (simp add: duplicate_run_def Duplicate_run_def)
next
  case (Some r)
  let ?nd = "Duplicate_new src dst n"
  obtain g1 a where read: "node_getReadBuffer g ?nd 0 None = Some (g1, a)" using Some by (cases r) simp
  note rdy = duplicate_ready [OF assms read]
  let ?xs = "mem_read (gmem g) a (nat n)"
  have "dup_copy_loop g1 ?nd n a [0..<length dst] = emit_loop g1 ?nd ?xs [0..<length dst]"
    using dup_copy_loop_emit [of g1 ?nd _ ?xs] rdy(1-3) assms(3) by simp
  moreover have "port_nb (srcs ?nd ! 0) None = n" by (simp add: port_nb_def Duplicate_new_def GenericToManyNode_def NodePort_def)
  ultimately show ?thesis
    by (simp add: duplicate_run_def Duplicate_run_def read rdy(3) write_outputs_run Duplicate_new_outputs
        option.map_comp o_def)
qed

section \<open>The generated function\<close>

text \<open>
  The methods of node \<open>k\<close> on the state \<open>'w\<close> of all nodes, and the macros of the application:
  \<^verbatim>\<open>CG_BEFORE_NODE_EXECUTION\<close>, \<^verbatim>\<open>CG_NODE_NOT_EXECUTED\<close>, \<^verbatim>\<open>CG_AFTER_NODE_EXECUTION\<close> and \<^verbatim>\<open>CG_AFTER_ITERATION\<close>.
\<close>

record ('w, 'a) async_code =
  ac_init :: "nat \<Rightarrow> 'w \<Rightarrow> 'w \<times> int"
  ac_prepare :: "nat \<Rightarrow> 'w \<Rightarrow> ('w, 'a) node_prog"
  ac_run :: "nat \<Rightarrow> 'w \<Rightarrow> ('w, 'a) node_prog"
  ac_before :: "nat \<Rightarrow> 'w \<Rightarrow> 'w \<times> int option"
  ac_skipped :: "nat \<Rightarrow> 'w \<Rightarrow> 'w"
  ac_after :: "nat \<Rightarrow> 'w \<Rightarrow> 'w"
  ac_iteration :: "'w \<Rightarrow> 'w"

text \<open>
  One iteration over the schedule. How the programs of a node act on the state \<open>'s\<close> of the graph is an
  argument, so that the network below runs the same loop. A number that is no node asks and runs nothing.
\<close>

type_synonym ('s, 'w, 'a) prog_runner = "nat \<Rightarrow> ('w, 'a) node_prog \<Rightarrow> 's \<Rightarrow> ('s \<times> 'w \<times> int) option"

fun async_schedule ::
    "('s, 'w, 'a) prog_runner \<Rightarrow> ('w, 'a) async_code \<Rightarrow> nat \<Rightarrow> nat list \<Rightarrow> 's \<Rightarrow> 'w \<Rightarrow> int \<Rightarrow> ('s \<times> 'w \<times> int \<times> bool) option" where
  "async_schedule ex C n [] s w err = Some (s, w, err, False)"
| "async_schedule ex C n (k # ks) s w err =
     (case ac_before C k w of
        (w1, Some e) \<Rightarrow> Some (s, w1, e, True)
      | (w1, None) \<Rightarrow>
          (case (if k < n then ex k (ac_prepare C k w1) s else Some (s, w1, 0)) of
             None \<Rightarrow> None
           | Some (s2, w2, e) \<Rightarrow>
               if e = cg_status_code CG_SKIP_EXECUTION then async_schedule ex C n ks s2 (ac_skipped C k w2) 0
               else if e < 0 then Some (s2, w2, e, True)
               else
                 (case (if k < n then ex k (ac_run C k w2) s2 else Some (s2, w2, e)) of
                    None \<Rightarrow> None
                  | Some (s3, w3, e3) \<Rightarrow>
                      if e3 < 0 then Some (s3, ac_after C k w3, e3, True)
                      else async_schedule ex C n ks s3 (ac_after C k w3) e3)))"

text \<open>The loop, with the iterations left and the number of iterations done.\<close>

fun async_loop ::
    "('s, 'w, 'a) prog_runner \<Rightarrow> ('w, 'a) async_code \<Rightarrow> nat \<Rightarrow> nat list \<Rightarrow> nat \<Rightarrow> 's \<Rightarrow> 'w \<Rightarrow> nat \<Rightarrow> ('s \<times> 'w \<times> nat \<times> int) option" where
  "async_loop ex C n sched 0 s w nb = Some (s, w, nb, 0)"
| "async_loop ex C n sched (Suc debugCounter) s w nb =
     (case async_schedule ex C n sched s w 0 of
        None \<Rightarrow> None
      | Some (s', w', e, jump) \<Rightarrow>
          if jump then Some (s', w', nb, e)
          else if e = 0 then async_loop ex C n sched debugCounter s' (ac_iteration C w') (Suc nb)
          else Some (s', ac_iteration C w', Suc nb, e))"

fun async_init :: "('w, 'a) async_code \<Rightarrow> nat list \<Rightarrow> 'w \<Rightarrow> 'w \<times> int" where
  "async_init C [] w = (w, 0)"
| "async_init C (k # ks) w =
     (case ac_init C k w of (w', e) \<Rightarrow> if e \<noteq> 0 then (w', e) else async_init C ks w')"

text \<open>The FIFO objects, \<^verbatim>\<open>FIFO<T, length, 0, 1>\<close> over their buffers.\<close>

definition async_fifos :: "fifo_decl list \<Rightarrow> int list \<Rightarrow> nat \<Rightarrow> fifo_obj" where
  "async_fifos ds bufs k = AsyncFIFO (fd_length (ds ! k)) (AFIFO_new (bufs ! k) (fd_delay (ds ! k)))"

definition graph_runner :: "node list \<Rightarrow> ('a graph, 'w, 'a) prog_runner" where
  "graph_runner nodes k p g = run_prog p (nodes ! k) g"

text \<open>The result is the number of iterations and the status left in \<^verbatim>\<open>*error\<close>.\<close>

definition async_scheduler ::
    "('w, 'a) async_code \<Rightarrow> graph_decl \<Rightarrow> int list \<Rightarrow> nat \<Rightarrow> 'a mem \<Rightarrow> 'w \<Rightarrow> ('a graph \<times> 'w \<times> nat \<times> int) option" where
  "async_scheduler C G bufs debugCounter m w =
     (let g = \<lparr>gmem = m, gfifo = async_fifos (gd_fifos G) bufs\<rparr>; n = length (gd_nodes G) in
      case async_init C [0..<n] w of
        (w', e) \<Rightarrow> if e \<noteq> 0 then Some (g, w', 0, e)
                   else async_loop (graph_runner (gd_nodes G)) C n (gd_schedule G) debugCounter g w' 0)"

text \<open>
  Only a negative status ends the loop: after a positive one of \<^verbatim>\<open>prepareForRunning\<close> the node runs.
\<close>

lemma positive_status_runs:
  assumes "ac_before C k w = (w1, None)" "k < n" "ex k (ac_prepare C k w1) s = Some (s2, w2, e)" "0 < e"
    and "ex k (ac_run C k w2) s2 = Some (s3, w3, 0)"
  shows "async_schedule ex C n (k # ks) s w err = async_schedule ex C n ks s3 (ac_after C k w3) 0"
  using assms by simp

section \<open>The network of bounded queues\<close>

primrec queue_prog :: "('w, 'a) node_prog \<Rightarrow> fifo_decl list \<Rightarrow> node \<Rightarrow> 'a queues \<Rightarrow> 'a queues \<times> 'w \<times> int" where
  "queue_prog (Return w e) ds nd q = (q, w, e)"
| "queue_prog (AskUnderflow k nb c) ds nd q =
     queue_prog (c (int (length (q (pfifo (srcs nd ! k)))) < port_nb (srcs nd ! k) nb)) ds nd q"
| "queue_prog (AskOverflow k nb c) ds nd q =
     queue_prog (c (fd_length (ds ! pfifo (dsts nd ! k)) < int (length (q (pfifo (dsts nd ! k)))) + port_nb (dsts nd ! k) nb))
       ds nd q"
| "queue_prog (ReadBlock k nb c) ds nd q =
     (let i = pfifo (srcs nd ! k); n = nat (port_nb (srcs nd ! k) nb)
      in queue_prog (c (take n (q i))) ds nd (q(i := drop n (q i))))"
| "queue_prog (WriteBlock k nb xs c) ds nd q =
     queue_prog c ds nd (q(pfifo (dsts nd ! k) := q (pfifo (dsts nd ! k)) @ xs))"

definition queue_runner :: "fifo_decl list \<Rightarrow> node list \<Rightarrow> ('a queues, 'w, 'a) prog_runner" where
  "queue_runner ds nodes k p q = Some (queue_prog p ds (nodes ! k) q)"

definition async_network ::
    "('w, 'a) async_code \<Rightarrow> graph_decl \<Rightarrow> nat \<Rightarrow> 'a queues \<Rightarrow> 'w \<Rightarrow> ('a queues \<times> 'w \<times> nat \<times> int) option" where
  "async_network C G debugCounter q w =
     (let n = length (gd_nodes G) in
      case async_init C [0..<n] w of
        (w', e) \<Rightarrow> if e \<noteq> 0 then Some (q, w', 0, e)
                   else async_loop (queue_runner (gd_fifos G) (gd_nodes G)) C n (gd_schedule G) debugCounter q w' 0)"

section \<open>Nodes that ask first\<close>

text \<open>
  What a program knows when it runs: \<open>A k\<close> samples are there at input \<open>k\<close>, room for \<open>R k\<close> samples at
  output \<open>k\<close>. It may read and write that much, whole blocks of the FIFO (\<open>b\<close>), and learns from the answers
  of the FIFOs; \<open>Q\<close> gets what it knows at the end.
\<close>

primrec asks_first ::
    "('w, 'a) node_prog \<Rightarrow> (nat \<Rightarrow> int) \<Rightarrow> node \<Rightarrow> (nat \<Rightarrow> int) \<Rightarrow> (nat \<Rightarrow> int) \<Rightarrow>
     ('w \<Rightarrow> int \<Rightarrow> (nat \<Rightarrow> int) \<Rightarrow> (nat \<Rightarrow> int) \<Rightarrow> bool) \<Rightarrow> bool" where
  "asks_first (Return w e) b nd A R Q \<longleftrightarrow> Q w e A R"
| "asks_first (AskUnderflow k nb c) b nd A R Q \<longleftrightarrow> k < length (srcs nd) \<and>
     asks_first (c True) b nd A R Q \<and> asks_first (c False) b nd (A(k := max (A k) (port_nb (srcs nd ! k) nb))) R Q"
| "asks_first (AskOverflow k nb c) b nd A R Q \<longleftrightarrow> k < length (dsts nd) \<and>
     asks_first (c True) b nd A R Q \<and> asks_first (c False) b nd A (R(k := max (R k) (port_nb (dsts nd ! k) nb))) Q"
| "asks_first (ReadBlock k nb c) b nd A R Q \<longleftrightarrow>
     (let n = port_nb (srcs nd ! k) nb in
      k < length (srcs nd) \<and> 0 \<le> n \<and> n \<le> A k \<and> b (pfifo (srcs nd ! k)) dvd n \<and>
      (\<forall>xs. length xs = nat n \<longrightarrow> asks_first (c xs) b nd (A(k := A k - n)) R Q))"
| "asks_first (WriteBlock k nb xs c) b nd A R Q \<longleftrightarrow>
     (let n = port_nb (dsts nd ! k) nb in
      k < length (dsts nd) \<and> int (length xs) = n \<and> n \<le> R k \<and> b (pfifo (dsts nd ! k)) dvd n \<and>
      asks_first c b nd A (R(k := R k - n)) Q)"

text \<open>
  A node asks in \<^verbatim>\<open>prepareForRunning\<close> and uses what it learnt in \<^verbatim>\<open>run\<close>, which the scheduler calls unless
  the status is negative.
\<close>

definition node_asks_first :: "('w, 'a) async_code \<Rightarrow> (nat \<Rightarrow> int) \<Rightarrow> node list \<Rightarrow> nat \<Rightarrow> bool" where
  "node_asks_first C b nodes k \<longleftrightarrow>
     (\<forall>w. asks_first (ac_prepare C k w) b (nodes ! k) (\<lambda>_. 0) (\<lambda>_. 0)
        (\<lambda>w' e A R. 0 \<le> e \<longrightarrow> asks_first (ac_run C k w') b (nodes ! k) A R (\<lambda>_ _ _ _. True)))"

definition ports_ok :: "fifo_decl list \<Rightarrow> node \<Rightarrow> bool" where
  "ports_ok ds nd \<longleftrightarrow> distinct (map pfifo (srcs nd @ dsts nd)) \<and> (\<forall>p\<in>set (srcs nd @ dsts nd). pfifo p < length ds)"

text \<open>A FIFO holds whole blocks, fewer than three, and its delay is whole blocks too.\<close>

definition small_fifo :: "int \<Rightarrow> fifo_decl \<Rightarrow> bool" where
  "small_fifo b d \<longleftrightarrow> 0 < b \<and> 0 \<le> fd_length d \<and> fd_length d < 3 * b \<and> 0 \<le> fd_delay d \<and> fd_delay d \<le> fd_length d \<and> b dvd fd_delay d"

definition small_fifos :: "(nat \<Rightarrow> int) \<Rightarrow> fifo_decl list \<Rightarrow> bool" where
  "small_fifos b ds \<longleftrightarrow> (\<forall>i<length ds. small_fifo (b i) (ds ! i))"

section \<open>Refinement\<close>

definition in_blocks :: "int \<Rightarrow> fifo_decl \<Rightarrow> int \<Rightarrow> fifo_obj \<Rightarrow> bool" where
  "in_blocks b d buf fo \<longleftrightarrow>
     (\<exists>f. fo = AsyncFIFO (fd_length d) f \<and> mBuffer f = buf \<and> fifo_inv (fd_length d) f \<and> b dvd readPos f \<and> b dvd writePos f)"

definition async_rep :: "fifo_decl list \<Rightarrow> (nat \<Rightarrow> int) \<Rightarrow> int list \<Rightarrow> 'a graph \<Rightarrow> 'a queues \<Rightarrow> bool" where
  "async_rep ds b bufs g q \<longleftrightarrow>
     (\<forall>i<length ds. in_blocks (b i) (ds ! i) (bufs ! i) (gfifo g i) \<and> gcontents g i = q i)"

text \<open>No overlap: positions are whole blocks, so two blocks behind a read block need three.\<close>

lemma in_blocks_write_defined:
  assumes "in_blocks b d buf fo" "small_fifo b d"
  shows "fo_getWriteBuffer m fo nb \<noteq> None"
proof
  assume none: "fo_getWriteBuffer m fo nb = None"
  obtain f where f: "fo = AsyncFIFO (fd_length d) f" "fifo_inv (fd_length d) f" "b dvd readPos f" "b dvd writePos f"
    using assms(1) by (auto simp: in_blocks_def)
  from none f(1) have "FIFO_getWriteBuffer m f nb = None" by (simp add: AFIFO_as_FIFO)
  then have o: "0 < readPos f" "readPos f + readPos f < writePos f"
    using FIFO_getWriteBuffer_None_iff [OF f(2), of m nb] by (auto simp: FIFO_nbSamplesInFIFO_def)
  obtain r w where rw: "readPos f = b * r" "writePos f = b * w" using f(3,4) by (auto simp: dvd_def)
  have b: "0 < b" "fd_length d < 3 * b" "writePos f \<le> fd_length d"
    using assms(2) f(2) by (simp_all add: small_fifo_def fifo_inv_def)
  have "0 < r" using o(1) b(1) unfolding rw by (simp add: zero_less_mult_iff)
  moreover have "b * (r + r) < b * w" using o(2) unfolding rw by (simp add: distrib_left)
  then have "r + r < w" using b(1) by simp
  ultimately have "b * 3 \<le> b * w" using b(1) by simp
  with b rw(2) show False by simp
qed

lemma in_blocks_inv: "in_blocks b d buf fo \<Longrightarrow> fo_inv fo \<and> fo_base fo = buf \<and> fo_len fo = fd_length d"
  by (auto simp: in_blocks_def)

lemma in_blocks_read:
  assumes "in_blocks b d buf fo" "0 \<le> n" "b dvd n" "\<not> fo_willUnderflowWith fo n" "fo_getReadBuffer fo n = (fo', p)"
  shows "in_blocks b d buf fo'"
  using assms by (auto simp: in_blocks_def AFIFO_as_FIFO FIFO_getReadBuffer_def FIFO_willUnderflowWith_def fifo_inv_def)

lemma in_blocks_write:
  assumes "in_blocks b d buf fo" "0 \<le> n" "b dvd n" "\<not> fo_willOverflowWith fo n"
    "fo_getWriteBuffer m fo n = Some (m', fo', p)"
  shows "in_blocks b d buf fo'"
  using assms
  by (auto simp: in_blocks_def AFIFO_as_FIFO FIFO_getWriteBuffer_def FIFO_willOverflowWith_def fifo_inv_def Let_def
      split: if_splits option.splits)

lemma async_rep_graph_ok:
  assumes "async_rep ds b bufs g q" "apart ds bufs"
  shows "graph_ok g {..<length ds}"
  unfolding graph_ok_def
proof (intro conjI ballI impI)
  fix i
  assume "i \<in> {..<length ds}"
  then show "fo_inv (gfifo g i)" using assms(1) in_blocks_inv by (fastforce simp: async_rep_def)
next
  fix i j
  assume ij: "i \<in> {..<length ds}" "j \<in> {..<length ds}" "i \<noteq> j"
  then have "in_blocks (b i) (ds ! i) (bufs ! i) (gfifo g i)" "in_blocks (b j) (ds ! j) (bufs ! j) (gfifo g j)"
    using assms(1) by (simp_all add: async_rep_def)
  with ij assms(2) show "fo_disjoint (gfifo g i) (gfifo g j)"
    using in_blocks_inv by (fastforce simp: fo_disjoint_def apart_def)
qed

lemma ask_underflow_ok:
  assumes "async_rep ds b bufs g q" "ports_ok ds nd" "k < length (srcs nd)"
  shows "node_willUnderflow g nd k nb = Some (int (length (q (pfifo (srcs nd ! k)))) < port_nb (srcs nd ! k) nb)"
proof -
  have i: "pfifo (srcs nd ! k) < length ds" using assms(2,3) by (simp add: ports_ok_def)
  then have "fo_inv (gfifo g (pfifo (srcs nd ! k)))" "gcontents g (pfifo (srcs nd ! k)) = q (pfifo (srcs nd ! k))"
    using assms(1) in_blocks_inv by (fastforce simp: async_rep_def)+
  with fo_underflow_iff [where m = "gmem g"] assms(3) show ?thesis
    by (auto simp: node_willUnderflow_def Let_def port_nb_def gcontents_def)
qed

lemma ask_overflow_ok:
  assumes "async_rep ds b bufs g q" "ports_ok ds nd" "k < length (dsts nd)"
  shows "node_willOverflow g nd k nb =
    Some (fd_length (ds ! pfifo (dsts nd ! k)) < int (length (q (pfifo (dsts nd ! k)))) + port_nb (dsts nd ! k) nb)"
proof -
  have i: "pfifo (dsts nd ! k) < length ds" using assms(2,3) by (simp add: ports_ok_def)
  then have fo: "in_blocks (b (pfifo (dsts nd ! k))) (ds ! pfifo (dsts nd ! k)) (bufs ! pfifo (dsts nd ! k)) (gfifo g (pfifo (dsts nd ! k)))"
    "gcontents g (pfifo (dsts nd ! k)) = q (pfifo (dsts nd ! k))"
    using assms(1) by (simp_all add: async_rep_def)
  from in_blocks_inv [OF fo(1)] fo(2) fo_overflow_iff [where m = "gmem g"] assms(3) show ?thesis
    by (auto simp: node_willOverflow_def Let_def port_nb_def gcontents_def)
qed

lemma read_port_ok:
  assumes rep: "async_rep ds b bufs g q" and ap: "apart ds bufs" and po: "ports_ok ds nd" and k: "k < length (srcs nd)"
    and n: "0 \<le> port_nb (srcs nd ! k) nb" "port_nb (srcs nd ! k) nb \<le> int (length (q (pfifo (srcs nd ! k))))"
      "b (pfifo (srcs nd ! k)) dvd port_nb (srcs nd ! k) nb"
  obtains g' p where "node_getReadBuffer g nd k nb = Some (g', p)" "gmem g' = gmem g"
    "mem_read (gmem g) p (nat (port_nb (srcs nd ! k) nb)) = take (nat (port_nb (srcs nd ! k) nb)) (q (pfifo (srcs nd ! k)))"
    "async_rep ds b bufs g' (q(pfifo (srcs nd ! k) := drop (nat (port_nb (srcs nd ! k) nb)) (q (pfifo (srcs nd ! k)))))"
proof -
  let ?i = "pfifo (srcs nd ! k)" and ?n = "port_nb (srcs nd ! k) nb"
  have i: "?i < length ds" using po k by (simp add: ports_ok_def)
  obtain fo p where fo: "fo_getReadBuffer (gfifo g ?i) ?n = (fo, p)" by fastforce
  let ?g = "g\<lparr>gfifo := (gfifo g)(?i := fo)\<rparr>"
  have get: "node_getReadBuffer g nd k nb = Some (?g, p)"
    using k fo by (simp add: node_getReadBuffer_def Let_def port_nb_def)
  have un: "node_willUnderflow g nd k nb = Some False" using ask_underflow_ok [OF rep po k] n(2) by simp
  have nn: "(case nb of None \<Rightarrow> psize (srcs nd ! k) | Some n \<Rightarrow> n) = int (nat ?n)"
    using n(1) by (simp add: port_nb_def)
  have inS: "?i \<in> {..<length ds}" using i by simp
  note r = node_read_spec [OF async_rep_graph_ok [OF rep ap] inS k un nn get]
  have bl: "in_blocks (b ?i) (ds ! ?i) (bufs ! ?i) (gfifo g ?i)" "gcontents g ?i = q ?i"
    using rep i by (simp_all add: async_rep_def)
  have "\<not> fo_willUnderflowWith (gfifo g ?i) ?n" using un k by (simp add: node_willUnderflow_def Let_def port_nb_def)
  then have "in_blocks (b ?i) (ds ! ?i) (bufs ! ?i) fo" using in_blocks_read [OF bl(1) n(1,3) _ fo] by simp
  moreover have cut: "take (nat ?n) (q ?i) = mem_read (gmem g) p (nat ?n)" "drop (nat ?n) (q ?i) = gcontents ?g ?i"
    using r(4) bl(2) by (auto simp: append_eq_conv_conj)
  moreover have "gcontents ?g j = gcontents g j" if "j \<noteq> ?i" for j using that by (simp add: gcontents_def)
  ultimately have "async_rep ds b bufs ?g (q(?i := drop (nat ?n) (q ?i)))"
    using rep by (auto simp: async_rep_def)
  with get cut(1) show thesis by (intro that [of ?g p]) auto
qed

lemma write_port_ok:
  assumes rep: "async_rep ds b bufs g q" and ap: "apart ds bufs" and po: "ports_ok ds nd" and k: "k < length (dsts nd)"
    and small: "small_fifos b ds"
    and n: "int (length xs) = port_nb (dsts nd ! k) nb"
      "port_nb (dsts nd ! k) nb \<le> fd_length (ds ! pfifo (dsts nd ! k)) - int (length (q (pfifo (dsts nd ! k))))"
      "b (pfifo (dsts nd ! k)) dvd port_nb (dsts nd ! k) nb"
  obtains g1 p where "node_getWriteBuffer g nd k nb = Some (g1, p)"
    "async_rep ds b bufs (g1\<lparr>gmem := mem_write (gmem g1) p xs\<rparr>) (q(pfifo (dsts nd ! k) := q (pfifo (dsts nd ! k)) @ xs))"
    "untouched ds bufs (gmem g) (mem_write (gmem g1) p xs)"
proof -
  let ?i = "pfifo (dsts nd ! k)" and ?n = "port_nb (dsts nd ! k) nb"
  have i: "?i < length ds" using po k by (simp add: ports_ok_def)
  have bl: "in_blocks (b ?i) (ds ! ?i) (bufs ! ?i) (gfifo g ?i)" "gcontents g ?i = q ?i"
    using rep i by (simp_all add: async_rep_def)
  have "small_fifo (b ?i) (ds ! ?i)" using small i by (simp add: small_fifos_def)
  from in_blocks_write_defined [OF bl(1) this, of "gmem g" ?n] obtain m fo p where
    fo: "fo_getWriteBuffer (gmem g) (gfifo g ?i) ?n = Some (m, fo, p)" by auto
  let ?g = "g\<lparr>gmem := m, gfifo := (gfifo g)(?i := fo)\<rparr>"
  let ?h = "?g\<lparr>gmem := mem_write (gmem ?g) p xs\<rparr>"
  have get: "node_getWriteBuffer g nd k nb = Some (?g, p)"
    using k fo by (simp add: node_getWriteBuffer_def Let_def port_nb_def)
  have ov: "node_willOverflow g nd k nb = Some False" using ask_overflow_ok [OF rep po k] n(2) by simp
  have nn: "(case nb of None \<Rightarrow> psize (dsts nd ! k) | Some n \<Rightarrow> n) = int (length xs)" using n(1) by (simp add: port_nb_def)
  have inS: "?i \<in> {..<length ds}" using i by simp
  note r = node_write_spec [OF async_rep_graph_ok [OF rep ap] inS k ov nn get refl]
  have "\<not> fo_willOverflowWith (gfifo g ?i) ?n" using ov k by (simp add: node_willOverflow_def Let_def port_nb_def)
  then have "in_blocks (b ?i) (ds ! ?i) (bufs ! ?i) fo" using in_blocks_write [OF bl(1) _ n(3) _ fo] n(1) by simp
  then have "async_rep ds b bufs ?h (q(?i := q ?i @ xs))"
    unfolding async_rep_def
  proof (intro allI impI conjI)
    fix j
    assume j: "j < length ds"
    show "in_blocks (b j) (ds ! j) (bufs ! j) (gfifo ?h j)"
      using rep j \<open>in_blocks (b ?i) (ds ! ?i) (bufs ! ?i) fo\<close> by (simp add: async_rep_def)
    show "gcontents ?h j = (q(?i := q ?i @ xs)) j"
    proof (cases "j = ?i")
      case True
      then show ?thesis using r(3) bl(2) by simp
    next
      case False
      have "gcontents g j = q j" using rep j by (simp add: async_rep_def)
      with r(5) [of j] False j show ?thesis by simp
    qed
  qed
  moreover have "untouched ds bufs (gmem g) (mem_write (gmem ?g) p xs)"
    using r(6) i in_blocks_inv [OF bl(1)] by (auto simp: untouched_def)
  ultimately show thesis using get by (intro that [of ?g p]) auto
qed

definition knows :: "fifo_decl list \<Rightarrow> node \<Rightarrow> 'a queues \<Rightarrow> (nat \<Rightarrow> int) \<Rightarrow> (nat \<Rightarrow> int) \<Rightarrow> bool" where
  "knows ds nd q A R \<longleftrightarrow> (\<forall>k<length (srcs nd). A k \<le> int (length (q (pfifo (srcs nd ! k))))) \<and>
     (\<forall>k<length (dsts nd). R k \<le> fd_length (ds ! pfifo (dsts nd ! k)) - int (length (q (pfifo (dsts nd ! k)))))"

lemma ports_differ:
  assumes "ports_ok ds nd"
  shows "k < length (srcs nd) \<Longrightarrow> j < length (srcs nd) \<Longrightarrow> pfifo (srcs nd ! k) = pfifo (srcs nd ! j) \<longleftrightarrow> k = j"
    and "k < length (dsts nd) \<Longrightarrow> j < length (dsts nd) \<Longrightarrow> pfifo (dsts nd ! k) = pfifo (dsts nd ! j) \<longleftrightarrow> k = j"
    and "k < length (srcs nd) \<Longrightarrow> j < length (dsts nd) \<Longrightarrow> pfifo (srcs nd ! k) \<noteq> pfifo (dsts nd ! j)"
proof -
  have d: "distinct (map pfifo (srcs nd))" "distinct (map pfifo (dsts nd))"
    "pfifo ` set (srcs nd) \<inter> pfifo ` set (dsts nd) = {}"
    using assms by (auto simp: ports_ok_def)
  show "pfifo (srcs nd ! k) = pfifo (srcs nd ! j) \<longleftrightarrow> k = j" if "k < length (srcs nd)" "j < length (srcs nd)"
    using nth_eq_iff_index_eq [OF d(1), of k j] that by simp
  show "pfifo (dsts nd ! k) = pfifo (dsts nd ! j) \<longleftrightarrow> k = j" if "k < length (dsts nd)" "j < length (dsts nd)"
    using nth_eq_iff_index_eq [OF d(2), of k j] that by simp
  show "pfifo (srcs nd ! k) \<noteq> pfifo (dsts nd ! j)" if "k < length (srcs nd)" "j < length (dsts nd)"
    using d(3) that by (metis disjoint_iff imageI nth_mem)
qed

lemma knows_read:
  assumes "ports_ok ds nd" "knows ds nd q A R" "k < length (srcs nd)" "0 \<le> n" "n \<le> A k"
  shows "knows ds nd (q(pfifo (srcs nd ! k) := drop (nat n) (q (pfifo (srcs nd ! k))))) (A(k := A k - n)) R"
  using assms ports_differ [OF assms(1)] by (fastforce simp: knows_def of_nat_diff)

lemma knows_write:
  assumes "ports_ok ds nd" "knows ds nd q A R" "k < length (dsts nd)"
  shows "knows ds nd (q(pfifo (dsts nd ! k) := q (pfifo (dsts nd ! k)) @ xs)) A (R(k := R k - int (length xs)))"
  using assms ports_differ [OF assms(1)] by (fastforce simp: knows_def)

text \<open>A program that asks first does on the FIFOs what it does on the queues.\<close>

lemma prog_ok:
  assumes ap: "apart ds bufs" and po: "ports_ok ds nd" and small: "small_fifos b ds"
  shows "async_rep ds b bufs g q \<Longrightarrow> asks_first p b nd A R Q \<Longrightarrow> knows ds nd q A R \<Longrightarrow>
    (case queue_prog p ds nd q of (q', w, e) \<Rightarrow>
       \<exists>g' A' R'. run_prog p nd g = Some (g', w, e) \<and> async_rep ds b bufs g' q' \<and> untouched ds bufs (gmem g) (gmem g') \<and>
         knows ds nd q' A' R' \<and> Q w e A' R')"
proof (induction p arbitrary: g q A R)
  case (Return w e)
  then show ?case by auto
next
  case (AskUnderflow k nb c)
  then have k: "k < length (srcs nd)" by simp
  let ?a = "int (length (q (pfifo (srcs nd ! k)))) < port_nb (srcs nd ! k) nb"
  note ask = ask_underflow_ok [OF AskUnderflow.prems(1) po k, of nb]
  have "asks_first (c ?a) b nd (if ?a then A else A(k := max (A k) (port_nb (srcs nd ! k) nb))) R Q"
    using AskUnderflow.prems(2) by (cases ?a) simp_all
  moreover have "knows ds nd q (if ?a then A else A(k := max (A k) (port_nb (srcs nd ! k) nb))) R"
    using AskUnderflow.prems(3) by (auto simp: knows_def)
  ultimately show ?case
    using AskUnderflow.IH [OF rangeI AskUnderflow.prems(1), of ?a] by (simp add: ask)
next
  case (AskOverflow k nb c)
  then have k: "k < length (dsts nd)" by simp
  let ?a = "fd_length (ds ! pfifo (dsts nd ! k)) < int (length (q (pfifo (dsts nd ! k)))) + port_nb (dsts nd ! k) nb"
  note ask = ask_overflow_ok [OF AskOverflow.prems(1) po k, of nb]
  have "asks_first (c ?a) b nd A (if ?a then R else R(k := max (R k) (port_nb (dsts nd ! k) nb))) Q"
    using AskOverflow.prems(2) by (cases ?a) simp_all
  moreover have "knows ds nd q A (if ?a then R else R(k := max (R k) (port_nb (dsts nd ! k) nb)))"
    using AskOverflow.prems(3) by (auto simp: knows_def)
  ultimately show ?case
    using AskOverflow.IH [OF rangeI AskOverflow.prems(1), of ?a] by (simp add: ask)
next
  case (ReadBlock k nb c)
  let ?i = "pfifo (srcs nd ! k)" and ?n = "port_nb (srcs nd ! k) nb"
  from ReadBlock.prems(2) have k: "k < length (srcs nd)" and n: "0 \<le> ?n" "?n \<le> A k" "b ?i dvd ?n"
    and next_prog: "\<And>xs. length xs = nat ?n \<Longrightarrow> asks_first (c xs) b nd (A(k := A k - ?n)) R Q"
    by (simp_all add: Let_def)
  have le: "?n \<le> int (length (q ?i))" using ReadBlock.prems(3) k n(2) by (fastforce simp: knows_def)
  obtain g' p where g': "node_getReadBuffer g nd k nb = Some (g', p)" "gmem g' = gmem g"
    "mem_read (gmem g) p (nat ?n) = take (nat ?n) (q ?i)"
    "async_rep ds b bufs g' (q(?i := drop (nat ?n) (q ?i)))"
    using read_port_ok [OF ReadBlock.prems(1) ap po k n(1) le n(3)] by blast
  have "asks_first (c (take (nat ?n) (q ?i))) b nd (A(k := A k - ?n)) R Q" by (rule next_prog) (use le in simp)
  from ReadBlock.IH [OF rangeI g'(4) this knows_read [OF po ReadBlock.prems(3) k n(1,2)]] show ?case
    using g'(1-3) by (simp add: Let_def fun_upd_def)
next
  case (WriteBlock k nb xs c)
  let ?i = "pfifo (dsts nd ! k)" and ?n = "port_nb (dsts nd ! k) nb"
  from WriteBlock.prems(2) have k: "k < length (dsts nd)" and n: "int (length xs) = ?n" "?n \<le> R k" "b ?i dvd ?n"
    and next_prog: "asks_first c b nd A (R(k := R k - int (length xs))) Q"
    by (simp_all add: Let_def)
  have le: "?n \<le> fd_length (ds ! ?i) - int (length (q ?i))" using WriteBlock.prems(3) k n(2) by (fastforce simp: knows_def)
  obtain g1 p where g1: "node_getWriteBuffer g nd k nb = Some (g1, p)"
    "async_rep ds b bufs (g1\<lparr>gmem := mem_write (gmem g1) p xs\<rparr>) (q(?i := q ?i @ xs))"
    "untouched ds bufs (gmem g) (mem_write (gmem g1) p xs)"
    using write_port_ok [OF WriteBlock.prems(1) ap po k small n(1) le n(3)] by blast
  from WriteBlock.IH [OF g1(2) next_prog knows_write [OF po WriteBlock.prems(3) k]] show ?case
    using g1(1) untouched_trans [OF g1(3)] by (fastforce split: prod.splits)
qed

definition asks_first_code :: "('w, 'a) async_code \<Rightarrow> (nat \<Rightarrow> int) \<Rightarrow> graph_decl \<Rightarrow> bool" where
  "asks_first_code C b G \<longleftrightarrow>
     (\<forall>k<length (gd_nodes G). ports_ok (gd_fifos G) (gd_nodes G ! k) \<and> node_asks_first C b (gd_nodes G) k)"

lemma knows_nothing: "ports_ok ds nd \<Longrightarrow> async_rep ds b bufs g q \<Longrightarrow> knows ds nd q (\<lambda>_. 0) (\<lambda>_. 0)"
proof -
  assume po: "ports_ok ds nd" and rep: "async_rep ds b bufs g q"
  have "int (length (q i)) \<le> fd_length (ds ! i)" if "i < length ds" for i
  proof -
    have bl: "in_blocks (b i) (ds ! i) (bufs ! i) (gfifo g i)" "gcontents g i = q i"
      using rep that by (simp_all add: async_rep_def)
    then obtain f where "gfifo g i = AsyncFIFO (fd_length (ds ! i)) f" "fifo_inv (fd_length (ds ! i)) f"
      by (auto simp: in_blocks_def)
    moreover have "length (q i) = length (fifo_contents (gmem g) f)"
      using bl(2) calculation(1) by (simp add: gcontents_def flip: bl(2))
    ultimately show ?thesis by (simp add: FIFO_nbSamplesInFIFO_def fifo_inv_def)
  qed
  with po show ?thesis by (auto simp: knows_def ports_ok_def)
qed

text \<open>One execution of a node: what it asks, and what it does when it runs.\<close>

lemma async_step_ok:
  assumes ap: "apart (gd_fifos G) bufs" and small: "small_fifos b (gd_fifos G)" and code: "asks_first_code C b G"
    and k: "k < length (gd_nodes G)" and rep: "async_rep (gd_fifos G) b bufs g q"
    and p: "queue_prog (ac_prepare C k w) (gd_fifos G) (gd_nodes G ! k) q = (q1, w1, e1)"
  obtains g1 where "run_prog (ac_prepare C k w) (gd_nodes G ! k) g = Some (g1, w1, e1)"
    "async_rep (gd_fifos G) b bufs g1 q1" "untouched (gd_fifos G) bufs (gmem g) (gmem g1)"
    "0 \<le> e1 \<longrightarrow> (case queue_prog (ac_run C k w1) (gd_fifos G) (gd_nodes G ! k) q1 of (q2, w2, e2) \<Rightarrow>
       \<exists>g2. run_prog (ac_run C k w1) (gd_nodes G ! k) g1 = Some (g2, w2, e2) \<and>
         async_rep (gd_fifos G) b bufs g2 q2 \<and> untouched (gd_fifos G) bufs (gmem g1) (gmem g2))"
proof -
  let ?ds = "gd_fifos G" and ?nd = "gd_nodes G ! k"
  have po: "ports_ok ?ds ?nd" and asks: "asks_first (ac_prepare C k w) b ?nd (\<lambda>_. 0) (\<lambda>_. 0)
      (\<lambda>w' e A R. 0 \<le> e \<longrightarrow> asks_first (ac_run C k w') b ?nd A R (\<lambda>_ _ _ _. True))"
    using code k by (simp_all add: asks_first_code_def node_asks_first_def)
  from prog_ok [OF ap po small rep asks knows_nothing [OF po rep]] p obtain g1 A R where
    g1: "run_prog (ac_prepare C k w) ?nd g = Some (g1, w1, e1)" "async_rep ?ds b bufs g1 q1"
      "untouched ?ds bufs (gmem g) (gmem g1)" "knows ?ds ?nd q1 A R"
    and run: "0 \<le> e1 \<longrightarrow> asks_first (ac_run C k w1) b ?nd A R (\<lambda>_ _ _ _. True)" by auto
  have "0 \<le> e1 \<longrightarrow> (case queue_prog (ac_run C k w1) ?ds ?nd q1 of (q2, w2, e2) \<Rightarrow>
       \<exists>g2. run_prog (ac_run C k w1) ?nd g1 = Some (g2, w2, e2) \<and>
         async_rep ?ds b bufs g2 q2 \<and> untouched ?ds bufs (gmem g1) (gmem g2))"
    using prog_ok [OF ap po small g1(2) _ g1(4)] run by (fastforce split: prod.splits)
  with g1(1-3) show thesis by (rule that)
qed

lemma async_schedule_ok:
  assumes ap: "apart (gd_fifos G) bufs" and small: "small_fifos b (gd_fifos G)" and code: "asks_first_code C b G"
    and n: "n = length (gd_nodes G)"
  shows "async_rep (gd_fifos G) b bufs g q \<Longrightarrow>
    \<exists>q' w' e jump g'. async_schedule (queue_runner (gd_fifos G) (gd_nodes G)) C n ks q w err = Some (q', w', e, jump) \<and>
      async_schedule (graph_runner (gd_nodes G)) C n ks g w err = Some (g', w', e, jump) \<and>
      async_rep (gd_fifos G) b bufs g' q' \<and> untouched (gd_fifos G) bufs (gmem g) (gmem g')"
proof (induction ks arbitrary: g q w err)
  case (Cons k ks)
  obtain w0 stop where before: "ac_before C k w = (w0, stop)" by fastforce
  show ?case
  proof (cases "stop = None \<and> k < n")
    case False
    then show ?thesis
      using before Cons Cons.IH [OF Cons.prems] by (cases stop) auto
  next
    case True
    then have k: "k < length (gd_nodes G)" and stop: "stop = None" using n by simp_all
    obtain q1 w1 e1 where p: "queue_prog (ac_prepare C k w0) (gd_fifos G) (gd_nodes G ! k) q = (q1, w1, e1)"
      by (cases "queue_prog (ac_prepare C k w0) (gd_fifos G) (gd_nodes G ! k) q") auto
    from async_step_ok [OF ap small code k Cons.prems p] obtain g1 where
      g1: "run_prog (ac_prepare C k w0) (gd_nodes G ! k) g = Some (g1, w1, e1)" "async_rep (gd_fifos G) b bufs g1 q1"
        "untouched (gd_fifos G) bufs (gmem g) (gmem g1)"
      and run: "0 \<le> e1 \<longrightarrow> (case queue_prog (ac_run C k w1) (gd_fifos G) (gd_nodes G ! k) q1 of (q2, w2, e2) \<Rightarrow>
        \<exists>g2. run_prog (ac_run C k w1) (gd_nodes G ! k) g1 = Some (g2, w2, e2) \<and>
          async_rep (gd_fifos G) b bufs g2 q2 \<and> untouched (gd_fifos G) bufs (gmem g1) (gmem g2))" by blast
    note first = before stop k n p g1(1) queue_runner_def graph_runner_def
    consider (skip) "e1 = cg_status_code CG_SKIP_EXECUTION" | (error) "e1 < 0" "e1 \<noteq> cg_status_code CG_SKIP_EXECUTION"
      | (run) "0 \<le> e1" by linarith
    then show ?thesis
    proof cases
      case skip
      with Cons.IH [OF g1(2), of "ac_skipped C k w1" 0] untouched_trans [OF g1(3)] show ?thesis
        by (auto simp: first)
    next
      case error
      with g1 show ?thesis by (auto simp: first)
    next
      case go: run
      obtain q2 w2 e2 where q2: "queue_prog (ac_run C k w1) (gd_fifos G) (gd_nodes G ! k) q1 = (q2, w2, e2)"
        by (cases "queue_prog (ac_run C k w1) (gd_fifos G) (gd_nodes G ! k) q1") auto
      with run go obtain g2 where g2: "run_prog (ac_run C k w1) (gd_nodes G ! k) g1 = Some (g2, w2, e2)"
        "async_rep (gd_fifos G) b bufs g2 q2" "untouched (gd_fifos G) bufs (gmem g1) (gmem g2)" by auto
      have "untouched (gd_fifos G) bufs (gmem g) (gmem g2)" by (rule untouched_trans [OF g1(3) g2(3)])
      with Cons.IH [OF g2(2), of "ac_after C k w2" e2] untouched_trans [of _ _ "gmem g" "gmem g2"] go g2(1,2) q2
      show ?thesis by (cases "e2 < 0") (auto simp: first)
    qed
  qed
qed auto

lemma async_loop_ok:
  assumes ap: "apart (gd_fifos G) bufs" and small: "small_fifos b (gd_fifos G)" and code: "asks_first_code C b G"
    and n: "n = length (gd_nodes G)"
  shows "async_rep (gd_fifos G) b bufs g q \<Longrightarrow>
    \<exists>q' w' nb' e g'. async_loop (queue_runner (gd_fifos G) (gd_nodes G)) C n sched limit q w nb = Some (q', w', nb', e) \<and>
      async_loop (graph_runner (gd_nodes G)) C n sched limit g w nb = Some (g', w', nb', e) \<and>
      async_rep (gd_fifos G) b bufs g' q' \<and> untouched (gd_fifos G) bufs (gmem g) (gmem g')"
proof (induction limit arbitrary: g q w nb)
  case (Suc limit)
  from async_schedule_ok [OF ap small code n Suc.prems] obtain q1 w1 e jump g1 where
    1: "async_schedule (queue_runner (gd_fifos G) (gd_nodes G)) C n sched q w 0 = Some (q1, w1, e, jump)"
      "async_schedule (graph_runner (gd_nodes G)) C n sched g w 0 = Some (g1, w1, e, jump)"
      "async_rep (gd_fifos G) b bufs g1 q1" "untouched (gd_fifos G) bufs (gmem g) (gmem g1)" by metis
  with Suc.IH [OF 1(3), of "ac_iteration C w1" "Suc nb"] untouched_trans [OF 1(4)] show ?case
    by (cases "jump \<or> e \<noteq> 0") auto
qed auto

lemma async_fifos_rep:
  assumes "small_fifos b ds"
  shows "async_rep ds b bufs \<lparr>gmem = m, gfifo = async_fifos ds bufs\<rparr> (\<lambda>i. mem_read m (bufs ! i) (nat (fd_delay (ds ! i))))"
  using assms
  by (auto simp: async_rep_def in_blocks_def async_fifos_def AFIFO_as_FIFO FIFO_new_def fifo_inv_def small_fifos_def
      small_fifo_def gcontents_def fifo_contents_def)

lemma async_refines:
  assumes "apart (gd_fifos G) bufs" "small_fifos b (gd_fifos G)" "asks_first_code C b G"
  shows "\<exists>g' q' w' nb e. async_scheduler C G bufs debugCounter m w = Some (g', w', nb, e) \<and>
    async_network C G debugCounter (\<lambda>i. mem_read m (bufs ! i) (nat (fd_delay (gd_fifos G ! i)))) w = Some (q', w', nb, e) \<and>
    (\<forall>i<length (gd_fifos G). gcontents g' i = q' i) \<and> untouched (gd_fifos G) bufs m (gmem g')"
proof -
  let ?g = "\<lparr>gmem = m, gfifo = async_fifos (gd_fifos G) bufs\<rparr>"
    and ?q = "\<lambda>i. mem_read m (bufs ! i) (nat (fd_delay (gd_fifos G ! i)))"
  obtain w1 e where init: "async_init C [0..<length (gd_nodes G)] w = (w1, e)" by fastforce
  have rep: "async_rep (gd_fifos G) b bufs ?g ?q" by (rule async_fifos_rep [OF assms(2)])
  show ?thesis
  proof (cases "e = 0")
    case True
    from async_loop_ok [OF assms refl rep, of "gd_schedule G" debugCounter w1 0] init True show ?thesis
      by (fastforce simp: async_scheduler_def async_network_def async_rep_def Let_def)
  next
    case False
    with init rep show ?thesis by (simp add: async_scheduler_def async_network_def async_rep_def Let_def)
  qed
qed

section \<open>Properties\<close>

text \<open>
  C5. A graph in asynchronous mode whose nodes ask before they read and write, whatever else they do, and
  whose FIFOs hold fewer than three blocks behaves for any number of iterations as the network of bounded
  queues: no access of the generated scheduler is undefined, its nodes see the blocks and the answers, and
  it returns the count and the status that the network gives; it writes nothing outside its buffers and
  leaves in every FIFO what the network leaves in the queue.
\<close>
theorem async_scheduler_refines_queues:
  assumes "apart (gd_fifos G) bufs" "small_fifos b (gd_fifos G)" "asks_first_code C b G"
  shows "\<exists>g' q' w' nb e. async_scheduler C G bufs debugCounter m w = Some (g', w', nb, e) \<and>
    async_network C G debugCounter (\<lambda>i. mem_read m (bufs ! i) (nat (fd_delay (gd_fifos G ! i)))) w = Some (q', w', nb, e) \<and>
    (\<forall>i<length (gd_fifos G). gcontents g' i = q' i) \<and> untouched (gd_fifos G) bufs m (gmem g')"
  by (rule async_refines [OF assms])

text \<open>Accesses to one FIFO in whole blocks, by a producer and a consumer that ask first.\<close>

fun whole_blocks :: "nat \<Rightarrow> 'a act \<Rightarrow> bool" where
  "whole_blocks b (Put xs) \<longleftrightarrow> b dvd length xs"
| "whole_blocks b (Get n) \<longleftrightarrow> b dvd n"

lemma block_transfer_defined:
  assumes small: "0 < b" "fd_length d < 3 * int b" "0 \<le> fd_length d" "fd_delay d = 0"
  shows "in_blocks (int b) d buf (AsyncFIFO (fd_length d) f) \<Longrightarrow> list_all (whole_blocks b) acts \<Longrightarrow>
    transfer (\<lambda>s. AFIFO_willOverflowWith (fd_length d) (snd s)) (\<lambda>s. AFIFO_willUnderflowWith (snd s))
      AFIFO_put AFIFO_get (m, f) acts \<noteq> None"
proof (induction acts arbitrary: m f)
  case (Cons a acts)
  have sm: "small_fifo (int b) d" using small by (simp add: small_fifo_def)
  show ?case
  proof (cases a)
    case (Put xs)
    let ?n = "int (length xs)"
    show ?thesis
    proof (cases "AFIFO_willOverflowWith (fd_length d) f ?n")
      case False
      from in_blocks_write_defined [OF Cons.prems(1) sm, of m ?n] obtain m1 f1 p where
        w: "AFIFO_getWriteBuffer m f ?n = Some (m1, f1, p)" by auto
      have "in_blocks (int b) d buf (AsyncFIFO (fd_length d) f1)"
        by (rule in_blocks_write [OF Cons.prems(1), of ?n m m1 _ p]) (use Cons.prems(2) Put False w in auto)
      with Cons.IH [of f1 "mem_write m1 p xs"] Cons.prems(2) Put False w show ?thesis
        by (auto simp: AFIFO_put_def)
    qed (use Cons Put in simp)
  next
    case (Get n)
    show ?thesis
    proof (cases "AFIFO_willUnderflowWith f (int n)")
      case False
      obtain f1 p where r: "AFIFO_getReadBuffer f (int n) = (f1, p)" by fastforce
      have "in_blocks (int b) d buf (AsyncFIFO (fd_length d) f1)"
        by (rule in_blocks_read [OF Cons.prems(1), of "int n" _ p]) (use Cons.prems(2) Get False r in auto)
      with Cons.IH [of f1 m] Cons.prems(2) Get False r show ?thesis
        by (auto simp: AFIFO_get_def)
    qed (use Cons Get in simp)
  qed
qed simp

text \<open>
  C15. When an asynchronous FIFO is safe: every sequence of writes and reads of whole blocks that asks for
  overflow and underflow first is defined exactly when the FIFO holds fewer than three blocks. With room
  for three there is a sequence that passes all tests and ends in a \<^verbatim>\<open>memcpy\<close> between overlapping regions.
\<close>
theorem async_fifo_safe_iff:
  assumes "0 < b"
  shows "(\<forall>acts. list_all (whole_blocks b) acts \<longrightarrow>
      transfer (\<lambda>s. AFIFO_willOverflowWith (int len) (snd s)) (\<lambda>s. AFIFO_willUnderflowWith (snd s))
        AFIFO_put AFIFO_get (m :: 'a mem, AFIFO_new buf 0) acts \<noteq> None) \<longleftrightarrow> len < 3 * b"
proof
  assume "len < 3 * b"
  then have "int len < 3 * int b" by simp
  moreover have "in_blocks (int b) \<lparr>fd_length = int len, fd_array = False, fd_delay = 0\<rparr> buf (AsyncFIFO (int len) (AFIFO_new buf 0))"
    by (simp add: in_blocks_def AFIFO_as_FIFO FIFO_new_def fifo_inv_def)
  ultimately show "\<forall>acts. list_all (whole_blocks b) acts \<longrightarrow>
      transfer (\<lambda>s. AFIFO_willOverflowWith (int len) (snd s)) (\<lambda>s. AFIFO_willUnderflowWith (snd s))
        AFIFO_put AFIFO_get (m, AFIFO_new buf 0) acts \<noteq> None"
    using block_transfer_defined [OF assms, of "\<lparr>fd_length = int len, fd_array = False, fd_delay = 0\<rparr>" buf]
    by (simp del: not_None_eq) blast
next
  let ?x = "replicate b (undefined :: 'a)"
  let ?acts = "[Put ?x, Put ?x, Put ?x, Get b, Put ?x]"
  assume safe: "\<forall>acts. list_all (whole_blocks b) acts \<longrightarrow>
      transfer (\<lambda>s. AFIFO_willOverflowWith (int len) (snd s)) (\<lambda>s. AFIFO_willUnderflowWith (snd s))
        AFIFO_put AFIFO_get (m, AFIFO_new buf 0) acts \<noteq> None"
  show "len < 3 * b"
  proof (rule ccontr)
    assume "\<not> len < 3 * b"
    then have "3 * int b \<le> int len" by simp
    then have "transfer (\<lambda>s. AFIFO_willOverflowWith (int len) (snd s)) (\<lambda>s. AFIFO_willUnderflowWith (snd s))
        AFIFO_put AFIFO_get (m, AFIFO_new buf 0) ?acts = None"
      using assms
      by (simp add: AFIFO_as_FIFO FIFO_put_def FIFO_get_def FIFO_getWriteBuffer_def fifo_defs memcpy_def regions_overlap_def)
    moreover have "list_all (whole_blocks b) ?acts" by simp
    ultimately show False using safe by blast
  qed
qed

theorem async_fifo_safe_iff_witness:
  "\<not> (\<forall>acts. list_all (whole_blocks 1) acts \<longrightarrow>
      transfer (\<lambda>s. AFIFO_willOverflowWith (int 3) (snd s)) (\<lambda>s. AFIFO_willUnderflowWith (snd s))
        AFIFO_put AFIFO_get (\<lambda>_. 0 :: int, AFIFO_new 0 0) acts \<noteq> None)"
proof -
  have "\<not> 3 < 3 * (1 :: nat)" by simp
  then show ?thesis using async_fifo_safe_iff [OF zero_less_one, of 3 "\<lambda>_. 0 :: int" 0] by blast
qed

end
