(* ===== verification/AsyncExamples.thy ===== *)
theory AsyncExamples
  imports AsyncScheduler
begin

text \<open>
  The example of the asynchronous mode with a loop (\<^verbatim>\<open>Examples/example11\<close>): two sources that take turns,
  a node that adds what is there and gets its own output back, and sinks. Its nodes ask first and its FIFOs
  are small, so the generated scheduler is the network of queues, and what it prints can be computed.
\<close>

section \<open>The nodes\<close>

text \<open>
  The state is the global \<^verbatim>\<open>count\<close>, which the macro \<^verbatim>\<open>CG_AFTER_ITERATION\<close> increments, and what has been
  printed. Samples are \<^verbatim>\<open>int16_t\<close>.
\<close>

record odd_even =
  count :: int
  stdout :: "int list"

type_synonym i16_prog = "(odd_even, 16 word) node_prog"

abbreviation skip_if :: "odd_even \<Rightarrow> bool \<Rightarrow> i16_prog" where
  "skip_if w b \<equiv> Return w (if b then cg_status_code CG_SKIP_EXECUTION else 0)"

definition SourceOdd_prepareForRunning :: "odd_even \<Rightarrow> i16_prog" where
  "SourceOdd_prepareForRunning w = AskOverflow 0 None (skip_if w)"

definition SourceOdd_run :: "odd_even \<Rightarrow> i16_prog" where
  "SourceOdd_run w = (if odd (count w) then WriteBlock 0 None [word_of_int (count w)] (Return w 0) else Return w 0)"

definition SourceEven_prepareForRunning :: "odd_even \<Rightarrow> i16_prog" where
  "SourceEven_prepareForRunning w = AskOverflow 0 None (skip_if w)"

definition SourceEven_run :: "odd_even \<Rightarrow> i16_prog" where
  "SourceEven_run w = (if even (count w) then WriteBlock 0 None [word_of_int (count w)] (Return w 0) else Return w 0)"

definition ProcessingOddEven_prepareForRunning :: "odd_even \<Rightarrow> i16_prog" where
  "ProcessingOddEven_prepareForRunning w = AskOverflow 0 None (skip_if w)"

text \<open>An input that is read when it does not underflow, and 0 otherwise.\<close>

definition read_if_there :: "nat \<Rightarrow> (16 word \<Rightarrow> i16_prog) \<Rightarrow> i16_prog" where
  "read_if_there k c = AskUnderflow k None (\<lambda>u. if u then c 0 else ReadBlock k None (\<lambda>xs. c (xs ! 0)))"

definition ProcessingOddEven_run :: "odd_even \<Rightarrow> i16_prog" where
  "ProcessingOddEven_run w =
     read_if_there 0 (\<lambda>oddVal. read_if_there 1 (\<lambda>evenVal. read_if_there 2 (\<lambda>other.
       WriteBlock 0 None [evenVal + oddVal] (Return w 0))))"

definition SinkAsync_prepareForRunning :: "odd_even \<Rightarrow> i16_prog" where
  "SinkAsync_prepareForRunning w = AskUnderflow 0 None (skip_if w)"

definition SinkAsync_run :: "odd_even \<Rightarrow> i16_prog" where
  "SinkAsync_run w = ReadBlock 0 None (\<lambda>b. Return (w\<lparr>stdout := stdout w @ map sint b\<rparr>) 0)"

definition NullSink_prepareForRunning :: "odd_even \<Rightarrow> i16_prog" where
  "NullSink_prepareForRunning w = AskUnderflow 0 None (skip_if w)"

definition NullSink_run :: "odd_even \<Rightarrow> i16_prog" where
  "NullSink_run w = ReadBlock 0 None (\<lambda>b. Return w 0)"

definition compute :: "16 word list \<Rightarrow> 16 word list" where
  "compute xs = [xs ! 0]"

section \<open>The graph\<close>

definition async_fifo_decl :: "int \<Rightarrow> fifo_decl" where
  "async_fifo_decl len = \<lparr>fd_length = len, fd_array = False, fd_delay = 0\<rparr>"

definition example11_graph :: graph_decl where
  "example11_graph = \<lparr>
     gd_fifos = map async_fifo_decl [1, 2, 2, 1, 2, 2, 2, 2, 2, 2, 2, 2, 2],
     gd_nodes = [GenericNode 1 1 5 1, GenericSink 4 1, GenericSink 9 1, GenericSink 10 1, GenericSink 11 1, GenericSink 12 1,
       Duplicate_new 2 [3, 4] 1, Duplicate_new 5 [6, 7, 8, 9, 10, 11, 12] 1, GenericNode31 3 1 0 1 6 1 1 1,
       GenericSink 7 1, GenericSink 8 1, GenericSource 0 1, GenericSource 2 1],
     gd_schedule = [11, 12, 6, 1, 8, 0, 7, 2, 3, 4, 5, 9, 10]\<rparr>"

definition example11_prepare :: "nat \<Rightarrow> odd_even \<Rightarrow> i16_prog" where
  "example11_prepare k w =
     (if k = 0 then function_prepare (cg_status_code CG_SKIP_EXECUTION) w
      else if k \<le> 5 then NullSink_prepareForRunning w
      else if k = 6 then duplicate_prepare 2 w
      else if k = 7 then duplicate_prepare 7 w
      else if k = 8 then ProcessingOddEven_prepareForRunning w
      else if k \<le> 10 then SinkAsync_prepareForRunning w
      else if k = 11 then SourceEven_prepareForRunning w
      else SourceOdd_prepareForRunning w)"

definition example11_run :: "nat \<Rightarrow> odd_even \<Rightarrow> i16_prog" where
  "example11_run k w =
     (if k = 0 then function_run compute w
      else if k \<le> 5 then NullSink_run w
      else if k = 6 then duplicate_run 2 w
      else if k = 7 then duplicate_run 7 w
      else if k = 8 then ProcessingOddEven_run w
      else if k \<le> 10 then SinkAsync_run w
      else if k = 11 then SourceEven_run w
      else SourceOdd_run w)"

text \<open>The nodes have the initialisation of \<^verbatim>\<open>StreamNode\<close>; the other macros are empty.\<close>

definition example11_code :: "(odd_even, 16 word) async_code" where
  "example11_code = \<lparr>ac_init = (\<lambda>k w. (w, 0)), ac_prepare = example11_prepare, ac_run = example11_run,
     ac_before = (\<lambda>k w. (w, None)), ac_skipped = (\<lambda>k w. w), ac_after = (\<lambda>k w. w),
     ac_iteration = (\<lambda>w. w\<lparr>count := count w + 1\<rparr>)\<rparr>"

lemmas example11_progs = example11_prepare_def example11_run_def NullSink_prepareForRunning_def NullSink_run_def
  duplicate_prepare_def duplicate_run_def function_prepare_def function_run_def compute_def
  ProcessingOddEven_prepareForRunning_def ProcessingOddEven_run_def read_if_there_def
  SinkAsync_prepareForRunning_def SinkAsync_run_def SourceEven_prepareForRunning_def SourceEven_run_def
  SourceOdd_prepareForRunning_def SourceOdd_run_def

lemmas example11_nodes = GenericNode_def GenericSink_def GenericSource_def GenericNode31_def Duplicate_new_def
  GenericToManyNode_def NodePort_def

lemma example11_small: "small_fifos (\<lambda>_. 1) (gd_fifos example11_graph)"
proof -
  have "\<forall>d\<in>set (gd_fifos example11_graph). small_fifo 1 d"
    by (simp add: example11_graph_def async_fifo_decl_def small_fifo_def)
  then show ?thesis by (simp add: small_fifos_def)
qed

lemma upt_7: "[0..<7] = [0, 1, 2, 3, 4, 5, 6 :: nat]"
  by (simp add: upt_rec)

lemma upt_2: "[0..<2] = [0, 1 :: nat]"
  by (simp add: upt_rec)

lemma example11_asks_first: "asks_first_code example11_code (\<lambda>_. 1) example11_graph"
proof -
  have "k < 13 \<Longrightarrow> ports_ok (gd_fifos example11_graph) (gd_nodes example11_graph ! k) \<and>
      node_asks_first example11_code (\<lambda>_. 1) (gd_nodes example11_graph) k" for k
  proof -
    assume "k < 13"
    then have "k \<in> {0, 1, 2, 3, 4, 5, 6, 7, 8, 9, 10, 11, 12}" unfolding insert_iff empty_iff by arith
    then show ?thesis
      by (auto simp: example11_graph_def example11_nodes ports_ok_def node_asks_first_def example11_code_def
          example11_progs upt_7 upt_2 port_nb_def Let_def)
  qed
  then show ?thesis by (simp add: asks_first_code_def example11_graph_def)
qed

section \<open>One iteration of the network\<close>

abbreviation example11_runner :: "(16 word queues, odd_even, 16 word) prog_runner" where
  "example11_runner \<equiv> queue_runner (gd_fifos example11_graph) (gd_nodes example11_graph)"

abbreviation example11_turn :: "nat \<Rightarrow> nat list \<Rightarrow> 16 word queues \<Rightarrow> odd_even \<Rightarrow> int \<Rightarrow> (16 word queues \<times> odd_even \<times> int \<times> bool) option" where
  "example11_turn k ks q w err \<equiv> async_schedule example11_runner example11_code 13 (k # ks) q w err"

lemmas example11_step = queue_runner_def example11_code_def example11_progs example11_graph_def example11_nodes
  upt_7 upt_2 port_nb_def async_fifo_decl_def Let_def

lemma example11_turns:
  "q 0 = [] \<Longrightarrow> example11_turn 11 ks q w err =
     async_schedule example11_runner example11_code 13 ks (if even (count w) then q(0 := [word_of_int (count w)]) else q) w 0"
  "q 2 = [] \<Longrightarrow> example11_turn 12 ks q w err =
     async_schedule example11_runner example11_code 13 ks (if odd (count w) then q(2 := [word_of_int (count w)]) else q) w 0"
  "q 2 = [] \<Longrightarrow> example11_turn 6 ks q w err = async_schedule example11_runner example11_code 13 ks q w 0"
  "q 2 = [x] \<Longrightarrow> q 3 = [] \<Longrightarrow> q 4 = [] \<Longrightarrow> example11_turn 6 ks q w err =
     async_schedule example11_runner example11_code 13 ks (q(2 := [], 3 := [x], 4 := [x])) w 0"
  "q 4 = [] \<Longrightarrow> example11_turn 1 ks q w err = async_schedule example11_runner example11_code 13 ks q w 0"
  "q 4 = [x] \<Longrightarrow> example11_turn 1 ks q w err = async_schedule example11_runner example11_code 13 ks (q(4 := [])) w 0"
  "q 1 = [] \<Longrightarrow> q 0 = [x] \<Longrightarrow> q 3 = [] \<Longrightarrow> q 6 = [] \<Longrightarrow> example11_turn 8 ks q w err = async_schedule example11_runner example11_code 13 ks (q(0 := [], 1 := [x])) w 0"
  "q 1 = [] \<Longrightarrow> q 0 = [x] \<Longrightarrow> q 3 = [] \<Longrightarrow> q 6 = [y] \<Longrightarrow> example11_turn 8 ks q w err = async_schedule example11_runner example11_code 13 ks (q(0 := [], 6 := [], 1 := [x])) w 0"
  "q 1 = [] \<Longrightarrow> q 0 = [] \<Longrightarrow> q 3 = [x] \<Longrightarrow> q 6 = [] \<Longrightarrow> example11_turn 8 ks q w err = async_schedule example11_runner example11_code 13 ks (q(3 := [], 1 := [x])) w 0"
  "q 1 = [] \<Longrightarrow> q 0 = [] \<Longrightarrow> q 3 = [x] \<Longrightarrow> q 6 = [y] \<Longrightarrow> example11_turn 8 ks q w err = async_schedule example11_runner example11_code 13 ks (q(3 := [], 6 := [], 1 := [x])) w 0"
  "q 1 = [x] \<Longrightarrow> q 5 = [] \<Longrightarrow> example11_turn 0 ks q w err = async_schedule example11_runner example11_code 13 ks (q(1 := [], 5 := [x])) w 0"
  "q 5 = [x] \<Longrightarrow> q 6 = [] \<Longrightarrow> q 7 = [] \<Longrightarrow> q 8 = [] \<Longrightarrow> q 9 = [] \<Longrightarrow> q 10 = [] \<Longrightarrow> q 11 = [] \<Longrightarrow> q 12 = [] \<Longrightarrow>
   example11_turn 7 ks q w err =
     async_schedule example11_runner example11_code 13 ks
       (q(5 := [], 6 := [x], 7 := [x], 8 := [x], 9 := [x], 10 := [x], 11 := [x], 12 := [x])) w 0"
  "q 9 = [x] \<Longrightarrow> example11_turn 2 ks q w err = async_schedule example11_runner example11_code 13 ks (q(9 := [])) w 0"
  "q 10 = [x] \<Longrightarrow> example11_turn 3 ks q w err = async_schedule example11_runner example11_code 13 ks (q(10 := [])) w 0"
  "q 11 = [x] \<Longrightarrow> example11_turn 4 ks q w err = async_schedule example11_runner example11_code 13 ks (q(11 := [])) w 0"
  "q 12 = [x] \<Longrightarrow> example11_turn 5 ks q w err = async_schedule example11_runner example11_code 13 ks (q(12 := [])) w 0"
  "q 7 = [x] \<Longrightarrow> example11_turn 9 ks q w err =
     async_schedule example11_runner example11_code 13 ks (q(7 := [])) (w\<lparr>stdout := stdout w @ [sint x]\<rparr>) 0"
  "q 8 = [x] \<Longrightarrow> example11_turn 10 ks q w err =
     async_schedule example11_runner example11_code 13 ks (q(8 := [])) (w\<lparr>stdout := stdout w @ [sint x]\<rparr>) 0"
  by (simp_all add: example11_step)

text \<open>Between iterations only the queue of the loop may hold a sample.\<close>

definition example11_idle :: "16 word queues \<Rightarrow> bool" where
  "example11_idle q \<longleftrightarrow> (\<forall>i\<in>{0, 1, 2, 3, 4, 5, 7, 8, 9, 10, 11, 12}. q i = []) \<and> (q 6 = [] \<or> (\<exists>y. q 6 = [y]))"

abbreviation i16 :: "int \<Rightarrow> int" where
  "i16 n \<equiv> sint (word_of_int n :: 16 word)"

lemma example11_iteration:
  assumes "example11_idle q"
  shows "\<exists>q'. async_schedule example11_runner example11_code 13 (gd_schedule example11_graph) q w err =
    Some (q', w\<lparr>stdout := stdout w @ [i16 (count w), i16 (count w)]\<rparr>, 0, False) \<and> example11_idle q'"
proof -
  have sched: "gd_schedule example11_graph = [11, 12, 6, 1, 8, 0, 7, 2, 3, 4, 5, 9, 10]" by (simp add: example11_graph_def)
  have q: "q 0 = []" "q 1 = []" "q 2 = []" "q 3 = []" "q 4 = []" "q 5 = []" "q 7 = []" "q 8 = []" "q 9 = []" "q 10 = []"
    "q 11 = []" "q 12 = []" and q6: "q 6 = [] \<or> (\<exists>y. q 6 = [y])"
    using assms by (simp_all add: example11_idle_def)
  note go = example11_turns q example11_idle_def
  show ?thesis
  proof (cases "even (count w)")
    case True
    with q6 show ?thesis unfolding sched by (elim disjE exE) (simp_all add: go del: async_schedule.simps(2) One_nat_def)
  next
    case False
    with q6 show ?thesis unfolding sched by (elim disjE exE) (simp_all add: go del: async_schedule.simps(2) One_nat_def)
  qed
qed

lemma example11_loop:
  "example11_idle q \<Longrightarrow> \<exists>q'. async_loop example11_runner example11_code 13 (gd_schedule example11_graph) n q w nb =
     Some (q', \<lparr>count = count w + int n,
       stdout = stdout w @ concat (map (\<lambda>i. [i16 (count w + int i), i16 (count w + int i)]) [0..<n])\<rparr>, nb + n, 0)"
proof (induction n arbitrary: q w nb)
  case (Suc n)
  from example11_iteration [OF Suc.prems, of w 0] obtain q1 where
    one: "async_schedule example11_runner example11_code 13 (gd_schedule example11_graph) q w 0 =
      Some (q1, w\<lparr>stdout := stdout w @ [i16 (count w), i16 (count w)]\<rparr>, 0, False)" "example11_idle q1" by blast
  let ?w = "\<lparr>count = count w + 1, stdout = stdout w @ [i16 (count w), i16 (count w)]\<rparr>"
  have next_state: "ac_iteration example11_code (w\<lparr>stdout := stdout w @ [i16 (count w), i16 (count w)]\<rparr>) = ?w"
    by (simp add: example11_code_def)
  have shift: "concat (map (\<lambda>i. [i16 (count w + int i), i16 (count w + int i)]) [0..<Suc n]) =
      [i16 (count w), i16 (count w)] @ concat (map (\<lambda>i. [i16 (count w + 1 + int i), i16 (count w + 1 + int i)]) [0..<n])"
    by (subst upt_conv_Cons) (simp_all add: map_Suc_upt [symmetric] o_def algebra_simps del: upt_Suc)
  from Suc.IH [OF one(2), of ?w "Suc nb"] show ?case
    unfolding shift by (simp add: one(1) next_state algebra_simps del: upt_Suc)
qed simp

lemma example11_init: "async_init example11_code ks w = (w, 0)"
  by (induction ks) (simp_all add: example11_code_def)

section \<open>Properties\<close>

text \<open>
  C8. The generated scheduler of the example, run for any number of iterations on buffers that do not
  overlap, is defined and returns that number and no error, and the two sinks have printed the numbers from
  0 on, each twice (cut to 16 bits): the turns of the sources are neither lost nor mixed, and what comes
  back over the loop does not disturb them.
\<close>
theorem example11_output:
  assumes "apart (gd_fifos example11_graph) bufs"
  shows "\<exists>g'. async_scheduler example11_code example11_graph bufs n m \<lparr>count = 0, stdout = []\<rparr> =
    Some (g', \<lparr>count = int n, stdout = concat (map (\<lambda>i. [i16 (int i), i16 (int i)]) [0..<n])\<rparr>, n, 0)"
proof -
  let ?q = "\<lambda>i. mem_read m (bufs ! i) (nat (fd_delay (gd_fifos example11_graph ! i)))"
  have "?q i = []" if "i < 13" for i
  proof -
    have "\<forall>d\<in>set (gd_fifos example11_graph). fd_delay d = 0" by (simp add: example11_graph_def async_fifo_decl_def)
    moreover have "i < length (gd_fifos example11_graph)" using that by (simp add: example11_graph_def)
    ultimately have "fd_delay (gd_fifos example11_graph ! i) = 0" using nth_mem by blast
    then show ?thesis by simp
  qed
  then have "example11_idle ?q" by (simp add: example11_idle_def)
  moreover have "length (gd_nodes example11_graph) = 13" by (simp add: example11_graph_def)
  ultimately show ?thesis
    using async_refines [OF assms example11_small example11_asks_first, of n m "\<lparr>count = 0, stdout = []\<rparr>"]
      example11_loop [of ?q n "\<lparr>count = 0, stdout = []\<rparr>" 0]
    by (auto simp: async_network_def example11_init)
qed

definition example11_buffers :: "int list" where
  "example11_buffers = [0, 1, 3, 5, 6, 8, 10, 12, 14, 16, 18, 20, 22]"

lemma example11_apart: "apart (gd_fifos example11_graph) example11_buffers"
  unfolding apart_def example11_graph_def example11_buffers_def async_fifo_decl_def
  by (auto simp: less_Suc_eq numeral_eq_Suc nth_Cons')

theorem example11_output_witness:
  "\<exists>g'. async_scheduler example11_code example11_graph example11_buffers 10 (\<lambda>_. 0) \<lparr>count = 0, stdout = []\<rparr> =
     Some (g', \<lparr>count = 10, stdout = [0, 0, 1, 1, 2, 2, 3, 3, 4, 4, 5, 5, 6, 6, 7, 7, 8, 8, 9, 9]\<rparr>, 10, 0)"
proof -
  have "concat (map (\<lambda>i. [i16 (int i), i16 (int i)]) [0..<10]) =
      [0, 0, 1, 1, 2, 2, 3, 3, 4, 4, 5, 5, 6, 6, 7, 7, 8, 8, 9, 9]"
    by (simp add: upt_rec)
  with example11_output [OF example11_apart, of 10 "\<lambda>_. 0"] show ?thesis by simp
qed

theorem async_scheduler_refines_queues_witness:
  "\<exists>g' q' w' nb e. async_scheduler example11_code example11_graph example11_buffers 3 (\<lambda>_. 0) \<lparr>count = 0, stdout = []\<rparr> = Some (g', w', nb, e) \<and>
     async_network example11_code example11_graph 3
       (\<lambda>i. mem_read (\<lambda>_. 0) (example11_buffers ! i) (nat (fd_delay (gd_fifos example11_graph ! i)))) \<lparr>count = 0, stdout = []\<rparr> =
       Some (q', w', nb, e) \<and>
     (\<forall>i<length (gd_fifos example11_graph). gcontents g' i = q' i) \<and>
     untouched (gd_fifos example11_graph) example11_buffers (\<lambda>_. 0) (gmem g')"
  by (rule async_scheduler_refines_queues [OF example11_apart example11_small example11_asks_first])

end
