(* ===== verification/CallbackScheduler.thy ===== *)
theory CallbackScheduler
  imports SchedulerExamples
begin

text \<open>
  The scheduler function the generator writes in callback mode (\<^verbatim>\<open>Examples/callback/scheduler.cpp\<close>): a node
  may pause the scheduler, the function then returns, and its next call goes on at that node. What is
  kept between two calls is the structure \<^verbatim>\<open>cb_state\<close>. Pausing does not change what the graph computes.
\<close>

section \<open>The generated function\<close>

datatype cb_phase = CG_PAUSED_SCHEDULER_ID | CG_SCHEDULER_NOT_STARTED_ID | CG_SCHEDULER_RUNNING_ID

record cb_state =
  scheduleStateID :: nat
  nbSched :: u32
  cb_status :: cb_phase
  running :: kCBStatus

definition init_cb_state :: cb_state where
  "init_cb_state = \<lparr>scheduleStateID = 0, nbSched = 0, cb_status = CG_SCHEDULER_NOT_STARTED_ID, running = kNewExecution\<rparr>"

text \<open>
  The state of the FIFOs is \<open>'s\<close> and the state of the nodes and of the application \<open>'w\<close>. \<open>cb_set\<close> is
  \<^verbatim>\<open>setExecutionStatus\<close> of node \<open>k\<close>, which does nothing for a function, and \<open>cb_run\<close> its method \<^verbatim>\<open>run\<close>;
  \<open>cb_begin\<close> stands for \<^verbatim>\<open>CG_BEFORE_SCHEDULE\<close> and \<^verbatim>\<open>CG_RESTORE_STATE_MACHINE_STATE\<close>, \<open>cb_save\<close> for
  \<^verbatim>\<open>CG_SAVE_STATE_MACHINE_STATE\<close>. The other macros are empty.
\<close>

record ('s, 'w) cb_code =
  cb_set :: "nat \<Rightarrow> kCBStatus \<Rightarrow> 'w \<Rightarrow> 'w"
  cb_run :: "nat \<Rightarrow> 's \<Rightarrow> 'w \<Rightarrow> ('s \<times> 'w \<times> int) option"
  cb_begin :: "'w \<Rightarrow> 'w"
  cb_save :: "'w \<Rightarrow> 'w"

text \<open>The rest of an iteration from index \<open>i\<close>; the last result says whether the loop was left by a jump.\<close>

fun cb_iteration ::
    "('s, 'w) cb_code \<Rightarrow> nat \<Rightarrow> nat list \<Rightarrow> nat \<Rightarrow> u32 \<Rightarrow> cb_state \<Rightarrow> 's \<Rightarrow> 'w \<Rightarrow> int \<Rightarrow>
     (cb_state \<times> 's \<times> 'w \<times> int \<times> bool) option" where
  "cb_iteration C n [] i nb c s w err = Some (c, s, w, err, False)"
| "cb_iteration C n (k # ks) i nb c s w err =
     (case (if k < n then cb_run C k s (cb_set C k (running c) w) else Some (s, w, err)) of
        None \<Rightarrow> None
      | Some (s1, w1, e) \<Rightarrow>
          if e = cg_status_code CG_PAUSED_SCHEDULER then
            Some (c\<lparr>cb_status := CG_PAUSED_SCHEDULER_ID, nbSched := nb, scheduleStateID := i, running := kResumedExecution\<rparr>,
              s1, cb_save C w1, e, True)
          else if e < 0 then Some (c\<lparr>running := kNewExecution\<rparr>, s1, w1, e, True)
          else cb_iteration C n ks (Suc i) nb (c\<lparr>running := kNewExecution\<rparr>) s1 w1 e)"

text \<open>
  The loop, for at most \<open>fuel\<close> iterations: the result is the number of iterations done and the status, which
  is \<open>None\<close> when the function is still running.
\<close>

fun cb_loop ::
    "('s, 'w) cb_code \<Rightarrow> nat \<Rightarrow> nat list \<Rightarrow> nat \<Rightarrow> u32 \<Rightarrow> cb_state \<Rightarrow> 's \<Rightarrow> 'w \<Rightarrow>
     (cb_state \<times> 's \<times> 'w \<times> u32 \<times> int option) option" where
  "cb_loop C n sched 0 nb c s w = Some (c, s, w, nb, None)"
| "cb_loop C n sched (Suc fuel) nb c s w =
     (let (i, c0) =
        (if cb_status c = CG_PAUSED_SCHEDULER_ID then (scheduleStateID c, c\<lparr>cb_status := CG_SCHEDULER_RUNNING_ID\<rparr>) else (0, c))
      in case cb_iteration C n (drop i sched) i nb c0 s w 0 of
           None \<Rightarrow> None
         | Some (c', s', w', e, jump) \<Rightarrow>
             if jump then Some (c', s', w', nb, Some e)
             else if e = 0 then cb_loop C n sched fuel (nb + 1) c' s' w'
             else Some (c', s', w', nb + 1, Some e))"

definition callback_scheduler ::
    "('s, 'w) cb_code \<Rightarrow> nat \<Rightarrow> nat list \<Rightarrow> nat \<Rightarrow> cb_state \<Rightarrow> 's \<Rightarrow> 'w \<Rightarrow>
     (cb_state \<times> 's \<times> 'w \<times> u32 \<times> int option) option" where
  "callback_scheduler C n sched fuel c s w =
     cb_loop C n sched fuel (if cb_status c = CG_PAUSED_SCHEDULER_ID then nbSched c else 0) c s (cb_begin C w)"

text \<open>
  Calls one after the other, each with what the application does before it; the calls end with one that is
  still running.
\<close>

fun callback_calls ::
    "('s, 'w) cb_code \<Rightarrow> nat \<Rightarrow> nat list \<Rightarrow> nat \<Rightarrow> ('w \<Rightarrow> 'w) list \<Rightarrow> cb_state \<Rightarrow> 's \<Rightarrow> 'w \<Rightarrow>
     (cb_state \<times> 's \<times> 'w \<times> (u32 \<times> int option) list) option" where
  "callback_calls C n sched fuel [] c s w = Some (c, s, w, [])"
| "callback_calls C n sched fuel (a # as) c s w =
     (case callback_scheduler C n sched fuel c s (a w) of
        None \<Rightarrow> None
      | Some (c1, s1, w1, nb, None) \<Rightarrow> Some (c1, s1, w1, [(nb, None)])
      | Some (c1, s1, w1, nb, Some e) \<Rightarrow>
          map_option (\<lambda>(c2, s2, w2, rs). (c2, s2, w2, (nb, Some e) # rs)) (callback_calls C n sched fuel as c1 s1 w1))"

section \<open>The walk over the schedule\<close>

text \<open>
  The position of the scheduler is the number of node executions completed since the start. A paused
  structure keeps it as the number of iterations and an index.
\<close>

definition paused_at :: "nat list \<Rightarrow> cb_state \<Rightarrow> nat \<Rightarrow> bool" where
  "paused_at sched c p \<longleftrightarrow> cb_status c = CG_PAUSED_SCHEDULER_ID \<and> nbSched c = of_nat (p div length sched) \<and>
     scheduleStateID c = p mod length sched \<and> running c = kResumedExecution"

definition at_position :: "nat list \<Rightarrow> cb_state \<Rightarrow> nat \<Rightarrow> bool" where
  "at_position sched c p \<longleftrightarrow> paused_at sched c p \<or> cb_status c \<noteq> CG_PAUSED_SCHEDULER_ID \<and> p = 0"

text \<open>
  What one execution of a node does to an invariant of the position: a paused one stays where it is, and
  \<open>Q\<close> holds there, any other one moves the invariant \<open>P\<close> to the next position.
\<close>

definition executes :: "('s, 'w) cb_code \<Rightarrow> nat list \<Rightarrow> (nat \<Rightarrow> 's \<Rightarrow> 'w \<Rightarrow> bool) \<Rightarrow> (nat \<Rightarrow> 's \<Rightarrow> 'w \<Rightarrow> bool) \<Rightarrow> nat \<Rightarrow> 's \<Rightarrow> 'w \<Rightarrow> bool" where
  "executes C sched P Q p s w \<longleftrightarrow>
     (case cb_run C (sched ! (p mod length sched)) s w of
        None \<Rightarrow> False
      | Some (s', w', e) \<Rightarrow> e = cg_status_code CG_PAUSED_SCHEDULER \<and> Q p s' (cb_save C w') \<or> e = 0 \<and> P (Suc p) s' w')"

definition walks :: "('s, 'w) cb_code \<Rightarrow> nat list \<Rightarrow> (nat \<Rightarrow> 's \<Rightarrow> 'w \<Rightarrow> bool) \<Rightarrow> (nat \<Rightarrow> 's \<Rightarrow> 'w \<Rightarrow> bool) \<Rightarrow> bool" where
  "walks C sched P Q \<longleftrightarrow>
     (\<forall>p s w b. P p s w \<longrightarrow> executes C sched P Q p s (cb_set C (sched ! (p mod length sched)) b w))"

lemma walks_run:
  assumes "walks C sched P Q" "P p s w"
  obtains s' w' e where
    "cb_run C (sched ! (p mod length sched)) s (cb_set C (sched ! (p mod length sched)) b w) = Some (s', w', e)"
    "e = cg_status_code CG_PAUSED_SCHEDULER \<and> Q p s' (cb_save C w') \<or> e = 0 \<and> P (Suc p) s' w'"
proof -
  have "executes C sched P Q p s (cb_set C (sched ! (p mod length sched)) b w)"
    using assms unfolding walks_def by blast
  with that show thesis unfolding executes_def by (auto split: option.splits)
qed

lemma cb_iteration_walks:
  assumes walk: "walks C sched P Q" and nodes: "set sched \<subseteq> {..<n}"
  shows "i + length ks = length sched \<Longrightarrow> ks = drop i sched \<Longrightarrow> P (j * length sched + i) s w \<Longrightarrow>
    \<exists>c' s' w' e jump. cb_iteration C n ks i nb c s w 0 = Some (c', s', w', e, jump) \<and>
      (if jump then e = cg_status_code CG_PAUSED_SCHEDULER \<and> nbSched c' = nb \<and> cb_status c' = CG_PAUSED_SCHEDULER_ID \<and>
         running c' = kResumedExecution \<and> i \<le> scheduleStateID c' \<and> scheduleStateID c' < length sched \<and>
         Q (j * length sched + scheduleStateID c') s' w'
       else e = 0 \<and> cb_status c' = cb_status c \<and> P (Suc j * length sched) s' w')"
proof (induction ks arbitrary: i c s w)
  case Nil
  then show ?case by (simp add: add.commute exI [of _ False])
next
  case (Cons k ks)
  let ?p = "j * length sched + i"
  have i: "i < length sched" using Cons.prems(1) by simp
  have k: "sched ! i = k" using Cons.prems(2) by (metis nth_via_drop)
  then have p: "sched ! (?p mod length sched) = k" using i by simp
  have "k < n" using nodes i k nth_mem by blast
  obtain s1 w1 e where run: "cb_run C k s (cb_set C k (running c) w) = Some (s1, w1, e)"
    and next_p: "e = cg_status_code CG_PAUSED_SCHEDULER \<and> Q ?p s1 (cb_save C w1) \<or> e = 0 \<and> P (Suc ?p) s1 w1"
    using walks_run [OF walk Cons.prems(3), of "running c"] unfolding p by blast
  show ?case
  proof (cases "e = cg_status_code CG_PAUSED_SCHEDULER")
    case True
    with next_p run \<open>k < n\<close> i show ?thesis by (simp add: exI [of _ True])
  next
    case False
    with next_p have e: "e = 0" "P (j * length sched + Suc i) s1 w1" by simp_all
    have "Suc i + length ks = length sched" using Cons.prems(1) by simp
    moreover have "ks = drop (Suc i) sched" using Cons.prems(2) by (metis drop_Suc list.sel(3) tl_drop)
    ultimately have rest: "Suc i + length ks = length sched" "ks = drop (Suc i) sched" .
    from Cons.IH [OF rest e(2), of "c\<lparr>running := kNewExecution\<rparr>"] run \<open>k < n\<close> e(1) show ?thesis
      by (auto split: if_splits) (metis Suc_leD)+
  qed
qed

text \<open>How a call ends: paused at a position, or still running after the iterations it was given.\<close>

definition call_end :: "nat list \<Rightarrow> nat \<Rightarrow> (nat \<Rightarrow> 's \<Rightarrow> 'w \<Rightarrow> bool) \<Rightarrow> (nat \<Rightarrow> 's \<Rightarrow> 'w \<Rightarrow> bool) \<Rightarrow>
    cb_state \<Rightarrow> 's \<Rightarrow> 'w \<Rightarrow> u32 \<Rightarrow> int option \<Rightarrow> nat \<Rightarrow> bool" where
  "call_end sched fuel P Q c s w nb r p \<longleftrightarrow> nb = of_nat (p div length sched) \<and>
     (r = Some (cg_status_code CG_PAUSED_SCHEDULER) \<and> paused_at sched c p \<and> Q p s w \<or>
      r = None \<and> fuel \<le> p div length sched \<and> P p s w)"

lemma cb_loop_walks:
  assumes walk: "walks C sched P Q" and nodes: "set sched \<subseteq> {..<n}" and ne: "sched \<noteq> []"
  shows "i = (if cb_status c = CG_PAUSED_SCHEDULER_ID then scheduleStateID c else 0) \<Longrightarrow> i < length sched \<Longrightarrow>
    P (j * length sched + i) s w \<Longrightarrow>
    \<exists>c' s' w' nb r p. cb_loop C n sched fuel (of_nat j) c s w = Some (c', s', w', nb, r) \<and>
      call_end sched (j + fuel) P Q c' s' w' nb r p"
proof (induction fuel arbitrary: i j c s w)
  case 0
  then show ?case by (auto simp: call_end_def intro!: exI [of _ "j * length sched + i"])
next
  case (Suc fuel)
  let ?c = "if cb_status c = CG_PAUSED_SCHEDULER_ID then c\<lparr>cb_status := CG_SCHEDULER_RUNNING_ID\<rparr> else c"
  have not_paused: "cb_status ?c \<noteq> CG_PAUSED_SCHEDULER_ID" by simp
  have "i + length (drop i sched) = length sched" using Suc.prems(2) by simp
  from cb_iteration_walks [OF walk nodes this refl Suc.prems(3), of "of_nat j" ?c] obtain c' s' w' e jump where
    it: "cb_iteration C n (drop i sched) i (of_nat j) ?c s w 0 = Some (c', s', w', e, jump)" and
    res: "if jump then e = cg_status_code CG_PAUSED_SCHEDULER \<and> nbSched c' = of_nat j \<and> cb_status c' = CG_PAUSED_SCHEDULER_ID \<and>
         running c' = kResumedExecution \<and> i \<le> scheduleStateID c' \<and> scheduleStateID c' < length sched \<and>
         Q (j * length sched + scheduleStateID c') s' w'
       else e = 0 \<and> cb_status c' = cb_status ?c \<and> P (Suc j * length sched) s' w'" by blast
  have step: "cb_loop C n sched (Suc fuel) (of_nat j) c s w =
      (if jump then Some (c', s', w', of_nat j, Some e)
       else if e = 0 then cb_loop C n sched fuel (of_nat j + 1) c' s' w' else Some (c', s', w', of_nat j + 1, Some e))"
    using it Suc.prems(1) by (auto split: if_splits)
  have "length sched \<noteq> 0" using ne by simp
  have div: "(j * length sched + k) div length sched = j" if "k < length sched" for k
    using that by (metis add.commute div_less div_mult_self1 add_0_right \<open>length sched \<noteq> 0\<close>)
  show ?case
  proof (cases jump)
    case True
    with res step show ?thesis
      by (intro exI [of _ c'] exI [of _ s'] exI [of _ w'] exI [of _ "of_nat j :: u32"] exI [of _ "Some e"]
          exI [of _ "j * length sched + scheduleStateID c'"]) (simp add: call_end_def paused_at_def div del: cb_loop.simps)
  next
    case False
    with res not_paused have "cb_status c' \<noteq> CG_PAUSED_SCHEDULER_ID" "P (Suc j * length sched + 0) s' w'" by simp_all
    with Suc.IH [of 0 c' "Suc j" s' w'] ne step res False show ?thesis by (simp add: add.commute)
  qed
qed

lemma callback_scheduler_walks:
  assumes walk: "walks C sched P Q" and nodes: "set sched \<subseteq> {..<n}" and ne: "sched \<noteq> []"
    and pos: "at_position sched c p" and start: "P p s (cb_begin C w)"
  shows "\<exists>c' s' w' nb r p'. callback_scheduler C n sched fuel c s w = Some (c', s', w', nb, r) \<and>
    call_end sched (p div length sched + fuel) P Q c' s' w' nb r p'"
proof (cases "cb_status c = CG_PAUSED_SCHEDULER_ID")
  case True
  with pos have c: "nbSched c = of_nat (p div length sched)" "scheduleStateID c = p mod length sched"
    by (auto simp: at_position_def paused_at_def)
  have "P (p div length sched * length sched + p mod length sched) s (cb_begin C w)" using start by simp
  from cb_loop_walks [OF walk nodes ne _ _ this, of c fuel] True c ne show ?thesis
    by (simp add: callback_scheduler_def)
next
  case False
  with pos have "p = 0" by (simp add: at_position_def paused_at_def)
  with cb_loop_walks [OF walk nodes ne, of 0 c 0 s "cb_begin C w" fuel] False start ne show ?thesis
    by (simp add: callback_scheduler_def)
qed

lemma callback_calls_walks:
  assumes walk: "walks C sched P Q" and nodes: "set sched \<subseteq> {..<n}" and ne: "sched \<noteq> []"
  shows "at_position sched c p \<Longrightarrow> Q p s w \<Longrightarrow> \<forall>a\<in>set as. \<forall>p s w. Q p s w \<longrightarrow> P p s (cb_begin C (a w)) \<Longrightarrow> as \<noteq> [] \<Longrightarrow>
    \<exists>c' s' w' rs nb r p'. callback_calls C n sched fuel as c s w = Some (c', s', w', rs @ [(nb, r)]) \<and>
      call_end sched fuel P Q c' s' w' nb r p' \<and> snd ` set rs \<subseteq> {Some (cg_status_code CG_PAUSED_SCHEDULER)}"
proof (induction "as" arbitrary: c p s w)
  case (Cons a "as")
  have "P p s (cb_begin C (a w))" using Cons.prems(2,3) by simp
  from callback_scheduler_walks [OF walk nodes ne Cons.prems(1) this, of fuel] obtain c1 s1 w1 nb1 r1 p1 where
    one: "callback_scheduler C n sched fuel c s (a w) = Some (c1, s1, w1, nb1, r1)"
    "call_end sched (p div length sched + fuel) P Q c1 s1 w1 nb1 r1 p1" by blast
  show ?case
  proof (cases "as = [] \<or> r1 = None")
    case True
    have "callback_calls C n sched fuel (a # as) c s w = Some (c1, s1, w1, [] @ [(nb1, r1)])"
      using True one(1) by (cases r1) auto
    moreover have "call_end sched fuel P Q c1 s1 w1 nb1 r1 p1" using one(2) by (auto simp: call_end_def)
    ultimately show ?thesis by (metis empty_subsetI image_empty list.set(1))
  next
    case False
    with one(2) have r1: "r1 = Some (cg_status_code CG_PAUSED_SCHEDULER)" "paused_at sched c1 p1" "Q p1 s1 w1"
      by (auto simp: call_end_def)
    then have "at_position sched c1 p1" by (simp add: at_position_def)
    from Cons.IH [OF this r1(3)] Cons.prems(3) False obtain c' s' w' rs nb r p' where
      "callback_calls C n sched fuel as c1 s1 w1 = Some (c', s', w', rs @ [(nb, r)])"
      "call_end sched fuel P Q c' s' w' nb r p'" "snd ` set rs \<subseteq> {Some (cg_status_code CG_PAUSED_SCHEDULER)}" by auto
    with one(1) r1(1) show ?thesis
      by (intro exI [of _ c'] exI [of _ s'] exI [of _ w'] exI [of _ "(nb1, r1) # rs"]) auto
  qed
qed simp

section \<open>Nodes that pause first\<close>

text \<open>
  The rule of the documentation: a node decides whether to pause before it asks for its buffers. \<open>pn_pause\<close> is
  what it does first, with \<open>Inl\<close> when it returns \<^verbatim>\<open>CG_PAUSED_SCHEDULER\<close>; \<open>pn_code\<close> is the rest.
\<close>

record ('w, 'a) pausing_nodes =
  pn_set :: "nat \<Rightarrow> kCBStatus \<Rightarrow> 'w \<Rightarrow> 'w"
  pn_pause :: "nat \<Rightarrow> 'w \<Rightarrow> 'w + 'w"
  pn_code :: "('w, 'a) node_code"
  pn_begin :: "'w \<Rightarrow> 'w"
  pn_save :: "'w \<Rightarrow> 'w"

definition pausing_run :: "('w, 'a) pausing_nodes \<Rightarrow> node list \<Rightarrow> nat \<Rightarrow> 'a graph \<Rightarrow> 'w \<Rightarrow> ('a graph \<times> 'w \<times> int) option" where
  "pausing_run N nodes k g w =
     (case pn_pause N k w of
        Inl w' \<Rightarrow> Some (g, w', cg_status_code CG_PAUSED_SCHEDULER)
      | Inr w' \<Rightarrow> node_run (pn_code N) nodes k g w')"

definition pausing_code :: "('w, 'a) pausing_nodes \<Rightarrow> node list \<Rightarrow> ('a graph, 'w) cb_code" where
  "pausing_code N nodes =
     \<lparr>cb_set = pn_set N, cb_run = pausing_run N nodes, cb_begin = pn_begin N, cb_save = pn_save N\<rparr>"

text \<open>
  \<open>view\<close> is the part of the state that pausing does not touch; seen through it the nodes are the code \<open>D\<close>,
  which never pauses.
\<close>

definition pauses_hidden :: "('w, 'a) pausing_nodes \<Rightarrow> ('w \<Rightarrow> 'v) \<Rightarrow> ('v, 'a) node_code \<Rightarrow> bool" where
  "pauses_hidden N view D \<longleftrightarrow>
     (\<forall>k b w. view (case pn_pause N k (pn_set N k b w) of Inl w' \<Rightarrow> w' | Inr w' \<Rightarrow> w') = view w) \<and>
     (\<forall>w. view (pn_begin N w) = view w \<and> view (pn_save N w) = view w) \<and>
     (\<forall>k w ins. case nd_step (pn_code N) k w ins of (w', outs, e) \<Rightarrow> nd_step D k (view w) ins = (view w', outs, e) \<and> e = 0)"

lemma pauses_hidden_code:
  assumes "pauses_hidden N view D"
  shows "case nd_step (pn_code N) k w ins of (w', outs, e) \<Rightarrow> nd_step D k (view w) ins = (view w', outs, e) \<and> e = 0"
  by (rule assms [unfolded pauses_hidden_def, THEN conjunct2, THEN conjunct2, THEN spec, THEN spec, THEN spec])

lemma pauses_hidden_pause:
  assumes "pauses_hidden N view D"
  shows "pn_pause N k (pn_set N k b w) = Inl w' \<Longrightarrow> view w' = view w"
    and "pn_pause N k (pn_set N k b w) = Inr w' \<Longrightarrow> view w' = view w"
    and "view (pn_begin N w) = view w" and "view (pn_save N w) = view w"
proof -
  have "view (case pn_pause N k (pn_set N k b w) of Inl w' \<Rightarrow> w' | Inr w' \<Rightarrow> w') = view w"
    by (rule assms [unfolded pauses_hidden_def, THEN conjunct1, THEN spec, THEN spec, THEN spec])
  then show "pn_pause N k (pn_set N k b w) = Inl w' \<Longrightarrow> view w' = view w"
    "pn_pause N k (pn_set N k b w) = Inr w' \<Longrightarrow> view w' = view w" by simp_all
qed (use assms in \<open>simp_all add: pauses_hidden_def\<close>)

text \<open>The network of queues and the count of samples after a number of executions of nodes.\<close>

fun queue_steps :: "('v, 'a) node_code \<Rightarrow> node list \<Rightarrow> nat list \<Rightarrow> nat \<Rightarrow> 'a queues \<Rightarrow> 'v \<Rightarrow> 'a queues \<times> 'v" where
  "queue_steps D nodes sched 0 q v = (q, v)"
| "queue_steps D nodes sched (Suc p) q v =
     (case queue_steps D nodes sched p q v of
        (q1, v1) \<Rightarrow> (case queue_node D nodes (sched ! (p mod length sched)) q1 v1 of (q2, v2, e) \<Rightarrow> (q2, v2)))"

fun count_steps :: "fifo_decl list \<Rightarrow> nat list \<Rightarrow> node list \<Rightarrow> nat list \<Rightarrow> nat \<Rightarrow> positions \<Rightarrow> positions option" where
  "count_steps ds place nodes sched 0 t = Some t"
| "count_steps ds place nodes sched (Suc p) t =
     (case count_steps ds place nodes sched p t of
        None \<Rightarrow> None
      | Some t1 \<Rightarrow> count_node ds place (nodes ! (sched ! (p mod length sched))) t1)"

lemma count_schedule_append:
  "count_schedule ds place nodes (ks @ ks') t =
     (case count_schedule ds place nodes ks t of None \<Rightarrow> None | Some t' \<Rightarrow> count_schedule ds place nodes ks' t')"
  by (induction ks arbitrary: t) (auto split: option.splits)

lemma count_schedule_nodes: "count_schedule ds place nodes ks t = Some t' \<Longrightarrow> set ks \<subseteq> {..<length nodes}"
  by (induction ks arbitrary: t) (auto split: if_splits option.splits)

lemma count_steps_prefix:
  assumes "count_steps ds place nodes sched (j * length sched) t0 = Some t" "count_schedule ds place nodes sched t = Some t'"
  shows "i \<le> length sched \<Longrightarrow>
    count_steps ds place nodes sched (j * length sched + i) t0 = count_schedule ds place nodes (take i sched) t"
proof (induction i)
  case (Suc i)
  then have i: "i < length sched" by simp
  have "sched = take i sched @ sched ! i # drop (Suc i) sched" using i by (simp add: id_take_nth_drop)
  with assms(2) obtain t1 where t1: "count_schedule ds place nodes (take i sched) t = Some t1"
    by (metis (no_types, lifting) count_schedule_append option.case(1) option.exhaust option.distinct(1))
  have "sched ! i < length nodes" using count_schedule_nodes [OF assms(2)] i nth_mem by blast
  with Suc i t1 show ?case
    by (simp add: take_Suc_conv_app_nth count_schedule_append split: option.splits)
qed (use assms in simp)

lemma count_steps_iterations:
  assumes "count_schedule ds place nodes sched t0 = Some t" "count_schedule ds place nodes sched t = Some t"
  shows "count_steps ds place nodes sched (j * length sched) t0 = Some (if j = 0 then t0 else t)"
proof (induction j)
  case (Suc j)
  let ?t = "if j = 0 then t0 else t"
  have "count_schedule ds place nodes sched ?t = Some t" using assms by simp
  from count_steps_prefix [OF Suc.IH this, of "length sched"] this show ?case by (simp add: add.commute)
qed simp

lemma count_steps_defined:
  assumes "count_schedule ds place nodes sched t0 = Some t" "count_schedule ds place nodes sched t = Some t" "sched \<noteq> []"
  shows "\<exists>t'. count_steps ds place nodes sched p t0 = Some t'"
proof -
  let ?j = "p div length sched" and ?i = "p mod length sched"
  have i: "?i < length sched" using assms(3) by simp
  have again: "count_schedule ds place nodes sched (if ?j = 0 then t0 else t) = Some t" using assms by simp
  from count_steps_prefix [OF count_steps_iterations [OF assms(1,2)] again, of ?i] i
  have "count_steps ds place nodes sched p t0 = count_schedule ds place nodes (take ?i sched) (if ?j = 0 then t0 else t)"
    by simp
  moreover have "\<exists>t'. count_schedule ds place nodes (take ?i sched) (if ?j = 0 then t0 else t) = Some t'"
    using again count_schedule_append [of ds place nodes "take ?i sched" "drop ?i sched" "if ?j = 0 then t0 else t"]
    by (auto split: option.splits)
  ultimately show ?thesis by simp
qed

abbreviation start_queues :: "graph_decl \<Rightarrow> int list \<Rightarrow> 'a mem \<Rightarrow> 'a queues" where
  "start_queues G bufs m \<equiv> (\<lambda>i. mem_read m (bufs ! i) (nat (fd_delay (gd_fifos G ! i))))"

abbreviation new_graph :: "graph_decl \<Rightarrow> int list \<Rightarrow> 'a mem \<Rightarrow> 'a graph" where
  "new_graph G bufs m \<equiv> \<lparr>gmem = m, gfifo = new_fifos (gd_fifos G) bufs\<rparr>"

definition graph_at ::
    "nat list \<Rightarrow> graph_decl \<Rightarrow> int list \<Rightarrow> 'a mem \<Rightarrow> ('v, 'a) node_code \<Rightarrow> ('w \<Rightarrow> 'v) \<Rightarrow> 'v \<Rightarrow> nat \<Rightarrow> 'a graph \<Rightarrow> 'w \<Rightarrow> bool" where
  "graph_at place G bufs m D view v0 p g w \<longleftrightarrow>
     (\<exists>t q. count_steps (gd_fifos G) place (gd_nodes G) (gd_schedule G) p (start_positions (gd_fifos G)) = Some t \<and>
        represents (gd_fifos G) bufs g t q \<and>
        queue_steps D (gd_nodes G) (gd_schedule G) p (start_queues G bufs m) v0 = (q, view w) \<and>
        untouched (gd_fifos G) bufs m (gmem g))"

lemma graph_at_view: "graph_at place G bufs m D view v0 p g w \<Longrightarrow> view w' = view w \<Longrightarrow> graph_at place G bufs m D view v0 p g w'"
  by (simp add: graph_at_def)

lemma graph_at_start:
  assumes "balanced_on place G" "apart_on place (gd_fifos G) bufs"
  shows "graph_at place G bufs m D view (view w) 0 (new_graph G bufs m) w"
proof -
  have "length bufs = length (gd_fifos G)" using assms(2) by (simp add: apart_on_def)
  from new_fifos_represents [OF this, of m] assms(1) show ?thesis by (simp add: graph_at_def balanced_on_def)
qed

lemma balanced_nodes: "balanced_on place G \<Longrightarrow> set (gd_schedule G) \<subseteq> {..<length (gd_nodes G)}"
  by (auto simp: balanced_on_def split: option.splits dest: count_schedule_nodes)

lemma graph_at_step:
  assumes "balanced_on place G" "apart_on place (gd_fifos G) bufs" "block_sizes C (gd_nodes G)" "gd_schedule G \<noteq> []"
    and at: "graph_at place G bufs m D view v0 p g w"
    and code: "\<And>ins. case nd_step C k w ins of (w', outs, e) \<Rightarrow> nd_step D k (view w) ins = (view w', outs, e) \<and> e = 0"
    and k: "k = gd_schedule G ! (p mod length (gd_schedule G))"
  obtains g' ins where "node_run C (gd_nodes G) k g w = Some (g', fst (nd_step C k w ins), 0)"
    "graph_at place G bufs m D view v0 (Suc p) g' (fst (nd_step C k w ins))"
proof -
  let ?ds = "gd_fifos G" and ?nodes = "gd_nodes G" and ?sched = "gd_schedule G"
  from at obtain t q where t: "count_steps ?ds place ?nodes ?sched p (start_positions ?ds) = Some t" "represents ?ds bufs g t q"
    "queue_steps D ?nodes ?sched p (start_queues G bufs m) v0 = (q, view w)" "untouched ?ds bufs m (gmem g)"
    by (auto simp: graph_at_def)
  from assms(1) obtain t' where "count_schedule ?ds place ?nodes ?sched (start_positions ?ds) = Some t'"
    "count_schedule ?ds place ?nodes ?sched t' = Some t'" by (auto simp: balanced_on_def split: option.splits)
  from count_steps_defined [OF this assms(4)] obtain t1 where
    t1: "count_steps ?ds place ?nodes ?sched (Suc p) (start_positions ?ds) = Some t1" by blast
  with t(1) have node: "count_node ?ds place (?nodes ! k) t = Some t1" by (simp add: k)
  have "k \<in> set ?sched" using assms(4) by (simp add: k)
  then have kn: "k < length ?nodes" using balanced_nodes [OF assms(1)] by blast
  let ?ins = "map (\<lambda>s. take (nat (psize s)) (q (pfifo s))) (srcs (?nodes ! k))"
  obtain w' outs where step: "nd_step C k w ?ins = (w', outs, 0)" "nd_step D k (view w) ?ins = (view w', outs, 0)"
    using code [of ?ins] by (auto split: prod.splits)
  let ?q = "enqueue (dsts (?nodes ! k)) outs (dequeue (srcs (?nodes ! k)) q)"
  have queue: "queue_node C ?nodes k q w = (?q, w', 0)" "queue_node D ?nodes k q (view w) = (?q, view w', 0)"
    by (simp_all add: queue_node_def Let_def step)
  obtain g' where g': "node_run C ?nodes k g w = Some (g', w', 0)" "represents ?ds bufs g' t1 ?q"
    "untouched ?ds bufs (gmem g) (gmem g')"
    using node_run_ok [OF assms(2) t(2) node assms(3) kn, of w] unfolding queue by auto
  have "queue_steps D ?nodes ?sched (Suc p) (start_queues G bufs m) v0 = (?q, view w')"
    using t(3) queue(2) by (simp add: k)
  then have "graph_at place G bufs m D view v0 (Suc p) g' w'"
    using t1 g'(2) untouched_trans [OF t(4) g'(3)] unfolding graph_at_def by blast
  with g'(1) that [of g' ?ins] step(1) show thesis by simp
qed

text \<open>With what the example below follows about its own state: \<open>X\<close> along the walk and \<open>Y\<close> where it pauses.\<close>

lemma pausing_walks:
  assumes "balanced_on place G" "apart_on place (gd_fifos G) bufs" "block_sizes (pn_code N) (gd_nodes G)" "gd_schedule G \<noteq> []"
    and hidden: "pauses_hidden N view D"
    and own: "\<And>p w b k. X p w \<Longrightarrow> k = gd_schedule G ! (p mod length (gd_schedule G)) \<Longrightarrow>
      case pn_pause N k (pn_set N k b w) of
        Inl w' \<Rightarrow> Y p (pn_save N w')
      | Inr w' \<Rightarrow> \<forall>ins. X (Suc p) (fst (nd_step (pn_code N) k w' ins))"
  shows "walks (pausing_code N (gd_nodes G)) (gd_schedule G) (\<lambda>p g w. graph_at place G bufs m D view v0 p g w \<and> X p w)
    (\<lambda>p g w. graph_at place G bufs m D view v0 p g w \<and> Y p w)"
  unfolding walks_def
proof (intro allI impI, elim conjE)
  fix p g w b
  assume at: "graph_at place G bufs m D view v0 p g w" and X: "X p w"
  let ?k = "gd_schedule G ! (p mod length (gd_schedule G))"
  note own = own [OF X refl, of b]
  show "executes (pausing_code N (gd_nodes G)) (gd_schedule G) (\<lambda>p g w. graph_at place G bufs m D view v0 p g w \<and> X p w)
    (\<lambda>p g w. graph_at place G bufs m D view v0 p g w \<and> Y p w) p g (cb_set (pausing_code N (gd_nodes G)) ?k b w)"
  proof (cases "pn_pause N ?k (pn_set N ?k b w)")
    case (Inl w')
    then have "view (pn_save N w') = view w"
      using pauses_hidden_pause(1) [OF hidden Inl] pauses_hidden_pause(4) [OF hidden] by simp
    from graph_at_view [OF at this] Inl own show ?thesis by (simp add: executes_def pausing_code_def pausing_run_def)
  next
    case (Inr w')
    note at' = graph_at_view [OF at pauses_hidden_pause(2) [OF hidden Inr]]
    obtain g' ins where "node_run (pn_code N) (gd_nodes G) ?k g w' = Some (g', fst (nd_step (pn_code N) ?k w' ins), 0)"
      "graph_at place G bufs m D view v0 (Suc p) g' (fst (nd_step (pn_code N) ?k w' ins))"
      using graph_at_step [OF assms(1-4) at' pauses_hidden_code [OF hidden] refl] by blast
    with Inr own show ?thesis by (simp add: executes_def pausing_code_def pausing_run_def)
  qed
qed

text \<open>
  C6. In callback mode pausing does not change what a graph computes: however often its nodes pause and
  whatever the application does between the calls, the generated function is defined, and when a call
  returns - paused, with the count of the completed iterations - the nodes are in the state of the network
  of queues in which nobody pauses, after the executions done so far: none was skipped and none done
  twice, and the next call goes on at the next one. A call that does not return goes on running iterations.
\<close>
theorem callback_refines_queues:
  assumes "balanced_on place G" "apart_on place (gd_fifos G) bufs" "block_sizes (pn_code N) (gd_nodes G)" "gd_schedule G \<noteq> []"
    and "pauses_hidden N view D" "as \<noteq> []" "\<forall>a\<in>set as. \<forall>w. view (a w) = view w"
  shows "\<exists>c g w' rs nb r p. callback_calls (pausing_code N (gd_nodes G)) (length (gd_nodes G)) (gd_schedule G) fuel as
      init_cb_state (new_graph G bufs m) w = Some (c, g, w', rs @ [(nb, r)]) \<and>
    view w' = snd (queue_steps D (gd_nodes G) (gd_schedule G) p (start_queues G bufs m) (view w)) \<and>
    untouched (gd_fifos G) bufs m (gmem g) \<and> nb = of_nat (p div length (gd_schedule G)) \<and>
    (r = Some (cg_status_code CG_PAUSED_SCHEDULER) \<and> scheduleStateID c = p mod length (gd_schedule G) \<or>
     r = None \<and> fuel \<le> p div length (gd_schedule G)) \<and>
    snd ` set rs \<subseteq> {Some (cg_status_code CG_PAUSED_SCHEDULER)}"
proof -
  let ?P = "graph_at place G bufs m D view (view w)"
  have "walks (pausing_code N (gd_nodes G)) (gd_schedule G) (\<lambda>p g w. ?P p g w \<and> True) (\<lambda>p g w. ?P p g w \<and> True)"
    by (rule pausing_walks [OF assms(1-5)]) (simp split: sum.split)
  then have walk: "walks (pausing_code N (gd_nodes G)) (gd_schedule G) ?P ?P" by simp
  have keep: "\<forall>a\<in>set as. \<forall>p g w. ?P p g w \<longrightarrow> ?P p g (cb_begin (pausing_code N (gd_nodes G)) (a w))"
  proof (intro ballI allI impI)
    fix a p g w
    assume "a \<in> set as" and at: "?P p g w"
    then have "view (cb_begin (pausing_code N (gd_nodes G)) (a w)) = view w"
      using assms(7) pauses_hidden_pause(3) [OF assms(5)] by (simp add: pausing_code_def)
    from graph_at_view [OF at this] show "?P p g (cb_begin (pausing_code N (gd_nodes G)) (a w))" .
  qed
  have start: "at_position (gd_schedule G) init_cb_state 0" by (simp add: at_position_def init_cb_state_def)
  from callback_calls_walks [OF walk balanced_nodes [OF assms(1)] assms(4) start graph_at_start [OF assms(1,2)] keep assms(6), of fuel]
  obtain c g w' rs nb r p where
    "callback_calls (pausing_code N (gd_nodes G)) (length (gd_nodes G)) (gd_schedule G) fuel as init_cb_state (new_graph G bufs m) w =
       Some (c, g, w', rs @ [(nb, r)])"
    "call_end (gd_schedule G) fuel ?P ?P c g w' nb r p" "snd ` set rs \<subseteq> {Some (cg_status_code CG_PAUSED_SCHEDULER)}"
    by (elim exE conjE) (rule that)
  note calls = this
  then have at: "?P p g w'" by (auto simp: call_end_def)
  have 1: "view w' = snd (queue_steps D (gd_nodes G) (gd_schedule G) p (start_queues G bufs m) (view w))"
    using at unfolding graph_at_def by (metis snd_conv)
  have 2: "untouched (gd_fifos G) bufs m (gmem g)" using at unfolding graph_at_def by blast
  have 3: "nb = of_nat (p div length (gd_schedule G))" using calls(2) unfolding call_end_def by blast
  have 4: "r = Some (cg_status_code CG_PAUSED_SCHEDULER) \<and> scheduleStateID c = p mod length (gd_schedule G) \<or>
     r = None \<and> fuel \<le> p div length (gd_schedule G)"
    using calls(2) unfolding call_end_def paused_at_def by blast
  show ?thesis using calls(1,3) 1 2 3 4 by (intro exI conjI)
qed

end
