(* ===== verification/CallbackExample.thy ===== *)
theory CallbackExample
  imports CallbackScheduler
begin

text \<open>
  The example of the callback mode (\<^verbatim>\<open>Examples/callback\<close>): its sink waits for frames, which the application
  announces between the calls. For any number of frames the calls return, and the sink prints one block
  for each.
\<close>

section \<open>The nodes and the application\<close>

text \<open>
  The state: the global \<^verbatim>\<open>g_frame_available\<close>, the execution status of the sink, the variable of the application
  that the scheduler gets, its local variable of the macros, and what has been printed.
\<close>

record cb_app =
  g_frame_available :: int
  sink_status :: kCBStatus
  someVariable :: int
  someState :: int
  printed_lines :: "printed list"

definition callback_set :: "nat \<Rightarrow> kCBStatus \<Rightarrow> cb_app \<Rightarrow> cb_app" where
  "callback_set k b w = (if k = 2 then w\<lparr>sink_status := b\<rparr> else w)"

text \<open>What the sink does before it asks for its buffer; the other nodes never pause.\<close>

definition callback_pause :: "nat \<Rightarrow> cb_app \<Rightarrow> cb_app + cb_app" where
  "callback_pause k w =
     (if k \<noteq> 2 then Inr w
      else if g_frame_available w = 0 then Inl w
      else Inr (w\<lparr>g_frame_available := 0, printed_lines := printed_lines w @
             (if sink_status w \<noteq> kNewExecution then [Line ''Resume sink''] else [])\<rparr>))"

definition myfunc :: "('a \<Rightarrow> 'a) \<Rightarrow> 'a list \<Rightarrow> 'a list" where
  "myfunc inc src = map inc src"

definition callback_step ::
    "(int \<Rightarrow> 'a) \<Rightarrow> ('a \<Rightarrow> 'a) \<Rightarrow> ('a \<Rightarrow> int) \<Rightarrow> nat \<Rightarrow> printed list \<Rightarrow> 'a list list \<Rightarrow> printed list \<times> 'a list list \<times> int" where
  "callback_step of_i inc to_i k out ins =
     (if k = 0 then (out, [myfunc inc (hd ins)], 0)
      else if k = 1 then (case ProcessingNode_step inc out (hd ins) of (out', b) \<Rightarrow> (out', [b], 0))
      else if k = 2 then (Sink_step to_i out (hd ins), [], 0)
      else (case Source_step of_i 5 out of (out', b) \<Rightarrow> (out', [b], 0)))"

text \<open>The macros \<^verbatim>\<open>CG_BEFORE_SCHEDULE\<close> with \<^verbatim>\<open>CG_RESTORE_STATE_MACHINE_STATE\<close>, and \<^verbatim>\<open>CG_SAVE_STATE_MACHINE_STATE\<close>.\<close>

definition callback_begin :: "cb_app \<Rightarrow> cb_app" where
  "callback_begin w = (let w1 = w\<lparr>someState := 0\<rparr> in w1\<lparr>someVariable := someState w1\<rparr>)"

definition callback_save :: "cb_app \<Rightarrow> cb_app" where
  "callback_save w = w\<lparr>someState := someVariable w\<rparr>"

text \<open>So what the application keeps in its variable is gone after a pause, whatever it was.\<close>

lemma saved_variable_lost: "someVariable (callback_begin (callback_save w)) = 0"
  by (simp add: callback_begin_def)

definition callback_nodes :: "(int \<Rightarrow> 'a) \<Rightarrow> ('a \<Rightarrow> 'a) \<Rightarrow> ('a \<Rightarrow> int) \<Rightarrow> (cb_app, 'a) pausing_nodes" where
  "callback_nodes of_i inc to_i = \<lparr>pn_set = callback_set, pn_pause = callback_pause,
     pn_code = \<lparr>nd_init = (\<lambda>k w. (w, 0)), nd_before = (\<lambda>k w. (w, None)),
       nd_step = (\<lambda>k w ins. case callback_step of_i inc to_i k (printed_lines w) ins of
          (out, outs, e) \<Rightarrow> (w\<lparr>printed_lines := out\<rparr>, outs, e))\<rparr>,
     pn_begin = callback_begin, pn_save = callback_save\<rparr>"

text \<open>The main program: a frame is announced between two calls.\<close>

definition announce_frame :: "cb_app \<Rightarrow> cb_app" where
  "announce_frame w = w\<lparr>g_frame_available := 1\<rparr>"

definition callback_start :: cb_app where
  "callback_start = \<lparr>g_frame_available = 0, sink_status = kNewExecution, someVariable = 0, someState = 0, printed_lines = []\<rparr>"

definition callback_main ::
    "(int \<Rightarrow> 'a) \<Rightarrow> ('a \<Rightarrow> 'a) \<Rightarrow> ('a \<Rightarrow> int) \<Rightarrow> int list \<Rightarrow> nat \<Rightarrow> nat \<Rightarrow> 'a mem \<Rightarrow>
     (cb_state \<times> 'a graph \<times> cb_app \<times> (u32 \<times> int option) list) option" where
  "callback_main of_i inc to_i bufs fuel frames m =
     callback_calls (pausing_code (callback_nodes of_i inc to_i) (gd_nodes callback_graph)) (length (gd_nodes callback_graph))
       (gd_schedule callback_graph) fuel ((\<lambda>w. w) # replicate frames announce_frame)
       init_cb_state (new_graph callback_graph bufs m) callback_start"

section \<open>What pausing hides\<close>

definition callback_code :: "(int \<Rightarrow> 'a) \<Rightarrow> ('a \<Rightarrow> 'a) \<Rightarrow> ('a \<Rightarrow> int) \<Rightarrow> (printed list, 'a) node_code" where
  "callback_code of_i inc to_i =
     \<lparr>nd_init = (\<lambda>k w. (w, 0)), nd_before = (\<lambda>k w. (w, None)), nd_step = callback_step of_i inc to_i\<rparr>"

definition callback_view :: "cb_app \<Rightarrow> printed list" where
  "callback_view w = filter (\<lambda>l. l \<noteq> Line ''Resume sink'') (printed_lines w)"

lemma callback_hidden: "pauses_hidden (callback_nodes of_i inc to_i) callback_view (callback_code of_i inc to_i)"
  unfolding pauses_hidden_def
proof (intro conjI allI)
  fix k b w
  show "callback_view (case pn_pause (callback_nodes of_i inc to_i) k (pn_set (callback_nodes of_i inc to_i) k b w) of
      Inl w' \<Rightarrow> w' | Inr w' \<Rightarrow> w') = callback_view w"
    by (simp add: callback_nodes_def callback_set_def callback_pause_def callback_view_def)
next
  fix k w ins
  show "case nd_step (pn_code (callback_nodes of_i inc to_i)) k w ins of (w', outs, e) \<Rightarrow>
      nd_step (callback_code of_i inc to_i) k (callback_view w) ins = (callback_view w', outs, e) \<and> e = 0"
    by (simp add: callback_nodes_def callback_code_def callback_step_def callback_view_def ProcessingNode_step_def
        Sink_step_def Source_step_def filter_map o_def)
qed (simp_all add: callback_nodes_def callback_begin_def callback_save_def callback_view_def Let_def)

lemma numbers_view: "numbers (callback_view w) = numbers (printed_lines w)"
proof -
  have "numbers (filter (\<lambda>l. l \<noteq> Line ''Resume sink'') out) = numbers out" for out
    by (induction out rule: numbers.induct) auto
  then show ?thesis by (simp add: callback_view_def)
qed

lemma callback_block_sizes: "block_sizes (pn_code (callback_nodes of_i inc to_i)) (gd_nodes callback_graph)"
  by (auto simp: block_sizes_def callback_nodes_def callback_step_def myfunc_def ProcessingNode_step_def Source_step_def
      callback_graph_def GenericNode_def GenericSink_def GenericSource_def NodePort_def less_Suc_eq numeral_eq_Suc)

lemma callback_balanced: "balanced_on [0..<length (gd_fifos callback_graph)] callback_graph"
  using shipped_balanced by (simp add: shipped_graphs_def own_places_def)

section \<open>The network of queues\<close>

lemma callback_queue_nodes:
  "queue_node (callback_code of_i inc to_i) (gd_nodes callback_graph) 0 q out =
     (q(1 := drop 7 (q 1), 2 := q 2 @ map inc (take 7 (q 1))), out, 0)"
  "queue_node (callback_code of_i inc to_i) (gd_nodes callback_graph) 1 q out =
     (q(0 := drop 7 (q 0), 1 := q 1 @ map inc (take 7 (q 0))), out @ [Line ''ProcessingNode''], 0)"
  "queue_node (callback_code of_i inc to_i) (gd_nodes callback_graph) 2 q out =
     (q(2 := drop 5 (q 2)), Sink_step to_i out (take 5 (q 2)), 0)"
  "queue_node (callback_code of_i inc to_i) (gd_nodes callback_graph) 3 q out =
     (q(0 := q 0 @ map (\<lambda>i. of_i (int i)) [0..<5]), out @ [Line ''Source''], 0)"
  by (simp_all add: queue_node_def callback_code_def callback_step_def myfunc_def ProcessingNode_step_def Source_step_def
      callback_graph_def GenericNode_def GenericSink_def GenericSource_def NodePort_def)

text \<open>
  Along a part of the schedule the sink has printed one block for each of its executions; at the end the
  queues are empty.
\<close>

abbreviation frame_block :: "(int \<Rightarrow> 'a) \<Rightarrow> ('a \<Rightarrow> 'a) \<Rightarrow> ('a \<Rightarrow> int) \<Rightarrow> int list" where
  "frame_block of_i inc to_i \<equiv> map (\<lambda>i. to_i (inc (inc (of_i i)))) [0, 1, 2, 3, 4]"

fun blocks_along ::
    "('v \<Rightarrow> int list) \<Rightarrow> int list \<Rightarrow> ('v, 'a) node_code \<Rightarrow> node list \<Rightarrow> nat list \<Rightarrow> nat \<Rightarrow> 'a queues \<Rightarrow> 'v \<Rightarrow> bool" where
  "blocks_along f b D nodes [] sinks q v \<longleftrightarrow> f v = concat (replicate sinks b) \<and> q 0 = [] \<and> q 1 = [] \<and> q 2 = []"
| "blocks_along f b D nodes (k # ks) sinks q v \<longleftrightarrow> f v = concat (replicate sinks b) \<and>
     (case queue_node D nodes k q v of
        (q', v', e) \<Rightarrow> blocks_along f b D nodes ks (if k = 2 then Suc sinks else sinks) q' v')"

lemma blocks_along_step:
  assumes "queue_node D nodes k q v = (q', v', e)"
  shows "blocks_along f b D nodes (k # ks) sinks q v \<longleftrightarrow> f v = concat (replicate sinks b) \<and>
    blocks_along f b D nodes ks (if k = 2 then Suc sinks else sinks) q' v'"
  using assms by simp

lemmas callback_steps = callback_queue_nodes [THEN blocks_along_step]

lemma blocks_iteration:
  assumes "q 0 = []" "q 1 = []" "q 2 = []" "numbers v = concat (replicate sinks (frame_block of_i inc to_i))"
  shows "blocks_along numbers (frame_block of_i inc to_i) (callback_code of_i inc to_i) (gd_nodes callback_graph)
    (gd_schedule callback_graph) sinks q v"
proof -
  have sched: "gd_schedule callback_graph = [3, 3, 1, 0, 2, 3, 1, 0, 2, 3, 3, 1, 0, 2, 2, 3, 1, 0, 2, 3, 1, 0, 2, 2]"
    by (simp add: callback_graph_def)
  have src: "map (\<lambda>i. of_i (int i)) [0..<5] = [of_i 0, of_i 1, of_i 2, of_i 3, of_i 4]"
    by (simp add: upt_rec)
  have suc: "concat (replicate (Suc n) b) = concat (replicate n b) @ b" for n and b :: "int list"
    by (induction n) simp_all
  show ?thesis
    unfolding sched
    by (simp add: callback_steps src assms suc Sink_step_def del: replicate_Suc blocks_along.simps(2) One_nat_def)
qed

text \<open>The executions of the sink among the first ones.\<close>

primrec sink_runs :: "nat list \<Rightarrow> nat \<Rightarrow> nat" where
  "sink_runs sched 0 = 0"
| "sink_runs sched (Suc p) = (if sched ! (p mod length sched) = 2 then Suc (sink_runs sched p) else sink_runs sched p)"

lemma blocks_steps:
  assumes "blocks_along f b D nodes ks (sink_runs sched p) q v" "ks = drop i sched" "p = j * length sched + i"
    "i \<le> length sched" "queue_steps D nodes sched p q0 v0 = (q, v)"
  shows "(\<forall>i'. i \<le> i' \<and> i' \<le> length sched \<longrightarrow>
      f (snd (queue_steps D nodes sched (j * length sched + i') q0 v0)) =
        concat (replicate (sink_runs sched (j * length sched + i')) b)) \<and>
    (\<forall>x\<in>{0, 1, 2}. fst (queue_steps D nodes sched (j * length sched + length sched) q0 v0) x = [])"
  using assms
proof (induction ks arbitrary: i p q v)
  case Nil
  then have "i = length sched" by simp
  with Nil show ?case by (auto simp: le_antisym)
next
  case (Cons k ks)
  have i: "i < length sched" using Cons.prems(2) by (metis drop_eq_Nil linorder_not_le list.distinct(1))
  have k: "sched ! (p mod length sched) = k" using Cons.prems(2,3) i by (metis add.commute mod_less mod_mult_self1 nth_via_drop)
  obtain q1 v1 e where node: "queue_node D nodes k q v = (q1, v1, e)" by (cases "queue_node D nodes k q v") auto
  have rest: "blocks_along f b D nodes ks (sink_runs sched (Suc p)) q1 v1" and here: "f v = concat (replicate (sink_runs sched p) b)"
    using Cons.prems(1) node k by auto
  have "ks = drop (Suc i) sched" using Cons.prems(2) by (metis drop_Suc list.sel(3) tl_drop)
  moreover have "queue_steps D nodes sched (Suc p) q0 v0 = (q1, v1)" using Cons.prems(5) node k by simp
  ultimately have ih: "\<forall>i'. Suc i \<le> i' \<and> i' \<le> length sched \<longrightarrow>
      f (snd (queue_steps D nodes sched (j * length sched + i') q0 v0)) =
        concat (replicate (sink_runs sched (j * length sched + i')) b)"
    "\<forall>x\<in>{0, 1, 2}. fst (queue_steps D nodes sched (j * length sched + length sched) q0 v0) x = []"
    using Cons.IH [OF rest _ _ _ , of "Suc i"] Cons.prems(3) i by auto
  show ?case
  proof (intro conjI allI impI ih(2))
    fix i'
    assume i': "i \<le> i' \<and> i' \<le> length sched"
    show "f (snd (queue_steps D nodes sched (j * length sched + i') q0 v0)) =
        concat (replicate (sink_runs sched (j * length sched + i')) b)"
    proof (cases "i' = i")
      case True
      with Cons.prems(3,5) here show ?thesis by simp
    next
      case False
      with i' ih(1) show ?thesis by (metis Suc_leI le_neq_implies_less)
    qed
  qed
qed

lemma callback_blocks:
  assumes "q0 0 = []" "q0 1 = []" "q0 2 = []"
  shows "numbers (snd (queue_steps (callback_code of_i inc to_i) (gd_nodes callback_graph) (gd_schedule callback_graph) p q0 [])) =
    concat (replicate (sink_runs (gd_schedule callback_graph) p) (frame_block of_i inc to_i))"
proof -
  let ?sched = "gd_schedule callback_graph"
  let ?steps = "\<lambda>p. queue_steps (callback_code of_i inc to_i) (gd_nodes callback_graph) ?sched p q0 []"
  let ?ok = "\<lambda>p. numbers (snd (?steps p)) = concat (replicate (sink_runs ?sched p) (frame_block of_i inc to_i))"
  have iteration: "?ok (j * length ?sched) \<and> (\<forall>x\<in>{0, 1, 2}. fst (?steps (j * length ?sched)) x = []) \<Longrightarrow>
      (\<forall>i'\<le>length ?sched. ?ok (j * length ?sched + i')) \<and> (\<forall>x\<in>{0, 1, 2}. fst (?steps (j * length ?sched + length ?sched)) x = [])" for j
  proof -
    assume at: "?ok (j * length ?sched) \<and> (\<forall>x\<in>{0, 1, 2}. fst (?steps (j * length ?sched)) x = [])"
    have "blocks_along numbers (frame_block of_i inc to_i) (callback_code of_i inc to_i) (gd_nodes callback_graph) ?sched
        (sink_runs ?sched (j * length ?sched)) (fst (?steps (j * length ?sched))) (snd (?steps (j * length ?sched)))"
      by (rule blocks_iteration) (use at in auto)
    from blocks_steps [OF this, where i = 0 and j = j] show ?thesis by simp
  qed
  have start: "?ok (j * length ?sched) \<and> (\<forall>x\<in>{0, 1, 2}. fst (?steps (j * length ?sched)) x = [])" for j
  proof (induction j)
    case (Suc j)
    from iteration [OF Suc] show ?case by (metis add.commute le_refl mult_Suc)
  qed (use assms in auto)
  have "p = p div length ?sched * length ?sched + p mod length ?sched" by simp
  moreover have "p mod length ?sched \<le> length ?sched" by (simp add: callback_graph_def)
  ultimately show ?thesis using iteration [OF start] by metis
qed

lemma sink_runs_iterations:
  "i \<le> length sched \<Longrightarrow> sink_runs sched (j * length sched + i) = j * sink_runs sched (length sched) + sink_runs sched i"
proof -
  have more: "sink_runs sched (j * length sched + i) = sink_runs sched (j * length sched) + sink_runs sched i"
    if "i \<le> length sched" for i j
    using that by (induction i) (auto simp: Suc_le_eq)
  have "sink_runs sched (j * length sched) = j * sink_runs sched (length sched)"
  proof (induction j)
    case (Suc j)
    with more [of "length sched" j] show ?case by (simp add: add.commute)
  qed simp
  then show "sink_runs sched (j * length sched + i) = j * sink_runs sched (length sched) + sink_runs sched i"
    if "i \<le> length sched" using more [OF that] by simp
qed

lemma callback_sinks:
  "length (gd_schedule callback_graph) = 24" "sink_runs (gd_schedule callback_graph) 24 = 7"
  "\<forall>i<24. gd_schedule callback_graph ! i = 2 \<longrightarrow> sink_runs (gd_schedule callback_graph) i < 7"
  by code_simp+

lemma sinks_before:
  "p div 24 * 7 \<le> sink_runs (gd_schedule callback_graph) p"
  "gd_schedule callback_graph ! (p mod 24) = 2 \<Longrightarrow> p div 24 = sink_runs (gd_schedule callback_graph) p div 7"
proof -
  have i: "p mod 24 < 24" by simp
  have s: "sink_runs (gd_schedule callback_graph) p = p div 24 * 7 + sink_runs (gd_schedule callback_graph) (p mod 24)"
    using sink_runs_iterations [of "p mod 24" "gd_schedule callback_graph" "p div 24"] callback_sinks(1,2) i by simp
  then show "p div 24 * 7 \<le> sink_runs (gd_schedule callback_graph) p" by simp
  show "p div 24 = sink_runs (gd_schedule callback_graph) p div 7" if "gd_schedule callback_graph ! (p mod 24) = 2"
    using callback_sinks(3) i that s by simp
qed

section \<open>The calls\<close>

text \<open>After \<open>m\<close> frames: along the way, and where the sink pauses because the last one is consumed.\<close>

abbreviation callback_sched :: "nat list" where
  "callback_sched \<equiv> gd_schedule callback_graph"

definition frames_used :: "nat \<Rightarrow> nat \<Rightarrow> cb_app \<Rightarrow> bool" where
  "frames_used m p w \<longleftrightarrow> g_frame_available w \<in> {0, 1} \<and> int (sink_runs callback_sched p) + g_frame_available w = int m"

definition sink_waits :: "nat \<Rightarrow> nat \<Rightarrow> cb_app \<Rightarrow> bool" where
  "sink_waits m p w \<longleftrightarrow> callback_sched ! (p mod length callback_sched) = 2 \<and> sink_runs callback_sched p = m \<and> g_frame_available w = 0"

lemma frames_step:
  assumes "frames_used m p w" "k = callback_sched ! (p mod length callback_sched)"
  shows "case pn_pause (callback_nodes of_i inc to_i) k (pn_set (callback_nodes of_i inc to_i) k b w) of
      Inl w' \<Rightarrow> sink_waits m p (pn_save (callback_nodes of_i inc to_i) w')
    | Inr w' \<Rightarrow> \<forall>ins. frames_used m (Suc p) (fst (nd_step (pn_code (callback_nodes of_i inc to_i)) k w' ins))"
  using assms
  by (auto simp: callback_nodes_def callback_pause_def callback_set_def callback_save_def frames_used_def sink_waits_def
      split: prod.splits)

text \<open>One call, of at most \<open>fuel\<close> iterations, when no more than \<open>7 * fuel\<close> frames have been announced.\<close>

lemma callback_call:
  assumes "apart (gd_fifos callback_graph) bufs" and pos: "at_position callback_sched c p" and m: "m < 7 * fuel"
    and at: "graph_at [0..<length (gd_fifos callback_graph)] callback_graph bufs mem (callback_code of_i inc to_i) callback_view [] p g w"
    and frames: "frames_used m p w"
  obtains c' g' w' p' where
    "callback_scheduler (pausing_code (callback_nodes of_i inc to_i) (gd_nodes callback_graph)) (length (gd_nodes callback_graph))
       callback_sched fuel c g w = Some (c', g', w', of_nat (m div 7), Some (cg_status_code CG_PAUSED_SCHEDULER))"
    "at_position callback_sched c' p'" "sink_waits m p' w'"
    "graph_at [0..<length (gd_fifos callback_graph)] callback_graph bufs mem (callback_code of_i inc to_i) callback_view [] p' g' w'"
proof -
  let ?at = "graph_at [0..<length (gd_fifos callback_graph)] callback_graph bufs mem (callback_code of_i inc to_i) callback_view []"
  let ?C = "pausing_code (callback_nodes of_i inc to_i) (gd_nodes callback_graph)"
  have ne: "callback_sched \<noteq> []" using callback_sinks(1) by auto
  have walk: "walks ?C callback_sched (\<lambda>p g w. ?at p g w \<and> frames_used m p w) (\<lambda>p g w. ?at p g w \<and> sink_waits m p w)"
    by (rule pausing_walks [OF callback_balanced assms(1) [unfolded apart_own_places] callback_block_sizes ne callback_hidden])
      (rule frames_step)
  have "?at p g (cb_begin ?C w) \<and> frames_used m p (cb_begin ?C w)"
    using graph_at_view [OF at] frames by (simp add: pausing_code_def callback_nodes_def callback_begin_def callback_view_def frames_used_def)
  from callback_scheduler_walks [OF walk balanced_nodes [OF callback_balanced] ne pos this, of fuel]
  obtain c' g' w' nb r p' where
    call: "callback_scheduler ?C (length (gd_nodes callback_graph)) callback_sched fuel c g w = Some (c', g', w', nb, r)" and
    res: "call_end callback_sched (p div length callback_sched + fuel) (\<lambda>p g w. ?at p g w \<and> frames_used m p w)
      (\<lambda>p g w. ?at p g w \<and> sink_waits m p w) c' g' w' nb r p'" by (elim exE conjE) (rule that)
  have "\<not> (p div 24 + fuel \<le> p' div 24 \<and> frames_used m p' w')"
  proof
    assume run: "p div 24 + fuel \<le> p' div 24 \<and> frames_used m p' w'"
    then have "sink_runs callback_sched p' \<le> m" by (auto simp: frames_used_def)
    with sinks_before(1) [of p'] run m show False by linarith
  qed
  with res have "r = Some (cg_status_code CG_PAUSED_SCHEDULER)" "at_position callback_sched c' p'" "sink_waits m p' w'"
    "?at p' g' w'" "nb = of_nat (p' div 24)"
    by (auto simp: call_end_def at_position_def callback_sinks(1))
  moreover from this(3) have "p' div 24 = m div 7" using sinks_before(2) by (simp add: sink_waits_def callback_sinks(1))
  ultimately show thesis using call that by simp
qed

lemma callback_calls_frames:
  assumes "apart (gd_fifos callback_graph) bufs"
  shows "at_position callback_sched c p \<Longrightarrow> sink_waits m p w \<Longrightarrow> m + frames < 7 * fuel \<Longrightarrow>
    graph_at [0..<length (gd_fifos callback_graph)] callback_graph bufs mem (callback_code of_i inc to_i) callback_view [] p g w \<Longrightarrow>
    \<exists>c' g' w' p'. callback_calls (pausing_code (callback_nodes of_i inc to_i) (gd_nodes callback_graph))
        (length (gd_nodes callback_graph)) callback_sched fuel (replicate frames announce_frame) c g w =
        Some (c', g', w', map (\<lambda>i. (of_nat ((m + i) div 7), Some (cg_status_code CG_PAUSED_SCHEDULER))) [1..<Suc frames]) \<and>
      sink_waits (m + frames) p' w' \<and>
      graph_at [0..<length (gd_fifos callback_graph)] callback_graph bufs mem (callback_code of_i inc to_i) callback_view [] p' g' w'"
proof (induction frames arbitrary: c p m g w)
  case (Suc frames)
  have "frames_used (Suc m) p (announce_frame w)" using Suc.prems(2) by (simp add: sink_waits_def frames_used_def announce_frame_def)
  moreover have "callback_view (announce_frame w) = callback_view w" by (simp add: callback_view_def announce_frame_def)
  moreover have "Suc m < 7 * fuel" using Suc.prems(3) by simp
  ultimately obtain c1 g1 w1 p1 where one:
    "callback_scheduler (pausing_code (callback_nodes of_i inc to_i) (gd_nodes callback_graph)) (length (gd_nodes callback_graph))
       callback_sched fuel c g (announce_frame w) = Some (c1, g1, w1, of_nat (Suc m div 7), Some (cg_status_code CG_PAUSED_SCHEDULER))"
    "at_position callback_sched c1 p1" "sink_waits (Suc m) p1 w1"
    "graph_at [0..<length (gd_fifos callback_graph)] callback_graph bufs mem (callback_code of_i inc to_i) callback_view [] p1 g1 w1"
    using callback_call [OF assms Suc.prems(1)] graph_at_view [OF Suc.prems(4)] by metis
  have fuel: "Suc m + frames < 7 * fuel" using Suc.prems(3) by simp
  have "map f [1..<Suc (Suc frames)] = f 1 # map (\<lambda>i. f (Suc i)) [1..<Suc frames]" for f :: "nat \<Rightarrow> u32 \<times> int option"
    by (simp add: upt_conv_Cons map_Suc_upt [symmetric] o_def del: upt_Suc map_Suc_upt)
  with Suc.IH [OF one(2,3) fuel one(4)] one(1) show ?case by (fastforce simp del: upt_Suc)
qed (simp, blast)

text \<open>
  C7. In the callback example, for any number of frames announced one after the other between the calls,
  every call returns \<^verbatim>\<open>CG_PAUSED_SCHEDULER\<close>, the call after \<open>m\<close> frames with the count \<open>m div 7\<close> of completed
  iterations, and the sink has printed exactly one block for every frame: the five numbers of the source,
  twice increased by one.
\<close>
theorem callback_example_output:
  assumes "apart (gd_fifos callback_graph) bufs" "frames < 7 * fuel"
  shows "\<exists>c g w. callback_main of_i inc to_i bufs fuel frames m =
      Some (c, g, w, map (\<lambda>i. (of_nat (i div 7), Some (cg_status_code CG_PAUSED_SCHEDULER))) [0..<Suc frames]) \<and>
    numbers (printed_lines w) = concat (replicate frames (map (\<lambda>i. to_i (inc (inc (of_i i)))) [0, 1, 2, 3, 4]))"
proof -
  let ?at = "graph_at [0..<length (gd_fifos callback_graph)] callback_graph bufs m (callback_code of_i inc to_i) callback_view []"
  have "callback_view callback_start = []" by (simp add: callback_view_def callback_start_def)
  then have start: "?at 0 (new_graph callback_graph bufs m) callback_start"
    using graph_at_start [OF callback_balanced assms(1) [unfolded apart_own_places], of m _ callback_view callback_start] by simp
  have pos: "at_position callback_sched init_cb_state 0" by (simp add: at_position_def init_cb_state_def)
  have fuel: "0 < 7 * fuel" "0 + frames < 7 * fuel" using assms(2) by auto
  have "frames_used 0 0 callback_start" by (simp add: frames_used_def callback_start_def)
  from callback_call [OF assms(1) pos fuel(1) start this] obtain c1 g1 w1 p1 where one:
    "callback_scheduler (pausing_code (callback_nodes of_i inc to_i) (gd_nodes callback_graph)) (length (gd_nodes callback_graph))
       callback_sched fuel init_cb_state (new_graph callback_graph bufs m) callback_start =
       Some (c1, g1, w1, of_nat (0 div 7), Some (cg_status_code CG_PAUSED_SCHEDULER))"
    "at_position callback_sched c1 p1" "sink_waits 0 p1 w1" "?at p1 g1 w1" by metis
  from callback_calls_frames [OF assms(1) one(2,3) fuel(2) one(4)] obtain c g w p where calls:
    "callback_calls (pausing_code (callback_nodes of_i inc to_i) (gd_nodes callback_graph)) (length (gd_nodes callback_graph))
       callback_sched fuel (replicate frames announce_frame) c1 g1 w1 =
       Some (c, g, w, map (\<lambda>i. (of_nat ((0 + i) div 7), Some (cg_status_code CG_PAUSED_SCHEDULER))) [1..<Suc frames])"
    "sink_waits (0 + frames) p w" "?at p g w" by blast
  have "[0..<Suc frames] = 0 # [1..<Suc frames]" by (simp add: upt_conv_Cons)
  with one(1) calls(1) have "callback_main of_i inc to_i bufs fuel frames m =
      Some (c, g, w, map (\<lambda>i. (of_nat (i div 7), Some (cg_status_code CG_PAUSED_SCHEDULER))) [0..<Suc frames])"
    by (simp add: callback_main_def del: upt_Suc)
  moreover have "numbers (printed_lines w) = concat (replicate frames (frame_block of_i inc to_i))"
  proof -
    have "start_queues callback_graph bufs m i = []" if "i < 3" for i
      using that by (auto simp: callback_graph_def sync_fifo_def array_fifo_def less_Suc_eq numeral_3_eq_3)
    then have empty: "start_queues callback_graph bufs m 0 = []" "start_queues callback_graph bufs m 1 = []"
      "start_queues callback_graph bufs m 2 = []" by simp_all
    have "snd (queue_steps (callback_code of_i inc to_i) (gd_nodes callback_graph) callback_sched p
        (start_queues callback_graph bufs m) []) = callback_view w"
      using calls(3) unfolding graph_at_def by (metis snd_conv)
    then have "numbers (callback_view w) = concat (replicate (sink_runs callback_sched p) (frame_block of_i inc to_i))"
      using callback_blocks [OF empty, of of_i inc to_i p] by simp
    then show ?thesis using calls(2) by (simp add: numbers_view sink_waits_def)
  qed
  ultimately show ?thesis by (intro exI conjI)
qed

lemma callback_buffers_apart: "apart (gd_fifos callback_graph) [0, 11, 18]"
  by (simp add: apart_def callback_graph_def sync_fifo_def array_fifo_def less_Suc_eq numeral_3_eq_3)

text \<open>The eight calls of the main program: the last one reports one iteration.\<close>

theorem callback_example_output_witness:
  "\<exists>c g w. callback_main (\<lambda>i. i) (\<lambda>x. x + 1) (\<lambda>x. x) [0, 11, 18] 2 7 (\<lambda>a. 0) =
      Some (c, g, w, replicate 7 (0, Some (-9)) @ [(1, Some (-9))]) \<and>
    numbers (printed_lines w) = concat (replicate 7 [2, 3, 4, 5, 6])"
proof -
  have "(7 :: nat) < 7 * 2" by simp
  from callback_example_output [OF callback_buffers_apart this, of "\<lambda>i. i" "\<lambda>x. x + 1" "\<lambda>x. x" "\<lambda>a. 0"]
  obtain c g w where main: "callback_main (\<lambda>i. i) (\<lambda>x. x + 1) (\<lambda>x. x) [0, 11, 18] 2 7 (\<lambda>a. 0) =
      Some (c, g, w, map (\<lambda>i. (of_nat (i div 7), Some (cg_status_code CG_PAUSED_SCHEDULER))) [0..<Suc 7])"
    "numbers (printed_lines w) = concat (replicate 7 (map (\<lambda>i. i + 1 + 1) [0, 1, 2, 3, 4]))" by (elim exE conjE) (rule that)
  have "map (\<lambda>i. (of_nat (i div 7) :: u32, Some (cg_status_code CG_PAUSED_SCHEDULER))) [0..<Suc 7] =
      replicate 7 (0, Some (-9)) @ [(1, Some (-9))]" by code_simp
  with main show ?thesis by simp
qed

theorem callback_refines_queues_witness:
  "\<exists>c g w' rs nb r p. callback_calls (pausing_code (callback_nodes (\<lambda>i. i) (\<lambda>x. x + 1) (\<lambda>x. x)) (gd_nodes callback_graph))
      (length (gd_nodes callback_graph)) (gd_schedule callback_graph) 3 [\<lambda>w. w, announce_frame]
      init_cb_state (new_graph callback_graph [0, 11, 18] (\<lambda>a. 0)) callback_start = Some (c, g, w', rs @ [(nb, r)]) \<and>
    callback_view w' = snd (queue_steps (callback_code (\<lambda>i. i) (\<lambda>x. x + 1) (\<lambda>x. x)) (gd_nodes callback_graph)
      (gd_schedule callback_graph) p (start_queues callback_graph [0, 11, 18] (\<lambda>a. 0)) (callback_view callback_start)) \<and>
    untouched (gd_fifos callback_graph) [0, 11, 18] (\<lambda>a. 0) (gmem g) \<and>
    nb = of_nat (p div length (gd_schedule callback_graph)) \<and>
    (r = Some (cg_status_code CG_PAUSED_SCHEDULER) \<and> scheduleStateID c = p mod length (gd_schedule callback_graph) \<or>
     r = None \<and> 3 \<le> p div length (gd_schedule callback_graph)) \<and>
    snd ` set rs \<subseteq> {Some (cg_status_code CG_PAUSED_SCHEDULER)}"
  by (rule callback_refines_queues
      [OF callback_balanced callback_buffers_apart [unfolded apart_own_places] callback_block_sizes _ callback_hidden])
    (use callback_sinks(1) in \<open>auto simp: callback_view_def announce_frame_def\<close>)

end
