(* ===== verification/Exec.thy ===== *)
theory Exec
  imports Prelude "HOL-Library.Multiset"
begin

text \<open>
  Outcomes of calls that can be undefined, and programs that apply operations to a list of
  objects they own: the locale \<open>handle_ops\<close> is the contract of a set of such operations,
  an invariant that each of them keeps and the failures that it may have.
\<close>

section \<open>Outcomes\<close>

text \<open>
  A call returns or is undefined. One undefined behaviour has a name of its own: \<open>Relock\<close>, the
  thread acquires a \<^verbatim>\<open>std::shared_mutex\<close> that it already holds (implementations wait for ever).
  \<open>UB\<close> is any other, such as the use of an object after it was freed.
\<close>

datatype 'a exec = Fine 'a | Relock | UB

fun exec_then :: "'a exec \<Rightarrow> ('a \<Rightarrow> 'b exec) \<Rightarrow> 'b exec" where
  "exec_then (Fine x) f = f x"
| "exec_then Relock f = Relock"
| "exec_then UB f = UB"

lemma exec_then_Fine [simp]: "exec_then m f = Fine y \<longleftrightarrow> (\<exists>x. m = Fine x \<and> f x = Fine y)"
  by (cases m) simp_all

lemma exec_then_Relock: "exec_then m f = Relock \<longleftrightarrow> m = Relock \<or> (\<exists>x. m = Fine x \<and> f x = Relock)"
  by (cases m) simp_all

lemma exec_then_id [simp]: "exec_then m Fine = m"
  by (cases m) simp_all

definition relocks :: "'a exec \<Rightarrow> bool" where
  "relocks m = (case m of Relock \<Rightarrow> True | _ \<Rightarrow> False)"

definition undefined_call :: "'a exec \<Rightarrow> bool" where
  "undefined_call m = (case m of Fine x \<Rightarrow> False | _ \<Rightarrow> True)"

lemma undefined_call_simps [simp]:
  "\<not> undefined_call (Fine x)" "undefined_call Relock" "undefined_call UB"
  by (simp_all add: undefined_call_def)

section \<open>Programs over owned objects\<close>

text \<open>An operation that names no object of the list does nothing.\<close>

fun run_ops ::
    "('op \<Rightarrow> 's \<Rightarrow> 'h list \<Rightarrow> ('s \<times> 'h list) exec) \<Rightarrow> ('op \<Rightarrow> nat list) \<Rightarrow>
     'op list \<Rightarrow> 's \<Rightarrow> 'h list \<Rightarrow> ('s \<times> 'h list) exec" where
  "run_ops act operands [] s hs = Fine (s, hs)"
| "run_ops act operands (a # as) s hs =
     (if \<forall>k\<in>set (operands a). k < length hs
      then exec_then (act a s hs) (\<lambda>(s', hs'). run_ops act operands as s' hs')
      else run_ops act operands as s hs)"

text \<open>
  \<open>fails a s hs r\<close> says which outcomes \<open>r\<close> other than a normal return the operation \<open>a\<close> may have,
  and where. A sequence of operations keeps the invariant, or one of its operations fails
  after a part that kept it.
\<close>

locale handle_ops =
  fixes act :: "'op \<Rightarrow> 's \<Rightarrow> 'h list \<Rightarrow> ('s \<times> 'h list) exec"
    and operands :: "'op \<Rightarrow> nat list"
    and inv :: "'s \<Rightarrow> 'h list \<Rightarrow> bool"
    and fails :: "'op \<Rightarrow> 's \<Rightarrow> 'h list \<Rightarrow> ('s \<times> 'h list) exec \<Rightarrow> bool"
  assumes act_ok: "inv s hs \<Longrightarrow> \<forall>k\<in>set (operands a). k < length hs \<Longrightarrow>
    (\<exists>s' hs'. act a s hs = Fine (s', hs') \<and> inv s' hs') \<or>
    (undefined_call (act a s hs) \<and> fails a s hs (act a s hs))"

context handle_ops
begin

lemma run_ok:
  "inv s hs \<Longrightarrow>
   (\<exists>s' hs'. run_ops act operands as s hs = Fine (s', hs') \<and> inv s' hs') \<or>
   (\<exists>pre a suf s' hs'. as = pre @ a # suf \<and> run_ops act operands pre s hs = Fine (s', hs') \<and> inv s' hs' \<and>
      (\<forall>k\<in>set (operands a). k < length hs') \<and> run_ops act operands as s hs = act a s' hs' \<and>
      undefined_call (act a s' hs') \<and> fails a s' hs' (act a s' hs'))"
proof (induction as arbitrary: s hs)
  case (Cons a as)
  show ?case
  proof (cases "\<forall>k\<in>set (operands a). k < length hs")
    case True
    from act_ok [OF Cons.prems True] show ?thesis
    proof (elim disjE exE conjE)
      fix s1 hs1
      assume 1: "act a s hs = Fine (s1, hs1)" and 2: "inv s1 hs1"
      have *: "run_ops act operands (a # bs) s hs = run_ops act operands bs s1 hs1" for bs
        by (simp add: True 1)
      from Cons.IH [OF 2] show ?thesis unfolding * by (metis * append_Cons)
    next
      assume u: "undefined_call (act a s hs)" and f: "fails a s hs (act a s hs)"
      have "run_ops act operands (a # as) s hs = act a s hs"
        using u by (cases "act a s hs") (simp_all add: True undefined_call_def)
      with u f Cons.prems True show ?thesis
        by (intro disjI2 exI [of _ "[]"] exI [of _ a] exI [of _ as] exI [of _ s] exI [of _ hs]) simp
    qed
  next
    case False
    have *: "run_ops act operands (a # bs) s hs = run_ops act operands bs s hs" for bs
      unfolding run_ops.simps by (rule if_not_P [OF False])
    from Cons.IH [OF Cons.prems] show ?thesis unfolding * by (metis * append_Cons)
  qed
qed simp

lemma run_Fine: "inv s hs \<Longrightarrow> run_ops act operands as s hs = Fine (s', hs') \<Longrightarrow> inv s' hs'"
  using run_ok [of s hs as] by (metis exec.inject prod.inject undefined_call_simps(1))

end

text \<open>Taking one or two elements of a list out of its multiset.\<close>

lemma mset_split1:
  assumes "k < length xs"
  obtains R where "mset xs = add_mset (xs ! k) R" and "\<And>a. mset (xs[k := a]) = add_mset a R"
    and "mset (take k xs @ drop (Suc k) xs) = R" and "\<And>l. l < length xs \<Longrightarrow> l \<noteq> k \<Longrightarrow> xs ! l \<in># R"
proof (rule that)
  let ?R = "mset (take k xs @ drop (Suc k) xs)"
  have xs: "xs = take k xs @ xs ! k # drop (Suc k) xs" using id_take_nth_drop [OF assms] .
  then show "mset xs = add_mset (xs ! k) ?R"
    by (metis mset.simps(2) mset_append union_mset_add_mset_right)
  show "mset (xs[k := a]) = add_mset a ?R" for a
    using assms by (simp add: upd_conv_take_nth_drop)
  show "xs ! l \<in># ?R" if "l < length xs" "l \<noteq> k" for l
  proof (cases "l < k")
    case True
    then have "take k xs ! l = xs ! l" "l < length (take k xs)" using that assms by simp_all
    then have "xs ! l \<in> set (take k xs)" by (metis nth_mem)
    then show ?thesis by simp
  next
    case False
    then have "drop (Suc k) xs ! (l - Suc k) = xs ! l" "l - Suc k < length (drop (Suc k) xs)"
      using that by simp_all
    then have "xs ! l \<in> set (drop (Suc k) xs)" by (metis nth_mem)
    then show ?thesis by simp
  qed
qed simp

lemma mset_split2:
  assumes "k < length xs" and "l < length xs" and "k \<noteq> l"
  obtains R where "mset xs = add_mset (xs ! k) (add_mset (xs ! l) R)"
    and "\<And>a b. mset (xs[k := a, l := b]) = add_mset a (add_mset b R)"
proof -
  obtain R1 where R1: "mset xs = add_mset (xs ! k) R1" "\<And>a. mset (xs[k := a]) = add_mset a R1"
      "xs ! l \<in># R1"
    using mset_split1 [OF assms(1)] assms(2,3) by metis
  then obtain R where R: "R1 = add_mset (xs ! l) R" using multi_member_split by metis
  have "mset (xs[k := a, l := b]) = add_mset a (add_mset b R)" for a b
    using mset_update [of l "xs[k := a]" b] R1(2) [of a] R assms by (simp add: add_mset_commute)
  with R1(1) R show ?thesis by (intro that) simp_all
qed

end
