(* ===== verification/SchedulerMemory.thy ===== *)
theory SchedulerMemory
  imports AsyncScheduler SchedulerExamples Exec
begin

text \<open>
  The life of a graph whose objects the generator allocates on the heap (\<^verbatim>\<open>heapAllocation\<close>, as in
  \<^verbatim>\<open>Examples/example10\<close>): \<^verbatim>\<open>init_scheduler\<close> creates FIFOs and nodes and gives up at the first allocation that
  fails, \<^verbatim>\<open>free_scheduler\<close> deletes them, \<^verbatim>\<open>reset_fifos_scheduler\<close> puts the FIFOs back to the start. The static
  structures \<^verbatim>\<open>fifos\<close> and \<^verbatim>\<open>nodes\<close> hold their pointers.
\<close>

section \<open>Objects\<close>

text \<open>
  The heap: the addresses that hold an object, the first one never used, and the FIFO objects by address; the
  two structures of pointers, \<open>None\<close> for \<^verbatim>\<open>NULL\<close>.
\<close>

record objects =
  live :: "nat list"
  next_addr :: nat
  fifo_at :: "nat \<Rightarrow> fifo_obj"
  fifo_ptrs :: "nat option list"
  node_ptrs :: "nat option list"

definition new_nothrow :: "bool \<Rightarrow> objects \<Rightarrow> objects \<times> nat option" where
  "new_nothrow ok s =
     (if ok then (s\<lparr>live := next_addr s # live s, next_addr := Suc (next_addr s)\<rparr>, Some (next_addr s)) else (s, None))"

definition delete_object :: "nat option \<Rightarrow> objects \<Rightarrow> objects exec" where
  "delete_object p s =
     (case p of
        None \<Rightarrow> Fine s
      | Some a \<Rightarrow> if a \<in> set (live s) then Fine (s\<lparr>live := remove1 a (live s)\<rparr>) else UB)"

section \<open>The generated functions\<close>

text \<open>\<open>ok i\<close> says whether the allocation of object \<open>i\<close> succeeds, \<open>mk i\<close> is the FIFO its constructor makes.\<close>

fun create_fifos :: "(nat \<Rightarrow> bool) \<Rightarrow> (nat \<Rightarrow> fifo_obj) \<Rightarrow> nat list \<Rightarrow> objects \<Rightarrow> objects \<times> int" where
  "create_fifos ok mk [] s = (s, cg_status_code CG_SUCCESS)"
| "create_fifos ok mk (i # is) s =
     (case new_nothrow (ok i) s of (s1, p) \<Rightarrow>
        let s2 = s1\<lparr>fifo_ptrs := (fifo_ptrs s1)[i := p]\<rparr> in
        case p of
          None \<Rightarrow> (s2, cg_status_code CG_MEMORY_ALLOCATION_FAILURE)
        | Some a \<Rightarrow> create_fifos ok mk is (s2\<lparr>fifo_at := (fifo_at s2)(a := mk i)\<rparr>))"

fun create_nodes :: "(nat \<Rightarrow> bool) \<Rightarrow> nat list \<Rightarrow> objects \<Rightarrow> objects \<times> int" where
  "create_nodes ok [] s = (s, cg_status_code CG_SUCCESS)"
| "create_nodes ok (k # ks) s =
     (case new_nothrow (ok k) s of (s1, p) \<Rightarrow>
        let s2 = s1\<lparr>node_ptrs := (node_ptrs s1)[k := p]\<rparr> in
        case p of None \<Rightarrow> (s2, cg_status_code CG_MEMORY_ALLOCATION_FAILURE) | Some a \<Rightarrow> create_nodes ok ks s2)"

fun call_inits :: "(nat \<Rightarrow> 'w \<Rightarrow> 'w \<times> int) \<Rightarrow> nat list \<Rightarrow> 'w \<Rightarrow> 'w \<times> int" where
  "call_inits init [] w = (w, cg_status_code CG_SUCCESS)"
| "call_inits init (k # ks) w =
     (case init k w of (w', e) \<Rightarrow> if e \<noteq> cg_status_code CG_SUCCESS then (w', e) else call_inits init ks w')"

definition init_scheduler ::
    "(nat \<Rightarrow> bool) \<Rightarrow> (nat \<Rightarrow> bool) \<Rightarrow> (nat \<Rightarrow> 'w \<Rightarrow> 'w \<times> int) \<Rightarrow> (nat \<Rightarrow> fifo_obj) \<Rightarrow> 'w \<Rightarrow> objects \<Rightarrow> objects \<times> 'w \<times> int" where
  "init_scheduler fifo_ok node_ok init mk w s =
     (case create_fifos fifo_ok mk [0..<length (fifo_ptrs s)] s of (s1, e1) \<Rightarrow>
        if e1 \<noteq> 0 then (s1, w, e1)
        else (case create_nodes node_ok [0..<length (node_ptrs s)] s1 of (s2, e2) \<Rightarrow>
          if e2 \<noteq> 0 then (s2, w, e2)
          else (case call_inits init [0..<length (node_ptrs s)] w of (w', e3) \<Rightarrow> (s2, w', e3))))"

fun delete_all :: "nat option list \<Rightarrow> objects \<Rightarrow> objects exec" where
  "delete_all [] s = Fine s"
| "delete_all (p # ps) s = exec_then (delete_object p s) (\<lambda>s'. delete_all ps s')"

text \<open>The pointers stay as they are.\<close>

definition free_scheduler :: "objects \<Rightarrow> objects exec" where
  "free_scheduler s = exec_then (delete_all (fifo_ptrs s) s) (\<lambda>s1. delete_all (node_ptrs s1) s1)"

fun reset_all :: "nat option list \<Rightarrow> objects \<Rightarrow> objects exec" where
  "reset_all [] s = Fine s"
| "reset_all (None # ps) s = reset_all ps s"
| "reset_all (Some a # ps) s =
     (if a \<in> set (live s) then reset_all ps (s\<lparr>fifo_at := (fifo_at s)(a := fo_reset (fifo_at s a))\<rparr>) else UB)"

text \<open>\<^verbatim>\<open>std::fill_n\<close> of every buffer with zeros.\<close>

fun clear_buffers :: "'a::zero mem \<Rightarrow> (int \<times> int) list \<Rightarrow> 'a mem" where
  "clear_buffers m [] = m"
| "clear_buffers m ((buf, len) # bs) = clear_buffers (mem_write m buf (replicate (nat len) 0)) bs"

definition buffers_of :: "fifo_decl list \<Rightarrow> int list \<Rightarrow> (int \<times> int) list" where
  "buffers_of ds bufs = map (\<lambda>i. (bufs ! i, fd_length (ds ! i))) [0..<length ds]"

definition reset_fifos_scheduler ::
    "fifo_decl list \<Rightarrow> int list \<Rightarrow> bool \<Rightarrow> objects \<Rightarrow> 'a::zero mem \<Rightarrow> (objects \<times> 'a mem) exec" where
  "reset_fifos_scheduler ds bufs everything s m =
     exec_then (reset_all (fifo_ptrs s) s)
       (\<lambda>s'. Fine (s', if everything then clear_buffers m (buffers_of ds bufs) else m))"

text \<open>The scheduler function works on the FIFO objects behind the pointers; \<open>loop\<close> is its body.\<close>

definition graph_of :: "objects \<Rightarrow> 'a mem \<Rightarrow> 'a graph" where
  "graph_of s m = \<lparr>gmem = m, gfifo = (\<lambda>i. fifo_at s (the (fifo_ptrs s ! i)))\<rparr>"

definition write_back :: "objects \<Rightarrow> 'a graph \<Rightarrow> objects" where
  "write_back s g = s\<lparr>fifo_at := (\<lambda>a. case map_of (zip (fifo_ptrs s) [0..<length (fifo_ptrs s)]) (Some a) of
     None \<Rightarrow> fifo_at s a | Some i \<Rightarrow> gfifo g i)\<rparr>"

definition heap_scheduler ::
    "('a graph \<Rightarrow> ('a graph \<times> 'r) option) \<Rightarrow> objects \<Rightarrow> 'a mem \<Rightarrow> (objects \<times> 'a mem \<times> 'r) option" where
  "heap_scheduler loop s m = map_option (\<lambda>(g, r). (write_back s g, gmem g, r)) (loop (graph_of s m))"

section \<open>Ownership\<close>

text \<open>The objects the two structures point to, and the heap with those of the rest of the program.\<close>

fun held :: "nat option list \<Rightarrow> nat list" where
  "held [] = []"
| "held (None # ps) = held ps"
| "held (Some a # ps) = a # held ps"

definition owns :: "objects \<Rightarrow> nat multiset \<Rightarrow> bool" where
  "owns s others \<longleftrightarrow> mset (live s) = mset (held (fifo_ptrs s)) + mset (held (node_ptrs s)) + others \<and>
     distinct (live s) \<and> (\<forall>a\<in>set (live s). a < next_addr s)"

definition null_pointers :: "objects \<Rightarrow> bool" where
  "null_pointers s \<longleftrightarrow> set (fifo_ptrs s) \<subseteq> {None} \<and> set (node_ptrs s) \<subseteq> {None} \<and>
     distinct (live s) \<and> (\<forall>a\<in>set (live s). a < next_addr s)"

lemma held_null: "set ps \<subseteq> {None} \<Longrightarrow> held ps = []"
  by (induction ps rule: held.induct) auto

lemma held_update: "i < length ps \<Longrightarrow> ps ! i = None \<Longrightarrow> mset (held (ps[i := Some a])) = add_mset a (mset (held ps))"
proof (induction ps arbitrary: i rule: held.induct)
  case (3 b ps)
  then show ?case by (cases i) auto
qed (auto split: nat.splits)

lemma held_update_null: "i < length ps \<Longrightarrow> ps ! i = None \<Longrightarrow> ps[i := None] = ps"
  by (metis list_update_id)

lemma null_pointers_owns: "null_pointers s \<Longrightarrow> owns s (mset (live s))"
  by (simp add: null_pointers_def owns_def held_null)

lemma create_fifos_owns:
  "owns s R \<Longrightarrow> distinct is \<Longrightarrow> \<forall>i\<in>set is. i < length (fifo_ptrs s) \<and> fifo_ptrs s ! i = None \<Longrightarrow>
   create_fifos ok mk is s = (s', e) \<Longrightarrow>
   owns s' R \<and> node_ptrs s' = node_ptrs s \<and> length (fifo_ptrs s') = length (fifo_ptrs s) \<and> next_addr s \<le> next_addr s' \<and>
   (\<forall>j. j \<notin> set is \<longrightarrow> fifo_ptrs s' ! j = fifo_ptrs s ! j) \<and> (\<forall>a<next_addr s. fifo_at s' a = fifo_at s a) \<and>
   (e = 0 \<longrightarrow> (\<forall>i\<in>set is. \<exists>a. next_addr s \<le> a \<and> a < next_addr s' \<and> fifo_ptrs s' ! i = Some a \<and> fifo_at s' a = mk i))"
proof (induction "is" arbitrary: s)
  case (Cons i "is")
  show ?case
  proof (cases "ok i")
    case False
    with Cons.prems show ?thesis
      by (auto simp: new_nothrow_def Let_def held_update_null owns_def)
  next
    case True
    let ?a = "next_addr s"
    let ?s = "s\<lparr>live := ?a # live s, next_addr := Suc ?a, fifo_ptrs := (fifo_ptrs s)[i := Some ?a],
        fifo_at := (fifo_at s)(?a := mk i)\<rparr>"
    have rest: "create_fifos ok mk is ?s = (s', e)"
      using Cons.prems(4) True by (simp add: new_nothrow_def Let_def)
    have "owns ?s R"
      using Cons.prems(1,3) by (auto simp: owns_def held_update less_Suc_eq)
    moreover have "\<forall>j\<in>set is. j < length (fifo_ptrs ?s) \<and> fifo_ptrs ?s ! j = None"
      using Cons.prems(2,3) by (auto simp: nth_list_update)
    ultimately have ih: "owns s' R" "node_ptrs s' = node_ptrs s" "length (fifo_ptrs s') = length (fifo_ptrs s)"
      "Suc ?a \<le> next_addr s'" "\<forall>j. j \<notin> set is \<longrightarrow> fifo_ptrs s' ! j = fifo_ptrs ?s ! j"
      "\<forall>a<Suc ?a. fifo_at s' a = fifo_at ?s a"
      "e = 0 \<longrightarrow> (\<forall>i\<in>set is. \<exists>a. Suc ?a \<le> a \<and> a < next_addr s' \<and> fifo_ptrs s' ! i = Some a \<and> fifo_at s' a = mk i)"
      using Cons.IH [OF _ _ _ rest] Cons.prems(2) by auto
    have "fifo_ptrs s' ! i = Some ?a" using ih(5) Cons.prems(2,3) by auto
    moreover have "fifo_at s' ?a = mk i" using ih(6) by simp
    moreover have "\<forall>j. j \<notin> set (i # is) \<longrightarrow> fifo_ptrs s' ! j = fifo_ptrs s ! j" using ih(5) by auto
    moreover have "\<forall>a<?a. fifo_at s' a = fifo_at s a" using ih(6) by simp
    ultimately show ?thesis using ih(1-4,7) by (auto intro: Suc_leD less_le_trans)
  qed
qed auto

lemma create_nodes_owns:
  "owns s R \<Longrightarrow> distinct ks \<Longrightarrow> \<forall>k\<in>set ks. k < length (node_ptrs s) \<and> node_ptrs s ! k = None \<Longrightarrow>
   create_nodes ok ks s = (s', e) \<Longrightarrow>
   owns s' R \<and> fifo_ptrs s' = fifo_ptrs s \<and> length (node_ptrs s') = length (node_ptrs s) \<and> fifo_at s' = fifo_at s"
proof (induction ks arbitrary: s)
  case (Cons k ks)
  show ?case
  proof (cases "ok k")
    case False
    with Cons.prems show ?thesis
      by (auto simp: new_nothrow_def Let_def held_update_null owns_def)
  next
    case True
    let ?a = "next_addr s"
    let ?s = "s\<lparr>live := ?a # live s, next_addr := Suc ?a, node_ptrs := (node_ptrs s)[k := Some ?a]\<rparr>"
    have rest: "create_nodes ok ks ?s = (s', e)"
      using Cons.prems(4) True by (simp add: new_nothrow_def Let_def)
    have "owns ?s R"
      using Cons.prems(1,3) by (auto simp: owns_def held_update less_Suc_eq)
    moreover have "\<forall>j\<in>set ks. j < length (node_ptrs ?s) \<and> node_ptrs ?s ! j = None"
      using Cons.prems(2,3) by (auto simp: nth_list_update)
    ultimately show ?thesis using Cons.IH [OF _ _ _ rest] Cons.prems(2) by auto
  qed
qed auto

lemma delete_all_owned:
  "mset (live s) = mset (held ps) + M \<Longrightarrow>
   \<exists>s'. delete_all ps s = Fine s' \<and> mset (live s') = M \<and> fifo_ptrs s' = fifo_ptrs s \<and> node_ptrs s' = node_ptrs s \<and>
     next_addr s' = next_addr s"
proof (induction ps arbitrary: s rule: held.induct)
  case (3 a ps)
  have "a \<in> set (live s)" using 3(2) by (metis held.simps(3) list.set_intros(1) set_mset_mset union_iff)
  moreover have "mset (remove1 a (live s)) = mset (held ps) + M" using 3(2) by simp
  ultimately show ?case using 3(1) [of "s\<lparr>live := remove1 a (live s)\<rparr>"] by (simp add: delete_object_def)
qed (auto simp: delete_object_def)

lemma owned_free:
  assumes "owns s R"
  obtains s' where "free_scheduler s = Fine s'" "mset (live s') = R" "fifo_ptrs s' = fifo_ptrs s" "node_ptrs s' = node_ptrs s"
    "next_addr s' = next_addr s"
proof -
  have "mset (live s) = mset (held (fifo_ptrs s)) + (mset (held (node_ptrs s)) + R)" using assms by (simp add: owns_def)
  from delete_all_owned [OF this] obtain s1 where s1: "delete_all (fifo_ptrs s) s = Fine s1"
    "mset (live s1) = mset (held (node_ptrs s)) + R" "fifo_ptrs s1 = fifo_ptrs s" "node_ptrs s1 = node_ptrs s"
    "next_addr s1 = next_addr s" by blast
  from delete_all_owned [OF s1(2)] s1 that show thesis by (force simp: free_scheduler_def)
qed

lemma null_slots: "set ps \<subseteq> {None} \<Longrightarrow> \<forall>i\<in>set [0..<length ps]. i < length ps \<and> ps ! i = None"
proof
  fix i
  assume null: "set ps \<subseteq> {None}" and "i \<in> set [0..<length ps]"
  then have i: "i < length ps" by simp
  then have "ps ! i \<in> set ps" by simp
  with null i show "i < length ps \<and> ps ! i = None" by blast
qed

lemma init_scheduler_owns:
  assumes null: "null_pointers s" and init: "init_scheduler fifo_ok node_ok f mk w s = (s', w', e)"
  shows "owns s' (mset (live s))" and "length (fifo_ptrs s') = length (fifo_ptrs s)"
    and "e = 0 \<Longrightarrow> i < length (fifo_ptrs s) \<Longrightarrow> \<exists>a. next_addr s \<le> a \<and> fifo_ptrs s' ! i = Some a \<and> fifo_at s' a = mk i"
proof -
  obtain s1 e1 where c1: "create_fifos fifo_ok mk [0..<length (fifo_ptrs s)] s = (s1, e1)" by fastforce
  have n: "set (fifo_ptrs s) \<subseteq> {None}" "set (node_ptrs s) \<subseteq> {None}" using null by (simp_all add: null_pointers_def)
  from create_fifos_owns [OF null_pointers_owns [OF null] distinct_upt null_slots [OF n(1)] c1]
  have 1: "owns s1 (mset (live s))" "node_ptrs s1 = node_ptrs s" "length (fifo_ptrs s1) = length (fifo_ptrs s)"
    "e1 = 0 \<Longrightarrow> \<forall>i\<in>set [0..<length (fifo_ptrs s)]. \<exists>a. next_addr s \<le> a \<and> a < next_addr s1 \<and> fifo_ptrs s1 ! i = Some a \<and> fifo_at s1 a = mk i"
    by blast+
  obtain s2 e2 where c2: "create_nodes node_ok [0..<length (node_ptrs s)] s1 = (s2, e2)" by fastforce
  from create_nodes_owns [OF 1(1) distinct_upt _ c2] null_slots [OF n(2)] 1(2)
  have 2: "owns s2 (mset (live s))" "fifo_ptrs s2 = fifo_ptrs s1" "fifo_at s2 = fifo_at s1" by simp_all
  have cases: "s' = s1 \<and> e \<noteq> 0 \<or> s' = s2 \<and> e1 = 0"
    using init c1 c2 by (auto simp: init_scheduler_def split: if_splits prod.splits)
  then show "owns s' (mset (live s))" "length (fifo_ptrs s') = length (fifo_ptrs s)" using 1 2 by auto
  show "\<exists>a. next_addr s \<le> a \<and> fifo_ptrs s' ! i = Some a \<and> fifo_at s' a = mk i" if "e = 0" "i < length (fifo_ptrs s)"
    using cases 1(4) 2(2,3) that by fastforce
qed

section \<open>Freeing\<close>

text \<open>
  C10. Whatever allocations fail in the first \<^verbatim>\<open>init_scheduler\<close>, and whatever status the initialisation of a
  node returns, \<^verbatim>\<open>free_scheduler\<close> deletes exactly what was created: nothing is deleted that is not there, and
  the objects left are those the rest of the program had before.
\<close>
theorem init_then_free:
  assumes "null_pointers s" "init_scheduler fifo_ok node_ok f mk w s = (s', w', e)"
  shows "\<exists>s''. free_scheduler s' = Fine s'' \<and> mset (live s'') = mset (live s)"
  using owned_free [OF init_scheduler_owns(1) [OF assms]] by blast

definition demo_objects :: objects where
  "demo_objects = \<lparr>live = [], next_addr = 0, fifo_at = (\<lambda>_. SyncFIFO 0 (FIFO_new 0 0)), fifo_ptrs = replicate 3 None,
     node_ptrs = replicate 2 None\<rparr>"

lemma demo_objects_null: "null_pointers demo_objects"
  by (simp add: null_pointers_def demo_objects_def)

definition demo_init :: "(nat \<Rightarrow> bool) \<Rightarrow> (nat \<Rightarrow> bool) \<Rightarrow> objects \<Rightarrow> objects \<times> unit \<times> int" where
  "demo_init fifo_ok node_ok = init_scheduler fifo_ok node_ok (\<lambda>_ _. ((), 0)) (\<lambda>i. SyncFIFO 2 (FIFO_new (2 * int i) 0)) ()"

theorem init_then_free_witness:
  "case demo_init (\<lambda>_. True) (\<lambda>k. k = 0) demo_objects of (s', _, e) \<Rightarrow>
     e = cg_status_code CG_MEMORY_ALLOCATION_FAILURE \<and> length (live s') = 4 \<and>
     (\<exists>s''. free_scheduler s' = Fine s'' \<and> mset (live s'') = mset (live demo_objects))"
proof -
  obtain s' e where run: "demo_init (\<lambda>_. True) (\<lambda>k. k = 0) demo_objects = (s', (), e)"
    by (cases "demo_init (\<lambda>_. True) (\<lambda>k. k = 0) demo_objects") auto
  have "e = cg_status_code CG_MEMORY_ALLOCATION_FAILURE \<and> length (live s') = 4"
    using run by (auto simp: demo_init_def demo_objects_def init_scheduler_def new_nothrow_def Let_def upt_rec)
  moreover have "\<exists>s''. free_scheduler s' = Fine s'' \<and> mset (live s'') = mset (live demo_objects)"
    by (rule init_then_free [OF demo_objects_null run [unfolded demo_init_def]])
  ultimately show ?thesis unfolding run by simp
qed

lemma delete_all_dangling:
  "Some a \<in> set ps \<Longrightarrow> a \<notin> set (live s) \<Longrightarrow> delete_all ps s = UB"
proof (induction ps arbitrary: s)
  case (Cons p ps)
  show ?case
  proof (cases "delete_object p s")
    case (Fine s1)
    then have "p \<noteq> Some a" "a \<notin> set (live s1)"
      using Cons.prems(2) by (auto simp: delete_object_def split: option.splits if_splits dest: notin_set_remove1)
    with Cons.IH Cons.prems(1) Fine show ?thesis by simp
  qed (auto simp: delete_object_def split: option.splits if_splits)
qed simp

text \<open>
  \<^verbatim>\<open>free_scheduler\<close> leaves the pointers to what it deleted. After it, freeing again is undefined; and
  when a second \<^verbatim>\<open>init_scheduler\<close> fails at its first allocation, the clean-up with \<^verbatim>\<open>free_scheduler\<close> deletes the
  other FIFOs of the first life once more.
\<close>
theorem stale_pointers_deleted_again:
  assumes "null_pointers s" "2 \<le> length (fifo_ptrs s)"
    and "init_scheduler fifo_ok node_ok f mk w s = (s1, w1, 0)" "free_scheduler s1 = Fine s2"
    and "init_scheduler (\<lambda>_. False) node_ok' f mk w1 s2 = (s3, w3, e)"
  shows "free_scheduler s2 = UB \<and> e = cg_status_code CG_MEMORY_ALLOCATION_FAILURE \<and> free_scheduler s3 = UB"
proof -
  note 1 = init_scheduler_owns [OF assms(1,3)]
  from owned_free [OF 1(1)] assms(4) have 2: "mset (live s2) = mset (live s)" "fifo_ptrs s2 = fifo_ptrs s1"
    "node_ptrs s2 = node_ptrs s1" by (metis exec.inject)+
  obtain a where a: "next_addr s \<le> a" "fifo_ptrs s1 ! 1 = Some a"
    using 1(3) [OF refl, of 1] assms(2) by auto
  have len: "1 < length (fifo_ptrs s1)" using 1(2) assms(2) by simp
  have old: "Some a \<in> set (fifo_ptrs s2)" using a(2) len 2(2) nth_mem by metis
  have "a \<notin> set (live s)" using assms(1) a(1) by (auto simp: null_pointers_def)
  then have gone: "a \<notin> set (live s2)" using 2(1) by (metis set_mset_mset)
  have "[0..<length (fifo_ptrs s2)] = 0 # [Suc 0..<length (fifo_ptrs s2)]" by (rule upt_conv_Cons) (use len 2(2) in \<open>metis less_trans zero_less_one\<close>)
  then have 3: "e = cg_status_code CG_MEMORY_ALLOCATION_FAILURE" "fifo_ptrs s3 = (fifo_ptrs s2)[0 := None]" "live s3 = live s2"
    using assms(5) by (auto simp: init_scheduler_def new_nothrow_def Let_def)
  have "fifo_ptrs s3 ! 1 = Some a" "1 < length (fifo_ptrs s3)" using a(2) len 2(2) 3(2) by simp_all
  then have "Some a \<in> set (fifo_ptrs s3)" using nth_mem by metis
  with gone 3(3) old show ?thesis
    by (simp add: 3(1) free_scheduler_def delete_all_dangling)
qed

theorem stale_pointers_deleted_again_witness:
  "\<exists>s1 s2 s3 e. demo_init (\<lambda>_. True) (\<lambda>_. True) demo_objects = (s1, (), 0) \<and> free_scheduler s1 = Fine s2 \<and>
     demo_init (\<lambda>_. False) (\<lambda>_. True) s2 = (s3, (), e) \<and> free_scheduler s2 = UB \<and> free_scheduler s3 = UB"
proof -
  obtain s1 e1 where run: "demo_init (\<lambda>_. True) (\<lambda>_. True) demo_objects = (s1, (), e1)"
    by (cases "demo_init (\<lambda>_. True) (\<lambda>_. True) demo_objects") auto
  then have "e1 = 0"
    by (auto simp: demo_init_def demo_objects_def init_scheduler_def new_nothrow_def Let_def upt_rec)
  note init = run [unfolded this demo_init_def]
  obtain s2 where s2: "free_scheduler s1 = Fine s2"
    using owned_free [OF init_scheduler_owns(1) [OF demo_objects_null init]] by metis
  obtain s3 e where again: "demo_init (\<lambda>_. False) (\<lambda>_. True) s2 = (s3, (), e)"
    by (cases "demo_init (\<lambda>_. False) (\<lambda>_. True) s2") auto
  have "2 \<le> length (fifo_ptrs demo_objects)" by (simp add: demo_objects_def)
  from stale_pointers_deleted_again [OF demo_objects_null this init s2 again [unfolded demo_init_def]] show ?thesis
    using run \<open>e1 = 0\<close> s2 again by blast
qed

section \<open>Resetting\<close>

text \<open>
  What \<^verbatim>\<open>reset\<close> makes of a FIFO does not change with what is read and written: buffer, length and delay stay.
\<close>

lemma fo_reset_read: "fo_getReadBuffer fo n = (fo', p) \<Longrightarrow> fo_reset fo' = fo_reset fo"
  by (cases fo) (auto simp: AFIFO_as_FIFO FIFO_getReadBuffer_def FIFO_reset_def)

lemma fo_reset_write: "fo_getWriteBuffer m fo n = Some (m', fo', p) \<Longrightarrow> fo_reset fo' = fo_reset fo"
  by (cases fo)
    (auto simp: AFIFO_as_FIFO FIFO_getWriteBuffer_def FIFO_reset_def Let_def split: if_splits option.splits)

lemma fo_reset_idem [simp]: "fo_reset (fo_reset fo) = fo_reset fo"
  by (cases fo) (simp_all add: FIFO_reset_def AFIFO_reset_def ARRAY_reset_def)

definition same_reset :: "'a graph \<Rightarrow> 'a graph \<Rightarrow> bool" where
  "same_reset g g' \<longleftrightarrow> (\<forall>i. fo_reset (gfifo g' i) = fo_reset (gfifo g i))"

lemma same_reset_refl [simp]: "same_reset g g"
  by (simp add: same_reset_def)

lemma same_reset_trans: "same_reset g g1 \<Longrightarrow> same_reset g1 g2 \<Longrightarrow> same_reset g g2"
  by (simp add: same_reset_def)

lemma same_reset_mem [simp]: "same_reset g (g'\<lparr>gmem := m\<rparr>) = same_reset g g'"
  by (simp add: same_reset_def)

lemma read_same_reset: "node_getReadBuffer g nd k nb = Some (g', p) \<Longrightarrow> same_reset g g'"
  by (auto simp: node_getReadBuffer_def same_reset_def Let_def fo_reset_read split: if_splits prod.splits)

lemma write_same_reset: "node_getWriteBuffer g nd k nb = Some (g', p) \<Longrightarrow> same_reset g g'"
  by (auto simp: node_getWriteBuffer_def same_reset_def Let_def fo_reset_write split: if_splits)

lemma run_prog_same_reset: "run_prog p nd g = Some (g', w, e) \<Longrightarrow> same_reset g g'"
proof (induction p arbitrary: g)
  case (ReadBlock k nb c)
  then obtain g1 p where get: "node_getReadBuffer g nd k nb = Some (g1, p)"
    and rest: "run_prog (c (mem_read (gmem g1) p (nat (port_nb (srcs nd ! k) nb)))) nd g1 = Some (g', w, e)"
    by (auto split: option.splits)
  show ?case by (rule same_reset_trans [OF read_same_reset [OF get] ReadBlock.IH [OF rangeI rest]])
next
  case (WriteBlock k nb xs c)
  then obtain g1 p where get: "node_getWriteBuffer g nd k nb = Some (g1, p)"
    and rest: "run_prog c nd (g1\<lparr>gmem := mem_write (gmem g1) p xs\<rparr>) = Some (g', w, e)"
    by (auto split: option.splits)
  from write_same_reset [OF get] WriteBlock.IH [OF rest] show ?case by (simp add: same_reset_def)
qed (auto split: option.splits)

lemma async_schedule_same_reset:
  "async_schedule (graph_runner nodes) C n ks g w err = Some (g', w', e, jump) \<Longrightarrow> same_reset g g'"
proof (induction ks arbitrary: g w err)
  case (Cons k ks)
  then show ?case
    by (auto simp: graph_runner_def split: prod.splits option.splits if_splits
        dest!: run_prog_same_reset intro: same_reset_trans)
qed simp

lemma async_loop_same_reset:
  "async_loop (graph_runner nodes) C n sched limit g w nb = Some (g', w', nb', e) \<Longrightarrow> same_reset g g'"
proof (induction limit arbitrary: g w nb)
  case (Suc limit)
  then show ?case
    by (auto split: prod.splits option.splits if_splits dest!: async_schedule_same_reset intro: same_reset_trans)
qed simp

lemma get_reads_same_reset: "get_reads g ss = (g', as) \<Longrightarrow> same_reset g g'"
proof (induction ss arbitrary: g as)
  case (Cons s ss)
  obtain f p where f: "fo_getReadBuffer (gfifo g (pfifo s)) (psize s) = (f, p)" by fastforce
  obtain as' where "get_reads (g\<lparr>gfifo := (gfifo g)(pfifo s := f)\<rparr>) ss = (g', as')"
    using Cons.prems f by (auto simp: Let_def split: prod.splits)
  from Cons.IH [OF this] fo_reset_read [OF f] show ?case by (auto simp: same_reset_def split: if_splits)
qed simp

lemma get_writes_same_reset: "get_writes g ds = Some (g', bs) \<Longrightarrow> same_reset g g'"
proof (induction ds arbitrary: g bs)
  case (Cons d ds)
  from Cons.prems obtain m f p bs' where f: "fo_getWriteBuffer (gmem g) (gfifo g (pfifo d)) (psize d) = Some (m, f, p)"
    and rest: "get_writes (g\<lparr>gmem := m, gfifo := (gfifo g)(pfifo d := f)\<rparr>) ds = Some (g', bs')"
    by (auto split: option.splits)
  from Cons.IH [OF rest] fo_reset_write [OF f] show ?case by (auto simp: same_reset_def split: if_splits)
qed simp

lemma node_run_same_reset: "node_run C nodes k g w = Some (g', w', e) \<Longrightarrow> same_reset g g'"
  by (auto simp: node_run_def Let_def split: prod.splits option.splits
      dest!: get_reads_same_reset get_writes_same_reset intro: same_reset_trans)

lemma run_schedule_same_reset: "run_schedule C nodes ks g w err = Some (g', w', e, jump) \<Longrightarrow> same_reset g g'"
proof (induction ks arbitrary: g w err)
  case (Cons k ks)
  then show ?case
    by (auto split: prod.splits option.splits if_splits dest!: node_run_same_reset intro: same_reset_trans)
qed simp

lemma schedule_loop_same_reset: "schedule_loop C nodes sched limit g w nb = Some (g', w', nb', e) \<Longrightarrow> same_reset g g'"
proof (induction limit arbitrary: g w nb)
  case (Suc limit)
  then show ?case
    by (auto split: prod.splits option.splits if_splits dest!: run_schedule_same_reset intro: same_reset_trans)
qed simp

text \<open>The functions on the heap.\<close>

lemma reset_all_live:
  "\<forall>a. Some a \<in> set ps \<longrightarrow> a \<in> set (live s) \<Longrightarrow>
   reset_all ps s = Fine (s\<lparr>fifo_at := (\<lambda>a. if Some a \<in> set ps then fo_reset (fifo_at s a) else fifo_at s a)\<rparr>)"
proof (induction ps arbitrary: s)
  case (Cons p ps)
  show ?case
  proof (cases p)
    case (Some a)
    let ?s = "s\<lparr>fifo_at := (fifo_at s)(a := fo_reset (fifo_at s a))\<rparr>"
    have "reset_all ps ?s = Fine (?s\<lparr>fifo_at := (\<lambda>x. if Some x \<in> set ps then fo_reset (fifo_at ?s x) else fifo_at ?s x)\<rparr>)"
      by (rule Cons.IH) (use Cons.prems in auto)
    with Cons.prems Some show ?thesis by (auto intro!: arg_cong [where f = "\<lambda>h. s\<lparr>fifo_at := h\<rparr>"])
  qed (use Cons in simp)
qed simp

lemma clear_buffers_at:
  "clear_buffers m bs x = (if \<exists>(buf, len)\<in>set bs. buf \<le> x \<and> x < buf + len then 0 else m x)"
proof (induction m bs rule: clear_buffers.induct)
  case (2 m buf len bs)
  have "mem_write m buf (replicate (nat len) 0) x = (if buf \<le> x \<and> x < buf + len then 0 else m x)"
    by (auto simp: mem_write_def)
  with 2 show ?case by auto
qed simp

lemma graph_of_write_back:
  assumes "distinct (fifo_ptrs s)" "i < length (fifo_ptrs s)" "fifo_ptrs s ! i = Some a"
  shows "gfifo (graph_of (write_back s g) m) i = gfifo g i"
proof -
  have "map_of (zip (fifo_ptrs s) [0..<length (fifo_ptrs s)]) (fifo_ptrs s ! i) = Some ([0..<length (fifo_ptrs s)] ! i)"
    by (rule map_of_zip_nth) (use assms in auto)
  with assms show ?thesis by (simp add: graph_of_def write_back_def)
qed

lemma fresh_fifos_reset: "fo_reset (new_fifos ds bufs i) = new_fifos ds bufs i" "fo_reset (async_fifos ds bufs i) = async_fifos ds bufs i"
  by (simp_all add: new_fifos_def new_fifo_def async_fifos_def AFIFO_as_FIFO FIFO_new_def FIFO_reset_def ARRAY_reset_def)

lemma all_pointers: "\<forall>i<length ps. \<exists>a. ps ! i = Some a \<Longrightarrow> ps = map Some (held ps)"
proof (induction ps rule: held.induct)
  case (3 a ps)
  have "\<exists>b. ps ! i = Some b" if "i < length ps" for i using 3(2) that by (metis Suc_less_eq length_Cons nth_Cons_Suc)
  with 3(1) show ?case by auto
qed (force+)

lemma owned_pointers:
  assumes "owns s R" "\<forall>i<length (fifo_ptrs s). \<exists>a. fifo_ptrs s ! i = Some a"
  shows "distinct (fifo_ptrs s)" and "\<forall>a. Some a \<in> set (fifo_ptrs s) \<longrightarrow> a \<in> set (live s)"
proof -
  note ps = all_pointers [OF assms(2)]
  have m: "mset (live s) = mset (held (fifo_ptrs s)) + (mset (held (node_ptrs s)) + R)" and d: "distinct (live s)"
    using assms(1) by (simp_all add: owns_def)
  obtain r where r: "mset r = mset (held (node_ptrs s)) + R" by (metis ex_mset)
  have all: "mset (live s) = mset (held (fifo_ptrs s) @ r)" unfolding m by (simp add: r)
  have "distinct (held (fifo_ptrs s))" using d mset_eq_imp_distinct_iff [OF all] by simp
  then show "distinct (fifo_ptrs s)" by (subst ps) (simp add: distinct_map)
  have "set (held (fifo_ptrs s)) \<subseteq> set (live s)" using mset_eq_setD [OF all] by simp
  moreover have "set (fifo_ptrs s) = Some ` set (held (fifo_ptrs s))" by (subst ps) simp
  ultimately show "\<forall>a. Some a \<in> set (fifo_ptrs s) \<longrightarrow> a \<in> set (live s)" by auto
qed

text \<open>
  C9. \<^verbatim>\<open>reset_fifos_scheduler\<close> undoes a run: however long the static or the asynchronous scheduler ran on the
  objects \<^verbatim>\<open>init_scheduler\<close> created, and whatever its nodes did, afterwards every FIFO is as its constructor
  made it and every buffer is zero, nothing else is written and no object is lost - so the next run starts
  from where the first one did.
\<close>
theorem reset_restarts:
  assumes "null_pointers s0" "length (fifo_ptrs s0) = length ds"
    and "mk = new_fifos ds bufs \<or> mk = async_fifos ds bufs"
    and "init_scheduler fifo_ok node_ok f mk w s0 = (s, w1, 0)"
    and "loop = (\<lambda>g. async_loop (graph_runner nodes) C n sched limit g w1 0) \<or>
         loop = (\<lambda>g. schedule_loop D nodes sched limit g w1 0)"
    and "heap_scheduler loop s m = Some (s', m', r)"
  shows "\<exists>s'' m''. reset_fifos_scheduler ds bufs True s' m' = Fine (s'', m'') \<and>
    (\<forall>i<length ds. gfifo (graph_of s'' m'') i = mk i) \<and>
    (\<forall>x. m'' x = (if \<exists>i<length ds. bufs ! i \<le> x \<and> x < bufs ! i + fd_length (ds ! i) then 0 else m' x)) \<and>
    live s'' = live s'"
proof -
  note init = init_scheduler_owns [OF assms(1,4)]
  have len: "length (fifo_ptrs s) = length ds" using init(2) assms(2) by simp
  have ptr: "\<exists>a. fifo_ptrs s ! i = Some a \<and> fifo_at s a = mk i" if "i < length ds" for i
    using init(3) [OF refl] that assms(2) by metis
  have some: "\<forall>i<length (fifo_ptrs s). \<exists>a. fifo_ptrs s ! i = Some a" using ptr len by metis
  note own = owned_pointers [OF init(1) some]
  from assms(6) obtain g where g: "loop (graph_of s m) = Some (g, r)" "s' = write_back s g" "m' = gmem g"
    by (auto simp: heap_scheduler_def)
  have "same_reset (graph_of s m) g"
    using assms(5) g(1) by (cases r) (auto dest: async_loop_same_reset schedule_loop_same_reset)
  then have keep: "fo_reset (gfifo g i) = fo_reset (gfifo (graph_of s m) i)" for i by (simp add: same_reset_def)
  have same: "fifo_ptrs s' = fifo_ptrs s" "live s' = live s" by (simp_all add: g(2) write_back_def)
  have mk: "fo_reset (mk i) = mk i" for i using assms(3) fresh_fifos_reset by metis
  let ?s = "s'\<lparr>fifo_at := (\<lambda>a. if Some a \<in> set (fifo_ptrs s') then fo_reset (fifo_at s' a) else fifo_at s' a)\<rparr>"
  have "reset_all (fifo_ptrs s') s' = Fine ?s" by (rule reset_all_live) (use own(2) same in simp)
  then have run: "reset_fifos_scheduler ds bufs True s' m' = Fine (?s, clear_buffers m' (buffers_of ds bufs))"
    by (simp add: reset_fifos_scheduler_def)
  have "gfifo (graph_of ?s x) i = mk i" if i: "i < length ds" for i x
  proof -
    obtain a where a: "fifo_ptrs s ! i = Some a" "fifo_at s a = mk i" using ptr [OF i] by blast
    have "Some a \<in> set (fifo_ptrs s)" using a(1) i len nth_mem by metis
    moreover have "gfifo (graph_of s' m) i = gfifo g i"
      unfolding g(2) by (rule graph_of_write_back [OF own(1) _ a(1)]) (use i len in simp)
    then have "fifo_at s' a = gfifo g i" by (simp add: graph_of_def same a(1))
    moreover have "fo_reset (gfifo g i) = mk i" using keep [of i] a mk by (simp add: graph_of_def)
    ultimately show ?thesis using a(1) by (simp add: graph_of_def same)
  qed
  with run show ?thesis by (force simp: clear_buffers_at buffers_of_def same)
qed

text \<open>The first example with its objects on the heap: two iterations, then the reset.\<close>

definition simple_objects :: objects where
  "simple_objects = \<lparr>live = [], next_addr = 0, fifo_at = (\<lambda>_. SyncFIFO 0 (FIFO_new 0 0)), fifo_ptrs = replicate 2 None,
     node_ptrs = replicate 3 None\<rparr>"

lemma represents_cong:
  assumes "represents ds bufs g t q" "gmem g' = gmem g" "\<forall>i<length ds. gfifo g' i = gfifo g i"
  shows "represents ds bufs g' t q"
  using assms by (simp add: represents_def ports_at_def)

theorem reset_restarts_witness:
  "\<exists>s w1 s' m' r s'' m''.
     init_scheduler (\<lambda>_. True) (\<lambda>_. True) (\<lambda>_ w. (w, 0)) (new_fifos (gd_fifos simple_graph) [0, 11]) [] simple_objects = (s, w1, 0) \<and>
     heap_scheduler (\<lambda>g. schedule_loop demo_float_code (gd_nodes simple_graph) (gd_schedule simple_graph) 2 g w1 0) s (\<lambda>a. 0) =
       Some (s', m', r) \<and>
     reset_fifos_scheduler (gd_fifos simple_graph) [0, 11] True s' m' = Fine (s'', m'') \<and>
     (\<forall>i<length (gd_fifos simple_graph). gfifo (graph_of s'' m'') i = new_fifos (gd_fifos simple_graph) [0, 11] i)"
proof -
  let ?ds = "gd_fifos simple_graph" and ?bufs = "[0, 11] :: int list"
  let ?init = "init_scheduler (\<lambda>_. True) (\<lambda>_. True) (\<lambda>_ w. (w, 0)) (new_fifos ?ds ?bufs) ([] :: printed list) simple_objects"
  let ?loop = "\<lambda>g. schedule_loop demo_float_code (gd_nodes simple_graph) (gd_schedule simple_graph) 2 g [] 0"
  have null: "null_pointers simple_objects" by (simp add: null_pointers_def simple_objects_def)
  have len: "length (fifo_ptrs simple_objects) = length ?ds" by (simp add: simple_objects_def simple_graph_def)
  have calls: "call_inits (\<lambda>_ w. (w, 0)) ks w = (w, 0)" for ks and w :: "printed list" by (induction ks) simp_all
  obtain s w1 e where init: "?init = (s, w1, e)" by (cases ?init) auto
  then have "e = 0 \<and> w1 = []"
    by (auto simp: simple_objects_def init_scheduler_def new_nothrow_def Let_def calls upt_rec split: prod.splits)
  then have init: "?init = (s, [], 0)" using init by simp
  have gfifo: "gfifo (graph_of s (\<lambda>a. 0)) i = new_fifos ?ds ?bufs i" if "i < length ?ds" for i
    using init_scheduler_owns(3) [OF null init refl, of i] that len by (auto simp: graph_of_def)
  obtain t where t: "count_schedule ?ds [0..<length ?ds] (gd_nodes simple_graph) (gd_schedule simple_graph) (start_positions ?ds) = Some t"
    "count_schedule ?ds [0..<length ?ds] (gd_nodes simple_graph) (gd_schedule simple_graph) t = Some t"
    and d: "\<forall>d\<in>set ?ds. 0 \<le> fd_length d \<and> 0 \<le> fd_delay d \<and> fd_delay d \<le> fd_length d \<and> (fd_array d \<longrightarrow> fd_delay d = 0)"
    using simple_balanced by (auto simp: balanced_on_def split: option.splits)
  have apart: "apart_on [0..<length ?ds] ?ds ?bufs" unfolding apart_own_places [symmetric]
    by (simp add: apart_def simple_graph_def sync_fifo_def less_Suc_eq numeral_2_eq_2)
  then have "length ?bufs = length ?ds" by (simp add: apart_on_def)
  from represents_cong [OF new_fifos_represents [OF this d, of "\<lambda>a. 0"], of "graph_of s (\<lambda>a. 0)"] gfifo
  have rep: "represents ?ds ?bufs (graph_of s (\<lambda>a. 0)) (start_positions ?ds)
      (\<lambda>i. mem_read (\<lambda>a. 0) (?bufs ! i) (nat (fd_delay (?ds ! i))))" by (simp add: graph_of_def)
  have "block_sizes demo_float_code (gd_nodes simple_graph)"
    unfolding demo_float_code_def by (rule simple_block_sizes)
  from schedule_loop_ok [OF apart this t(2) rep t(1), where limit = 2 and w = "[]" and nb = 0]
  obtain g r where "?loop (graph_of s (\<lambda>a. 0)) = Some (g, r)" by (auto split: prod.splits)
  then have run: "heap_scheduler ?loop s (\<lambda>a. 0) = Some (write_back s g, gmem g, r)" by (simp add: heap_scheduler_def)
  from reset_restarts [OF null len disjI1 [OF refl] init disjI2 [OF refl] run] obtain s'' m'' where
    "reset_fifos_scheduler ?ds ?bufs True (write_back s g) (gmem g) = Fine (s'', m'')"
    "\<forall>i<length ?ds. gfifo (graph_of s'' m'') i = new_fifos ?ds ?bufs i" by (elim exE conjE) (rule that)
  with init run show ?thesis
    by (intro exI [of _ s] exI [of _ "[]"] exI [of _ "write_back s g"] exI [of _ "gmem g"] exI [of _ r]
        exI [of _ s''] exI [of _ m'']) simp
qed

end
