(* ===== verification/SharedHeap.thy ===== *)
theory SharedHeap
  imports Exec
begin

text \<open>
  \<^verbatim>\<open>ProtectedBuffer<T>\<close> of \<^verbatim>\<open>StreamNode.hpp\<close>: a reference counted object behind a
  reference counted mutex. The heap keeps one table of objects and one of mutexes, each entry
  with its \<^verbatim>\<open>std::shared_ptr\<close> count, and the mutexes the running thread holds. What the
  platform's critical section macros do when the thread already holds the mutex differs
  between the platforms and is a parameter, as is the set of mutexes whose acquisition the
  operating system refuses.
\<close>

section \<open>Counted tables\<close>

type_synonym 'o ref_table = "nat \<Rightarrow> ('o \<times> nat) option"

text \<open>Copying a \<^verbatim>\<open>shared_ptr\<close>, destroying one, and making the first one for a new object.\<close>

definition sp_retain :: "'o ref_table \<Rightarrow> nat option \<Rightarrow> 'o ref_table exec" where
  "sp_retain t p =
     (case p of
        None \<Rightarrow> Fine t
      | Some i \<Rightarrow>
          (case t i of
             None \<Rightarrow> UB
           | Some (x, n) \<Rightarrow> Fine (t(i := Some (x, Suc n)))))"

definition sp_release :: "'o ref_table \<Rightarrow> nat option \<Rightarrow> 'o ref_table exec" where
  "sp_release t p =
     (case p of
        None \<Rightarrow> Fine t
      | Some i \<Rightarrow>
          (case t i of
             None \<Rightarrow> UB
           | Some (x, n) \<Rightarrow> Fine (t(i := (if n \<le> 1 then None else Some (x, n - 1))))))"

definition sp_make :: "'o ref_table \<Rightarrow> nat \<Rightarrow> 'o \<Rightarrow> 'o ref_table" where
  "sp_make t i x = t(i := Some (x, 1))"

text \<open>Assigning \<open>b\<close> to the pointer \<open>a\<close>: the new object is retained before the old one is released.\<close>

definition sp_assign :: "'o ref_table \<Rightarrow> nat option \<Rightarrow> nat option \<Rightarrow> 'o ref_table exec" where
  "sp_assign t a b = exec_then (sp_retain t b) (\<lambda>t'. sp_release t' a)"

text \<open>Every entry counts the pointers to it, and nothing points to a missing entry.\<close>

definition entry_count :: "'o ref_table \<Rightarrow> nat \<Rightarrow> nat" where
  "entry_count t i = (case t i of None \<Rightarrow> 0 | Some (x, n) \<Rightarrow> n)"

definition counted :: "'o ref_table \<Rightarrow> nat option multiset \<Rightarrow> bool" where
  "counted t M \<longleftrightarrow> (\<forall>i. entry_count t i = count M (Some i)) \<and> (\<forall>i x. t i \<noteq> Some (x, 0))"

lemma entry_count_upd [simp]:
  "entry_count (t(i := e)) j = (if j = i then (case e of None \<Rightarrow> 0 | Some (x, n) \<Rightarrow> n) else entry_count t j)"
  by (simp add: entry_count_def)

lemma counted_None [simp]:
  "counted t (add_mset None M) \<longleftrightarrow> counted t M"
  "counted t (add_mset p (add_mset None M)) \<longleftrightarrow> counted t (add_mset p M)"
  by (simp_all add: counted_def)

lemma counted_cases:
  assumes "counted t M"
  obtains "t i = None" and "count M (Some i) = 0"
  | x n where "t i = Some (x, Suc n)" and "count M (Some i) = Suc n"
proof (cases "t i")
  case None
  with assms have "count M (Some i) = 0" by (auto simp: counted_def entry_count_def dest!: spec [of _ i])
  with None show ?thesis by (rule that(1))
next
  case (Some e)
  obtain x n where e: "e = (x, n)" by fastforce
  have "entry_count t i = count M (Some i)" "t i \<noteq> Some (x, 0)" using assms by (simp_all add: counted_def)
  then obtain k where "n = Suc k" "count M (Some i) = Suc k"
    by (cases n) (auto simp: entry_count_def Some e)
  with Some e show ?thesis by (intro that(2)) simp_all
qed

lemma counted_missing: "counted t M \<Longrightarrow> t i = None \<longleftrightarrow> Some i \<notin># M"
  by (erule counted_cases [of t M i]) (auto simp: not_in_iff)

lemma counted_entry: "counted t M \<Longrightarrow> Some i \<in># M \<Longrightarrow> \<exists>x. t i = Some (x, count M (Some i))"
  by (erule counted_cases [of t M i]) (auto simp: count_eq_zero_iff)

lemma sp_retain_counted:
  assumes "counted t M" and "p \<in># M"
  shows "\<exists>t'. sp_retain t p = Fine t' \<and> counted t' (add_mset p M)"
proof (cases p)
  case None
  with assms show ?thesis by (simp add: sp_retain_def)
next
  case (Some i)
  with assms counted_entry [of t M i] obtain x where x: "t i = Some (x, count M (Some i))" by auto
  have "counted (t(i := Some (x, Suc (count M (Some i))))) (add_mset (Some i) M)"
    using assms(1) by (simp add: counted_def)
  with Some x show ?thesis by (simp add: sp_retain_def)
qed

lemma sp_release_counted:
  assumes "counted t (add_mset p M)"
  shows "\<exists>t'. sp_release t p = Fine t' \<and> counted t' M"
proof (cases p)
  case None
  with assms show ?thesis by (simp add: sp_release_def)
next
  case (Some i)
  with assms counted_entry [of t "add_mset p M" i] obtain x
    where x: "t i = Some (x, Suc (count M (Some i)))" by auto
  let ?t = "t(i := (if Suc (count M (Some i)) \<le> 1 then None else Some (x, Suc (count M (Some i)) - 1)))"
  have "counted ?t M"
    using assms Some by (auto simp: counted_def)
  with Some x show ?thesis by (simp only: sp_release_def option.case prod.case exec.inject ex_simps) blast
qed

lemma sp_assign_counted:
  assumes "counted t (add_mset a M)" and "b \<in># M \<or> b = None"
  shows "\<exists>t'. sp_assign t a b = Fine t' \<and> counted t' (add_mset b M)"
proof -
  have "\<exists>t1. sp_retain t b = Fine t1 \<and> counted t1 (add_mset b (add_mset a M))"
  proof (cases "b = None")
    case True
    with assms(1) show ?thesis by (simp add: sp_retain_def)
  next
    case False
    with assms sp_retain_counted [OF assms(1), of b] show ?thesis by simp
  qed
  then obtain t1 where "sp_retain t b = Fine t1" and "counted t1 (add_mset a (add_mset b M))"
    by (auto simp: add_mset_commute)
  with sp_release_counted [of t1 a "add_mset b M"] show ?thesis
    by (auto simp: sp_assign_def)
qed

lemma sp_make_counted:
  assumes "counted t M" and "t i = None"
  shows "counted (sp_make t i x) (add_mset (Some i) M)"
proof -
  have "count M (Some i) = 0"
    using assms counted_missing [of t M i] by (simp add: count_eq_zero_iff)
  with assms(1) show ?thesis by (simp add: counted_def sp_make_def)
qed

lemma counted_empty: "counted t {#} \<longleftrightarrow> t = (\<lambda>i. None)"
proof
  assume c: "counted t {#}"
  show "t = (\<lambda>i. None)" using counted_missing [OF c] by (simp add: fun_eq_iff)
qed (simp add: counted_def entry_count_def)

section \<open>Heap and critical sections\<close>

text \<open>
  Acquiring a mutex the thread already holds is undefined (\<^verbatim>\<open>std::shared_mutex\<close> of the POSIX
  configuration), is refused (the CMSIS RTOS mutex without attributes) or succeeds (the Zephyr
  mutex).
\<close>

datatype relock = Undefined | Refuses | Recurses

record lock_env =
  on_relock :: relock
  os_refuses :: "nat \<Rightarrow> bool"

record 'o sheap =
  objs :: "'o ref_table"
  mtxs :: "unit ref_table"
  held :: "nat list"
  fresh :: nat

definition heap_empty :: "'o sheap" where
  "heap_empty = \<lparr>objs = (\<lambda>i. None), mtxs = (\<lambda>i. None), held = [], fresh = 0\<rparr>"

definition enter_section :: "lock_env \<Rightarrow> 'o sheap \<Rightarrow> nat \<Rightarrow> ('o sheap \<times> bool) exec" where
  "enter_section env h m =
     (if mtxs h m = None then UB
      else if m \<in> set (held h) then
        (case on_relock env of
           Undefined \<Rightarrow> Relock
         | Refuses \<Rightarrow> Fine (h, True)
         | Recurses \<Rightarrow> Fine (h\<lparr>held := m # held h\<rparr>, False))
      else if os_refuses env m then Fine (h, True)
      else Fine (h\<lparr>held := m # held h\<rparr>, False))"

definition exit_section :: "'o sheap \<Rightarrow> nat \<Rightarrow> bool \<Rightarrow> 'o sheap exec" where
  "exit_section h m err =
     (if err then Fine h
      else if mtxs h m = None then UB
      else Fine (h\<lparr>held := remove1 m (held h)\<rparr>))"

text \<open>The block between the two macros; the body gets the error flag.\<close>

definition critical ::
    "lock_env \<Rightarrow> 'o sheap \<Rightarrow> nat \<Rightarrow> (bool \<Rightarrow> 'o sheap \<Rightarrow> ('o sheap \<times> 'r) exec) \<Rightarrow> ('o sheap \<times> 'r) exec" where
  "critical env h m body =
     exec_then (enter_section env h m) (\<lambda>(h1, err).
       exec_then (body err h1) (\<lambda>(h2, r).
         exec_then (exit_section h2 m err) (\<lambda>h3. Fine (h3, r))))"

definition retain_obj :: "'o sheap \<Rightarrow> nat option \<Rightarrow> 'o sheap exec" where
  "retain_obj h p = exec_then (sp_retain (objs h) p) (\<lambda>t. Fine (h\<lparr>objs := t\<rparr>))"

definition release_obj :: "'o sheap \<Rightarrow> nat option \<Rightarrow> 'o sheap exec" where
  "release_obj h p = exec_then (sp_release (objs h) p) (\<lambda>t. Fine (h\<lparr>objs := t\<rparr>))"

definition assign_obj :: "'o sheap \<Rightarrow> nat option \<Rightarrow> nat option \<Rightarrow> 'o sheap exec" where
  "assign_obj h a b = exec_then (sp_assign (objs h) a b) (\<lambda>t. Fine (h\<lparr>objs := t\<rparr>))"

definition retain_mtx :: "'o sheap \<Rightarrow> nat option \<Rightarrow> 'o sheap exec" where
  "retain_mtx h p = exec_then (sp_retain (mtxs h) p) (\<lambda>t. Fine (h\<lparr>mtxs := t\<rparr>))"

definition release_mtx :: "'o sheap \<Rightarrow> nat option \<Rightarrow> 'o sheap exec" where
  "release_mtx h p = exec_then (sp_release (mtxs h) p) (\<lambda>t. Fine (h\<lparr>mtxs := t\<rparr>))"

definition assign_mtx :: "'o sheap \<Rightarrow> nat option \<Rightarrow> nat option \<Rightarrow> 'o sheap exec" where
  "assign_mtx h a b = exec_then (sp_assign (mtxs h) a b) (\<lambda>t. Fine (h\<lparr>mtxs := t\<rparr>))"

section \<open>ProtectedBuffer\<close>

record pbuf =
  pb_obj :: "nat option"
  pb_mtx :: "nat option"

definition PB_null :: pbuf where
  "PB_null = \<lparr>pb_obj = None, pb_mtx = None\<rparr>"

definition PB_bool :: "pbuf \<Rightarrow> bool" where
  "PB_bool p \<longleftrightarrow> pb_obj p \<noteq> None"

definition PB_eq_null :: "pbuf \<Rightarrow> bool" where
  "PB_eq_null p \<longleftrightarrow> pb_obj p = None"

definition PB_ne_null :: "pbuf \<Rightarrow> bool" where
  "PB_ne_null p \<longleftrightarrow> pb_obj p \<noteq> None"

definition PB_use_count :: "'o sheap \<Rightarrow> pbuf \<Rightarrow> nat exec" where
  "PB_use_count h p =
     (case pb_obj p of
        None \<Rightarrow> Fine 0
      | Some i \<Rightarrow> (case objs h i of None \<Rightarrow> UB | Some (x, n) \<Rightarrow> Fine n))"

text \<open>The two allocations of \<^verbatim>\<open>create_with\<close> can each give a null pointer.\<close>

definition PB_create_with :: "bool \<Rightarrow> bool \<Rightarrow> 'o sheap \<Rightarrow> 'o \<Rightarrow> 'o sheap \<times> pbuf" where
  "PB_create_with mtx_ok obj_ok h x =
     (if mtx_ok then
        let m = fresh h; h1 = h\<lparr>mtxs := sp_make (mtxs h) m (), fresh := Suc m\<rparr>
        in if obj_ok then
             let i = fresh h1
             in (h1\<lparr>objs := sp_make (objs h1) i x, fresh := Suc i\<rparr>, \<lparr>pb_obj = Some i, pb_mtx = Some m\<rparr>)
           else (h1, \<lparr>pb_obj = None, pb_mtx = Some m\<rparr>)
      else (h, PB_null))"

definition PB_reset :: "lock_env \<Rightarrow> 'o sheap \<Rightarrow> pbuf \<Rightarrow> ('o sheap \<times> pbuf) exec" where
  "PB_reset env h p =
     (case pb_mtx p of
        Some m \<Rightarrow>
          exec_then (critical env h m (\<lambda>err h1.
              if \<not> err then exec_then (release_obj h1 (pb_obj p)) (\<lambda>h2. Fine (h2, (p\<lparr>pb_obj := None\<rparr>, True)))
              else Fine (h1, (p, False))))
            (\<lambda>(h2, p1, wasReset).
               if wasReset then exec_then (release_mtx h2 (pb_mtx p1)) (\<lambda>h3. Fine (h3, p1\<lparr>pb_mtx := None\<rparr>))
               else Fine (h2, p1))
      | None \<Rightarrow> exec_then (release_obj h (pb_obj p)) (\<lambda>h1. Fine (h1, p\<lparr>pb_obj := None\<rparr>)))"

text \<open>
  The callback of \<^verbatim>\<open>lock\<close> gets \<open>isShared\<close> and the object and gives the object back with its
  result; \<open>r0\<close> is the value-initialised result. The result is the heap, the error flag and
  the value returned.
\<close>

definition PB_lock ::
    "lock_env \<Rightarrow> 'o sheap \<Rightarrow> pbuf \<Rightarrow> (bool \<Rightarrow> 'o \<Rightarrow> 'o \<times> 'r) \<Rightarrow> 'r \<Rightarrow> ('o sheap \<times> bool \<times> 'r) exec" where
  "PB_lock env h p f r0 =
     (case pb_mtx p of
        None \<Rightarrow> Fine (h, False, r0)
      | Some m \<Rightarrow>
          critical env h m (\<lambda>err h1.
            if err then Fine (h1, (True, r0))
            else (case pb_obj p of
                    None \<Rightarrow> Fine (h1, (False, r0))
                  | Some i \<Rightarrow>
                      (case objs h1 i of
                         None \<Rightarrow> UB
                       | Some (x, n) \<Rightarrow>
                           let (x', r) = f (n > 1) x
                           in Fine (h1\<lparr>objs := (objs h1)(i := Some (x', n))\<rparr>, (False, r))))))"

definition PB_lock_shared ::
    "lock_env \<Rightarrow> 'o sheap \<Rightarrow> pbuf \<Rightarrow> ('o \<Rightarrow> 'r) \<Rightarrow> 'r \<Rightarrow> ('o sheap \<times> bool \<times> 'r) exec" where
  "PB_lock_shared env h p f r0 =
     (case pb_mtx p of
        None \<Rightarrow> Fine (h, False, r0)
      | Some m \<Rightarrow>
          critical env h m (\<lambda>err h1.
            if err then Fine (h1, (True, r0))
            else (case pb_obj p of
                    None \<Rightarrow> Fine (h1, (False, r0))
                  | Some i \<Rightarrow>
                      (case objs h1 i of
                         None \<Rightarrow> UB
                       | Some (x, n) \<Rightarrow> Fine (h1, (False, f x))))))"

text \<open>Copy and move construction: the heap, the new handle and, for a move, the source afterwards.\<close>

definition PB_copy :: "lock_env \<Rightarrow> 'o sheap \<Rightarrow> pbuf \<Rightarrow> ('o sheap \<times> pbuf) exec" where
  "PB_copy env h other =
     (case pb_mtx other of
        None \<Rightarrow> Fine (h, PB_null)
      | Some m \<Rightarrow>
          exec_then (critical env h m (\<lambda>err h1.
              if \<not> err then exec_then (retain_obj h1 (pb_obj other)) (\<lambda>h2. Fine (h2, (pb_obj other, True)))
              else Fine (h1, (None, False))))
            (\<lambda>(h2, obj, wasCopied).
               if \<not> wasCopied then Fine (h2, PB_null)
               else exec_then (retain_mtx h2 (pb_mtx other))
                      (\<lambda>h3. Fine (h3, \<lparr>pb_obj = obj, pb_mtx = pb_mtx other\<rparr>))))"

definition PB_move :: "lock_env \<Rightarrow> 'o sheap \<Rightarrow> pbuf \<Rightarrow> ('o sheap \<times> pbuf \<times> pbuf) exec" where
  "PB_move env h other =
     (case pb_mtx other of
        None \<Rightarrow> Fine (h, PB_null, other)
      | Some m \<Rightarrow>
          exec_then (critical env h m (\<lambda>err h1.
              if \<not> err then Fine (h1, (pb_obj other, other\<lparr>pb_obj := None\<rparr>, True))
              else Fine (h1, (None, other, False))))
            (\<lambda>(h2, obj, other1, wasMoved).
               if \<not> wasMoved then Fine (h2, PB_null, other1)
               else Fine (h2, \<lparr>pb_obj = obj, pb_mtx = pb_mtx other1\<rparr>, other1\<lparr>pb_mtx := None\<rparr>)))"

text \<open>
  Assignments to another handle: \<open>same\<close> says whether \<^verbatim>\<open>this\<close> and \<open>other\<close> are the same object.
\<close>

definition PB_copy_assign :: "bool \<Rightarrow> lock_env \<Rightarrow> 'o sheap \<Rightarrow> pbuf \<Rightarrow> pbuf \<Rightarrow> ('o sheap \<times> pbuf) exec" where
  "PB_copy_assign same env h this other =
     (if same then Fine (h, this)
      else
        (case (pb_mtx this, pb_mtx other) of
           (Some md, Some ms) \<Rightarrow>
             exec_then (critical env h ms (\<lambda>error_src h1.
                 critical env h1 md (\<lambda>error_dst h2.
                   if \<not> error_src \<and> \<not> error_dst then
                     exec_then (assign_obj h2 (pb_obj this) (pb_obj other))
                       (\<lambda>h3. Fine (h3, (this\<lparr>pb_obj := pb_obj other\<rparr>, True)))
                   else Fine (h2, (this, False)))))
               (\<lambda>(h3, this1, wasCopied).
                  if wasCopied then
                    exec_then (assign_mtx h3 (pb_mtx this1) (pb_mtx other))
                      (\<lambda>h4. Fine (h4, this1\<lparr>pb_mtx := pb_mtx other\<rparr>))
                  else Fine (h3, this1))
         | (Some md, None) \<Rightarrow>
             exec_then (critical env h md (\<lambda>error_dst h1.
                 if \<not> error_dst then
                   exec_then (release_obj h1 (pb_obj this)) (\<lambda>h2. Fine (h2, (this\<lparr>pb_obj := None\<rparr>, True)))
                 else Fine (h1, (this, False))))
               (\<lambda>(h2, this1, wasReset).
                  if wasReset then
                    exec_then (release_mtx h2 (pb_mtx this1)) (\<lambda>h3. Fine (h3, this1\<lparr>pb_mtx := None\<rparr>))
                  else Fine (h2, this1))
         | (None, Some ms) \<Rightarrow>
             exec_then (critical env h ms (\<lambda>error_src h1.
                 if \<not> error_src then
                   exec_then (assign_obj h1 (pb_obj this) (pb_obj other))
                     (\<lambda>h2. Fine (h2, (this\<lparr>pb_obj := pb_obj other\<rparr>, True)))
                 else Fine (h1, (this, False))))
               (\<lambda>(h2, this1, wasCopied).
                  if wasCopied then
                    exec_then (assign_mtx h2 (pb_mtx this1) (pb_mtx other))
                      (\<lambda>h3. Fine (h3, this1\<lparr>pb_mtx := pb_mtx other\<rparr>))
                  else Fine (h2, this1))
         | (None, None) \<Rightarrow>
             exec_then (release_obj h (pb_obj this)) (\<lambda>h1.
               exec_then (release_mtx h1 (pb_mtx this)) (\<lambda>h2. Fine (h2, PB_null)))))"

text \<open>Move assignment of the pointers themselves: the old target is released, the source is null.\<close>

definition PB_move_assign ::
    "bool \<Rightarrow> lock_env \<Rightarrow> 'o sheap \<Rightarrow> pbuf \<Rightarrow> pbuf \<Rightarrow> ('o sheap \<times> pbuf \<times> pbuf) exec" where
  "PB_move_assign same env h this other =
     (if same then Fine (h, this, other)
      else
        (case (pb_mtx this, pb_mtx other) of
           (Some md, Some ms) \<Rightarrow>
             exec_then (critical env h ms (\<lambda>error_src h1.
                 critical env h1 md (\<lambda>error_dst h2.
                   if \<not> error_src \<and> \<not> error_dst then
                     exec_then (release_obj h2 (pb_obj this))
                       (\<lambda>h3. Fine (h3, (this\<lparr>pb_obj := pb_obj other\<rparr>, other\<lparr>pb_obj := None\<rparr>, True)))
                   else Fine (h2, (this, other, False)))))
               (\<lambda>(h3, this1, other1, wasMoved).
                  if wasMoved then
                    exec_then (release_mtx h3 (pb_mtx this1))
                      (\<lambda>h4. Fine (h4, this1\<lparr>pb_mtx := pb_mtx other1\<rparr>, other1\<lparr>pb_mtx := None\<rparr>))
                  else Fine (h3, this1, other1))
         | (Some md, None) \<Rightarrow>
             exec_then (critical env h md (\<lambda>error_dst h1.
                 if \<not> error_dst then
                   exec_then (release_obj h1 (pb_obj this)) (\<lambda>h2. Fine (h2, (this\<lparr>pb_obj := None\<rparr>, True)))
                 else Fine (h1, (this, False))))
               (\<lambda>(h2, this1, wasReset).
                  if wasReset then
                    exec_then (release_mtx h2 (pb_mtx this1)) (\<lambda>h3. Fine (h3, this1\<lparr>pb_mtx := None\<rparr>, other))
                  else Fine (h2, this1, other))
         | (None, Some ms) \<Rightarrow>
             exec_then (critical env h ms (\<lambda>error_src h1.
                 if \<not> error_src then
                   exec_then (release_obj h1 (pb_obj this))
                     (\<lambda>h2. Fine (h2, (this\<lparr>pb_obj := pb_obj other\<rparr>, other\<lparr>pb_obj := None\<rparr>, True)))
                 else Fine (h1, (this, other, False))))
               (\<lambda>(h2, this1, other1, wasMoved).
                  if wasMoved then
                    exec_then (release_mtx h2 (pb_mtx this1))
                      (\<lambda>h3. Fine (h3, this1\<lparr>pb_mtx := pb_mtx other1\<rparr>, other1\<lparr>pb_mtx := None\<rparr>))
                  else Fine (h2, this1, other1))
         | (None, None) \<Rightarrow>
             exec_then (release_obj h (pb_obj this)) (\<lambda>h1.
               exec_then (release_mtx h1 (pb_mtx this)) (\<lambda>h2. Fine (h2, PB_null, other)))))"

text \<open>The implicit destructor releases both pointers, the mutex first, and locks nothing.\<close>

definition PB_destroy :: "'o sheap \<Rightarrow> pbuf \<Rightarrow> 'o sheap exec" where
  "PB_destroy h p = exec_then (release_mtx h (pb_mtx p)) (\<lambda>h1. release_obj h1 (pb_obj p))"

section \<open>Invariant\<close>

text \<open>
  \<open>H\<close> is the multiset of the handles alive: the counts are the numbers of handles, a handle
  without mutex has no object, and two handles of one object have the same mutex.
\<close>

definition handle_wf :: "nat \<Rightarrow> pbuf \<Rightarrow> bool" where
  "handle_wf n p \<longleftrightarrow>
     (pb_mtx p = None \<longrightarrow> pb_obj p = None) \<and>
     (\<forall>i. pb_obj p = Some i \<longrightarrow> i < n) \<and> (\<forall>m. pb_mtx p = Some m \<longrightarrow> m < n)"

definition same_mutex :: "pbuf \<Rightarrow> pbuf \<Rightarrow> bool" where
  "same_mutex p q \<longleftrightarrow> (pb_obj p \<noteq> None \<and> pb_obj q = pb_obj p \<longrightarrow> pb_mtx q = pb_mtx p)"

definition handles_ok :: "'o sheap \<Rightarrow> pbuf multiset \<Rightarrow> bool" where
  "handles_ok h H \<longleftrightarrow>
     counted (objs h) (image_mset pb_obj H) \<and> counted (mtxs h) (image_mset pb_mtx H) \<and>
     (\<forall>p\<in>#H. handle_wf (fresh h) p) \<and>
     (\<forall>p\<in>#H. \<forall>q\<in>#H. same_mutex p q) \<and> held h = []"

lemma PB_null_simps [simp]: "pb_obj PB_null = None" "pb_mtx PB_null = None"
  by (simp_all add: PB_null_def)

lemma handle_wf_null [simp]: "handle_wf n PB_null"
  by (simp add: handle_wf_def)

lemma same_mutex_simps [simp]: "same_mutex PB_null q" "same_mutex p PB_null" "same_mutex p p"
  by (auto simp: same_mutex_def)

lemma handle_wf_no_mutex: "handle_wf n p \<Longrightarrow> pb_mtx p = None \<Longrightarrow> p = PB_null"
  by (simp add: handle_wf_def PB_null_def)

lemma handles_okD:
  assumes "handles_ok h H"
  shows "counted (objs h) (image_mset pb_obj H)" and "counted (mtxs h) (image_mset pb_mtx H)"
    and "held h = []" and "p \<in># H \<Longrightarrow> handle_wf (fresh h) p"
  using assms by (simp_all add: handles_ok_def)

lemma handle_mutex_live:
  assumes "handles_ok h H" and "p \<in># H" and "pb_mtx p = Some m"
  shows "mtxs h m \<noteq> None"
proof -
  have "Some m \<in># image_mset pb_mtx H" using assms(2,3) by force
  with counted_missing [OF handles_okD(2) [OF assms(1)], of m] show ?thesis by simp
qed

lemma handle_object_live:
  assumes "handles_ok h H" and "p \<in># H" and "pb_obj p = Some i"
  shows "\<exists>x. objs h i = Some (x, count (image_mset pb_obj H) (Some i))"
proof -
  have "Some i \<in># image_mset pb_obj H" using assms(2,3) by force
  with counted_entry [OF handles_okD(1) [OF assms(1)]] show ?thesis by simp
qed

text \<open>An operation only passes handles on: what it leaves are old handles and null ones.\<close>

lemma handles_ok_transfer:
  assumes "handles_ok h H" and "set_mset H' \<subseteq> insert PB_null (set_mset H)"
    and "counted t (image_mset pb_obj H')" and "counted u (image_mset pb_mtx H')"
  shows "handles_ok (h\<lparr>objs := t, mtxs := u\<rparr>) H'"
proof -
  have "handle_wf (fresh h) p" if "p \<in># H'" for p
    using that assms(1,2) by (auto simp: handles_ok_def)
  moreover have "same_mutex p q" if "p \<in># H'" "q \<in># H'" for p q
  proof -
    have "p = PB_null \<or> p \<in># H" and "q = PB_null \<or> q \<in># H" using that assms(2) by auto
    with assms(1) show ?thesis by (auto simp: handles_ok_def)
  qed
  ultimately show ?thesis using assms by (simp add: handles_ok_def)
qed

text \<open>A critical section of a mutex the thread does not hold.\<close>

lemma critical_free:
  assumes "m \<notin> set (held h)" and "mtxs h m \<noteq> None"
  shows "critical env h m body =
    (if os_refuses env m then body True h
     else exec_then (body False (h\<lparr>held := m # held h\<rparr>)) (\<lambda>(h2, r).
            exec_then (exit_section h2 m False) (\<lambda>h3. Fine (h3, r))))"
proof -
  obtain e where "mtxs h m = Some e" using assms(2) by auto
  with assms(1) show ?thesis by (simp add: critical_def enter_section_def exit_section_def)
qed

lemma critical_held:
  assumes "m \<in> set (held h)" and "mtxs h m \<noteq> None"
  shows "critical env h m body =
    (case on_relock env of
       Undefined \<Rightarrow> Relock
     | Refuses \<Rightarrow> body True h
     | Recurses \<Rightarrow> exec_then (body False (h\<lparr>held := m # held h\<rparr>)) (\<lambda>(h2, r).
            exec_then (exit_section h2 m False) (\<lambda>h3. Fine (h3, r))))"
proof -
  obtain e where "mtxs h m = Some e" using assms(2) by auto
  with assms(1) show ?thesis
    by (simp add: critical_def enter_section_def exit_section_def split: relock.splits)
qed

text \<open>What a copy gives: the source's pointers, or null when the mutex is missing or refused.\<close>

definition copy_result :: "lock_env \<Rightarrow> pbuf \<Rightarrow> pbuf" where
  "copy_result env p =
     (case pb_mtx p of None \<Rightarrow> PB_null | Some m \<Rightarrow> if os_refuses env m then PB_null else p)"

lemma PB_copy_ok:
  assumes ok: "handles_ok h H" and p: "p \<in># H"
  shows "\<exists>h'. PB_copy env h p = Fine (h', copy_result env p) \<and> handles_ok h' (add_mset (copy_result env p) H)"
proof (cases "copy_result env p = PB_null")
  case True
  have "PB_copy env h p = Fine (h, PB_null)"
  proof (cases "pb_mtx p")
    case (Some m)
    then have "pb_mtx p = Some m" "os_refuses env m" using True by (auto simp: copy_result_def split: if_splits)
    then show ?thesis using handle_mutex_live [OF ok p] handles_okD(3) [OF ok]
      by (simp add: PB_copy_def critical_free)
  qed (simp add: PB_copy_def)
  moreover have "handles_ok (h\<lparr>objs := objs h, mtxs := mtxs h\<rparr>) (add_mset PB_null H)"
    by (rule handles_ok_transfer [OF ok]) (use handles_okD [OF ok] in auto)
  ultimately show ?thesis using True by simp
next
  case False
  then obtain m where m: "pb_mtx p = Some m" "\<not> os_refuses env m" and q: "copy_result env p = p"
    by (auto simp: copy_result_def split: option.splits if_splits)
  obtain t where t: "sp_retain (objs h) (pb_obj p) = Fine t" "counted t (image_mset pb_obj (add_mset p H))"
    using sp_retain_counted [OF handles_okD(1) [OF ok], of "pb_obj p"] p by auto
  obtain u where u: "sp_retain (mtxs h) (pb_mtx p) = Fine u" "counted u (image_mset pb_mtx (add_mset p H))"
    using sp_retain_counted [OF handles_okD(2) [OF ok], of "pb_mtx p"] p by auto
  have live: "mtxs h m \<noteq> None" and held: "held h = []"
    using handle_mutex_live [OF ok p m(1)] handles_okD(3) [OF ok] by simp_all
  have "PB_copy env h p = Fine (h\<lparr>objs := t, mtxs := u\<rparr>, p)"
    using t(1) u(1) m live held
    by (simp add: PB_copy_def critical_free retain_obj_def retain_mtx_def exit_section_def)
  moreover have "handles_ok (h\<lparr>objs := t, mtxs := u\<rparr>) (add_mset p H)"
    by (rule handles_ok_transfer [OF ok _ t(2) u(2)]) (use p in auto)
  ultimately show ?thesis using q by auto
qed

lemma PB_move_ok:
  assumes ok: "handles_ok h (add_mset p R)"
  shows "\<exists>p'. PB_move env h p = Fine (h, copy_result env p, p') \<and>
    handles_ok h (add_mset (copy_result env p) (add_mset p' R)) \<and>
    p' = (if copy_result env p = PB_null then p else PB_null)"
proof (cases "copy_result env p = PB_null")
  case True
  have "PB_move env h p = Fine (h, PB_null, p)"
  proof (cases "pb_mtx p")
    case (Some m)
    then have "pb_mtx p = Some m" "os_refuses env m" using True by (auto simp: copy_result_def split: if_splits)
    then show ?thesis using handle_mutex_live [OF ok, of p] handles_okD(3) [OF ok]
      by (simp add: PB_move_def critical_free)
  qed (simp add: PB_move_def)
  moreover have "handles_ok (h\<lparr>objs := objs h, mtxs := mtxs h\<rparr>) (add_mset PB_null (add_mset p R))"
    by (rule handles_ok_transfer [OF ok]) (use handles_okD [OF ok] in auto)
  ultimately show ?thesis using True by simp
next
  case False
  then obtain m where m: "pb_mtx p = Some m" "\<not> os_refuses env m" and q: "copy_result env p = p"
    by (auto simp: copy_result_def split: option.splits if_splits)
  have live: "mtxs h m \<noteq> None" and held: "held h = []"
    using handle_mutex_live [OF ok _ m(1)] handles_okD(3) [OF ok] by simp_all
  have "PB_move env h p = Fine (h, p, PB_null)"
    using m live held by (simp add: PB_move_def critical_free exit_section_def PB_null_def)
  moreover have "handles_ok (h\<lparr>objs := objs h, mtxs := mtxs h\<rparr>) (add_mset p (add_mset PB_null R))"
    by (rule handles_ok_transfer [OF ok]) (use handles_okD [OF ok] in auto)
  ultimately show ?thesis using q False by simp
qed

lemma PB_reset_ok:
  assumes ok: "handles_ok h (add_mset p R)"
  shows "\<exists>h' p'. PB_reset env h p = Fine (h', p') \<and> handles_ok h' (add_mset p' R) \<and>
    p' = (case pb_mtx p of Some m \<Rightarrow> if os_refuses env m then p else PB_null | None \<Rightarrow> PB_null)"
proof (cases "pb_mtx p")
  case None
  then have "p = PB_null" using handles_okD(4) [OF ok, of p] handle_wf_no_mutex by simp
  with ok show ?thesis by (simp add: PB_reset_def release_obj_def sp_release_def PB_null_def)
next
  case (Some m)
  have live: "mtxs h m \<noteq> None" and held: "held h = []"
    using handle_mutex_live [OF ok _ Some] handles_okD(3) [OF ok] by simp_all
  show ?thesis
  proof (cases "os_refuses env m")
    case True
    with Some live held ok show ?thesis by (simp add: PB_reset_def critical_free)
  next
    case False
    obtain t where t: "sp_release (objs h) (pb_obj p) = Fine t" "counted t (image_mset pb_obj (add_mset PB_null R))"
      using sp_release_counted [of "objs h" "pb_obj p"] handles_okD(1) [OF ok] by auto
    obtain u where u: "sp_release (mtxs h) (pb_mtx p) = Fine u" "counted u (image_mset pb_mtx (add_mset PB_null R))"
      using sp_release_counted [of "mtxs h" "pb_mtx p"] handles_okD(2) [OF ok] by auto
    have "PB_reset env h p = Fine (h\<lparr>objs := t, mtxs := u\<rparr>, PB_null)"
      using t(1) u(1) Some False live held
      by (simp add: PB_reset_def critical_free release_obj_def release_mtx_def exit_section_def PB_null_def)
    moreover have "handles_ok (h\<lparr>objs := t, mtxs := u\<rparr>) (add_mset PB_null R)"
      by (rule handles_ok_transfer [OF ok _ t(2) u(2)]) auto
    ultimately show ?thesis using Some False by auto
  qed
qed

lemma PB_destroy_ok:
  assumes ok: "handles_ok h (add_mset p R)"
  shows "\<exists>h'. PB_destroy h p = Fine h' \<and> handles_ok h' R"
proof -
  obtain t where t: "sp_release (objs h) (pb_obj p) = Fine t" "counted t (image_mset pb_obj R)"
    using sp_release_counted [of "objs h" "pb_obj p"] handles_okD(1) [OF ok] by auto
  obtain u where u: "sp_release (mtxs h) (pb_mtx p) = Fine u" "counted u (image_mset pb_mtx R)"
    using sp_release_counted [of "mtxs h" "pb_mtx p"] handles_okD(2) [OF ok] by auto
  have "PB_destroy h p = Fine (h\<lparr>objs := t, mtxs := u\<rparr>)"
    using t(1) u(1) by (simp add: PB_destroy_def release_obj_def release_mtx_def)
  moreover have "handles_ok (h\<lparr>objs := t, mtxs := u\<rparr>) R"
    by (rule handles_ok_transfer [OF ok _ t(2) u(2)]) auto
  ultimately show ?thesis by blast
qed

lemma fresh_missing:
  assumes "handles_ok h H" and "fresh h \<le> i"
  shows "objs h i = None" and "mtxs h i = None"
proof -
  have bound: "\<not> fresh h \<le> k" if "p \<in># H" "pb_obj p = Some k \<or> pb_mtx p = Some k" for p k
    using handles_okD(4) [OF assms(1) that(1)] that(2) by (auto simp: handle_wf_def)
  have "Some i \<notin># image_mset pb_obj H" and "Some i \<notin># image_mset pb_mtx H"
    using assms(2) bound [of _ i] by (metis imageE set_image_mset)+
  then show "objs h i = None" and "mtxs h i = None"
    using counted_missing handles_okD(1,2) [OF assms(1)] by blast+
qed

lemma handle_wf_mono: "handle_wf n p \<Longrightarrow> n \<le> k \<Longrightarrow> handle_wf k p"
  by (auto simp: handle_wf_def)

lemma PB_create_with_ok:
  assumes ok: "handles_ok h H" and c: "PB_create_with mok ook h x = (h', p)"
  shows "handles_ok h' (add_mset p H)"
proof -
  let ?m = "fresh h"
  have m: "counted (sp_make (mtxs h) ?m ()) (add_mset (Some ?m) (image_mset pb_mtx H))"
    by (rule sp_make_counted) (use handles_okD(2) [OF ok] fresh_missing(2) [OF ok] in auto)
  have i: "counted (sp_make (objs h) (Suc ?m) x) (add_mset (Some (Suc ?m)) (image_mset pb_obj H))"
    by (rule sp_make_counted) (use handles_okD(1) [OF ok] fresh_missing(1) [OF ok] in auto)
  have old: "handle_wf (Suc ?m) q" "handle_wf (Suc (Suc ?m)) q" "pb_obj q \<noteq> Some (Suc ?m)"
    if "q \<in># H" for q
    using handles_okD(4) [OF ok that] by (auto intro: handle_wf_mono) (auto simp: handle_wf_def)
  have new: "handle_wf (Suc ?m) \<lparr>pb_obj = None, pb_mtx = Some ?m\<rparr>"
      "handle_wf (Suc (Suc ?m)) \<lparr>pb_obj = Some (Suc ?m), pb_mtx = Some ?m\<rparr>"
    by (simp_all add: handle_wf_def)
  consider "\<not> mok" "h' = h" "p = PB_null"
    | "mok" "\<not> ook" "h' = h\<lparr>mtxs := sp_make (mtxs h) ?m (), fresh := Suc ?m\<rparr>"
      "p = \<lparr>pb_obj = None, pb_mtx = Some ?m\<rparr>"
    | "mok" "ook" "h' = h\<lparr>mtxs := sp_make (mtxs h) ?m (), objs := sp_make (objs h) (Suc ?m) x, fresh := Suc (Suc ?m)\<rparr>"
      "p = \<lparr>pb_obj = Some (Suc ?m), pb_mtx = Some ?m\<rparr>"
    using c by (auto simp: PB_create_with_def Let_def split: if_splits)
  then show ?thesis
  proof cases
    case 1
    have "handles_ok (h\<lparr>objs := objs h, mtxs := mtxs h\<rparr>) (add_mset PB_null H)"
      by (rule handles_ok_transfer [OF ok]) (use handles_okD [OF ok] in auto)
    with 1 show ?thesis by simp
  next
    case 2
    have "\<forall>q\<in>#add_mset p H. handle_wf (Suc ?m) q" using old(1) new(1) by (auto simp: 2)
    moreover have "same_mutex p q" "same_mutex q p" for q by (auto simp: same_mutex_def 2)
    ultimately show ?thesis
      using m ok by (simp add: handles_ok_def 2)
  next
    case 3
    have "\<forall>q\<in>#add_mset p H. handle_wf (Suc (Suc ?m)) q" using old(2) new(2) by (auto simp: 3)
    moreover have "same_mutex p q" "same_mutex q p" if "q \<in># H" for q
      using old(3) [OF that] by (auto simp: same_mutex_def 3)
    ultimately show ?thesis
      using m i ok by (simp add: handles_ok_def 3)
  qed
qed

text \<open>Two nested sections, the source's mutex first: when they take the same mutex twice and when refused.\<close>

definition self_relock :: "lock_env \<Rightarrow> nat \<Rightarrow> nat \<Rightarrow> bool" where
  "self_relock env md ms \<longleftrightarrow> md = ms \<and> on_relock env = Undefined \<and> \<not> os_refuses env ms"

definition pair_refused :: "lock_env \<Rightarrow> nat \<Rightarrow> nat \<Rightarrow> bool" where
  "pair_refused env md ms \<longleftrightarrow>
     os_refuses env md \<or> os_refuses env ms \<or> (md = ms \<and> on_relock env = Refuses)"

lemma two_sections_relock:
  assumes "held h = []" and "mtxs h ms \<noteq> None" and "self_relock env md ms"
  shows "critical env h ms (\<lambda>es h1. critical env h1 md (body es)) = Relock"
  using assms by (auto simp: critical_def enter_section_def self_relock_def)

lemma held_nil: "held h = [] \<Longrightarrow> h\<lparr>held := []\<rparr> = h"
  by (cases h) simp

lemma two_sections_refused:
  assumes held: "held h = []" and live: "mtxs h ms = Some a" "mtxs h md = Some b"
    and r: "pair_refused env md ms" and d: "\<not> self_relock env md ms"
    and body: "\<And>es ed h'. es \<or> ed \<Longrightarrow> body es ed h' = Fine (h', r)"
  shows "critical env h ms (\<lambda>es h1. critical env h1 md (body es)) = Fine (h, r)"
proof (cases "os_refuses env ms")
  case True
  have "critical env h md (body True) = Fine (h, r)"
    using held live(2) body [of True] held_nil [OF held] by (simp add: critical_free exit_section_def)
  with True show ?thesis using held live(1) by (simp add: critical_free)
next
  case False
  let ?h = "h\<lparr>held := [ms]\<rparr>"
  have "critical env ?h md (body False) = Fine (?h, r)"
  proof (cases "md = ms")
    case True
    then have "on_relock env = Refuses" using r d False by (auto simp: pair_refused_def self_relock_def)
    with True show ?thesis using live(2) body [of False True] by (simp add: critical_held)
  next
    case False
    then have "os_refuses env md" using r \<open>\<not> os_refuses env ms\<close> by (simp add: pair_refused_def)
    with False show ?thesis using live(2) body [of False True] by (simp add: critical_free)
  qed
  with False show ?thesis using held live(1) held_nil [OF held] by (simp add: critical_free exit_section_def)
qed

lemma two_sections_taken:
  assumes held: "held h = []" and live: "mtxs h ms = Some a" "mtxs h md = Some b"
    and r: "\<not> pair_refused env md ms" and d: "\<not> self_relock env md ms"
    and body: "body False False (h\<lparr>held := [md, ms]\<rparr>) = Fine (h\<lparr>objs := t, held := [md, ms]\<rparr>, r)"
  shows "critical env h ms (\<lambda>es h1. critical env h1 md (body es)) = Fine (h\<lparr>objs := t\<rparr>, r)"
proof -
  let ?h = "h\<lparr>held := [ms]\<rparr>"
  have "critical env ?h md (body False) = Fine (?h\<lparr>objs := t\<rparr>, r)"
  proof (cases "md = ms")
    case True
    then have "on_relock env = Recurses" using r d
      by (cases "on_relock env") (auto simp: pair_refused_def self_relock_def)
    with True show ?thesis using live(2) body by (simp add: critical_held exit_section_def)
  next
    case False
    moreover have "\<not> os_refuses env md" using r by (simp add: pair_refused_def)
    ultimately show ?thesis using live(2) body by (simp add: critical_free exit_section_def)
  qed
  moreover have "\<not> os_refuses env ms" using r by (simp add: pair_refused_def)
  moreover have "h\<lparr>objs := t, held := []\<rparr> = h\<lparr>objs := t\<rparr>" using held by (cases h) simp
  ultimately show ?thesis using held live(1) by (simp add: critical_free exit_section_def)
qed

text \<open>What assigning leaves in the target.\<close>

definition assign_result :: "lock_env \<Rightarrow> pbuf \<Rightarrow> pbuf \<Rightarrow> pbuf" where
  "assign_result env this other =
     (case (pb_mtx this, pb_mtx other) of
        (Some md, Some ms) \<Rightarrow> if pair_refused env md ms then this else other
      | (Some md, None) \<Rightarrow> if os_refuses env md then this else PB_null
      | (None, Some ms) \<Rightarrow> if os_refuses env ms then this else other
      | (None, None) \<Rightarrow> PB_null)"

definition assign_relocks :: "lock_env \<Rightarrow> pbuf \<Rightarrow> pbuf \<Rightarrow> bool" where
  "assign_relocks env this other \<longleftrightarrow>
     (case (pb_mtx this, pb_mtx other) of
        (Some md, Some ms) \<Rightarrow> self_relock env md ms
      | _ \<Rightarrow> False)"

text \<open>Replacing the pointers of one handle by those of a handle that is kept, or by null.\<close>

lemma assign_tables:
  assumes ok: "handles_ok h (add_mset this R)" and o: "other \<in># R \<or> other = PB_null"
  obtains t u where "sp_assign (objs h) (pb_obj this) (pb_obj other) = Fine t"
    and "sp_assign (mtxs h) (pb_mtx this) (pb_mtx other) = Fine u"
    and "handles_ok (h\<lparr>objs := t, mtxs := u\<rparr>) (add_mset other R)"
proof -
  have "pb_obj other \<in># image_mset pb_obj R \<or> pb_obj other = None"
    and "pb_mtx other \<in># image_mset pb_mtx R \<or> pb_mtx other = None" using o by auto
  then obtain t u where t: "sp_assign (objs h) (pb_obj this) (pb_obj other) = Fine t"
      "counted t (image_mset pb_obj (add_mset other R))"
    and u: "sp_assign (mtxs h) (pb_mtx this) (pb_mtx other) = Fine u"
      "counted u (image_mset pb_mtx (add_mset other R))"
    using sp_assign_counted [of "objs h" "pb_obj this" "image_mset pb_obj R" "pb_obj other"]
      sp_assign_counted [of "mtxs h" "pb_mtx this" "image_mset pb_mtx R" "pb_mtx other"] handles_okD(1,2) [OF ok]
    by auto
  have "handles_ok (h\<lparr>objs := t, mtxs := u\<rparr>) (add_mset other R)"
    by (rule handles_ok_transfer [OF ok _ t(2) u(2)]) (use o in auto)
  with t(1) u(1) show ?thesis by (rule that)
qed

lemma sp_assign_null: "sp_assign t a None = sp_release t a"
  by (simp add: sp_assign_def sp_retain_def)

lemma PB_copy_assign_ok:
  assumes ok: "handles_ok h (add_mset this R)" and o: "other \<in># R" and nd: "\<not> assign_relocks env this other"
  shows "\<exists>h'. PB_copy_assign False env h this other = Fine (h', assign_result env this other) \<and>
    handles_ok h' (add_mset (assign_result env this other) R)"
proof -
  have held: "held h = []" by (rule handles_okD(3) [OF ok])
  have live: "mtxs h m \<noteq> None" if "pb_mtx this = Some m \<or> pb_mtx other = Some m" for m
    using that handle_mutex_live [OF ok, of this] handle_mutex_live [OF ok, of other] o by auto
  have null: "p = PB_null" if "p = this \<or> p = other" "pb_mtx p = None" for p
    using that o handles_okD(4) [OF ok] handle_wf_no_mutex by auto
  obtain t u where t: "sp_assign (objs h) (pb_obj this) (pb_obj other) = Fine t"
      and u: "sp_assign (mtxs h) (pb_mtx this) (pb_mtx other) = Fine u"
      and ok': "handles_ok (h\<lparr>objs := t, mtxs := u\<rparr>) (add_mset other R)"
    by (rule assign_tables [OF ok]) (use o in auto)
  note simps = assign_obj_def assign_mtx_def release_obj_def release_mtx_def exit_section_def
    critical_free assign_result_def
  show ?thesis
  proof (cases "pb_mtx this"; cases "pb_mtx other")
    assume m: "pb_mtx this = None" "pb_mtx other = None"
    then have "this = PB_null" "other = PB_null" using null by auto
    with ok show ?thesis
      by (simp add: PB_copy_assign_def simps sp_release_def)
  next
    fix ms assume m: "pb_mtx this = None" "pb_mtx other = Some ms"
    then obtain a where "mtxs h ms = Some a" using live [of ms] by auto
    then show ?thesis
      using t u ok' ok held m
      by (cases h; cases "os_refuses env ms") (simp_all add: PB_copy_assign_def simps)
  next
    fix md assume m: "pb_mtx this = Some md" "pb_mtx other = None"
    then obtain a where "mtxs h md = Some a" using live [of md] by auto
    moreover have "other = PB_null" using m null by auto
    ultimately show ?thesis
      using t u ok' ok held m
      by (cases h; cases "os_refuses env md") (simp_all add: PB_copy_assign_def simps sp_assign_null)
  next
    fix md ms assume m: "pb_mtx this = Some md" "pb_mtx other = Some ms"
    then obtain a b where ab: "mtxs h ms = Some a" "mtxs h md = Some b" using live [of ms] live [of md] by auto
    have nd': "\<not> self_relock env md ms" using nd m by (simp add: assign_relocks_def)
    show ?thesis
    proof (cases "pair_refused env md ms")
      case True
      then show ?thesis using ok m
        by (simp add: PB_copy_assign_def assign_result_def
            two_sections_refused [OF held ab True nd', where r = "(this, False)"])
    next
      case False
      then show ?thesis using ok' t u m
        by (simp add: PB_copy_assign_def assign_obj_def assign_mtx_def assign_result_def
            two_sections_taken [OF held ab False nd', where r = "(this\<lparr>pb_obj := pb_obj other\<rparr>, True)" and t = t])
    qed
  qed
qed

lemma PB_copy_assign_relock:
  assumes "handles_ok h (add_mset this R)" and "other \<in># R" and "assign_relocks env this other"
  shows "PB_copy_assign False env h this other = Relock"
proof -
  obtain md ms where m: "pb_mtx this = Some md" "pb_mtx other = Some ms" and d: "self_relock env md ms"
    using assms(3) by (auto simp: assign_relocks_def split: option.splits)
  have "mtxs h ms \<noteq> None" using handle_mutex_live [OF assms(1) _ m(2)] assms(2) by simp
  with handles_okD(3) [OF assms(1)] m d show ?thesis
    by (simp add: PB_copy_assign_def two_sections_relock)
qed

text \<open>A move assignment releases the target's pointers and empties the source.\<close>

definition move_source :: "lock_env \<Rightarrow> pbuf \<Rightarrow> pbuf \<Rightarrow> pbuf" where
  "move_source env this other =
     (case (pb_mtx this, pb_mtx other) of
        (Some md, Some ms) \<Rightarrow> if pair_refused env md ms then other else PB_null
      | (None, Some ms) \<Rightarrow> if os_refuses env ms then other else PB_null
      | (_, None) \<Rightarrow> other)"

lemma release_tables:
  assumes ok: "handles_ok h (add_mset this H)"
  obtains t u where "sp_release (objs h) (pb_obj this) = Fine t" and "sp_release (mtxs h) (pb_mtx this) = Fine u"
    and "handles_ok (h\<lparr>objs := t, mtxs := u\<rparr>) H"
proof -
  obtain t where t: "sp_release (objs h) (pb_obj this) = Fine t" "counted t (image_mset pb_obj H)"
    using sp_release_counted [of "objs h" "pb_obj this"] handles_okD(1) [OF ok] by auto
  obtain u where u: "sp_release (mtxs h) (pb_mtx this) = Fine u" "counted u (image_mset pb_mtx H)"
    using sp_release_counted [of "mtxs h" "pb_mtx this"] handles_okD(2) [OF ok] by auto
  have "handles_ok (h\<lparr>objs := t, mtxs := u\<rparr>) H"
    by (rule handles_ok_transfer [OF ok _ t(2) u(2)]) auto
  with t(1) u(1) show ?thesis by (rule that)
qed

lemma handles_ok_null [simp]:
  "handles_ok h (add_mset PB_null H) \<longleftrightarrow> handles_ok h H"
  "handles_ok h (add_mset p (add_mset PB_null H)) \<longleftrightarrow> handles_ok h (add_mset p H)"
  by (auto simp: handles_ok_def)

lemma PB_move_assign_ok:
  assumes ok: "handles_ok h (add_mset this (add_mset other R))" and nd: "\<not> assign_relocks env this other"
  shows "\<exists>h'. PB_move_assign False env h this other
      = Fine (h', assign_result env this other, move_source env this other) \<and>
    handles_ok h' (add_mset (assign_result env this other) (add_mset (move_source env this other) R))"
proof -
  have held: "held h = []" by (rule handles_okD(3) [OF ok])
  have live: "mtxs h m \<noteq> None" if "pb_mtx this = Some m \<or> pb_mtx other = Some m" for m
    using that handle_mutex_live [OF ok, of this] handle_mutex_live [OF ok, of other] by auto
  have null: "p = PB_null" if "p = this \<or> p = other" "pb_mtx p = None" for p
    using that handles_okD(4) [OF ok] handle_wf_no_mutex by auto
  obtain t u where t: "sp_release (objs h) (pb_obj this) = Fine t"
      and u: "sp_release (mtxs h) (pb_mtx this) = Fine u"
      and ok': "handles_ok (h\<lparr>objs := t, mtxs := u\<rparr>) (add_mset other R)"
    by (rule release_tables [OF ok])
  have rec: "other\<lparr>pb_obj := None, pb_mtx := None\<rparr> = PB_null" "this\<lparr>pb_obj := None, pb_mtx := None\<rparr> = PB_null"
      "this\<lparr>pb_obj := pb_obj other, pb_mtx := pb_mtx other\<rparr> = other"
    by (simp_all add: PB_null_def)
  note simps = release_obj_def release_mtx_def exit_section_def critical_free assign_result_def move_source_def rec
  show ?thesis
  proof (cases "pb_mtx this"; cases "pb_mtx other")
    assume m: "pb_mtx this = None" "pb_mtx other = None"
    then have "this = PB_null" "other = PB_null" using null by auto
    with ok show ?thesis
      by (simp add: PB_move_assign_def simps sp_release_def)
  next
    fix ms assume m: "pb_mtx this = None" "pb_mtx other = Some ms"
    then obtain a where "mtxs h ms = Some a" using live [of ms] by auto
    then show ?thesis
      using t u ok' ok held m rec
      by (cases h; cases "os_refuses env ms") (simp_all add: PB_move_assign_def simps)
  next
    fix md assume m: "pb_mtx this = Some md" "pb_mtx other = None"
    then obtain a where "mtxs h md = Some a" using live [of md] by auto
    moreover have "other = PB_null" using m null by auto
    ultimately show ?thesis
      using t u ok' ok held m
      by (cases h; cases "os_refuses env md") (simp_all add: PB_move_assign_def simps)
  next
    fix md ms assume m: "pb_mtx this = Some md" "pb_mtx other = Some ms"
    then obtain a b where ab: "mtxs h ms = Some a" "mtxs h md = Some b" using live [of ms] live [of md] by auto
    have nd': "\<not> self_relock env md ms" using nd m by (simp add: assign_relocks_def)
    show ?thesis
    proof (cases "pair_refused env md ms")
      case True
      then show ?thesis using ok m
        by (simp add: PB_move_assign_def assign_result_def move_source_def
            two_sections_refused [OF held ab True nd', where r = "(this, other, False)"])
    next
      case False
      then show ?thesis using ok' t u m rec
        by (simp add: PB_move_assign_def release_obj_def release_mtx_def assign_result_def move_source_def
            two_sections_taken [OF held ab False nd', where t = t
              and r = "(this\<lparr>pb_obj := pb_obj other\<rparr>, other\<lparr>pb_obj := None\<rparr>, True)"])
    qed
  qed
qed

lemma PB_move_assign_relock:
  assumes "handles_ok h (add_mset this (add_mset other R))" and "assign_relocks env this other"
  shows "PB_move_assign False env h this other = Relock"
proof -
  obtain md ms where m: "pb_mtx this = Some md" "pb_mtx other = Some ms" and d: "self_relock env md ms"
    using assms(2) by (auto simp: assign_relocks_def split: option.splits)
  have "mtxs h ms \<noteq> None" using handle_mutex_live [OF assms(1) _ m(2)] by simp
  with handles_okD(3) [OF assms(1)] m d show ?thesis
    by (simp add: PB_move_assign_def two_sections_relock)
qed

section \<open>Locked access\<close>

lemma handles_ok_update:
  assumes ok: "handles_ok h H" and i: "objs h i = Some (x, n)"
  shows "handles_ok (h\<lparr>objs := (objs h)(i := Some (x', n))\<rparr>) H"
proof -
  have n: "n = count (image_mset pb_obj H) (Some i)" "n \<noteq> 0"
    by (rule counted_cases [OF handles_okD(1) [OF ok], of i]; use i in simp)+
  have "counted ((objs h)(i := Some (x', n))) (image_mset pb_obj H)"
    using handles_okD(1) [OF ok] n by (auto simp: counted_def)
  with ok show ?thesis by (simp add: handles_ok_def)
qed

lemma PB_lock_spec:
  assumes ok: "handles_ok h H" and p: "p \<in># H"
  shows "PB_lock env h p f r0 =
    (case (pb_mtx p, pb_obj p) of
       (Some m, Some i) \<Rightarrow>
         if os_refuses env m then Fine (h, True, r0)
         else (case objs h i of
                 Some (x, n) \<Rightarrow> Fine (h\<lparr>objs := (objs h)(i := Some (fst (f (n > 1) x), n))\<rparr>, False, snd (f (n > 1) x))
               | None \<Rightarrow> UB)
     | (Some m, None) \<Rightarrow> Fine (h, os_refuses env m, r0)
     | (None, _) \<Rightarrow> Fine (h, False, r0))"
proof (cases "pb_mtx p")
  case None
  then show ?thesis by (simp add: PB_lock_def)
next
  case (Some m)
  then obtain a where "mtxs h m = Some a" using handle_mutex_live [OF ok p] by auto
  moreover have "held h = []" by (rule handles_okD(3) [OF ok])
  ultimately show ?thesis using Some handle_object_live [OF ok p]
    by (cases h) (auto simp: PB_lock_def critical_free exit_section_def case_prod_beta Let_def split: option.splits)
qed

lemma PB_lock_ok:
  assumes ok: "handles_ok h H" and p: "p \<in># H"
  shows "\<exists>h' e r. PB_lock env h p f r0 = Fine (h', e, r) \<and> handles_ok h' H"
  using PB_lock_spec [OF ok p, of env f r0] ok handle_object_live [OF ok p] handles_ok_update [OF ok]
  by (auto split: option.splits)

lemma PB_lock_shared_spec:
  assumes ok: "handles_ok h H" and p: "p \<in># H"
  shows "PB_lock_shared env h p f r0 =
    (case (pb_mtx p, pb_obj p) of
       (Some m, Some i) \<Rightarrow>
         if os_refuses env m then Fine (h, True, r0)
         else (case objs h i of Some (x, n) \<Rightarrow> Fine (h, False, f x) | None \<Rightarrow> UB)
     | (Some m, None) \<Rightarrow> Fine (h, os_refuses env m, r0)
     | (None, _) \<Rightarrow> Fine (h, False, r0))"
proof (cases "pb_mtx p")
  case None
  then show ?thesis by (simp add: PB_lock_shared_def)
next
  case (Some m)
  then obtain a where "mtxs h m = Some a" using handle_mutex_live [OF ok p] by auto
  moreover have "held h = []" by (rule handles_okD(3) [OF ok])
  ultimately show ?thesis using Some handle_object_live [OF ok p]
    by (cases h) (auto simp: PB_lock_shared_def critical_free exit_section_def split: option.splits)
qed

lemma PB_lock_shared_ok:
  assumes ok: "handles_ok h H" and p: "p \<in># H"
  shows "\<exists>e r. PB_lock_shared env h p f r0 = Fine (h, e, r)"
  using PB_lock_shared_spec [OF ok p, of env f r0] handle_object_live [OF ok p]
  by (auto split: option.splits)

section \<open>Programs over handles\<close>

text \<open>
  Sequences of operations over a list of handles, as a program that owns them performs them.
\<close>

datatype 'o pb_op =
    OpCreate bool bool 'o
  | OpCopy nat
  | OpMove nat
  | OpAssign nat nat
  | OpMoveAssign nat nat
  | OpReset nat
  | OpWrite nat "bool \<Rightarrow> 'o \<Rightarrow> 'o"
  | OpRead nat
  | OpDestroy nat

fun op_handles :: "'o pb_op \<Rightarrow> nat list" where
  "op_handles (OpCreate a b x) = []"
| "op_handles (OpCopy k) = [k]"
| "op_handles (OpMove k) = [k]"
| "op_handles (OpAssign k l) = [k, l]"
| "op_handles (OpMoveAssign k l) = [k, l]"
| "op_handles (OpReset k) = [k]"
| "op_handles (OpWrite k f) = [k]"
| "op_handles (OpRead k) = [k]"
| "op_handles (OpDestroy k) = [k]"

fun pb_act :: "lock_env \<Rightarrow> 'o pb_op \<Rightarrow> 'o sheap \<Rightarrow> pbuf list \<Rightarrow> ('o sheap \<times> pbuf list) exec" where
  "pb_act env (OpCreate mok ook x) h hs =
     (let (h', p) = PB_create_with mok ook h x in Fine (h', hs @ [p]))"
| "pb_act env (OpCopy k) h hs = exec_then (PB_copy env h (hs ! k)) (\<lambda>(h', q). Fine (h', hs @ [q]))"
| "pb_act env (OpMove k) h hs =
     exec_then (PB_move env h (hs ! k)) (\<lambda>(h', q, p). Fine (h', hs[k := p] @ [q]))"
| "pb_act env (OpAssign k l) h hs =
     exec_then (PB_copy_assign (k = l) env h (hs ! k) (hs ! l)) (\<lambda>(h', p). Fine (h', hs[k := p]))"
| "pb_act env (OpMoveAssign k l) h hs =
     exec_then (PB_move_assign (k = l) env h (hs ! k) (hs ! l)) (\<lambda>(h', p, q). Fine (h', hs[k := p, l := q]))"
| "pb_act env (OpReset k) h hs = exec_then (PB_reset env h (hs ! k)) (\<lambda>(h', p). Fine (h', hs[k := p]))"
| "pb_act env (OpWrite k f) h hs =
     exec_then (PB_lock env h (hs ! k) (\<lambda>sh x. (f sh x, ())) ()) (\<lambda>(h', e, r). Fine (h', hs))"
| "pb_act env (OpRead k) h hs =
     exec_then (PB_lock_shared env h (hs ! k) (\<lambda>x. ()) ()) (\<lambda>(h', e, r). Fine (h', hs))"
| "pb_act env (OpDestroy k) h hs =
     exec_then (PB_destroy h (hs ! k)) (\<lambda>h'. Fine (h', take k hs @ drop (Suc k) hs))"

definition pb_run :: "lock_env \<Rightarrow> 'o pb_op list \<Rightarrow> 'o sheap \<Rightarrow> pbuf list \<Rightarrow> ('o sheap \<times> pbuf list) exec" where
  "pb_run env = run_ops (pb_act env) op_handles"

text \<open>
  The one undefined behaviour of these operations: an assignment between two handles that
  share a mutex, where the second acquisition of this mutex is undefined.
\<close>

definition pb_fails :: "lock_env \<Rightarrow> 'o pb_op \<Rightarrow> pbuf list \<Rightarrow> bool" where
  "pb_fails env a hs \<longleftrightarrow> on_relock env = Undefined \<and>
     (case a of
        OpAssign k l \<Rightarrow> k \<noteq> l \<and> pb_mtx (hs ! k) \<noteq> None \<and> pb_mtx (hs ! k) = pb_mtx (hs ! l)
      | OpMoveAssign k l \<Rightarrow> k \<noteq> l \<and> pb_mtx (hs ! k) \<noteq> None \<and> pb_mtx (hs ! k) = pb_mtx (hs ! l)
      | _ \<Rightarrow> False)"

lemma pb_failsE:
  assumes "pb_fails env a hs"
  obtains k l m where "a = OpAssign k l \<or> a = OpMoveAssign k l" "k \<noteq> l"
    "pb_mtx (hs ! k) = Some m" "pb_mtx (hs ! l) = Some m" "on_relock env = Undefined"
proof -
  obtain k l where a: "a = OpAssign k l \<or> a = OpMoveAssign k l"
    using assms by (cases a) (auto simp: pb_fails_def)
  moreover obtain m where "pb_mtx (hs ! k) = Some m" using assms a by (cases "pb_mtx (hs ! k)") (auto simp: pb_fails_def)
  moreover have "k \<noteq> l" "pb_mtx (hs ! k) = pb_mtx (hs ! l)" "on_relock env = Undefined"
    using assms a by (auto simp: pb_fails_def)
  ultimately show ?thesis using that by simp
qed

lemma assign_relocks_fails:
  assumes "assign_relocks env (hs ! k) (hs ! l)" and "k \<noteq> l"
  shows "pb_fails env (OpAssign k l) hs" and "pb_fails env (OpMoveAssign k l) hs"
  using assms by (auto simp: pb_fails_def assign_relocks_def self_relock_def split: option.splits)

lemma pb_act_ok:
  assumes ok: "handles_ok h (mset hs)" and k: "\<forall>k\<in>set (op_handles a). k < length hs"
  shows "(\<exists>h' hs'. pb_act env a h hs = Fine (h', hs') \<and> handles_ok h' (mset hs')) \<or>
    (pb_act env a h hs = Relock \<and> pb_fails env a hs)"
proof (cases a)
  case (OpCreate mok ook x)
  obtain h' p where c: "PB_create_with mok ook h x = (h', p)" by fastforce
  from PB_create_with_ok [OF ok c] c show ?thesis by (simp add: OpCreate)
next
  case (OpCopy k)
  with k PB_copy_ok [OF ok, of "hs ! k" env] show ?thesis by auto
next
  case (OpMove k)
  then obtain R where R: "mset hs = add_mset (hs ! k) R" "\<And>a. mset (hs[k := a]) = add_mset a R"
    using k mset_split1 [of k hs] by auto
  from PB_move_ok [of h "hs ! k" R env] ok OpMove show ?thesis by (auto simp: R)
next
  case (OpAssign k l)
  show ?thesis
  proof (cases "k = l")
    case True
    with OpAssign ok show ?thesis by (simp add: PB_copy_assign_def)
  next
    case False
    have kl: "k < length hs" "l < length hs" "l \<noteq> k" using OpAssign k False by auto
    obtain R where R: "mset hs = add_mset (hs ! k) R" "\<And>a. mset (hs[k := a]) = add_mset a R" "hs ! l \<in># R"
      by (rule mset_split1 [OF kl(1)]) (use kl(2,3) in blast)
    show ?thesis
      using PB_copy_assign_ok [of h "hs ! k" R "hs ! l" env] PB_copy_assign_relock [of h "hs ! k" R "hs ! l" env]
        assign_relocks_fails(1) [of env hs k l] ok R OpAssign False
      by (cases "assign_relocks env (hs ! k) (hs ! l)") auto
  qed
next
  case (OpMoveAssign k l)
  show ?thesis
  proof (cases "k = l")
    case True
    with OpMoveAssign ok show ?thesis by (simp add: PB_move_assign_def)
  next
    case False
    then obtain R where R: "mset hs = add_mset (hs ! k) (add_mset (hs ! l) R)"
        "\<And>a b. mset (hs[k := a, l := b]) = add_mset a (add_mset b R)"
      using OpMoveAssign k mset_split2 [of k hs l] by auto
    show ?thesis
      using PB_move_assign_ok [of h "hs ! k" "hs ! l" R env] PB_move_assign_relock [of h "hs ! k" "hs ! l" R env]
        assign_relocks_fails(2) [of env hs k l] ok R OpMoveAssign False
      by (cases "assign_relocks env (hs ! k) (hs ! l)") auto
  qed
next
  case (OpReset k)
  then obtain R where R: "mset hs = add_mset (hs ! k) R" "\<And>a. mset (hs[k := a]) = add_mset a R"
    using k mset_split1 [of k hs] by auto
  from PB_reset_ok [of h "hs ! k" R env] ok OpReset show ?thesis by (auto simp: R)
next
  case (OpWrite k f)
  with k PB_lock_ok [OF ok, of "hs ! k" env "\<lambda>sh x. (f sh x, ())" "()"] show ?thesis by auto
next
  case (OpRead k)
  with k PB_lock_shared_ok [OF ok, of "hs ! k" env "\<lambda>x. ()" "()"] ok show ?thesis by auto
next
  case (OpDestroy k)
  then obtain R where R: "mset hs = add_mset (hs ! k) R" "mset (take k hs @ drop (Suc k) hs) = R"
    using k mset_split1 [of k hs] by auto
  from PB_destroy_ok [of h "hs ! k" R] ok OpDestroy R show ?thesis by auto
qed

interpretation pb: handle_ops "pb_act env" op_handles "\<lambda>h hs. handles_ok h (mset hs)"
    "\<lambda>a h hs r. r = Relock \<and> pb_fails env a hs" for env
  using pb_act_ok by unfold_locales fastforce

lemma heap_empty_ok: "handles_ok heap_empty {#}"
  by (simp add: handles_ok_def heap_empty_def counted_empty)

lemma count_handles: "count (image_mset f (mset hs)) (Some i) = length (filter (\<lambda>p. f p = Some i) hs)"
  by (induction hs) auto

section \<open>Properties\<close>

text \<open>
  C16. A sequence of operations on protected buffers (creation, copies and moves, the two
  assignments, reset, write and read access, destruction) uses no object or mutex after it
  was freed and frees none twice, whatever acquisitions the operating system refuses. It has
  one undefined behaviour, and only where the configuration uses \<^verbatim>\<open>std::shared_mutex\<close>: some
  operation is an assignment between two different handles that share a mutex, which it
  acquires twice. Otherwise the sequence returns; then the count of every object is the
  number of handles to it, a handle without mutex has no object, all handles of an object
  have the same mutex, no mutex stays locked, and when no handle is left nothing is left.
\<close>

theorem protected_buffers_safe:
  "case pb_run env ops heap_empty [] of
      Fine (h, hs) \<Rightarrow>
        (\<forall>i. entry_count (objs h) i = length (filter (\<lambda>p. pb_obj p = Some i) hs)) \<and>
        (\<forall>i. entry_count (mtxs h) i = length (filter (\<lambda>p. pb_mtx p = Some i) hs)) \<and>
        list_all (\<lambda>p. if pb_mtx p = None then pb_obj p = None else True) hs \<and>
        list_all (\<lambda>p. list_all (same_mutex p) hs) hs \<and>
        held h = [] \<and> (if hs = [] then objs h = (\<lambda>i. None) \<and> mtxs h = (\<lambda>i. None) else True)
    | Relock \<Rightarrow> on_relock env = Undefined \<and>
        (\<exists>pre k l suf h hs m.
           (ops = pre @ OpAssign k l # suf \<or> ops = pre @ OpMoveAssign k l # suf) \<and>
           pb_run env pre heap_empty [] = Fine (h, hs) \<and> k < length hs \<and> l < length hs \<and> k \<noteq> l \<and>
           pb_mtx (hs ! k) = Some m \<and> pb_mtx (hs ! l) = Some m)
    | UB \<Rightarrow> False"
proof -
  have ok: "handles_ok heap_empty (mset [])" by (simp add: heap_empty_ok)
  from pb.run_ok [OF ok, of env ops, folded pb_run_def] consider
      h hs where "pb_run env ops heap_empty [] = Fine (h, hs)" "handles_ok h (mset hs)"
    | pre a suf h hs where "ops = pre @ a # suf" "pb_run env pre heap_empty [] = Fine (h, hs)"
        "\<forall>k\<in>set (op_handles a). k < length hs" "pb_run env ops heap_empty [] = Relock" "pb_fails env a hs"
    by metis
  then show ?thesis
  proof cases
    case 1
    have wf: "if pb_mtx p = None then pb_obj p = None else True" if "p \<in> set hs" for p
      using handles_okD(4) [OF 1(2), of p] that by (auto simp: handle_wf_def)
    have "entry_count (objs h) i = length (filter (\<lambda>p. pb_obj p = Some i) hs)"
        "entry_count (mtxs h) i = length (filter (\<lambda>p. pb_mtx p = Some i) hs)" for i
      using handles_okD(1,2) [OF 1(2)] count_handles by (simp_all add: counted_def)
    moreover have "list_all (\<lambda>p. list_all (same_mutex p) hs) hs"
      using 1(2) by (simp add: handles_ok_def list_all_iff)
    moreover have "held h = []" by (rule handles_okD(3) [OF 1(2)])
    moreover have "objs h = (\<lambda>i. None) \<and> mtxs h = (\<lambda>i. None)" if "hs = []"
      using handles_okD(1,2) [OF 1(2)] that by (simp add: counted_empty)
    ultimately show ?thesis using 1(1) wf by (simp add: list_all_iff)
  next
    case 2
    obtain k l m where "a = OpAssign k l \<or> a = OpMoveAssign k l" "k \<noteq> l"
        "pb_mtx (hs ! k) = Some m" "pb_mtx (hs ! l) = Some m" "on_relock env = Undefined"
      using 2(5) by (rule pb_failsE)
    with 2 show ?thesis by (auto 4 4)
  qed
qed

text \<open>
  Assigning a protected buffer to another handle of the same object is undefined under the
  POSIX configuration: the assignment locks the shared mutex of the source and then the
  same mutex again as that of the target. With the CMSIS RTOS mutex the second lock is
  refused and the assignment does nothing.
\<close>

theorem copy_assign_same_object_relocks:
  "relocks (pb_run \<lparr>on_relock = Undefined, os_refuses = (\<lambda>m. False)\<rparr>
     [OpCreate True True (7 :: int), OpCopy 0, OpAssign 0 1] heap_empty []) \<and>
   relocks (pb_run \<lparr>on_relock = Undefined, os_refuses = (\<lambda>m. False)\<rparr>
     [OpCreate True True (7 :: int), OpCopy 0, OpMoveAssign 0 1] heap_empty []) \<and>
   (case pb_run \<lparr>on_relock = Refuses, os_refuses = (\<lambda>m. False)\<rparr>
      [OpCreate True True (7 :: int), OpCopy 0, OpMoveAssign 0 1] heap_empty [] of
      Fine (h, hs) \<Rightarrow> hs = [\<lparr>pb_obj = Some 1, pb_mtx = Some 0\<rparr>, \<lparr>pb_obj = Some 1, pb_mtx = Some 0\<rparr>]
    | _ \<Rightarrow> False)"
  by code_simp

text \<open>
  The callback of lock runs exactly when the mutex could be taken and the buffer has an
  object, is told that the object is shared exactly when another handle to it is alive, and
  its result is stored in the object that every handle sees; lock reports an error exactly
  when the mutex was refused.
\<close>

theorem lock_sees_shared:
  assumes "pb_run env ops heap_empty [] = Fine (h, hs)" and "p \<in> set hs"
  shows "PB_lock env h p f r0 =
    (case (pb_mtx p, pb_obj p) of
       (Some m, Some i) \<Rightarrow>
         if os_refuses env m then Fine (h, True, r0)
         else let x = fst (the (objs h i)); n = length (filter (\<lambda>q. pb_obj q = Some i) hs);
                  (x', r) = f (n > 1) x
              in Fine (h\<lparr>objs := (objs h)(i := Some (x', n))\<rparr>, False, r)
     | (Some m, None) \<Rightarrow> Fine (h, os_refuses env m, r0)
     | (None, _) \<Rightarrow> Fine (h, False, r0))"
proof -
  have "handles_ok h (mset hs)"
    using pb.run_Fine [of heap_empty "[]" env ops h hs] assms(1) heap_empty_ok by (simp add: pb_run_def)
  moreover have "p \<in># mset hs" using assms(2) by simp
  ultimately show ?thesis
    using PB_lock_spec [of h "mset hs" p env f r0] handle_object_live [of h "mset hs" p]
    by (auto simp: count_handles case_prod_beta Let_def split: option.splits)
qed

definition demo_env :: lock_env where
  "demo_env = \<lparr>on_relock = Undefined, os_refuses = (\<lambda>m. False)\<rparr>"

definition demo_ops :: "int pb_op list" where
  "demo_ops = [OpCreate True True 7, OpCopy 0, OpMove 0, OpCreate True True 8, OpDestroy 3]"

theorem lock_sees_shared_witness:
  "\<exists>h. PB_lock demo_env h \<lparr>pb_obj = Some 1, pb_mtx = Some 0\<rparr> (\<lambda>shared x. ((if shared then x + 1 else x) :: int, shared)) False
     = Fine (h\<lparr>objs := (objs h)(1 := Some (8, 2))\<rparr>, False, True)"
proof -
  let ?p = "\<lparr>pb_obj = Some 1, pb_mtx = Some 0\<rparr>"
  have "case pb_run demo_env demo_ops heap_empty [] of
      Fine (h, hs) \<Rightarrow> hs = [PB_null, ?p, ?p] \<and> fst (the (objs h 1)) = 7 | _ \<Rightarrow> False"
    by code_simp
  then obtain h where r: "pb_run demo_env demo_ops heap_empty [] = Fine (h, [PB_null, ?p, ?p])"
    and x: "fst (the (objs h 1)) = 7"
    by (auto split: exec.splits)
  show ?thesis
    using lock_sees_shared [OF r, of ?p "\<lambda>shared x. (if shared then x + 1 else x, shared)" False] x
    by (intro exI [of _ h]) (simp add: demo_env_def numeral_2_eq_2)
qed

end
