(* ===== verification/Buffers.thy ===== *)
theory Buffers
  imports Exec "HOL-Library.Word"
begin

text \<open>
  The owners of memory of \<^verbatim>\<open>StreamNode.hpp\<close>: \<^verbatim>\<open>UniquePtr\<close> with its deleters, the shared memory
  \<^verbatim>\<open>Descriptor\<close> and its owner \<^verbatim>\<open>SharedBuffer\<close>, and the two payloads built on them, \<^verbatim>\<open>RawBuffer\<close>
  and \<^verbatim>\<open>Tensor\<close>.
\<close>

section \<open>UniquePtr\<close>

text \<open>
  The allocated blocks with the allocator each came from. \<^verbatim>\<open>std::free\<close> takes the blocks of
  \<^verbatim>\<open>std::malloc\<close>, \<open>list_value_deleter\<close> those of the event pool; anything else is undefined.
\<close>

datatype allocator = Malloc | EventPool

datatype deleter = FreePtr | NoFree | ListValueDeleter

record bheap =
  live :: "(nat \<times> allocator) list"
  next_block :: nat

record uptr =
  u_ptr :: "nat option"
  u_del :: "deleter option"

definition new_block :: "allocator \<Rightarrow> bheap \<Rightarrow> bheap \<times> nat" where
  "new_block al h = (h\<lparr>live := (next_block h, al) # live h, next_block := Suc (next_block h)\<rparr>, next_block h)"

fun call_deleter :: "deleter option \<Rightarrow> nat \<Rightarrow> bheap \<Rightarrow> bheap exec" where
  "call_deleter None p h = UB"
| "call_deleter (Some NoFree) p h = Fine h"
| "call_deleter (Some FreePtr) p h =
     (if (p, Malloc) \<in> set (live h) then Fine (h\<lparr>live := remove1 (p, Malloc) (live h)\<rparr>) else UB)"
| "call_deleter (Some ListValueDeleter) p h =
     (if (p, EventPool) \<in> set (live h) then Fine (h\<lparr>live := remove1 (p, EventPool) (live h)\<rparr>) else UB)"

definition UP_null :: uptr where
  "UP_null = \<lparr>u_ptr = None, u_del = None\<rparr>"

text \<open>\<open>ok\<close> says whether \<^verbatim>\<open>malloc\<close> gives a block.\<close>

definition UP_alloc :: "bool \<Rightarrow> bheap \<Rightarrow> bheap \<times> uptr" where
  "UP_alloc ok h =
     (if ok then let (h', p) = new_block Malloc h in (h', \<lparr>u_ptr = Some p, u_del = Some FreePtr\<rparr>)
      else (h, \<lparr>u_ptr = None, u_del = Some FreePtr\<rparr>))"

definition UP_of_ptr :: "bool \<Rightarrow> nat option \<Rightarrow> uptr" where
  "UP_of_ptr is_const p = \<lparr>u_ptr = p, u_del = Some (if is_const then NoFree else FreePtr)\<rparr>"

definition UP_of_ptr_deleter :: "nat option \<Rightarrow> deleter \<Rightarrow> uptr" where
  "UP_of_ptr_deleter p d = \<lparr>u_ptr = p, u_del = Some d\<rparr>"

definition UP_move :: "uptr \<Rightarrow> uptr \<times> uptr" where
  "UP_move other = (\<lparr>u_ptr = u_ptr other, u_del = u_del other\<rparr>, other\<lparr>u_ptr := None, u_del := None\<rparr>)"

definition UP_reset :: "bheap \<Rightarrow> uptr \<Rightarrow> (bheap \<times> uptr) exec" where
  "UP_reset h u =
     (case u_ptr u of
        Some p \<Rightarrow> exec_then (call_deleter (u_del u) p h) (\<lambda>h'. Fine (h', u\<lparr>u_ptr := None\<rparr>))
      | None \<Rightarrow> Fine (h, u))"

definition UP_move_assign :: "bool \<Rightarrow> bheap \<Rightarrow> uptr \<Rightarrow> uptr \<Rightarrow> (bheap \<times> uptr \<times> uptr) exec" where
  "UP_move_assign same h this other =
     (if same then Fine (h, this, other)
      else exec_then (UP_reset h this) (\<lambda>(h', this').
             Fine (h', this'\<lparr>u_ptr := u_ptr other, u_del := u_del other\<rparr>,
                   other\<lparr>u_ptr := None, u_del := None\<rparr>)))"

definition UP_destroy :: "bheap \<Rightarrow> uptr \<Rightarrow> bheap exec" where
  "UP_destroy h u = exec_then (UP_reset h u) (\<lambda>(h', u'). Fine h')"

definition UP_assign_null :: "bheap \<Rightarrow> uptr \<Rightarrow> (bheap \<times> uptr) exec" where
  "UP_assign_null h u = UP_reset h u"

definition UP_get :: "uptr \<Rightarrow> nat option" where
  "UP_get u = u_ptr u"

definition UP_eq_null :: "uptr \<Rightarrow> bool" where
  "UP_eq_null u \<longleftrightarrow> u_ptr u = None"

definition UP_ne_null :: "uptr \<Rightarrow> bool" where
  "UP_ne_null u \<longleftrightarrow> u_ptr u \<noteq> None"

definition UP_bool :: "uptr \<Rightarrow> bool" where
  "UP_bool u \<longleftrightarrow> u_ptr u \<noteq> None"

section \<open>Ownership\<close>

text \<open>
  Programs over a list of unique pointers: the ways the code makes one (an allocation of its
  own, an event list from the pool, a constant of the caller), moves and resets.
\<close>

datatype up_op =
    UpAlloc bool
  | UpListValue bool
  | UpConst nat
  | UpMove nat
  | UpMoveAssign nat nat
  | UpReset nat
  | UpDestroy nat

fun up_operands :: "up_op \<Rightarrow> nat list" where
  "up_operands (UpMove k) = [k]"
| "up_operands (UpMoveAssign k l) = [k, l]"
| "up_operands (UpReset k) = [k]"
| "up_operands (UpDestroy k) = [k]"
| "up_operands a = []"

text \<open>\<^verbatim>\<open>make_new_list_value\<close>; \<open>ok\<close> says whether the pool gives a block.\<close>

definition make_new_list_value :: "bool \<Rightarrow> bheap \<Rightarrow> bheap \<times> uptr" where
  "make_new_list_value ok h =
     (if ok then let (h', p) = new_block EventPool h in (h', UP_of_ptr_deleter (Some p) ListValueDeleter)
      else (h, UP_null))"

fun up_act :: "up_op \<Rightarrow> bheap \<Rightarrow> uptr list \<Rightarrow> (bheap \<times> uptr list) exec" where
  "up_act (UpAlloc ok) h us = (let (h', u) = UP_alloc ok h in Fine (h', us @ [u]))"
| "up_act (UpListValue ok) h us = (let (h', u) = make_new_list_value ok h in Fine (h', us @ [u]))"
| "up_act (UpConst p) h us = Fine (h, us @ [UP_of_ptr True (Some p)])"
| "up_act (UpMove k) h us = (let (u, v) = UP_move (us ! k) in Fine (h, us[k := v] @ [u]))"
| "up_act (UpMoveAssign k l) h us =
     exec_then (UP_move_assign (k = l) h (us ! k) (us ! l)) (\<lambda>(h', u, v). Fine (h', us[k := u, l := v]))"
| "up_act (UpReset k) h us = exec_then (UP_reset h (us ! k)) (\<lambda>(h', u). Fine (h', us[k := u]))"
| "up_act (UpDestroy k) h us =
     exec_then (UP_destroy h (us ! k)) (\<lambda>h'. Fine (h', take k us @ drop (Suc k) us))"

text \<open>The block a pointer has to free.\<close>

definition owned :: "uptr \<Rightarrow> (nat \<times> allocator) list" where
  "owned u =
     (case (u_ptr u, u_del u) of
        (Some p, Some FreePtr) \<Rightarrow> [(p, Malloc)]
      | (Some p, Some ListValueDeleter) \<Rightarrow> [(p, EventPool)]
      | _ \<Rightarrow> [])"

definition owned_all :: "uptr multiset \<Rightarrow> (nat \<times> allocator) multiset" where
  "owned_all M = (\<Sum>u\<in>#M. mset (owned u))"

definition up_ok :: "bheap \<Rightarrow> uptr multiset \<Rightarrow> bool" where
  "up_ok h M \<longleftrightarrow>
     mset (live h) = owned_all M \<and> distinct (map fst (live h)) \<and>
     (\<forall>b\<in>set (live h). fst b < next_block h) \<and> (\<forall>u\<in>#M. u_ptr u = None \<or> u_del u \<noteq> None)"

lemma owned_all_add [simp]: "owned_all (add_mset u M) = mset (owned u) + owned_all M" "owned_all {#} = {#}"
  by (simp_all add: owned_all_def)

lemma owned_null [simp]: "u_ptr u = None \<Longrightarrow> owned u = []"
  by (simp add: owned_def)

lemma up_ok_new:
  assumes ok: "up_ok h M" and n: "new_block al h = (h', p)"
    and u: "owned u = [(p, al)]" "u_ptr u = None \<or> u_del u \<noteq> None"
  shows "up_ok h' (add_mset u M)"
proof -
  have "next_block h \<notin> fst ` set (live h)" using ok by (auto simp: up_ok_def)
  moreover have "\<forall>b\<in>set (live h). fst b < Suc (next_block h)"
    using ok by (simp add: up_ok_def less_Suc_eq)
  moreover from n have "h' = h\<lparr>live := (next_block h, al) # live h, next_block := Suc (next_block h)\<rparr>" "p = next_block h"
    by (auto simp: new_block_def)
  ultimately show ?thesis using ok u by (simp add: up_ok_def)
qed

lemma up_ok_ownerless:
  "up_ok h M \<Longrightarrow> owned u = [] \<Longrightarrow> u_ptr u = None \<or> u_del u \<noteq> None \<Longrightarrow> up_ok h (add_mset u M)"
  by (auto simp: up_ok_def)

lemma distinct_remove1: "distinct (map f xs) \<Longrightarrow> distinct (map f (remove1 x xs))"
  by (induction xs) (auto, metis image_eqI notin_set_remove1)

lemma UP_reset_ok:
  assumes ok: "up_ok h (add_mset u M)"
  shows "\<exists>h'. UP_reset h u = Fine (h', u\<lparr>u_ptr := None\<rparr>) \<and> up_ok h' M"
proof (cases "owned u")
  case Nil
  with ok have ok': "up_ok h M" by (auto simp: up_ok_def)
  show ?thesis
  proof (cases "u_ptr u")
    case None
    with ok' show ?thesis by (cases u) (simp add: UP_reset_def)
  next
    case (Some p)
    with ok Nil have "u_del u = Some NoFree"
      by (auto simp: up_ok_def owned_def split: option.splits deleter.splits)
    with Some ok' show ?thesis by (simp add: UP_reset_def)
  qed
next
  case (Cons b bs)
  then obtain p al where b: "owned u = [(p, al)]" "u_ptr u = Some p"
      and d: "u_del u = Some (case al of Malloc \<Rightarrow> FreePtr | EventPool \<Rightarrow> ListValueDeleter)"
    by (auto simp: owned_def split: option.splits deleter.splits)
  from ok b have l: "mset (live h) = add_mset (p, al) (owned_all M)" by (simp add: up_ok_def)
  then have "(p, al) \<in> set (live h)" by (metis set_mset_mset union_single_eq_member)
  then have "UP_reset h u = Fine (h\<lparr>live := remove1 (p, al) (live h)\<rparr>, u\<lparr>u_ptr := None\<rparr>)"
    using b d by (cases al) (simp_all add: UP_reset_def)
  moreover have "up_ok (h\<lparr>live := remove1 (p, al) (live h)\<rparr>) M"
    using ok l distinct_remove1 [of fst "live h"] by (auto simp: up_ok_def dest: notin_set_remove1)
  ultimately show ?thesis by blast
qed

lemma UP_move_ok:
  "up_ok h (add_mset u M) \<Longrightarrow> UP_move u = (a, b) \<Longrightarrow> up_ok h (add_mset a (add_mset b M))"
  by (cases u) (auto simp: up_ok_def UP_move_def)

lemma UP_move_assign_ok:
  assumes ok: "up_ok h (add_mset this (add_mset other M))"
  shows "\<exists>h' u v. UP_move_assign False h this other = Fine (h', u, v) \<and> up_ok h' (add_mset u (add_mset v M))"
proof -
  obtain h' where r: "UP_reset h this = Fine (h', this\<lparr>u_ptr := None\<rparr>)" and ok': "up_ok h' (add_mset other M)"
    using UP_reset_ok [OF ok] by blast
  have taken: "this\<lparr>u_ptr := None\<rparr>\<lparr>u_ptr := u_ptr other, u_del := u_del other\<rparr> = other" by simp
  have "up_ok h' (add_mset other (add_mset (other\<lparr>u_ptr := None, u_del := None\<rparr>) M))"
    using ok' by (auto simp: up_ok_def)
  with r show ?thesis by (simp only: UP_move_assign_def if_False exec_then.simps prod.case taken) auto
qed

lemma up_act_ok:
  assumes ok: "up_ok h (mset us)" and k: "\<forall>k\<in>set (up_operands a). k < length us"
  shows "\<exists>h' us'. up_act a h us = Fine (h', us') \<and> up_ok h' (mset us')"
proof (cases a)
  case (UpAlloc b)
  show ?thesis
  proof (cases b)
    case True
    obtain h' p where n: "new_block Malloc h = (h', p)" by fastforce
    with up_ok_new [OF ok n, of "\<lparr>u_ptr = Some p, u_del = Some FreePtr\<rparr>"] UpAlloc True show ?thesis
      by (simp add: UP_alloc_def owned_def)
  next
    case False
    with up_ok_ownerless [OF ok] UpAlloc show ?thesis by (simp add: UP_alloc_def)
  qed
next
  case (UpListValue b)
  show ?thesis
  proof (cases b)
    case True
    obtain h' p where n: "new_block EventPool h = (h', p)" by fastforce
    with up_ok_new [OF ok n, of "UP_of_ptr_deleter (Some p) ListValueDeleter"] UpListValue True show ?thesis
      by (simp add: make_new_list_value_def UP_of_ptr_deleter_def owned_def)
  next
    case False
    with up_ok_ownerless [OF ok, of UP_null] UpListValue show ?thesis
      by (simp add: make_new_list_value_def UP_null_def)
  qed
next
  case (UpConst p)
  with up_ok_ownerless [OF ok, of "UP_of_ptr True (Some p)"] show ?thesis
    by (simp add: UP_of_ptr_def owned_def)
next
  case (UpMove k)
  then obtain R where R: "mset us = add_mset (us ! k) R" "\<And>a. mset (us[k := a]) = add_mset a R"
    using k mset_split1 [of k us] by auto
  obtain u v where m: "UP_move (us ! k) = (u, v)" by fastforce
  from UP_move_ok [OF _ m, of h R] ok R UpMove m show ?thesis by simp
next
  case (UpMoveAssign k l)
  show ?thesis
  proof (cases "k = l")
    case True
    with UpMoveAssign ok show ?thesis by (simp add: UP_move_assign_def)
  next
    case False
    then obtain R where R: "mset us = add_mset (us ! k) (add_mset (us ! l) R)"
        "\<And>a b. mset (us[k := a, l := b]) = add_mset a (add_mset b R)"
      using UpMoveAssign k mset_split2 [of k us l] by auto
    with UP_move_assign_ok [of h "us ! k" "us ! l" R] ok UpMoveAssign False show ?thesis by auto
  qed
next
  case (UpReset k)
  then obtain R where R: "mset us = add_mset (us ! k) R" "\<And>a. mset (us[k := a]) = add_mset a R"
    using k mset_split1 [of k us] by auto
  from UP_reset_ok [of h "us ! k" R] up_ok_ownerless ok R UpReset show ?thesis by fastforce
next
  case (UpDestroy k)
  then obtain R where R: "mset us = add_mset (us ! k) R" "mset (take k us @ drop (Suc k) us) = R"
    using k mset_split1 [of k us] by auto
  from UP_reset_ok [of h "us ! k" R] ok R UpDestroy show ?thesis by (auto simp: UP_destroy_def)
qed

interpretation up: handle_ops up_act up_operands "\<lambda>h us. up_ok h (mset us)" "\<lambda>a h us r. False"
  using up_act_ok by unfold_locales blast

definition bheap_empty :: bheap where
  "bheap_empty = \<lparr>live = [], next_block = 0\<rparr>"

section \<open>Descriptor\<close>

text \<open>
  The memory server and the concrete descriptors belong to the application. A server is the
  answers its functions give; what the framework calls is kept in the traces of the callers.
  A descriptor has the address it is mapped at, its size, its identifier in the server and the
  value of its \<^verbatim>\<open>operator bool\<close>.
\<close>

record descriptor =
  ds_data :: "nat option"
  ds_size :: u64
  ds_global_id :: "32 word"
  ds_valid :: bool

record mem_server =
  ms_lock :: "32 word \<Rightarrow> int"
  ms_unlock :: "32 word \<Rightarrow> int"
  ms_read_lock :: "32 word \<Rightarrow> int"
  ms_read_unlock :: "32 word \<Rightarrow> int"
  ms_refcount :: "32 word \<Rightarrow> int"
  ms_get_buffer :: "32 word \<Rightarrow> descriptor option"

text \<open>Calling a member of the server through the global pointer.\<close>

definition server_call :: "mem_server option \<Rightarrow> (mem_server \<Rightarrow> 'a) \<Rightarrow> 'a exec" where
  "server_call ms f = (case ms of None \<Rightarrow> UB | Some s \<Rightarrow> Fine (f s))"

definition Descriptor_new :: "u64 \<Rightarrow> 32 word \<Rightarrow> bool \<Rightarrow> descriptor" where
  "Descriptor_new sz global_id valid =
     \<lparr>ds_data = None, ds_size = sz, ds_global_id = global_id, ds_valid = valid\<rparr>"

definition Descriptor_bytes :: "descriptor \<Rightarrow> u64" where
  "Descriptor_bytes d = ds_size d"

definition Descriptor_data :: "descriptor \<Rightarrow> nat option" where
  "Descriptor_data d = ds_data d"

definition Descriptor_global_id :: "descriptor \<Rightarrow> 32 word" where
  "Descriptor_global_id d = ds_global_id d"

definition Descriptor_lock :: "mem_server option \<Rightarrow> descriptor \<Rightarrow> int exec" where
  "Descriptor_lock ms d =
     (if ms \<noteq> None then Fine (- 1)
      else if ds_global_id d = - 1 then Fine (- 1)
      else server_call ms (\<lambda>s. ms_lock s (ds_global_id d)))"

definition Descriptor_read_lock :: "mem_server option \<Rightarrow> descriptor \<Rightarrow> int exec" where
  "Descriptor_read_lock ms d =
     (if ms \<noteq> None then Fine (- 1)
      else if ds_global_id d = - 1 then Fine (- 1)
      else server_call ms (\<lambda>s. ms_read_lock s (ds_global_id d)))"

definition Descriptor_unlock :: "mem_server option \<Rightarrow> descriptor \<Rightarrow> int exec" where
  "Descriptor_unlock ms d =
     (if ms \<noteq> None then Fine (- 1)
      else if ds_global_id d = - 1 then Fine (- 1)
      else server_call ms (\<lambda>s. ms_unlock s (ds_global_id d)))"

definition Descriptor_read_unlock :: "mem_server option \<Rightarrow> descriptor \<Rightarrow> int exec" where
  "Descriptor_read_unlock ms d =
     (if ms \<noteq> None then Fine (- 1)
      else if ds_global_id d = - 1 then Fine (- 1)
      else server_call ms (\<lambda>s. ms_read_unlock s (ds_global_id d)))"

definition Descriptor_refcount :: "mem_server option \<Rightarrow> descriptor \<Rightarrow> int exec" where
  "Descriptor_refcount ms d =
     (if ms \<noteq> None then Fine (- 1)
      else if ds_global_id d = - 1 then Fine (- 1)
      else server_call ms (\<lambda>s. ms_refcount s (ds_global_id d)))"

section \<open>SharedBuffer\<close>

text \<open>
  A \<^verbatim>\<open>SharedBuffer\<close> is the pointer to its descriptor, looked up among the allocated ones.
  Mapping is the application's: \<open>map_at i\<close> is the address descriptor \<open>i\<close> gets mapped at.
\<close>

type_synonym descs = "nat \<Rightarrow> descriptor option"

type_synonym shbuf = "nat option"

definition deref :: "descs \<Rightarrow> shbuf \<Rightarrow> descriptor exec" where
  "deref ds b = (case b of None \<Rightarrow> UB | Some i \<Rightarrow> (case ds i of None \<Rightarrow> UB | Some d \<Rightarrow> Fine d))"

definition SB_new :: "nat option \<Rightarrow> shbuf" where
  "SB_new fd = fd"

definition SB_move :: "shbuf \<Rightarrow> shbuf \<times> shbuf" where
  "SB_move other = (other, None)"

definition SB_move_assign :: "bool \<Rightarrow> shbuf \<Rightarrow> shbuf \<Rightarrow> shbuf \<times> shbuf" where
  "SB_move_assign same this other = (if \<not> same then (other, None) else (this, other))"

definition SB_destroy :: "descs \<Rightarrow> shbuf \<Rightarrow> descs exec" where
  "SB_destroy ds b =
     (case b of None \<Rightarrow> Fine ds | Some i \<Rightarrow> (case ds i of None \<Rightarrow> UB | Some d \<Rightarrow> Fine (ds(i := None))))"

definition SB_eq_null :: "descs \<Rightarrow> shbuf \<Rightarrow> bool exec" where
  "SB_eq_null ds b = exec_then (deref ds b) (\<lambda>d. Fine (ds_data d = None))"

definition SB_ne_null :: "descs \<Rightarrow> shbuf \<Rightarrow> bool exec" where
  "SB_ne_null ds b = exec_then (deref ds b) (\<lambda>d. Fine (ds_data d \<noteq> None))"

definition SB_bool :: "descs \<Rightarrow> shbuf \<Rightarrow> bool exec" where
  "SB_bool ds b = exec_then (deref ds b) (\<lambda>d. Fine (ds_data d \<noteq> None))"

definition SB_get :: "descs \<Rightarrow> shbuf \<Rightarrow> nat option exec" where
  "SB_get ds b = exec_then (deref ds b) (\<lambda>d. Fine (Descriptor_data d))"

definition SB_bytes :: "descs \<Rightarrow> shbuf \<Rightarrow> u64 exec" where
  "SB_bytes ds b = exec_then (deref ds b) (\<lambda>d. Fine (Descriptor_bytes d))"

definition SB_validFd :: "descs \<Rightarrow> shbuf \<Rightarrow> bool exec" where
  "SB_validFd ds b = (if b \<noteq> None then exec_then (deref ds b) (\<lambda>d. Fine (ds_valid d)) else Fine False)"

definition SB_mapBuffer :: "(nat \<Rightarrow> nat option) \<Rightarrow> descs \<Rightarrow> shbuf \<Rightarrow> descs exec" where
  "SB_mapBuffer map_at ds b =
     exec_then (deref ds b) (\<lambda>d. Fine (ds(the b := Some (d\<lparr>ds_data := map_at (the b)\<rparr>))))"

definition SB_process_lock :: "mem_server option \<Rightarrow> descs \<Rightarrow> shbuf \<Rightarrow> int exec" where
  "SB_process_lock ms ds b = (if b \<noteq> None then exec_then (deref ds b) (Descriptor_lock ms) else Fine (- 1))"

definition SB_process_read_lock :: "mem_server option \<Rightarrow> descs \<Rightarrow> shbuf \<Rightarrow> int exec" where
  "SB_process_read_lock ms ds b =
     (if b \<noteq> None then exec_then (deref ds b) (Descriptor_read_lock ms) else Fine (- 1))"

definition SB_process_unlock :: "mem_server option \<Rightarrow> descs \<Rightarrow> shbuf \<Rightarrow> int exec" where
  "SB_process_unlock ms ds b = (if b \<noteq> None then exec_then (deref ds b) (Descriptor_unlock ms) else Fine (- 1))"

definition SB_process_read_unlock :: "mem_server option \<Rightarrow> descs \<Rightarrow> shbuf \<Rightarrow> int exec" where
  "SB_process_read_unlock ms ds b =
     (if b \<noteq> None then exec_then (deref ds b) (Descriptor_read_unlock ms) else Fine (- 1))"

definition SB_process_refcount :: "mem_server option \<Rightarrow> descs \<Rightarrow> shbuf \<Rightarrow> int exec" where
  "SB_process_refcount ms ds b =
     (if b \<noteq> None then exec_then (deref ds b) (Descriptor_refcount ms) else Fine (- 1))"

section \<open>RawBuffer\<close>

text \<open>
  The variant both payloads hold. The memory a \<^verbatim>\<open>UniquePtr\<close> owns appears as its bytes,
  \<open>None\<close> for the null pointer. A variant whose \<^verbatim>\<open>SharedBuffer\<close> was moved out holds \<open>Shm None\<close>.
\<close>

datatype payload = Owned "u8 list option" | Shm shbuf

fun moved_payload :: "payload \<Rightarrow> payload" where
  "moved_payload (Owned b) = Owned None"
| "moved_payload (Shm b) = Shm None"

record raw_buffer =
  buf_size :: u32
  rb_data :: payload

definition RawBuffer_new :: "u32 \<Rightarrow> u8 list option \<Rightarrow> raw_buffer" where
  "RawBuffer_new sz buf_data = \<lparr>buf_size = (if buf_data = None then 0 else sz), rb_data = Owned buf_data\<rparr>"

definition RawBuffer_new_shared :: "descs \<Rightarrow> shbuf \<Rightarrow> raw_buffer exec" where
  "RawBuffer_new_shared ds b =
     exec_then (SB_bytes ds b) (\<lambda>n. Fine \<lparr>buf_size = ucast n, rb_data = Shm b\<rparr>)"

definition RawBuffer_move :: "raw_buffer \<Rightarrow> raw_buffer \<times> raw_buffer" where
  "RawBuffer_move other =
     (\<lparr>buf_size = buf_size other, rb_data = rb_data other\<rparr>,
      other\<lparr>buf_size := 0, rb_data := moved_payload (rb_data other)\<rparr>)"

definition RawBuffer_move_assign :: "bool \<Rightarrow> raw_buffer \<Rightarrow> raw_buffer \<Rightarrow> raw_buffer \<times> raw_buffer" where
  "RawBuffer_move_assign same this other =
     (if same then (this, other)
      else (this\<lparr>buf_size := buf_size other, rb_data := rb_data other\<rparr>,
            other\<lparr>buf_size := 0, rb_data := moved_payload (rb_data other)\<rparr>))"

text \<open>What \<^verbatim>\<open>buffer()\<close> returns: the owned bytes, or the address after mapping the descriptor.\<close>

datatype buffer_ptr = OwnedBytes "u8 list option" | MappedAt "nat option"

definition payload_buffer :: "(nat \<Rightarrow> nat option) \<Rightarrow> descs \<Rightarrow> payload \<Rightarrow> (descs \<times> buffer_ptr) exec" where
  "payload_buffer map_at ds p =
     (case p of
        Owned b \<Rightarrow> Fine (ds, OwnedBytes b)
      | Shm b \<Rightarrow>
          exec_then (SB_mapBuffer map_at ds b) (\<lambda>ds'.
            exec_then (SB_get ds' b) (\<lambda>a. Fine (ds', MappedAt a))))"

definition RawBuffer_buffer :: "(nat \<Rightarrow> nat option) \<Rightarrow> descs \<Rightarrow> raw_buffer \<Rightarrow> (descs \<times> buffer_ptr) exec" where
  "RawBuffer_buffer map_at ds r = payload_buffer map_at ds (rb_data r)"

section \<open>Tensor\<close>

text \<open>\<open>max_dims\<close> is \<^verbatim>\<open>CG_TENSOR_NB_DIMS\<close>, the length of the array of dimensions.\<close>

record tensor =
  nb_dims :: u8
  dims :: "u32 list"
  t_data :: payload

definition Tensor_new_1d :: "nat \<Rightarrow> u32 \<Rightarrow> u8 list option \<Rightarrow> tensor" where
  "Tensor_new_1d max_dims dimensions tensor_data =
     \<lparr>nb_dims = (if tensor_data = None then 0 else 1),
      dims = dimensions # replicate (max_dims - 1) 0, t_data = Owned tensor_data\<rparr>"

definition Tensor_new :: "u8 \<Rightarrow> u32 list \<Rightarrow> u8 list option \<Rightarrow> tensor" where
  "Tensor_new dimensions dimensions_array tensor_data =
     \<lparr>nb_dims = (if tensor_data = None then 0 else dimensions),
      dims = dimensions_array, t_data = Owned tensor_data\<rparr>"

definition Tensor_new_shared :: "descs \<Rightarrow> u8 \<Rightarrow> u32 list \<Rightarrow> shbuf \<Rightarrow> tensor exec" where
  "Tensor_new_shared ds dimensions dimensions_array tensor_data =
     exec_then (SB_eq_null ds tensor_data) (\<lambda>null.
       Fine \<lparr>nb_dims = (if null then 0 else dimensions), dims = dimensions_array, t_data = Shm tensor_data\<rparr>)"

definition Tensor_move :: "tensor \<Rightarrow> tensor \<times> tensor" where
  "Tensor_move other =
     (\<lparr>nb_dims = nb_dims other, dims = dims other, t_data = t_data other\<rparr>,
      other\<lparr>nb_dims := 0, t_data := moved_payload (t_data other)\<rparr>)"

definition Tensor_move_assign :: "bool \<Rightarrow> tensor \<Rightarrow> tensor \<Rightarrow> tensor \<times> tensor" where
  "Tensor_move_assign same this other =
     (if same then (this, other)
      else (this\<lparr>nb_dims := nb_dims other, dims := dims other, t_data := t_data other\<rparr>,
            other\<lparr>nb_dims := 0, t_data := moved_payload (t_data other)\<rparr>))"

definition Tensor_buffer :: "(nat \<Rightarrow> nat option) \<Rightarrow> descs \<Rightarrow> tensor \<Rightarrow> (descs \<times> buffer_ptr) exec" where
  "Tensor_buffer map_at ds t = payload_buffer map_at ds (t_data t)"

text \<open>The loop over the dimensions; reading past the end of the array is undefined.\<close>

fun tensor_size_loop :: "u32 list \<Rightarrow> nat \<Rightarrow> nat \<Rightarrow> u32 \<Rightarrow> u32 exec" where
  "tensor_size_loop ds i 0 total_size = Fine total_size"
| "tensor_size_loop ds i (Suc left) total_size =
     (if i < length ds then tensor_size_loop ds (Suc i) left (total_size * ds ! i) else UB)"

definition Tensor_size :: "tensor \<Rightarrow> u32 exec" where
  "Tensor_size t =
     (if nb_dims t = 0 then Fine 0 else tensor_size_loop (dims t) 0 (unat (nb_dims t)) 1)"

lemma tensor_size_loop_prod:
  "tensor_size_loop ds i n tot =
   (if i + n \<le> length ds \<or> n = 0 then Fine (tot * prod_list (take n (drop i ds))) else UB)"
proof (induction n arbitrary: i tot)
  case (Suc n)
  show ?case
  proof (cases "i < length ds")
    case True
    then have "drop i ds = ds ! i # drop (Suc i) ds" by (simp add: Cons_nth_drop_Suc)
    with True Suc.IH show ?thesis by (cases n) (auto simp: mult.assoc)
  qed simp
qed simp

lemma word_prod_list: "unat (prod_list (xs :: u32 list)) = prod_list (map unat xs) mod 2 ^ 32"
proof (induction xs)
  case (Cons x xs)
  then show ?case by (simp add: unat_word_ariths mod_mult_right_eq)
qed (simp add: unat_word_ariths)

section \<open>Properties\<close>

text \<open>
  C20. Unique pointers own: after any sequence of allocations, moves, assignments, resets and
  destructions no block is freed twice or with the deleter of another allocator, and the
  blocks still allocated are exactly those the pointers left own, each owned once.
\<close>

theorem unique_pointers_own:
  "case run_ops up_act up_operands ops bheap_empty [] of
     Fine (h, us) \<Rightarrow> mset (live h) = mset (concat (map owned us)) \<and> distinct (map fst (live h))
   | Relock \<Rightarrow> False
   | UB \<Rightarrow> False"
proof -
  have "up_ok bheap_empty (mset [])" by (simp add: up_ok_def bheap_empty_def)
  from up.run_ok [OF this, of ops] obtain h us
    where r: "run_ops up_act up_operands ops bheap_empty [] = Fine (h, us)" and ok: "up_ok h (mset us)"
    by blast
  have "owned_all (mset us) = mset (concat (map owned us))" by (induction us) simp_all
  with r ok show ?thesis by (simp add: up_ok_def)
qed

text \<open>
  The inter-process lock of a descriptor never reaches the memory server: with a server
  installed every lock function and the reference count give the error -1, and without one
  they call through the null pointer once the identifier is set.
\<close>

theorem descriptor_lock_inverted:
  "Descriptor_lock (Some s) d = Fine (- 1) \<and> Descriptor_read_lock (Some s) d = Fine (- 1) \<and>
   Descriptor_unlock (Some s) d = Fine (- 1) \<and> Descriptor_read_unlock (Some s) d = Fine (- 1) \<and>
   Descriptor_refcount (Some s) d = Fine (- 1) \<and>
   undefined_call (Descriptor_lock None (Descriptor_new 64 3 True)) \<and>
   undefined_call (Descriptor_refcount None (Descriptor_new 64 3 True))"
  by (simp add: Descriptor_lock_def Descriptor_read_lock_def Descriptor_unlock_def
      Descriptor_read_unlock_def Descriptor_refcount_def server_call_def Descriptor_new_def undefined_call_def)

text \<open>
  The size of a tensor: the product of its first \<open>nb_dims\<close> dimensions modulo 2 to the 32
  (so the product itself when that fits), 0 when there are none, and undefined exactly when
  \<open>nb_dims\<close> exceeds the length of the array.
\<close>

theorem tensor_size_product:
  "Tensor_size t =
     (if unat (nb_dims t) \<le> length (dims t)
      then Fine (if nb_dims t = 0 then 0
                 else of_nat (prod_list (map unat (take (unat (nb_dims t)) (dims t))) mod 2 ^ 32))
      else UB)"
proof (cases "nb_dims t = 0")
  case False
  then have "unat (nb_dims t) \<noteq> 0" by (simp add: unat_eq_zero)
  moreover have "of_nat (unat w) = w" for w :: u32 by simp
  then have "prod_list xs = of_nat (prod_list (map unat xs) mod 2 ^ 32)" for xs :: "u32 list"
    by (metis word_prod_list)
  ultimately show ?thesis using False
    by (simp add: Tensor_size_def tensor_size_loop_prod)
qed (simp add: Tensor_size_def)

text \<open>
  Moving a shared buffer into one that already owns a descriptor loses the old descriptor:
  when both handles are gone it is still allocated, while the other one is deleted.
\<close>

theorem shared_buffer_assign_leaks:
  assumes "i \<noteq> j" and "ds i = Some d" and "ds j = Some e"
  shows "case SB_move_assign False (Some i) (Some j) of (a, b) \<Rightarrow>
    exec_then (SB_destroy ds a) (\<lambda>ds'. SB_destroy ds' b) = Fine (ds(j := None)) \<and> (ds(j := None)) i = Some d"
  using assms by (simp add: SB_move_assign_def SB_destroy_def)

theorem shared_buffer_assign_leaks_witness:
  "case SB_move_assign False (Some 2) (Some 3) of (a, b) \<Rightarrow>
    exec_then (SB_destroy (\<lambda>i. Some (Descriptor_new 8 5 True)) a) (\<lambda>ds'. SB_destroy ds' b) =
      Fine ((\<lambda>i. Some (Descriptor_new 8 5 True))(3 := None)) \<and>
    ((\<lambda>i. Some (Descriptor_new 8 5 True))(3 := None)) (2 :: nat) = Some (Descriptor_new 8 5 True)"
  using shared_buffer_assign_leaks [of 2 3 "\<lambda>i. Some (Descriptor_new 8 5 True)"] by simp

text \<open>
  A tensor built on a shared buffer whose descriptor is not mapped yet has no dimensions
  and size 0, although the buffer is valid; a raw buffer built on the same one keeps its size.
\<close>

theorem unmapped_tensor_is_empty:
  assumes "ds i = Some (Descriptor_new n g True)"
  shows "exec_then (Tensor_new_shared ds k extents (Some i)) Tensor_size = Fine 0 \<and>
    exec_then (RawBuffer_new_shared ds (Some i)) (\<lambda>r. Fine (buf_size r)) = Fine (ucast n)"
  using assms
  by (simp add: Tensor_new_shared_def SB_eq_null_def deref_def Descriptor_new_def Tensor_size_def
      RawBuffer_new_shared_def SB_bytes_def Descriptor_bytes_def)

theorem unmapped_tensor_is_empty_witness:
  "exec_then (Tensor_new_shared (\<lambda>i. Some (Descriptor_new 8 5 True)) 1 [8, 0, 0] (Some 0)) Tensor_size = Fine 0 \<and>
   exec_then (RawBuffer_new_shared (\<lambda>i. Some (Descriptor_new 8 5 True)) (Some 0)) (\<lambda>r. Fine (buf_size r)) = Fine 8"
  using unmapped_tensor_is_empty [of "\<lambda>i. Some (Descriptor_new 8 5 True)" 0 8 5 1 "[8, 0, 0]"] by simp

end
