(* ===== verification/Floats.thy ===== *)
theory Floats
  imports Complex_Main Prelude "HOL-Library.Word"
begin

text \<open>
  The conversions to \<^verbatim>\<open>float\<close> and \<^verbatim>\<open>double\<close> the C++ code asks for with \<^verbatim>\<open>static_cast\<close>, on the
  IEEE 754 bit patterns (round to nearest, ties to even), and when they are exact.
\<close>

section \<open>Rounding an integer to a precision\<close>

fun bit_length :: "nat \<Rightarrow> nat" where
  "bit_length n = (if n = 0 then 0 else Suc (bit_length (n div 2)))"

declare bit_length.simps [simp del]

text \<open>
  A positive \<open>n\<close> as \<open>m * 2 ^ (e - (prec - 1))\<close> with \<open>2 ^ (prec - 1) \<le> m < 2 ^ prec\<close>: the
  pair \<open>(m, e)\<close>, rounded when \<open>n\<close> has more than \<open>prec\<close> bits.
\<close>

definition round_nat :: "nat \<Rightarrow> nat \<Rightarrow> nat \<times> nat" where
  "round_nat prec n =
     (let len = bit_length n
      in if len \<le> prec then (n * 2 ^ (prec - len), len - 1)
         else let s = len - prec; q = n div 2 ^ s; r = n mod 2 ^ s; half = 2 ^ (s - 1);
                  q' = (if r > half \<or> (r = half \<and> odd q) then q + 1 else q)
              in if q' = 2 ^ prec then (2 ^ (prec - 1), len) else (q', len - 1))"

text \<open>The bit pattern of an integer: \<open>prec\<close> includes the hidden bit, \<open>ebits\<close> are the exponent's.\<close>

definition float_pattern :: "nat \<Rightarrow> nat \<Rightarrow> int \<Rightarrow> nat" where
  "float_pattern prec ebits k =
     (if k = 0 then 0
      else let (m, e) = round_nat prec (nat \<bar>k\<bar>); bias = 2 ^ (ebits - 1) - 1
           in (if k < 0 then 2 ^ (prec - 1 + ebits) else 0) + (e + bias) * 2 ^ (prec - 1) + (m - 2 ^ (prec - 1)))"

definition float_of_int32 :: "32 word \<Rightarrow> 32 word" where
  "float_of_int32 w = of_nat (float_pattern 24 8 (sint w))"

definition double_of_int64 :: "64 word \<Rightarrow> 64 word" where
  "double_of_int64 w = of_nat (float_pattern 53 11 (sint w))"

text \<open>Widening a \<^verbatim>\<open>float\<close>: infinities, not-a-numbers (made quiet), zeros, subnormal and normal numbers.\<close>

definition double_of_float :: "32 word \<Rightarrow> 64 word" where
  "double_of_float w =
     (let b = unat w; s = b div 2 ^ 31; e = (b div 2 ^ 23) mod 2 ^ 8; f = b mod 2 ^ 23;
          len = bit_length f
      in of_nat (s * 2 ^ 63 +
           (if e = 255 then 2047 * 2 ^ 52 + (if f = 0 then 0 else (if f < 2 ^ 22 then f + 2 ^ 22 else f) * 2 ^ 29)
            else if e = 0 then
              (if f = 0 then 0 else (len + 873) * 2 ^ 52 + (f * 2 ^ (53 - len) - 2 ^ 52))
            else (e + 896) * 2 ^ 52 + f * 2 ^ 29)))"

section \<open>Values\<close>

text \<open>The number a finite pattern stands for.\<close>

definition float_value :: "nat \<Rightarrow> nat \<Rightarrow> nat \<Rightarrow> real" where
  "float_value prec ebits b =
     (let s = b div 2 ^ (prec - 1 + ebits); e = (b div 2 ^ (prec - 1)) mod 2 ^ ebits; f = b mod 2 ^ (prec - 1);
          bias = 2 ^ (ebits - 1) - 1
      in (if s = 1 then -1 else 1) *
         (if e = 0 then real f / 2 ^ (bias - 1 + (prec - 1))
          else real (f + 2 ^ (prec - 1)) * 2 ^ e / 2 ^ (bias + (prec - 1))))"

definition float32_value :: "32 word \<Rightarrow> real" where
  "float32_value w = float_value 24 8 (unat w)"

definition float64_value :: "64 word \<Rightarrow> real" where
  "float64_value w = float_value 53 11 (unat w)"

lemma bit_length_bounds: "0 < n \<Longrightarrow> 0 < bit_length n \<and> 2 ^ (bit_length n - 1) \<le> n \<and> n < 2 ^ bit_length n"
proof (induction n rule: bit_length.induct)
  case (1 n)
  show ?case
  proof (cases "n div 2 = 0")
    case True
    with 1(2) have "n = 1" by simp
    then show ?thesis by (simp add: bit_length.simps)
  next
    case False
    then obtain k where k: "bit_length (n div 2) = Suc k" using 1 by (cases "bit_length (n div 2)") auto
    with 1 False have "2 ^ k \<le> n div 2" "n div 2 < 2 ^ Suc k" by auto
    then have "2 ^ Suc k \<le> n" "n < 2 ^ Suc (Suc k)" by (auto simp: power_Suc)
    with k 1(2) show ?thesis by (simp add: bit_length.simps [of n])
  qed
qed

lemma bit_length_le: "n < 2 ^ p \<Longrightarrow> bit_length n \<le> p"
proof (cases "n = 0")
  case False
  assume "n < 2 ^ p"
  with bit_length_bounds [of n] False have "(2 :: nat) ^ (bit_length n - 1) < 2 ^ p" by linarith
  then have "bit_length n - 1 < p" by simp
  then show ?thesis by simp
qed (simp add: bit_length.simps)

lemma bit_length_eq: "2 ^ k \<le> n \<Longrightarrow> n < 2 ^ Suc k \<Longrightarrow> bit_length n = Suc k"
proof -
  assume n: "2 ^ k \<le> n" "n < 2 ^ Suc k"
  then have "0 < n" by (metis gr0I le_zero_eq power_not_zero zero_neq_numeral)
  from bit_length_bounds [OF this] have b: "0 < bit_length n" "2 ^ (bit_length n - 1) \<le> n" "n < 2 ^ bit_length n"
    by simp_all
  have "(2 :: nat) ^ k < 2 ^ bit_length n" "(2 :: nat) ^ (bit_length n - 1) < 2 ^ Suc k"
    using n b by linarith+
  then have "k < bit_length n" "bit_length n - 1 < Suc k" by (simp_all only: power_strict_increasing_iff)
  with b(1) show ?thesis by linarith
qed

text \<open>Below the precision nothing is rounded.\<close>

lemma round_nat_exact:
  assumes "0 < n" and "n < 2 ^ prec" and "0 < prec"
  shows "\<exists>m e. round_nat prec n = (m, e) \<and> 2 ^ (prec - 1) \<le> m \<and> m < 2 ^ prec \<and> e < prec \<and>
    m * 2 ^ e = n * 2 ^ (prec - 1)"
proof -
  let ?l = "bit_length n"
  have l: "?l \<le> prec" "0 < ?l" "2 ^ (?l - 1) \<le> n" "n < 2 ^ ?l"
    using bit_length_le [OF assms(2)] bit_length_bounds [OF assms(1)] by auto
  have "prec - 1 = (?l - 1) + (prec - ?l)" using l by simp
  then have "2 ^ (prec - 1) = 2 ^ (?l - 1) * (2 :: nat) ^ (prec - ?l)" by (simp only: power_add)
  then have lo: "2 ^ (prec - 1) \<le> n * 2 ^ (prec - ?l)" using l(3) by simp
  have "2 ^ prec = 2 ^ ?l * (2 :: nat) ^ (prec - ?l)" using l(1) by (simp flip: power_add)
  then have hi: "n * 2 ^ (prec - ?l) < 2 ^ prec" using l(4) by simp
  have "n * 2 ^ (prec - ?l) * 2 ^ (?l - 1) = n * 2 ^ (prec - 1)"
    using \<open>prec - 1 = (?l - 1) + (prec - ?l)\<close> by (simp add: power_add mult.assoc mult.commute)
  with lo hi l show ?thesis
    by (intro exI [of _ "n * 2 ^ (prec - ?l)"] exI [of _ "?l - 1"]) (auto simp: round_nat_def Let_def)
qed

text \<open>Taking the three fields of a pattern apart.\<close>

lemma fields:
  fixes s E F :: nat
  assumes "F < 2 ^ p" and "E < 2 ^ q"
  shows "(s * 2 ^ (p + q) + E * 2 ^ p + F) div 2 ^ (p + q) = s"
    and "(s * 2 ^ (p + q) + E * 2 ^ p + F) div 2 ^ p mod 2 ^ q = E"
    and "(s * 2 ^ (p + q) + E * 2 ^ p + F) mod 2 ^ p = F"
proof -
  have pq: "s * 2 ^ (p + q) + E * 2 ^ p + F = (s * 2 ^ q + E) * 2 ^ p + F"
    by (simp add: power_add algebra_simps)
  have d: "(s * 2 ^ (p + q) + E * 2 ^ p + F) div 2 ^ p = s * 2 ^ q + E"
    unfolding pq using assms(1) by simp
  then show "(s * 2 ^ (p + q) + E * 2 ^ p + F) div 2 ^ p mod 2 ^ q = E" using assms(2) by simp
  show "(s * 2 ^ (p + q) + E * 2 ^ p + F) mod 2 ^ p = F" unfolding pq using assms(1) by simp
  have "(s * 2 ^ (p + q) + E * 2 ^ p + F) div 2 ^ (p + q) = (s * 2 ^ q + E) div 2 ^ q"
    by (metis d div_mult2_eq power_add)
  then show "(s * 2 ^ (p + q) + E * 2 ^ p + F) div 2 ^ (p + q) = s" using assms(2) by simp
qed

lemma float_value_fields:
  assumes "F < 2 ^ (prec - 1)" and "0 < E" and "E < 2 ^ ebits"
  shows "float_value prec ebits (s * 2 ^ (prec - 1 + ebits) + E * 2 ^ (prec - 1) + F) =
    (if s = 1 then -1 else 1) *
      (real (F + 2 ^ (prec - 1)) * 2 ^ E / 2 ^ (2 ^ (ebits - 1) - 1 + (prec - 1)))"
  using fields [OF assms(1,3), of s] assms(2) by (simp add: float_value_def Let_def)

text \<open>Integers below the precision convert exactly.\<close>

lemma float_pattern_exact:
  assumes k: "\<bar>k\<bar> < 2 ^ prec" and p: "0 < prec" "prec < 2 ^ (ebits - 1)" "0 < ebits"
  shows "float_value prec ebits (float_pattern prec ebits k) = of_int k"
    and "float_pattern prec ebits k < 2 ^ (prec + ebits)"
proof -
  let ?bias = "2 ^ (ebits - 1) - 1 :: nat"
  have "float_value prec ebits (float_pattern prec ebits k) = of_int k \<and>
      float_pattern prec ebits k < 2 ^ (prec + ebits)"
  proof (cases "k = 0")
    case True
    then show ?thesis by (simp add: float_pattern_def float_value_def Let_def)
  next
    case False
    let ?n = "nat \<bar>k\<bar>"
    have n: "0 < ?n" "?n < 2 ^ prec" using False k by (auto simp: nat_less_iff)
    obtain m e where r: "round_nat prec ?n = (m, e)" "2 ^ (prec - 1) \<le> m" "m < 2 ^ prec" "e < prec"
        "m * 2 ^ e = ?n * 2 ^ (prec - 1)"
      using round_nat_exact [OF n p(1)] by blast
    define F where "F = m - 2 ^ (prec - 1)"
    define E where "E = e + ?bias"
    define s :: nat where "s = (if k < 0 then 1 else 0)"
    have two: "2 ^ prec = 2 * (2 :: nat) ^ (prec - 1)" "2 ^ ebits = 2 * (2 :: nat) ^ (ebits - 1)"
      using p by (simp_all flip: power_Suc)
    have F: "F < 2 ^ (prec - 1)" "F + 2 ^ (prec - 1) = m" using r(2,3) two by (auto simp: F_def)
    have "2 \<le> (2 :: nat) ^ (ebits - 1)" using p by simp
    then have E: "0 < E" "E < 2 ^ ebits" using r(4) p two by (auto simp: E_def)
    have b: "float_pattern prec ebits k = s * 2 ^ (prec - 1 + ebits) + E * 2 ^ (prec - 1) + F"
      using False r(1) by (simp add: float_pattern_def s_def E_def F_def Let_def)
    have "x * 2 ^ (e + b) / 2 ^ (b + j) = x * 2 ^ e / (2 :: real) ^ j" for x b j
      by (simp add: power_add)
    from this [of "real m" ?bias "prec - 1"]
    have "real (F + 2 ^ (prec - 1)) * 2 ^ E / 2 ^ (?bias + (prec - 1)) = real (m * 2 ^ e) / 2 ^ (prec - 1)"
      by (simp only: F(2) E_def of_nat_mult of_nat_power of_nat_numeral)
    also have "\<dots> = real ?n" by (simp add: r(5))
    finally have v: "float_value prec ebits (float_pattern prec ebits k) = of_int k"
      unfolding b float_value_fields [OF F(1) E] by (auto simp: s_def)
    have "E * 2 ^ (prec - 1) + F < 2 ^ (prec - 1 + ebits)"
    proof -
      have "(E + 1) * 2 ^ (prec - 1) \<le> 2 ^ ebits * 2 ^ (prec - 1)"
        by (rule mult_right_mono) (use E(2) in simp_all)
      then show ?thesis using F(1) by (simp add: power_add algebra_simps)
    qed
    moreover have "s \<le> 1" by (simp add: s_def)
    then have "s * 2 ^ (prec - 1 + ebits) \<le> 2 ^ (prec - 1 + ebits)" by simp
    moreover have "2 ^ (prec + ebits) = 2 * (2 :: nat) ^ (prec - 1 + ebits)"
      using two(1) by (simp add: power_add)
    ultimately have "float_pattern prec ebits k < 2 ^ (prec + ebits)" unfolding b by linarith
    with v show ?thesis by blast
  qed
  then show "float_value prec ebits (float_pattern prec ebits k) = of_int k"
    and "float_pattern prec ebits k < 2 ^ (prec + ebits)" by simp_all
qed

lemma float_of_int32_exact:
  assumes "\<bar>sint w\<bar> < 2 ^ 24"
  shows "float32_value (float_of_int32 w) = of_int (sint w)"
proof -
  note e = float_pattern_exact [of "sint w" 24 8, OF assms]
  have "float_pattern 24 8 (sint w) < 2 ^ 32" using e(2) by simp
  then show ?thesis using e(1)
    by (simp add: float32_value_def float_of_int32_def unat_of_nat)
qed

lemma double_of_int64_exact:
  assumes "\<bar>sint w\<bar> < 2 ^ 53"
  shows "float64_value (double_of_int64 w) = of_int (sint w)"
proof -
  note e = float_pattern_exact [of "sint w" 53 11, OF assms]
  have "float_pattern 53 11 (sint w) < 2 ^ 64" using e(2) by simp
  then show ?thesis using e(1)
    by (simp add: float64_value_def double_of_int64_def unat_of_nat)
qed

end
