(* ===== verification/Values.thy ===== *)
theory Values
  imports SharedHeap Buffers Floats
begin

text \<open>
  \<^verbatim>\<open>cg_value\<close> of \<^verbatim>\<open>StreamNode.hpp\<close>: a variant of numbers, a string, a raw buffer or a tensor,
  the last three kinds behind a protected buffer; copying, moving and assigning one, and
  \<^verbatim>\<open>ValueParse\<close>, which reads one at a wanted type and widens numbers.
\<close>

section \<open>The variant\<close>

text \<open>
  Element types of tensors; the flag of a tensor object says whether its elements are const.
  Floating point numbers are their bit patterns.
\<close>

datatype elem_type = TInt8 | TInt16 | TInt32 | TInt64 | TUInt8 | TUInt16 | TUInt32 | TUInt64 | TFloat | TDouble

fun elem_size :: "elem_type \<Rightarrow> nat" where
  "elem_size TInt8 = 1"
| "elem_size TUInt8 = 1"
| "elem_size TInt16 = 2"
| "elem_size TUInt16 = 2"
| "elem_size TInt32 = 4"
| "elem_size TUInt32 = 4"
| "elem_size TFloat = 4"
| "elem_size TInt64 = 8"
| "elem_size TUInt64 = 8"
| "elem_size TDouble = 8"

datatype shared_obj = RawObj raw_buffer | TensorObj bool elem_type tensor

datatype cg_value =
    VNone
  | VInt8 "8 word"
  | VInt16 "16 word"
  | VInt32 "32 word"
  | VInt64 "64 word"
  | VFloat "32 word"
  | VDouble "64 word"
  | VUInt8 u8
  | VUInt16 u16
  | VUInt32 u32
  | VUInt64 u64
  | VBuffer pbuf
  | VStr "u8 list"
  | VTensor bool elem_type pbuf

fun CV_handle :: "cg_value \<Rightarrow> pbuf option" where
  "CV_handle (VBuffer p) = Some p"
| "CV_handle (VTensor c t p) = Some p"
| "CV_handle v = None"

fun map_handle :: "(pbuf \<Rightarrow> pbuf) \<Rightarrow> cg_value \<Rightarrow> cg_value" where
  "map_handle f (VBuffer p) = VBuffer (f p)"
| "map_handle f (VTensor c t p) = VTensor c t (f p)"
| "map_handle f v = v"

text \<open>Whether two values with a handle hold the same alternative, down to the element type.\<close>

fun same_alternative :: "cg_value \<Rightarrow> cg_value \<Rightarrow> bool" where
  "same_alternative (VBuffer p) (VBuffer q) = True"
| "same_alternative (VTensor c t p) (VTensor d u q) = (c = d \<and> t = u)"
| "same_alternative v w = False"

definition CV_new :: cg_value where
  "CV_new = VNone"

definition CV_bool :: "cg_value \<Rightarrow> bool" where
  "CV_bool v \<longleftrightarrow> v \<noteq> VNone"

section \<open>Copying and moving\<close>

text \<open>Destroying a value, the alternative a variant holds before another one is put in.\<close>

definition CV_destroy :: "shared_obj sheap \<Rightarrow> cg_value \<Rightarrow> shared_obj sheap exec" where
  "CV_destroy h v = (case CV_handle v of None \<Rightarrow> Fine h | Some p \<Rightarrow> PB_destroy h p)"

text \<open>
  Assigning an alternative the variant does not hold. A copy goes through a temporary, since
  the copy constructor of the alternative may throw and its move constructor may not: copy
  into the temporary, destroy the old alternative, move the temporary in, destroy it.
\<close>

definition emplace_copy ::
    "lock_env \<Rightarrow> shared_obj sheap \<Rightarrow> cg_value \<Rightarrow> pbuf \<Rightarrow> (shared_obj sheap \<times> pbuf) exec" where
  "emplace_copy env h old q =
     exec_then (PB_copy env h q) (\<lambda>(h1, tmp).
       exec_then (CV_destroy h1 old) (\<lambda>h2.
         exec_then (PB_move env h2 tmp) (\<lambda>(h3, p, tmp').
           exec_then (PB_destroy h3 tmp') (\<lambda>h4. Fine (h4, p)))))"

definition CV_copyFrom ::
    "lock_env \<Rightarrow> shared_obj sheap \<Rightarrow> cg_value \<Rightarrow> cg_value \<Rightarrow> (shared_obj sheap \<times> cg_value) exec" where
  "CV_copyFrom env h this other =
     (case CV_handle other of
        None \<Rightarrow> exec_then (CV_destroy h this) (\<lambda>h1. Fine (h1, other))
      | Some q \<Rightarrow>
          if same_alternative this other then
            exec_then (PB_copy_assign False env h (the (CV_handle this)) q)
              (\<lambda>(h1, p). Fine (h1, map_handle (\<lambda>_. p) other))
          else
            exec_then (emplace_copy env h this q) (\<lambda>(h1, p). Fine (h1, map_handle (\<lambda>_. p) other)))"

text \<open>A move; the source is reset to the empty alternative.\<close>

definition CV_moveFrom ::
    "lock_env \<Rightarrow> shared_obj sheap \<Rightarrow> cg_value \<Rightarrow> cg_value \<Rightarrow> (shared_obj sheap \<times> cg_value \<times> cg_value) exec" where
  "CV_moveFrom env h this other =
     (case CV_handle other of
        None \<Rightarrow> exec_then (CV_destroy h this) (\<lambda>h1. Fine (h1, other, VNone))
      | Some q \<Rightarrow>
          exec_then
            (if same_alternative this other then PB_move_assign False env h (the (CV_handle this)) q
             else exec_then (CV_destroy h this) (\<lambda>h1. PB_move env h1 q))
            (\<lambda>(h2, p, q').
               exec_then (CV_destroy h2 (map_handle (\<lambda>_. q') other))
                 (\<lambda>h3. Fine (h3, map_handle (\<lambda>_. p) other, VNone))))"

definition CV_copy :: "lock_env \<Rightarrow> shared_obj sheap \<Rightarrow> cg_value \<Rightarrow> (shared_obj sheap \<times> cg_value) exec" where
  "CV_copy env h other = CV_copyFrom env h VNone other"

definition CV_move ::
    "lock_env \<Rightarrow> shared_obj sheap \<Rightarrow> cg_value \<Rightarrow> (shared_obj sheap \<times> cg_value \<times> cg_value) exec" where
  "CV_move env h other = CV_moveFrom env h VNone other"

definition CV_copy_assign ::
    "bool \<Rightarrow> lock_env \<Rightarrow> shared_obj sheap \<Rightarrow> cg_value \<Rightarrow> cg_value \<Rightarrow> (shared_obj sheap \<times> cg_value) exec" where
  "CV_copy_assign same env h this other = (if same then Fine (h, this) else CV_copyFrom env h this other)"

definition CV_move_assign ::
    "bool \<Rightarrow> lock_env \<Rightarrow> shared_obj sheap \<Rightarrow> cg_value \<Rightarrow> cg_value \<Rightarrow>
     (shared_obj sheap \<times> cg_value \<times> cg_value) exec" where
  "CV_move_assign same env h this other =
     (if same then Fine (h, this, other) else CV_moveFrom env h this other)"

section \<open>Handles of values\<close>

definition hset :: "cg_value \<Rightarrow> pbuf multiset" where
  "hset v = (case CV_handle v of None \<Rightarrow> {#} | Some p \<Rightarrow> {#p#})"

lemma hset_map_handle [simp]: "hset (map_handle f v) = image_mset f (hset v)"
  by (cases v) (simp_all add: hset_def)

lemma hset_simps [simp]: "hset VNone = {#}" "CV_handle v = Some p \<Longrightarrow> hset v = {#p#}" "CV_handle v = None \<Longrightarrow> hset v = {#}"
  by (simp_all add: hset_def)

lemma hset_handle [simp]: "hset (VBuffer p) = {#p#}" "hset (VTensor c t p) = {#p#}"
  by (simp_all add: hset_def)

lemma CV_handle_map [simp]: "CV_handle (map_handle f v) = map_option f (CV_handle v)"
  by (cases v) simp_all

lemma map_handle_comp [simp]: "map_handle f (map_handle g v) = map_handle (f \<circ> g) v"
  by (cases v) simp_all

lemma map_handle_const: "CV_handle v = Some q \<Longrightarrow> f q = p \<Longrightarrow> map_handle (\<lambda>_. p) v = map_handle f v"
  by (cases v) auto

lemma same_alternative_handle: "same_alternative v w \<Longrightarrow> \<exists>p q. CV_handle v = Some p \<and> CV_handle w = Some q"
  by (cases v; cases w) auto

lemma CV_destroy_ok:
  "handles_ok h (hset v + H) \<Longrightarrow> \<exists>h'. CV_destroy h v = Fine h' \<and> handles_ok h' H"
  using PB_destroy_ok [of h _ H] by (cases "CV_handle v") (auto simp: CV_destroy_def)

lemma copy_result_idem [simp]: "copy_result env (copy_result env p) = copy_result env p"
  by (auto simp: copy_result_def split: option.splits)

lemma emplace_copy_ok:
  assumes ok: "handles_ok h (hset old + R)" and q: "q \<in># R"
  shows "\<exists>h'. emplace_copy env h old q = Fine (h', copy_result env q) \<and>
    handles_ok h' (add_mset (copy_result env q) R)"
proof -
  let ?t = "copy_result env q"
  obtain h1 where h1: "PB_copy env h q = Fine (h1, ?t)" "handles_ok h1 (hset old + add_mset ?t R)"
    using PB_copy_ok [OF ok, of q env] q by auto
  obtain h2 where h2: "CV_destroy h1 old = Fine h2" "handles_ok h2 (add_mset ?t R)"
    using CV_destroy_ok [OF h1(2)] by blast
  obtain h3 t' where h3: "PB_move env h2 ?t = Fine (h3, ?t, t')" "handles_ok h3 (add_mset t' (add_mset ?t R))"
    using PB_move_ok [OF h2(2), of env] by (auto simp: add_mset_commute)
  obtain h4 where "PB_destroy h3 t' = Fine h4" "handles_ok h4 (add_mset ?t R)"
    using PB_destroy_ok [OF h3(2)] by blast
  with h1(1) h2(1) h3(1) show ?thesis by (simp add: emplace_copy_def)
qed

text \<open>What an assignment leaves in the target, and when it waits for itself.\<close>

definition CV_result :: "lock_env \<Rightarrow> cg_value \<Rightarrow> cg_value \<Rightarrow> cg_value" where
  "CV_result env this other =
     (if same_alternative this other
      then map_handle (assign_result env (the (CV_handle this))) other
      else map_handle (copy_result env) other)"

definition CV_relocks :: "lock_env \<Rightarrow> cg_value \<Rightarrow> cg_value \<Rightarrow> bool" where
  "CV_relocks env this other \<longleftrightarrow>
     same_alternative this other \<and> assign_relocks env (the (CV_handle this)) (the (CV_handle other))"

lemma CV_copyFrom_ok:
  assumes ok: "handles_ok h (hset this + R)" and o: "set_mset (hset other) \<subseteq> set_mset R"
    and nd: "\<not> CV_relocks env this other"
  shows "\<exists>h'. CV_copyFrom env h this other = Fine (h', CV_result env this other) \<and>
    handles_ok h' (hset (CV_result env this other) + R)"
proof (cases "CV_handle other")
  case None
  obtain h' where "CV_destroy h this = Fine h'" "handles_ok h' R" using CV_destroy_ok [OF ok] by blast
  moreover have "map_handle f other = other" for f using None by (cases other) simp_all
  ultimately show ?thesis using None by (simp add: CV_copyFrom_def CV_result_def)
next
  case (Some q)
  then have q: "q \<in># R" using o by simp
  show ?thesis
  proof (cases "same_alternative this other")
    case True
    then obtain p where p: "CV_handle this = Some p" using same_alternative_handle by blast
    have nd': "\<not> assign_relocks env p q" using nd True p Some by (simp add: CV_relocks_def)
    obtain h' where "PB_copy_assign False env h p q = Fine (h', assign_result env p q)"
        "handles_ok h' (add_mset (assign_result env p q) R)"
      using PB_copy_assign_ok [OF _ q nd', of h] ok p by auto
    then show ?thesis using True p Some
      by (simp add: CV_copyFrom_def CV_result_def map_handle_const [OF Some refl])
  next
    case False
    with emplace_copy_ok [OF ok q, of env] Some show ?thesis
      by (auto simp: CV_copyFrom_def CV_result_def map_handle_const [OF Some refl])
  qed
qed

lemma CV_moveFrom_ok:
  assumes ok: "handles_ok h (hset this + (hset other + R))" and nd: "\<not> CV_relocks env this other"
  shows "\<exists>h'. CV_moveFrom env h this other = Fine (h', CV_result env this other, VNone) \<and>
    handles_ok h' (hset (CV_result env this other) + R)"
proof (cases "CV_handle other")
  case None
  obtain h' where "CV_destroy h this = Fine h'" "handles_ok h' R"
    using CV_destroy_ok [OF ok] None by auto
  moreover have "map_handle f other = other" for f using None by (cases other) simp_all
  ultimately show ?thesis using None by (simp add: CV_moveFrom_def CV_result_def)
next
  case (Some q)
  have res: "\<exists>h2 q'. (if same_alternative this other then PB_move_assign False env h (the (CV_handle this)) q
             else exec_then (CV_destroy h this) (\<lambda>h1. PB_move env h1 q))
       = Fine (h2, the (CV_handle (CV_result env this other)), q') \<and>
     handles_ok h2 (add_mset q' (hset (CV_result env this other) + R))"
  proof (cases "same_alternative this other")
    case True
    then obtain p where p: "CV_handle this = Some p" using same_alternative_handle by blast
    have nd': "\<not> assign_relocks env p q" using nd True p Some by (simp add: CV_relocks_def)
    have "handles_ok h (add_mset p (add_mset q R))" using ok p Some by (simp add: add_mset_commute)
    from PB_move_assign_ok [OF this nd'] show ?thesis using True p Some
      by (auto simp: CV_result_def add_mset_commute)
  next
    case False
    obtain h1 where h1: "CV_destroy h this = Fine h1" "handles_ok h1 (add_mset q R)"
      using CV_destroy_ok [OF ok] Some by auto
    from PB_move_ok [OF h1(2), of env] show ?thesis using False h1(1) Some
      by (auto simp: CV_result_def add_mset_commute)
  qed
  then obtain h2 q' where r: "(if same_alternative this other then PB_move_assign False env h (the (CV_handle this)) q
             else exec_then (CV_destroy h this) (\<lambda>h1. PB_move env h1 q))
       = Fine (h2, the (CV_handle (CV_result env this other)), q')"
     and ok2: "handles_ok h2 (add_mset q' (hset (CV_result env this other) + R))" by blast
  have "handles_ok h2 (hset (map_handle (\<lambda>_. q') other) + (hset (CV_result env this other) + R))"
    using ok2 Some by simp
  from CV_destroy_ok [OF this] obtain h3
    where "CV_destroy h2 (map_handle (\<lambda>_. q') other) = Fine h3" "handles_ok h3 (hset (CV_result env this other) + R)"
    by blast
  moreover have "map_handle (\<lambda>_. the (CV_handle (CV_result env this other))) other = CV_result env this other"
    using Some by (auto simp: CV_result_def map_handle_const [OF Some refl])
  ultimately show ?thesis using r Some by (simp add: CV_moveFrom_def)
qed

lemma CV_result_none [simp]: "CV_result env VNone other = map_handle (copy_result env) other"
  by (simp add: CV_result_def)

lemma CV_relocks_none [simp]: "\<not> CV_relocks env VNone other"
  by (simp add: CV_relocks_def)

section \<open>ValueParse\<close>

text \<open>
  The types a value can be read at, as the template argument of \<^verbatim>\<open>ValueParse\<close>. What
  \<^verbatim>\<open>contains\<close> accepts: the alternative itself and, for numbers, the narrower ones.
\<close>

datatype arg_type =
    AInt8 | AInt16 | AInt32 | AInt64 | AUInt8 | AUInt16 | AUInt32 | AUInt64 | AFloat | ADouble
  | AStr | ABuffer | ATensor bool elem_type

text \<open>\<^verbatim>\<open>std::holds_alternative\<close>.\<close>

fun holds :: "arg_type \<Rightarrow> cg_value \<Rightarrow> bool" where
  "holds a VNone \<longleftrightarrow> False"
| "holds a (VInt8 x) \<longleftrightarrow> a = AInt8"
| "holds a (VInt16 x) \<longleftrightarrow> a = AInt16"
| "holds a (VInt32 x) \<longleftrightarrow> a = AInt32"
| "holds a (VInt64 x) \<longleftrightarrow> a = AInt64"
| "holds a (VFloat x) \<longleftrightarrow> a = AFloat"
| "holds a (VDouble x) \<longleftrightarrow> a = ADouble"
| "holds a (VUInt8 x) \<longleftrightarrow> a = AUInt8"
| "holds a (VUInt16 x) \<longleftrightarrow> a = AUInt16"
| "holds a (VUInt32 x) \<longleftrightarrow> a = AUInt32"
| "holds a (VUInt64 x) \<longleftrightarrow> a = AUInt64"
| "holds a (VBuffer p) \<longleftrightarrow> a = ABuffer"
| "holds a (VStr s) \<longleftrightarrow> a = AStr"
| "holds a (VTensor c t p) \<longleftrightarrow> a = ATensor c t"

definition contains_uint16 :: "cg_value \<Rightarrow> bool" where
  "contains_uint16 v \<longleftrightarrow> holds AUInt16 v \<or> holds AUInt8 v"

definition contains_uint32 :: "cg_value \<Rightarrow> bool" where
  "contains_uint32 v \<longleftrightarrow> holds AUInt32 v \<or> contains_uint16 v"

definition contains_uint64 :: "cg_value \<Rightarrow> bool" where
  "contains_uint64 v \<longleftrightarrow> holds AUInt64 v \<or> contains_uint32 v"

definition contains_int16 :: "cg_value \<Rightarrow> bool" where
  "contains_int16 v \<longleftrightarrow> holds AInt16 v \<or> holds AInt8 v"

definition contains_int32 :: "cg_value \<Rightarrow> bool" where
  "contains_int32 v \<longleftrightarrow> holds AInt32 v \<or> contains_int16 v"

definition contains_int64 :: "cg_value \<Rightarrow> bool" where
  "contains_int64 v \<longleftrightarrow> holds AInt64 v \<or> contains_int32 v"

definition contains_float :: "cg_value \<Rightarrow> bool" where
  "contains_float v \<longleftrightarrow> holds AFloat v \<or> contains_int32 v"

definition contains_double :: "cg_value \<Rightarrow> bool" where
  "contains_double v \<longleftrightarrow> holds ADouble v \<or> holds AInt64 v \<or> contains_float v"

fun VP_contains :: "arg_type \<Rightarrow> cg_value \<Rightarrow> bool" where
  "VP_contains AUInt16 v = contains_uint16 v"
| "VP_contains AUInt32 v = contains_uint32 v"
| "VP_contains AUInt64 v = contains_uint64 v"
| "VP_contains AInt16 v = contains_int16 v"
| "VP_contains AInt32 v = contains_int32 v"
| "VP_contains AInt64 v = contains_int64 v"
| "VP_contains AFloat v = contains_float v"
| "VP_contains ADouble v = contains_double v"
| "VP_contains a v = holds a v"

text \<open>\<^verbatim>\<open>getValue\<close> at the number types; what is not contained gives 0.\<close>

fun get_uint8 :: "cg_value \<Rightarrow> u8" where
  "get_uint8 (VUInt8 x) = x"
| "get_uint8 v = 0"

fun get_uint16 :: "cg_value \<Rightarrow> u16" where
  "get_uint16 (VUInt16 x) = x"
| "get_uint16 v = ucast (get_uint8 v)"

fun get_uint32 :: "cg_value \<Rightarrow> u32" where
  "get_uint32 (VUInt32 x) = x"
| "get_uint32 v = ucast (get_uint16 v)"

fun get_uint64 :: "cg_value \<Rightarrow> u64" where
  "get_uint64 (VUInt64 x) = x"
| "get_uint64 v = ucast (get_uint32 v)"

fun get_int8 :: "cg_value \<Rightarrow> 8 word" where
  "get_int8 (VInt8 x) = x"
| "get_int8 v = 0"

fun get_int16 :: "cg_value \<Rightarrow> 16 word" where
  "get_int16 (VInt16 x) = x"
| "get_int16 v = scast (get_int8 v)"

fun get_int32 :: "cg_value \<Rightarrow> 32 word" where
  "get_int32 (VInt32 x) = x"
| "get_int32 v = scast (get_int16 v)"

fun get_int64 :: "cg_value \<Rightarrow> 64 word" where
  "get_int64 (VInt64 x) = x"
| "get_int64 v = scast (get_int32 v)"

fun get_float :: "cg_value \<Rightarrow> 32 word" where
  "get_float (VFloat x) = x"
| "get_float v = float_of_int32 (get_int32 v)"

fun get_double :: "cg_value \<Rightarrow> 64 word" where
  "get_double (VDouble x) = x"
| "get_double (VInt64 x) = double_of_int64 x"
| "get_double v = double_of_float (get_float v)"

fun get_str :: "cg_value \<Rightarrow> u8 list" where
  "get_str (VStr s) = s"
| "get_str v = []"

text \<open>
  \<^verbatim>\<open>getValue\<close> at any type: the heap, the result as the alternative of the wanted type, and
  the value after the move. Buffers and tensors are moved out, strings too.
\<close>

definition VP_getHandle ::
    "lock_env \<Rightarrow> shared_obj sheap \<Rightarrow> arg_type \<Rightarrow> cg_value \<Rightarrow> (shared_obj sheap \<times> pbuf \<times> cg_value) exec" where
  "VP_getHandle env h a v =
     (if holds a v
      then exec_then (PB_move env h (the (CV_handle v))) (\<lambda>(h', p, q). Fine (h', p, map_handle (\<lambda>_. q) v))
      else Fine (h, PB_null, v))"

fun VP_getValue ::
    "lock_env \<Rightarrow> shared_obj sheap \<Rightarrow> arg_type \<Rightarrow> cg_value \<Rightarrow> (shared_obj sheap \<times> cg_value \<times> cg_value) exec" where
  "VP_getValue env h AUInt8 v = Fine (h, VUInt8 (get_uint8 v), v)"
| "VP_getValue env h AUInt16 v = Fine (h, VUInt16 (get_uint16 v), v)"
| "VP_getValue env h AUInt32 v = Fine (h, VUInt32 (get_uint32 v), v)"
| "VP_getValue env h AUInt64 v = Fine (h, VUInt64 (get_uint64 v), v)"
| "VP_getValue env h AInt8 v = Fine (h, VInt8 (get_int8 v), v)"
| "VP_getValue env h AInt16 v = Fine (h, VInt16 (get_int16 v), v)"
| "VP_getValue env h AInt32 v = Fine (h, VInt32 (get_int32 v), v)"
| "VP_getValue env h AInt64 v = Fine (h, VInt64 (get_int64 v), v)"
| "VP_getValue env h AFloat v = Fine (h, VFloat (get_float v), v)"
| "VP_getValue env h ADouble v = Fine (h, VDouble (get_double v), v)"
| "VP_getValue env h AStr v = Fine (h, VStr (get_str v), (if holds AStr v then VStr [] else v))"
| "VP_getValue env h ABuffer v = exec_then (VP_getHandle env h ABuffer v) (\<lambda>(h', p, v'). Fine (h', VBuffer p, v'))"
| "VP_getValue env h (ATensor c t) v =
     exec_then (VP_getHandle env h (ATensor c t) v) (\<lambda>(h', p, v'). Fine (h', VTensor c t p, v'))"

text \<open>The number an integer alternative holds.\<close>

fun value_int :: "cg_value \<Rightarrow> int option" where
  "value_int (VInt8 x) = Some (sint x)"
| "value_int (VInt16 x) = Some (sint x)"
| "value_int (VInt32 x) = Some (sint x)"
| "value_int (VInt64 x) = Some (sint x)"
| "value_int (VUInt8 x) = Some (uint x)"
| "value_int (VUInt16 x) = Some (uint x)"
| "value_int (VUInt32 x) = Some (uint x)"
| "value_int (VUInt64 x) = Some (uint x)"
| "value_int v = None"

lemmas contains_defs = contains_uint16_def contains_uint32_def contains_uint64_def contains_int16_def
  contains_int32_def contains_int64_def contains_float_def contains_double_def

section \<open>Properties\<close>

text \<open>
  C19. Reading an integer at one of the six integer types of 16, 32 and 64 bits that contains it
  keeps its value: every accepted alternative is widened without change; what is not contained
  reads 0, and the signed type of 64 bits contains exactly the signed integers, so no unsigned
  number. (The floating-point types contain integers too, and round them: double reads an
  \<^verbatim>\<open>int32_t\<close> through float.)
\<close>

theorem integer_reads_keep_value:
  "(if contains_int64 v then value_int v = Some (sint (get_int64 v)) else get_int64 v = 0) \<and>
   (if contains_int32 v then value_int v = Some (sint (get_int32 v)) else get_int32 v = 0) \<and>
   (if contains_int16 v then value_int v = Some (sint (get_int16 v)) else get_int16 v = 0) \<and>
   (if contains_uint64 v then value_int v = Some (uint (get_uint64 v)) else get_uint64 v = 0) \<and>
   (if contains_uint32 v then value_int v = Some (uint (get_uint32 v)) else get_uint32 v = 0) \<and>
   (if contains_uint16 v then value_int v = Some (uint (get_uint16 v)) else get_uint16 v = 0) \<and>
   (contains_int64 v \<longleftrightarrow> v \<in> range VInt8 \<union> range VInt16 \<union> range VInt32 \<union> range VInt64)"
proof -
  have s: "sint (scast x :: 'b::len word) = sint x" if "LENGTH('a) \<le> LENGTH('b)" for x :: "'a::len word"
    using that by (simp add: sint_up_scast is_up)
  have u: "uint (ucast x :: 'b::len word) = uint x" if "LENGTH('a) \<le> LENGTH('b)" for x :: "'a::len word"
    using that by (simp add: uint_up_ucast is_up)
  show ?thesis
    by (cases v) (auto simp: contains_defs s u)
qed

text \<open>
  Numbers read as floating point: an \<^verbatim>\<open>int32_t\<close> of magnitude below 2 to the 24 read as
  \<^verbatim>\<open>float\<close>, and an \<^verbatim>\<open>int64_t\<close> below 2 to the 53 read as \<^verbatim>\<open>double\<close>, is exactly that number;
  the narrower signed integers always are.
\<close>

theorem floating_reads_exact:
  assumes "\<bar>sint w\<bar> < 2 ^ 24" and "\<bar>sint l\<bar> < 2 ^ 53"
  shows "float32_value (get_float (VInt32 w)) = of_int (sint w) \<and>
    float64_value (get_double (VInt64 l)) = of_int (sint l) \<and>
    float32_value (get_float (VInt16 i)) = of_int (sint i) \<and>
    float32_value (get_float (VInt8 b)) = of_int (sint b)"
proof -
  have up: "sint (scast x :: 32 word) = sint x" if "LENGTH('a) \<le> 32" for x :: "'a::len word"
    using that by (simp add: sint_up_scast is_up)
  have "\<bar>sint i\<bar> < 2 ^ 24" using sint_range_size [of i] by (simp add: word_size) linarith
  moreover have "\<bar>sint b\<bar> < 2 ^ 24" using sint_range_size [of b] by (simp add: word_size) linarith
  moreover have "sint (scast (scast b :: 16 word) :: 32 word) = sint b"
    using up [of "scast b :: 16 word"] by (simp add: sint_up_scast is_up)
  ultimately show ?thesis
    using assms float_of_int32_exact double_of_int64_exact up [of i] by (simp del: of_int_sint)
qed

theorem floating_reads_exact_witness:
  "float32_value (get_float (VInt32 (- 5))) = - 5 \<and> float64_value (get_double (VInt64 7)) = 7"
  using floating_reads_exact [of "- 5" 7 0 0] by simp

text \<open>
  An \<^verbatim>\<open>int32_t\<close> read as \<^verbatim>\<open>double\<close> goes through \<^verbatim>\<open>float\<close> and is rounded to its 24 bits:
  16777217 reads as 16777216, although the type is accepted and a \<^verbatim>\<open>double\<close> holds the number;
  the same number in an \<^verbatim>\<open>int64_t\<close> is read exactly.
\<close>

theorem int32_read_as_double_rounds:
  "contains_double (VInt32 16777217) \<and>
   get_double (VInt32 16777217) = double_of_int64 16777216 \<and>
   get_double (VInt64 16777217) = double_of_int64 16777217 \<and>
   double_of_int64 16777216 \<noteq> double_of_int64 16777217"
proof -
  have len: "bit_length 16777217 = 25" "bit_length 16777216 = 25"
    using bit_length_eq [of 24] by simp_all
  have f: "float_of_int32 16777217 = 1266679808"
    by (simp add: float_of_int32_def float_pattern_def round_nat_def len)
  have "double_of_float 1266679808 = 4715268809856909312"
    by (simp add: double_of_float_def)
  moreover have "double_of_int64 16777216 = 4715268809856909312"
    by (simp add: double_of_int64_def float_pattern_def round_nat_def len)
  moreover have "double_of_int64 16777217 = 4715268810125344768"
    by (simp add: double_of_int64_def float_pattern_def round_nat_def len)
  ultimately show ?thesis by (simp add: f contains_defs)
qed

end
