(* ===== verification/Events.thy ===== *)
theory Events
  imports Values
begin

text \<open>
  \<^verbatim>\<open>Event\<close> of \<^verbatim>\<open>StreamNode.hpp\<close>: an identifier, a priority, a time to live and either one
  value or a list of values in a block of the event pool. The list is owned by a unique
  pointer, so it appears inline, \<open>None\<close> for the null pointer; \<open>pool_ok\<close> says whether the pool
  gives a block, and \<open>mx\<close> is \<^verbatim>\<open>CG_MAX_VALUES\<close>.
\<close>

section \<open>Data\<close>

record list_value =
  nb_values :: u32
  lv_values :: "cg_value list"

datatype event_data = Single cg_value | ListData "list_value option"

record event =
  event_id :: u32
  priority :: u32
  edata :: event_data
  ttl :: u32

fun setPriority :: "cg_event_priority \<Rightarrow> event \<Rightarrow> event" where
  "setPriority kLowPriority e = e\<lparr>priority := 0\<rparr>"
| "setPriority kNormalPriority e = e\<lparr>priority := 1\<rparr>"
| "setPriority kHighPriority e = e\<lparr>priority := 2\<rparr>"

definition list_value_new :: "nat \<Rightarrow> list_value" where
  "list_value_new mx = \<lparr>nb_values = 0, lv_values = replicate mx VNone\<rparr>"

definition Event_new :: event where
  "Event_new = \<lparr>event_id = selector_code kNoEvent, priority = 1, edata = Single VNone, ttl = 0\<rparr>"

definition Event_bool :: "event \<Rightarrow> bool" where
  "Event_bool e \<longleftrightarrow> event_id e \<noteq> selector_code kNoEvent"

definition Event_setTTL :: "event \<Rightarrow> u32 \<Rightarrow> event" where
  "Event_setTTL e ms = e\<lparr>ttl := ms\<rparr>"

section \<open>Values of an event\<close>

fun data_values :: "event_data \<Rightarrow> cg_value list" where
  "data_values (Single v) = [v]"
| "data_values (ListData None) = []"
| "data_values (ListData (Some lv)) = lv_values lv"

fun destroy_values :: "shared_obj sheap \<Rightarrow> cg_value list \<Rightarrow> shared_obj sheap exec" where
  "destroy_values h [] = Fine h"
| "destroy_values h (v # vs) = exec_then (CV_destroy h v) (\<lambda>h1. destroy_values h1 vs)"

text \<open>Destroying the data: the value, or the list through \<open>list_value_deleter\<close>.\<close>

definition destroy_data :: "shared_obj sheap \<Rightarrow> event_data \<Rightarrow> shared_obj sheap exec" where
  "destroy_data h d = destroy_values h (data_values d)"

definition Event_destroy :: "shared_obj sheap \<Rightarrow> event \<Rightarrow> shared_obj sheap exec" where
  "Event_destroy h e = destroy_data h (edata e)"

section \<open>Moving and cloning\<close>

text \<open>The move assignment of \<^verbatim>\<open>EventData\<close>: the target, and the source afterwards.\<close>

fun data_move_assign ::
    "lock_env \<Rightarrow> shared_obj sheap \<Rightarrow> event_data \<Rightarrow> event_data \<Rightarrow>
     (shared_obj sheap \<times> event_data \<times> event_data) exec" where
  "data_move_assign env h (Single v) (Single w) =
     exec_then (CV_moveFrom env h v w) (\<lambda>(h', v', w'). Fine (h', Single v', Single w'))"
| "data_move_assign env h (ListData l) (Single w) =
     exec_then (destroy_data h (ListData l)) (\<lambda>h1.
       exec_then (CV_move env h1 w) (\<lambda>(h', v', w'). Fine (h', Single v', Single w')))"
| "data_move_assign env h d (ListData m) =
     exec_then (destroy_data h d) (\<lambda>h'. Fine (h', ListData m, ListData None))"

definition Event_moveFrom ::
    "lock_env \<Rightarrow> shared_obj sheap \<Rightarrow> event \<Rightarrow> event \<Rightarrow> (shared_obj sheap \<times> event \<times> event) exec" where
  "Event_moveFrom env h this other =
     exec_then (data_move_assign env h (edata this) (edata other)) (\<lambda>(h', d, d').
       Fine (h', this\<lparr>event_id := event_id other, edata := d, priority := priority other, ttl := ttl other\<rparr>,
             other\<lparr>edata := d', event_id := selector_code kNoEvent, ttl := 0\<rparr>))"

definition Event_move ::
    "lock_env \<Rightarrow> shared_obj sheap \<Rightarrow> event \<Rightarrow> (shared_obj sheap \<times> event \<times> event) exec" where
  "Event_move env h other = Event_moveFrom env h Event_new other"

definition Event_move_assign ::
    "bool \<Rightarrow> lock_env \<Rightarrow> shared_obj sheap \<Rightarrow> event \<Rightarrow> event \<Rightarrow> (shared_obj sheap \<times> event \<times> event) exec" where
  "Event_move_assign same env h this other =
     (if same then Fine (h, this, other) else Event_moveFrom env h this other)"

text \<open>The loop that copies the first \<open>left\<close> values from index \<open>i\<close>; past the array it is undefined.\<close>

fun copy_values ::
    "lock_env \<Rightarrow> shared_obj sheap \<Rightarrow> cg_value list \<Rightarrow> cg_value list \<Rightarrow> nat \<Rightarrow> nat \<Rightarrow>
     (shared_obj sheap \<times> cg_value list) exec" where
  "copy_values env h new old i 0 = Fine (h, new)"
| "copy_values env h new old i (Suc left) =
     (if i < length new \<and> i < length old then
        exec_then (CV_copyFrom env h (new ! i) (old ! i)) (\<lambda>(h1, v).
          copy_values env h1 (new[i := v]) old (Suc i) left)
      else UB)"

definition Event_copyFrom ::
    "nat \<Rightarrow> bool \<Rightarrow> lock_env \<Rightarrow> shared_obj sheap \<Rightarrow> event \<Rightarrow> event \<Rightarrow> (shared_obj sheap \<times> event) exec" where
  "Event_copyFrom mx pool_ok env h this other =
     (case edata other of
        ListData l \<Rightarrow>
          if pool_ok then
            (case l of
               None \<Rightarrow> UB
             | Some lv \<Rightarrow>
                 exec_then (copy_values env h (lv_values (list_value_new mx)) (lv_values lv) 0 (unat (nb_values lv)))
                   (\<lambda>(h1, vs).
                      exec_then (data_move_assign env h1 (edata this)
                          (ListData (Some \<lparr>nb_values = nb_values lv, lv_values = vs\<rparr>)))
                        (\<lambda>(h2, d, d').
                           Fine (h2, this\<lparr>event_id := event_id other, ttl := ttl other, edata := d,
                                          priority := priority other\<rparr>))))
          else
            exec_then (data_move_assign env h (edata this) (Single VNone)) (\<lambda>(h1, d, d').
              Fine (h1, this\<lparr>event_id := selector_code kNoEvent, ttl := ttl other, edata := d,
                             priority := priority other\<rparr>))
      | Single v \<Rightarrow>
          exec_then
            (case edata this of
               Single w \<Rightarrow> CV_copyFrom env h w v
             | ListData l \<Rightarrow> exec_then (destroy_data h (ListData l)) (\<lambda>h1. CV_copy env h1 v))
            (\<lambda>(h2, w). Fine (h2, this\<lparr>event_id := event_id other, ttl := ttl other, edata := Single w,
                                        priority := priority other\<rparr>)))"

definition Event_clone ::
    "nat \<Rightarrow> bool \<Rightarrow> lock_env \<Rightarrow> shared_obj sheap \<Rightarrow> event \<Rightarrow> (shared_obj sheap \<times> event) exec" where
  "Event_clone mx pool_ok env h e = Event_copyFrom mx pool_ok env h Event_new e"

section \<open>Construction\<close>

definition Event_of_list :: "u32 \<Rightarrow> list_value option \<Rightarrow> cg_event_priority \<Rightarrow> event" where
  "Event_of_list i cv evtPriority =
     setPriority evtPriority \<lparr>event_id = i, priority = 1, edata = ListData cv, ttl = 0\<rparr>"

text \<open>
  The constructor from arguments, given as the temporaries \<^verbatim>\<open>cg_value(arg)\<close>. The result has
  what is left of them: they are moved in, or untouched when there is no block for the list.
  More arguments than \<open>mx\<close> do not compile.
\<close>

fun move_args ::
    "lock_env \<Rightarrow> shared_obj sheap \<Rightarrow> cg_value list \<Rightarrow> nat \<Rightarrow> cg_value list \<Rightarrow> (shared_obj sheap \<times> cg_value list) exec" where
  "move_args env h vs i [] = Fine (h, vs)"
| "move_args env h vs i (a # as) =
     (if i < length vs then
        exec_then (CV_moveFrom env h (vs ! i) a) (\<lambda>(h1, v, a'). move_args env h1 (vs[i := v]) (Suc i) as)
      else UB)"

definition Event_of_args ::
    "nat \<Rightarrow> bool \<Rightarrow> lock_env \<Rightarrow> shared_obj sheap \<Rightarrow> u32 \<Rightarrow> cg_event_priority \<Rightarrow> cg_value list \<Rightarrow>
     (shared_obj sheap \<times> event \<times> cg_value list) exec" where
  "Event_of_args mx pool_ok env h selector evtPriority args =
     (let e = setPriority evtPriority \<lparr>event_id = selector, priority = 1, edata = Single VNone, ttl = 0\<rparr>
      in case args of
           [] \<Rightarrow> Fine (h, e, [])
         | [a] \<Rightarrow> exec_then (CV_moveFrom env h VNone a) (\<lambda>(h1, v, a'). Fine (h1, e\<lparr>edata := Single v\<rparr>, [a']))
         | _ \<Rightarrow>
             if pool_ok then
               exec_then (move_args env h (lv_values (list_value_new mx)) 0 args) (\<lambda>(h1, vs).
                 Fine (h1, e\<lparr>edata := ListData (Some \<lparr>nb_values = of_nat (length args), lv_values = vs\<rparr>)\<rparr>,
                       map (\<lambda>a. VNone) args))
             else Fine (h, e\<lparr>event_id := selector_code kNoEvent\<rparr>, args))"

section \<open>Reading\<close>

definition Event_contains :: "arg_type \<Rightarrow> event \<Rightarrow> bool" where
  "Event_contains a e = (case edata e of Single v \<Rightarrow> VP_contains a v | ListData l \<Rightarrow> False)"

text \<open>The default of every type, \<^verbatim>\<open>T{}\<close>.\<close>

fun default_value :: "arg_type \<Rightarrow> cg_value" where
  "default_value AInt8 = VInt8 0"
| "default_value AInt16 = VInt16 0"
| "default_value AInt32 = VInt32 0"
| "default_value AInt64 = VInt64 0"
| "default_value AUInt8 = VUInt8 0"
| "default_value AUInt16 = VUInt16 0"
| "default_value AUInt32 = VUInt32 0"
| "default_value AUInt64 = VUInt64 0"
| "default_value AFloat = VFloat 0"
| "default_value ADouble = VDouble 0"
| "default_value AStr = VStr []"
| "default_value ABuffer = VBuffer PB_null"
| "default_value (ATensor c t) = VTensor c t PB_null"

definition Event_get ::
    "lock_env \<Rightarrow> shared_obj sheap \<Rightarrow> arg_type \<Rightarrow> event \<Rightarrow> (shared_obj sheap \<times> cg_value \<times> event) exec" where
  "Event_get env h a e =
     (case edata e of
        Single v \<Rightarrow> exec_then (VP_getValue env h a v) (\<lambda>(h', r, v'). Fine (h', r, e\<lparr>edata := Single v'\<rparr>))
      | ListData l \<Rightarrow> Fine (h, default_value a, e))"

text \<open>The fold over the index sequence, one type per index.\<close>

fun check_array_types :: "arg_type list \<Rightarrow> cg_value list \<Rightarrow> nat \<Rightarrow> bool" where
  "check_array_types [] vs i = True"
| "check_array_types (a # as) vs i = (VP_contains a (vs ! i) \<and> check_array_types as vs (Suc i))"

definition Event_wellFormed :: "arg_type list \<Rightarrow> event \<Rightarrow> bool" where
  "Event_wellFormed args e =
     (case args of
        [] \<Rightarrow> False
      | [a] \<Rightarrow> (case edata e of Single v \<Rightarrow> VP_contains a v | ListData l \<Rightarrow> False)
      | _ \<Rightarrow>
          (case edata e of
             ListData (Some cbv) \<Rightarrow>
               if nb_values cbv > 0 then
                 if length args \<noteq> unat (nb_values cbv) then False
                 else check_array_types args (lv_values cbv) 0
               else False
           | _ \<Rightarrow> False))"

text \<open>
  \<^verbatim>\<open>getValue\<close> of every argument, in the order of the arguments; the result has the values
  for the callback and what is left in the array.
\<close>

fun get_array_types ::
    "lock_env \<Rightarrow> shared_obj sheap \<Rightarrow> arg_type list \<Rightarrow> cg_value list \<Rightarrow> nat \<Rightarrow>
     (shared_obj sheap \<times> cg_value list \<times> cg_value list) exec" where
  "get_array_types env h [] vs i = Fine (h, [], vs)"
| "get_array_types env h (a # as) vs i =
     (if i < length vs then
        exec_then (VP_getValue env h a (vs ! i)) (\<lambda>(h1, r, v).
          exec_then (get_array_types env h1 as (vs[i := v]) (Suc i)) (\<lambda>(h2, rs, vs'). Fine (h2, r # rs, vs')))
      else UB)"

text \<open>
  The callback takes over the values and gives the heap back with its status, \<^verbatim>\<open>CG_SUCCESS\<close>
  when it is void (\<^verbatim>\<open>apply_status\<close>).
\<close>

type_synonym callback = "shared_obj sheap \<Rightarrow> cg_value list \<Rightarrow> (shared_obj sheap \<times> cg_status option) exec"

definition apply_status ::
    "callback \<Rightarrow> shared_obj sheap \<Rightarrow> cg_value list \<Rightarrow> (shared_obj sheap \<times> cg_status) exec" where
  "apply_status f h vs =
     exec_then (f h vs) (\<lambda>(h', r). Fine (h', case r of None \<Rightarrow> CG_SUCCESS | Some st \<Rightarrow> st))"

definition apply_noobj_array_types ::
    "lock_env \<Rightarrow> callback \<Rightarrow> shared_obj sheap \<Rightarrow> arg_type list \<Rightarrow> cg_value list \<Rightarrow>
     (shared_obj sheap \<times> cg_value list \<times> cg_status) exec" where
  "apply_noobj_array_types env f h args vs =
     exec_then (get_array_types env h args vs 0) (\<lambda>(h1, rs, vs').
       exec_then (apply_status f h1 rs) (\<lambda>(h2, st). Fine (h2, vs', st)))"

text \<open>
  \<^verbatim>\<open>apply\<close>: with several types the list is moved into a local, so it is gone from the event
  and destroyed on return, also when the number of values is wrong.
\<close>

definition Event_apply ::
    "lock_env \<Rightarrow> shared_obj sheap \<Rightarrow> arg_type list \<Rightarrow> callback \<Rightarrow> event \<Rightarrow>
     (shared_obj sheap \<times> event \<times> cg_status) exec" where
  "Event_apply env h args f e =
     (case args of
        [] \<Rightarrow> Fine (h, e, CG_BUFFER_ERROR)
      | [a] \<Rightarrow>
          (case edata e of
             Single v \<Rightarrow>
               exec_then (VP_getValue env h a v) (\<lambda>(h1, r, v').
                 exec_then (apply_status f h1 [r]) (\<lambda>(h2, st). Fine (h2, e\<lparr>edata := Single v'\<rparr>, st)))
           | ListData l \<Rightarrow> Fine (h, e, CG_BUFFER_ERROR))
      | _ \<Rightarrow>
          (case edata e of
             ListData l \<Rightarrow>
               (let e' = e\<lparr>edata := ListData None\<rparr>
                in case l of
                     None \<Rightarrow> Fine (h, e', CG_BUFFER_ERROR)
                   | Some cbv \<Rightarrow>
                       if nb_values cbv > 0 \<and> length args = unat (nb_values cbv) then
                         exec_then (apply_noobj_array_types env f h args (lv_values cbv)) (\<lambda>(h1, vs', st).
                           exec_then (destroy_values h1 vs') (\<lambda>h2. Fine (h2, e', st)))
                       else exec_then (destroy_values h (lv_values cbv)) (\<lambda>h1. Fine (h1, e', CG_BUFFER_ERROR)))
           | Single v \<Rightarrow> Fine (h, e, CG_BUFFER_ERROR)))"

text \<open>With an object, which \<^verbatim>\<open>std::invoke\<close> passes to the member function first.\<close>

definition apply_array_types ::
    "lock_env \<Rightarrow> ('o \<Rightarrow> callback) \<Rightarrow> 'o \<Rightarrow> shared_obj sheap \<Rightarrow> arg_type list \<Rightarrow> cg_value list \<Rightarrow>
     (shared_obj sheap \<times> cg_value list \<times> cg_status) exec" where
  "apply_array_types env f obj h args vs =
     exec_then (get_array_types env h args vs 0) (\<lambda>(h1, rs, vs').
       exec_then (apply_status (f obj) h1 rs) (\<lambda>(h2, st). Fine (h2, vs', st)))"

definition Event_apply_obj ::
    "lock_env \<Rightarrow> shared_obj sheap \<Rightarrow> arg_type list \<Rightarrow> ('o \<Rightarrow> callback) \<Rightarrow> 'o \<Rightarrow> event \<Rightarrow>
     (shared_obj sheap \<times> event \<times> cg_status) exec" where
  "Event_apply_obj env h args f obj e =
     (case args of
        [] \<Rightarrow> Fine (h, e, CG_BUFFER_ERROR)
      | [a] \<Rightarrow>
          (case edata e of
             Single v \<Rightarrow>
               exec_then (VP_getValue env h a v) (\<lambda>(h1, r, v').
                 exec_then (apply_status (f obj) h1 [r]) (\<lambda>(h2, st). Fine (h2, e\<lparr>edata := Single v'\<rparr>, st)))
           | ListData l \<Rightarrow> Fine (h, e, CG_BUFFER_ERROR))
      | _ \<Rightarrow>
          (case edata e of
             ListData l \<Rightarrow>
               (let e' = e\<lparr>edata := ListData None\<rparr>
                in case l of
                     None \<Rightarrow> Fine (h, e', CG_BUFFER_ERROR)
                   | Some cbv \<Rightarrow>
                       if nb_values cbv > 0 \<and> length args = unat (nb_values cbv) then
                         exec_then (apply_array_types env f obj h args (lv_values cbv)) (\<lambda>(h1, vs', st).
                           exec_then (destroy_values h1 vs') (\<lambda>h2. Fine (h2, e', st)))
                       else exec_then (destroy_values h (lv_values cbv)) (\<lambda>h1. Fine (h1, e', CG_BUFFER_ERROR)))
           | Single v \<Rightarrow> Fine (h, e, CG_BUFFER_ERROR)))"

lemma Event_apply_obj_eq: "Event_apply_obj env h args f obj e = Event_apply env h args (f obj) e"
  unfolding Event_apply_obj_def Event_apply_def apply_array_types_def apply_noobj_array_types_def ..

section \<open>Handles of events\<close>

definition hsets :: "cg_value list \<Rightarrow> pbuf multiset" where
  "hsets vs = (\<Sum>v\<leftarrow>vs. hset v)"

abbreviation ehset :: "event \<Rightarrow> pbuf multiset" where
  "ehset e \<equiv> hsets (data_values (edata e))"

lemma hsets_simps [simp]: "hsets [] = {#}" "hsets (v # vs) = hset v + hsets vs" "hsets (vs @ ws) = hsets vs + hsets ws"
  by (simp_all add: hsets_def)

lemma hsets_replicate_none [simp]: "hsets (replicate n VNone) = {#}"
  by (induction n) simp_all

lemma hsets_update: "i < length vs \<Longrightarrow> hsets vs = hset (vs ! i) + hsets (vs[i := VNone])"
  by (induction vs arbitrary: i) (auto simp: nth_Cons' union_ac split: nat.splits)

lemma hsets_update_val: "i < length vs \<Longrightarrow> hsets (vs[i := v]) = hset v + hsets (vs[i := VNone])"
  using hsets_update [of i "vs[i := v]"] by simp

lemma hset_nth_subset: "i < length vs \<Longrightarrow> set_mset (hset (vs ! i)) \<subseteq> set_mset (hsets vs)"
  using hsets_update [of i vs] by simp

lemma destroy_values_ok:
  "handles_ok h (hsets vs + H) \<Longrightarrow> \<exists>h'. destroy_values h vs = Fine h' \<and> handles_ok h' H"
proof (induction vs arbitrary: h)
  case (Cons v vs)
  then have "handles_ok h (hset v + (hsets vs + H))" by (simp add: union_assoc)
  from CV_destroy_ok [OF this] Cons.IH show ?case by fastforce
qed simp

lemma destroy_data_ok:
  "handles_ok h (hsets (data_values d) + H) \<Longrightarrow> \<exists>h'. destroy_data h d = Fine h' \<and> handles_ok h' H"
  by (simp add: destroy_data_def destroy_values_ok)

definition event_ok :: "nat \<Rightarrow> event \<Rightarrow> bool" where
  "event_ok mx e \<longleftrightarrow>
     (case edata e of
        ListData (Some lv) \<Rightarrow> length (lv_values lv) = mx \<and> unat (nb_values lv) \<le> mx
      | _ \<Rightarrow> True)"

definition data_relocks :: "lock_env \<Rightarrow> event_data \<Rightarrow> event_data \<Rightarrow> bool" where
  "data_relocks env d d' = (case (d, d') of (Single v, Single w) \<Rightarrow> CV_relocks env v w | _ \<Rightarrow> False)"

text \<open>The data a move leaves in the target.\<close>

fun data_result :: "lock_env \<Rightarrow> event_data \<Rightarrow> event_data \<Rightarrow> event_data" where
  "data_result env (Single v) (Single w) = Single (CV_result env v w)"
| "data_result env (ListData l) (Single w) = Single (map_handle (copy_result env) w)"
| "data_result env d (ListData m) = ListData m"

fun moved_data :: "event_data \<Rightarrow> event_data" where
  "moved_data (Single v) = Single VNone"
| "moved_data (ListData m) = ListData None"

lemma data_move_assign_ok:
  assumes ok: "handles_ok h (hsets (data_values d) + (hsets (data_values d') + R))"
    and nd: "\<not> data_relocks env d d'"
  shows "\<exists>h'. data_move_assign env h d d' = Fine (h', data_result env d d', moved_data d') \<and>
    handles_ok h' (hsets (data_values (data_result env d d')) + R)"
proof (cases d')
  case (ListData m)
  obtain h' where "destroy_data h d = Fine h'" "handles_ok h' (hsets (data_values d') + R)"
    using destroy_data_ok [OF ok] by blast
  then show ?thesis using ListData by (cases d) auto
next
  case d': (Single w)
  show ?thesis
  proof (cases d)
    case (Single v)
    with ok nd CV_moveFrom_ok [of h v w R env] d' show ?thesis by (auto simp: data_relocks_def)
  next
    case (ListData l)
    obtain h1 where h1: "destroy_data h d = Fine h1" "handles_ok h1 (hset w + R)"
      using destroy_data_ok [OF ok] d' by auto
    then show ?thesis using CV_moveFrom_ok [of h1 VNone w R env] ListData d' by (auto simp: CV_move_def)
  qed
qed

lemma copy_values_ok:
  "handles_ok h (hsets new + R) \<Longrightarrow> set_mset (hsets old) \<subseteq> set_mset R \<Longrightarrow>
   \<forall>j. i \<le> j \<and> j < length new \<longrightarrow> new ! j = VNone \<Longrightarrow> i + left \<le> length new \<Longrightarrow> i + left \<le> length old \<Longrightarrow>
   \<exists>h'. let vs = take i new @ map (map_handle (copy_result env)) (take left (drop i old)) @ drop (i + left) new
     in copy_values env h new old i left = Fine (h', vs) \<and> handles_ok h' (hsets vs + R)"
proof (induction left arbitrary: h new i)
  case (Suc left)
  let ?v = "map_handle (copy_result env) (old ! i)"
  have i: "i < length new" "i < length old" "new ! i = VNone" using Suc.prems by auto
  have "new[i := VNone] = new" using i(3) by (metis list_update_id)
  then have "handles_ok h (hset VNone + (hsets new + R))" using Suc.prems(1) by simp
  moreover have "set_mset (hset (old ! i)) \<subseteq> set_mset (hsets new + R)"
    using hset_nth_subset [OF i(2)] Suc.prems(2) by auto
  ultimately obtain h1 where h1: "CV_copyFrom env h VNone (old ! i) = Fine (h1, ?v)"
      "handles_ok h1 (hset ?v + (hsets new + R))"
    using CV_copyFrom_ok [of h VNone "hsets new + R" "old ! i" env] by auto
  have "handles_ok h1 (hsets (new[i := ?v]) + R)"
    using h1(2) hsets_update_val [OF i(1), of ?v] \<open>new[i := VNone] = new\<close> by (simp add: union_assoc)
  from Suc.IH [OF this Suc.prems(2), of "Suc i"] Suc.prems(3-5) obtain h' where
    h': "let vs = take (Suc i) (new[i := ?v]) @ map (map_handle (copy_result env)) (take left (drop (Suc i) old)) @
          drop (Suc i + left) (new[i := ?v])
     in copy_values env h1 (new[i := ?v]) old (Suc i) left = Fine (h', vs) \<and> handles_ok h' (hsets vs + R)"
    by (auto simp: nth_list_update)
  have "take (Suc i) (new[i := ?v]) = take i new @ [?v]" using i(1) by (simp add: take_Suc_conv_app_nth)
  moreover have "take (Suc left) (drop i old) = old ! i # take left (drop (Suc i) old)"
    using i(2) by (simp add: Cons_nth_drop_Suc [symmetric])
  moreover have "drop (Suc i + left) (new[i := ?v]) = drop (i + Suc left) new" by simp
  ultimately show ?case using h' h1(1) i by (simp add: Let_def)
qed simp

text \<open>A clone has the same values, each sharing its object, or none where the mutex was refused.\<close>

definition clone_data :: "nat \<Rightarrow> lock_env \<Rightarrow> event_data \<Rightarrow> event_data" where
  "clone_data mx env d =
     (case d of
        Single v \<Rightarrow> Single (map_handle (copy_result env) v)
      | ListData (Some lv) \<Rightarrow>
          ListData (Some \<lparr>nb_values = nb_values lv,
            lv_values = map (map_handle (copy_result env)) (take (unat (nb_values lv)) (lv_values lv)) @
              replicate (mx - unat (nb_values lv)) VNone\<rparr>)
      | ListData None \<Rightarrow> ListData None)"

lemma Event_clone_ok:
  assumes ok: "handles_ok h (ehset e + R)" and e: "event_ok mx e" and l: "edata e \<noteq> ListData None"
  shows "\<exists>h'. Event_clone mx True env h e = Fine (h', e\<lparr>edata := clone_data mx env (edata e)\<rparr>) \<and>
    handles_ok h' (hsets (data_values (clone_data mx env (edata e))) + (ehset e + R))"
proof (cases "edata e")
  case (Single v)
  obtain h1 where "CV_copyFrom env h VNone v = Fine (h1, map_handle (copy_result env) v)"
      "handles_ok h1 (hset (map_handle (copy_result env) v) + (hset v + R))"
    using CV_copyFrom_ok [of h VNone "hset v + R" v env] ok Single by auto
  then show ?thesis using Single
    by (cases e) (simp add: Event_clone_def Event_copyFrom_def Event_new_def clone_data_def)
next
  case (ListData m)
  then obtain lv where m: "m = Some lv" using l by (cases m) auto
  let ?n = "unat (nb_values lv)"
  let ?new = "replicate mx VNone"
  let ?vs = "map (map_handle (copy_result env)) (take ?n (lv_values lv)) @ replicate (mx - ?n) VNone"
  have len: "length (lv_values lv) = mx" "?n \<le> mx" using e ListData m by (simp_all add: event_ok_def)
  have "handles_ok h (hsets ?new + (hsets (lv_values lv) + R))" using ok ListData m by simp
  from copy_values_ok [OF this, of "lv_values lv" 0 ?n env] len obtain h1
    where h1: "copy_values env h ?new (lv_values lv) 0 ?n = Fine (h1, ?vs)"
      "handles_ok h1 (hsets ?vs + (hsets (lv_values lv) + R))"
    by auto
  then show ?thesis using ListData m len
    by (cases e) (simp add: Event_clone_def Event_copyFrom_def Event_new_def clone_data_def list_value_new_def
        destroy_data_def CV_destroy_def)
qed

lemma move_args_ok:
  "handles_ok h (hsets vs + (hsets args + R)) \<Longrightarrow> \<forall>j. i \<le> j \<and> j < length vs \<longrightarrow> vs ! j = VNone \<Longrightarrow>
   i + length args \<le> length vs \<Longrightarrow>
   \<exists>h'. let ws = take i vs @ map (map_handle (copy_result env)) args @ drop (i + length args) vs
     in move_args env h vs i args = Fine (h', ws) \<and> handles_ok h' (hsets ws + R)"
proof (induction args arbitrary: h vs i)
  case (Cons a args)
  let ?v = "map_handle (copy_result env) a"
  have i: "i < length vs" "vs ! i = VNone" using Cons.prems by auto
  have none: "vs[i := VNone] = vs" using i(2) by (metis list_update_id)
  have "handles_ok h (hset VNone + (hset a + (hsets vs + hsets args + R)))"
    using Cons.prems(1) by (simp add: union_ac)
  from CV_moveFrom_ok [OF this, of env] obtain h1 where h1: "CV_moveFrom env h VNone a = Fine (h1, ?v, VNone)"
      "handles_ok h1 (hset ?v + (hsets vs + hsets args + R))"
    by auto
  have "handles_ok h1 (hsets (vs[i := ?v]) + (hsets args + R))"
    using h1(2) hsets_update_val [OF i(1), of ?v] none by (simp add: union_ac)
  from Cons.IH [OF this, of "Suc i"] Cons.prems(2,3) obtain h' where
    h': "let ws = take (Suc i) (vs[i := ?v]) @ map (map_handle (copy_result env)) args @
          drop (Suc i + length args) (vs[i := ?v])
     in move_args env h1 (vs[i := ?v]) (Suc i) args = Fine (h', ws) \<and> handles_ok h' (hsets ws + R)"
    by (auto simp: nth_list_update)
  have "take (Suc i) (vs[i := ?v]) = take i vs @ [?v]" using i(1) by (simp add: take_Suc_conv_app_nth)
  with h' h1(1) i show ?case by (simp add: Let_def)
qed simp

lemma hsets_map_none [simp]: "hsets (map (\<lambda>a. VNone) xs) = {#}"
  by (induction xs) simp_all

lemma setPriority_edata [simp]: "edata (setPriority p e) = edata e"
  by (cases p) simp_all

text \<open>The data of a constructed event and what is left of the arguments.\<close>

lemma Event_of_args_ok:
  assumes ok: "handles_ok h (hsets args + R)" and len: "length args \<le> mx" and mx: "mx < 2 ^ 32"
  shows "\<exists>h' e rest. Event_of_args mx pool_ok env h i p args = Fine (h', e, rest) \<and>
    handles_ok h' (ehset e + (hsets rest + R)) \<and> event_ok mx e"
proof -
  consider "args = []" | a where "args = [a]" | "\<not> pool_ok" "\<exists>a b as. args = a # b # as"
    | "pool_ok" "\<exists>a b as. args = a # b # as"
    by (metis neq_Nil_conv)
  then show ?thesis
  proof cases
    case 1
    with ok show ?thesis by (simp add: Event_of_args_def event_ok_def)
  next
    case 2
    with CV_moveFrom_ok [of h VNone a R env] ok show ?thesis
      by (auto simp: Event_of_args_def event_ok_def Let_def)
  next
    case 3
    with ok show ?thesis by (auto simp: Event_of_args_def event_ok_def Let_def)
  next
    case 4
    let ?ws = "map (map_handle (copy_result env)) args @ replicate (mx - length args) VNone"
    have "handles_ok h (hsets (replicate mx VNone) + (hsets args + R))" using ok by simp
    from move_args_ok [OF this, of 0 env] len obtain h' where
      "move_args env h (replicate mx VNone) 0 args = Fine (h', ?ws)" "handles_ok h' (hsets ?ws + R)"
      by auto
    moreover have "unat (of_nat (length args) :: u32) = length args"
      using len mx by (simp add: unat_of_nat)
    ultimately show ?thesis using 4 len
      by (auto simp: Event_of_args_def event_ok_def list_value_new_def)
  qed
qed

lemma VP_getHandle_ok:
  assumes ok: "handles_ok h (hset v + R)" and h: "holds a v \<Longrightarrow> CV_handle v \<noteq> None"
  shows "\<exists>h' p v'. VP_getHandle env h a v = Fine (h', p, v') \<and> handles_ok h' (add_mset p (hset v' + R))"
proof (cases "holds a v")
  case True
  then obtain q where q: "CV_handle v = Some q" using h by auto
  with ok PB_move_ok [of h q R env] True show ?thesis by (auto simp: VP_getHandle_def)
qed (use ok in \<open>simp add: VP_getHandle_def\<close>)

lemma VP_getValue_ok:
  assumes ok: "handles_ok h (hset v + R)"
  shows "\<exists>h' r v'. VP_getValue env h a v = Fine (h', r, v') \<and> handles_ok h' (hset r + (hset v' + R))"
proof (cases a)
  case AStr
  with ok show ?thesis by (cases v) (simp_all add: hset_def)
next
  case ABuffer
  have "holds ABuffer v \<Longrightarrow> CV_handle v \<noteq> None" by (cases v) simp_all
  from VP_getHandle_ok [of h v R ABuffer, OF ok this] ABuffer show ?thesis by fastforce
next
  case (ATensor c t)
  have "holds (ATensor c t) v \<Longrightarrow> CV_handle v \<noteq> None" by (cases v) simp_all
  from VP_getHandle_ok [of h v R "ATensor c t", OF ok this] ATensor show ?thesis by fastforce
qed (use ok in simp_all)

lemma get_array_types_ok:
  "handles_ok h (hsets vs + R) \<Longrightarrow> i + length args \<le> length vs \<Longrightarrow>
   \<exists>h' rs vs'. get_array_types env h args vs i = Fine (h', rs, vs') \<and>
     handles_ok h' (hsets rs + (hsets vs' + R)) \<and> length rs = length args"
proof (induction args arbitrary: h vs i R)
  case (Cons a args)
  then have i: "i < length vs" by simp
  have "handles_ok h (hset (vs ! i) + (hsets (vs[i := VNone]) + R))"
    using Cons.prems(1) hsets_update [OF i] by (simp add: union_assoc)
  from VP_getValue_ok [OF this, of env a] obtain h1 r v where
    g: "VP_getValue env h a (vs ! i) = Fine (h1, r, v)"
    and ok1: "handles_ok h1 (hset r + (hset v + (hsets (vs[i := VNone]) + R)))" by blast
  have "handles_ok h1 (hsets (vs[i := v]) + (hset r + R))"
    using ok1 hsets_update_val [OF i, of v] by (simp add: union_ac)
  from Cons.IH [OF this, of "Suc i"] Cons.prems(2) obtain h2 rs vs' where
    "get_array_types env h1 args (vs[i := v]) (Suc i) = Fine (h2, rs, vs')"
    "handles_ok h2 (hsets rs + (hsets vs' + (hset r + R)))" "length rs = length args"
    by auto
  with g i show ?case by (auto simp: union_ac)
qed simp

text \<open>A callback that takes over the handles of its arguments.\<close>

definition consumes :: "callback \<Rightarrow> bool" where
  "consumes f \<longleftrightarrow>
     (\<forall>h vs R. handles_ok h (hsets vs + R) \<longrightarrow> (\<exists>h' r. f h vs = Fine (h', r) \<and> handles_ok h' R))"

lemma consumesD:
  "consumes f \<Longrightarrow> handles_ok h (hsets vs + R) \<Longrightarrow> \<exists>h' st. apply_status f h vs = Fine (h', st) \<and> handles_ok h' R"
  unfolding consumes_def apply_status_def by fastforce

lemma Event_apply_ok:
  assumes ok: "handles_ok h (ehset e + R)" and e: "event_ok mx e" and f: "consumes f"
  shows "\<exists>h' e' st. Event_apply env h args f e = Fine (h', e', st) \<and> handles_ok h' (ehset e' + R) \<and> event_ok mx e'"
proof -
  consider "args = []" | a where "args = [a]" | a b as where "args = a # b # as"
    by (metis neq_Nil_conv)
  then show ?thesis
  proof cases
    case 1
    with ok e show ?thesis by (simp add: Event_apply_def)
  next
    case 2
    show ?thesis
    proof (cases "edata e")
      case (Single v)
      then obtain h1 r v' where g: "VP_getValue env h a v = Fine (h1, r, v')"
          and ok1: "handles_ok h1 (hset r + (hset v' + R))"
        using VP_getValue_ok [of h v R env a] ok by auto
      obtain h2 st where "apply_status f h1 [r] = Fine (h2, st)" "handles_ok h2 (hset v' + R)"
        using consumesD [OF f, of h1 "[r]" "hset v' + R"] ok1 by auto
      with g 2 Single show ?thesis by (simp add: Event_apply_def event_ok_def)
    qed (use 2 ok e in \<open>simp add: Event_apply_def\<close>)
  next
    case 3
    then have many: "args \<noteq> []" "\<And>x. args \<noteq> [x]" by auto
    have app: "Event_apply env h args f e =
      (case edata e of
             ListData l \<Rightarrow>
               (let e' = e\<lparr>edata := ListData None\<rparr>
                in case l of
                     None \<Rightarrow> Fine (h, e', CG_BUFFER_ERROR)
                   | Some cbv \<Rightarrow>
                       if nb_values cbv > 0 \<and> length args = unat (nb_values cbv) then
                         exec_then (apply_noobj_array_types env f h args (lv_values cbv)) (\<lambda>(h1, vs', st).
                           exec_then (destroy_values h1 vs') (\<lambda>h2. Fine (h2, e', st)))
                       else exec_then (destroy_values h (lv_values cbv)) (\<lambda>h1. Fine (h1, e', CG_BUFFER_ERROR)))
           | Single v \<Rightarrow> Fine (h, e, CG_BUFFER_ERROR))"
      by (simp only: 3 Event_apply_def list.case)
    show ?thesis
    proof (cases "edata e")
      case (Single v)
      with ok e show ?thesis by (simp add: app)
    next
      case (ListData l)
      let ?e = "e\<lparr>edata := ListData None\<rparr>"
      have e': "event_ok mx ?e" by (simp add: event_ok_def)
      show ?thesis
      proof (cases l)
        case None
        with ok e' ListData show ?thesis by (simp add: app)
      next
        case (Some cbv)
        have len: "length (lv_values cbv) = mx" "unat (nb_values cbv) \<le> mx"
          using e ListData Some by (simp_all add: event_ok_def)
        have ok': "handles_ok h (hsets (lv_values cbv) + R)" using ok ListData Some by simp
        show ?thesis
        proof (cases "nb_values cbv > 0 \<and> length args = unat (nb_values cbv)")
          case True
          obtain h1 rs vs' where g: "get_array_types env h args (lv_values cbv) 0 = Fine (h1, rs, vs')"
            and ok1: "handles_ok h1 (hsets rs + (hsets vs' + R))"
            using get_array_types_ok [OF ok', of 0 args env] len True by auto
          obtain h2 st where a: "apply_status f h1 rs = Fine (h2, st)" "handles_ok h2 (hsets vs' + R)"
            using consumesD [OF f ok1] by blast
          obtain h3 where "destroy_values h2 vs' = Fine h3" "handles_ok h3 R"
            using destroy_values_ok [OF a(2)] by blast
          with g a True ListData Some e' show ?thesis
            by (simp add: app apply_noobj_array_types_def)
        next
          case False
          obtain h1 where "destroy_values h (lv_values cbv) = Fine h1" "handles_ok h1 R"
            using destroy_values_ok [OF ok'] by blast
          with False ListData Some e' show ?thesis by (auto simp: app)
        qed
      qed
    qed
  qed
qed

section \<open>Programs over events\<close>

text \<open>
  Arguments an event is made of: numbers, strings and nothing, or a new buffer or tensor. The
  flags of the two say whether the allocations of the mutex and of the object succeed.
\<close>

datatype arg_spec =
    PlainArg cg_value
  | BufferArg bool bool raw_buffer
  | TensorArg bool bool bool elem_type tensor

fun create_arg :: "shared_obj sheap \<Rightarrow> arg_spec \<Rightarrow> shared_obj sheap \<times> cg_value" where
  "create_arg h (PlainArg v) = (h, if CV_handle v = None then v else VNone)"
| "create_arg h (BufferArg mok ook r) = (let (h', p) = PB_create_with mok ook h (RawObj r) in (h', VBuffer p))"
| "create_arg h (TensorArg mok ook c t x) =
     (let (h', p) = PB_create_with mok ook h (TensorObj c t x) in (h', VTensor c t p))"

fun create_args :: "shared_obj sheap \<Rightarrow> arg_spec list \<Rightarrow> shared_obj sheap \<times> cg_value list" where
  "create_args h [] = (h, [])"
| "create_args h (a # as) =
     (let (h1, v) = create_arg h a; (h2, vs) = create_args h1 as in (h2, v # vs))"

datatype ev_op =
    EvMake u32 cg_event_priority bool "arg_spec list"
  | EvMove nat
  | EvMoveAssign nat nat
  | EvClone nat bool
  | EvSetTTL nat u32
  | EvGet nat arg_type
  | EvApply nat "arg_type list" cg_status
  | EvDestroy nat

fun ev_operands :: "ev_op \<Rightarrow> nat list" where
  "ev_operands (EvMake i p ok as) = []"
| "ev_operands (EvMove k) = [k]"
| "ev_operands (EvMoveAssign k l) = [k, l]"
| "ev_operands (EvClone k ok) = [k]"
| "ev_operands (EvSetTTL k ms) = [k]"
| "ev_operands (EvGet k a) = [k]"
| "ev_operands (EvApply k as st) = [k]"
| "ev_operands (EvDestroy k) = [k]"

text \<open>The handler used: it destroys its arguments and returns a status.\<close>

definition drop_args :: "cg_status \<Rightarrow> callback" where
  "drop_args st h vs = exec_then (destroy_values h vs) (\<lambda>h'. Fine (h', Some st))"

text \<open>
  One operation. More arguments than \<open>mx\<close> do not compile, so that this constructor does
  nothing here.
\<close>

fun ev_act ::
    "nat \<Rightarrow> lock_env \<Rightarrow> ev_op \<Rightarrow> shared_obj sheap \<Rightarrow> event list \<Rightarrow> (shared_obj sheap \<times> event list) exec" where
  "ev_act mx env (EvMake i p ok specs) h es =
     (if length specs \<le> mx then
        let (h1, args) = create_args h specs
        in exec_then (Event_of_args mx ok env h1 i p args) (\<lambda>(h2, e, rest).
             exec_then (destroy_values h2 rest) (\<lambda>h3. Fine (h3, es @ [e])))
      else Fine (h, es))"
| "ev_act mx env (EvMove k) h es =
     exec_then (Event_move env h (es ! k)) (\<lambda>(h', e, e'). Fine (h', es[k := e'] @ [e]))"
| "ev_act mx env (EvMoveAssign k l) h es =
     exec_then (Event_move_assign (k = l) env h (es ! k) (es ! l)) (\<lambda>(h', e, e'). Fine (h', es[k := e, l := e']))"
| "ev_act mx env (EvClone k ok) h es =
     exec_then (Event_clone mx ok env h (es ! k)) (\<lambda>(h', e). Fine (h', es @ [e]))"
| "ev_act mx env (EvSetTTL k ms) h es = Fine (h, es[k := Event_setTTL (es ! k) ms])"
| "ev_act mx env (EvGet k a) h es =
     exec_then (Event_get env h a (es ! k)) (\<lambda>(h1, r, e).
       exec_then (CV_destroy h1 r) (\<lambda>h2. Fine (h2, es[k := e])))"
| "ev_act mx env (EvApply k args st) h es =
     exec_then (Event_apply env h args (drop_args st) (es ! k)) (\<lambda>(h', e, r). Fine (h', es[k := e]))"
| "ev_act mx env (EvDestroy k) h es =
     exec_then (Event_destroy h (es ! k)) (\<lambda>h'. Fine (h', take k es @ drop (Suc k) es))"

definition all_handles :: "event multiset \<Rightarrow> pbuf multiset" where
  "all_handles M = (\<Sum>e\<in>#M. ehset e)"

lemma all_handles_simps [simp]: "all_handles {#} = {#}" "all_handles (add_mset e M) = ehset e + all_handles M"
  by (simp_all add: all_handles_def)

definition events_ok :: "nat \<Rightarrow> shared_obj sheap \<Rightarrow> event multiset \<Rightarrow> bool" where
  "events_ok mx h M \<longleftrightarrow> handles_ok h (all_handles M) \<and> (\<forall>e\<in>#M. event_ok mx e)"

lemma create_arg_ok:
  "handles_ok h R \<Longrightarrow> create_arg h a = (h', v) \<Longrightarrow> handles_ok h' (hset v + R)"
  by (cases a) (auto split: prod.splits if_splits dest: PB_create_with_ok)

lemma create_args_ok:
  "handles_ok h R \<Longrightarrow> create_args h as = (h', vs) \<Longrightarrow> handles_ok h' (hsets vs + R) \<and> length vs = length as"
proof (induction as arbitrary: h R vs)
  case (Cons a as)
  obtain h1 v where a: "create_arg h a = (h1, v)" by fastforce
  obtain vs1 where vs: "create_args h1 as = (h', vs1)" "vs = v # vs1"
    using Cons.prems(2) a by (auto split: prod.splits)
  from Cons.IH [OF create_arg_ok [OF Cons.prems(1) a] vs(1)] vs(2) show ?case
    by (simp add: union_ac)
qed simp

lemma consumes_drop_args: "consumes (drop_args st)"
  unfolding consumes_def drop_args_def using destroy_values_ok by fastforce

lemma Event_clone_no_block:
  assumes ok: "handles_ok h (ehset e + R)" and e: "event_ok mx e" and l: "edata e \<noteq> ListData None"
  shows "\<exists>h' e'. Event_clone mx pool_ok env h e = Fine (h', e') \<and> event_ok mx e' \<and>
    handles_ok h' (ehset e' + (ehset e + R))"
proof (cases "pool_ok \<or> (\<exists>v. edata e = Single v)")
  case True
  have same: "Event_clone mx pool_ok env h e = Event_clone mx True env h e"
    using True by (cases pool_ok; cases "edata e") (simp_all add: Event_clone_def Event_copyFrom_def)
  have "event_ok mx (e\<lparr>edata := clone_data mx env (edata e)\<rparr>)"
    using e by (auto simp: event_ok_def clone_data_def split: event_data.splits option.splits)
  with Event_clone_ok [OF ok e l, of env] show ?thesis unfolding same by fastforce
next
  case False
  then obtain m where "edata e = ListData m" "\<not> pool_ok" by (cases "edata e") auto
  with ok show ?thesis
    by (auto simp: Event_clone_def Event_copyFrom_def Event_new_def CV_moveFrom_def CV_destroy_def event_ok_def)
qed

lemma Event_moveFrom_ok:
  assumes ok: "handles_ok h (ehset this + (ehset other + R))" and nd: "\<not> data_relocks env (edata this) (edata other)"
  shows "\<exists>h' e e'. Event_moveFrom env h this other = Fine (h', e, e') \<and>
    edata e = data_result env (edata this) (edata other) \<and> edata e' = moved_data (edata other) \<and>
    handles_ok h' (ehset e + (ehset e' + R))"
proof -
  have "hsets (data_values (moved_data d)) = {#}" for d by (cases d) simp_all
  with data_move_assign_ok [OF ok nd] show ?thesis by (auto simp: Event_moveFrom_def)
qed

lemma event_ok_moved:
  "event_ok mx other \<Longrightarrow> edata e = data_result env d (edata other) \<Longrightarrow> event_ok mx e"
  "edata e = moved_data d' \<Longrightarrow> event_ok mx e"
  by (cases d; cases "edata other"; auto simp: event_ok_def) (cases d'; auto simp: event_ok_def)

lemma events_okD:
  assumes "events_ok mx h (add_mset e M)"
  shows "handles_ok h (ehset e + all_handles M)" and "event_ok mx e" and "\<And>x. x \<in># M \<Longrightarrow> event_ok mx x"
  using assms by (simp_all add: events_ok_def)

lemma events_okI:
  "handles_ok h (ehset e + all_handles M) \<Longrightarrow> event_ok mx e \<Longrightarrow> \<forall>x\<in>#M. event_ok mx x \<Longrightarrow> events_ok mx h (add_mset e M)"
  by (simp add: events_ok_def)

lemma data_move_assign_relock:
  assumes ok: "handles_ok h (hsets (data_values d) + (hsets (data_values d') + R))" and d: "data_relocks env d d'"
  shows "data_move_assign env h d d' = Relock \<and> on_relock env = Undefined"
proof -
  obtain v w where vw: "d = Single v" "d' = Single w" and c: "CV_relocks env v w"
    using d by (auto simp: data_relocks_def split: event_data.splits)
  then have s: "same_alternative v w" by (simp add: CV_relocks_def)
  then obtain p q where pq: "CV_handle v = Some p" "CV_handle w = Some q" using same_alternative_handle by blast
  have a: "assign_relocks env p q" using c pq by (simp add: CV_relocks_def)
  have "handles_ok h (add_mset p (add_mset q R))" using ok vw pq by (simp add: add_mset_commute)
  from PB_move_assign_relock [OF this a] have "PB_move_assign False env h p q = Relock" .
  then have "data_move_assign env h d d' = Relock" using vw s pq by (simp add: CV_moveFrom_def)
  then show ?thesis using a by (auto simp: assign_relocks_def self_relock_def split: option.splits)
qed

text \<open>
  What may go wrong: a move assignment that acquires one mutex twice, and a clone of an event
  whose list of values was taken from it.
\<close>

definition ev_fails ::
    "lock_env \<Rightarrow> ev_op \<Rightarrow> event list \<Rightarrow> (shared_obj sheap \<times> event list) exec \<Rightarrow> bool" where
  "ev_fails env a es r =
     (case a of
        EvMoveAssign k l \<Rightarrow> k \<noteq> l \<and> r = Relock \<and> data_relocks env (edata (es ! k)) (edata (es ! l))
      | EvClone k pool_ok \<Rightarrow> pool_ok \<and> r = UB \<and> edata (es ! k) = ListData None
      | _ \<Rightarrow> False)"

lemma data_relocksE:
  assumes "data_relocks env d d'"
  obtains v w p q m where "d = Single v" "d' = Single w" "CV_handle v = Some p" "CV_handle w = Some q"
    "pb_mtx p = Some m" "pb_mtx q = Some m" "on_relock env = Undefined"
proof -
  obtain v w where vw: "d = Single v" "d' = Single w" and c: "CV_relocks env v w"
    using assms by (auto simp: data_relocks_def split: event_data.splits)
  then have s: "same_alternative v w" by (simp add: CV_relocks_def)
  then obtain p q where pq: "CV_handle v = Some p" "CV_handle w = Some q" using same_alternative_handle by blast
  have "assign_relocks env p q" using c pq by (simp add: CV_relocks_def)
  with vw pq that show ?thesis by (auto simp: assign_relocks_def self_relock_def split: option.splits)
qed

lemma ev_failsE:
  assumes "ev_fails env a es r"
  obtains k l where "a = EvMoveAssign k l" "k \<noteq> l" "r = Relock" "data_relocks env (edata (es ! k)) (edata (es ! l))"
    | k where "a = EvClone k True" "r = UB" "edata (es ! k) = ListData None"
  using assms by (cases a) (auto simp: ev_fails_def)

lemma Event_clone_lost_list:
  "edata e = ListData None \<Longrightarrow>
   Event_clone mx pool_ok env h e =
     (if pool_ok then UB else Fine (h, \<lparr>event_id = selector_code kNoEvent, priority = priority e, edata = Single VNone, ttl = ttl e\<rparr>))"
  by (simp add: Event_clone_def Event_copyFrom_def Event_new_def CV_moveFrom_def CV_destroy_def)

lemma mset_split1_obtain:
  assumes "k < length xs"
  obtains R where "mset xs = add_mset (xs ! k) R" and "\<And>a. mset (xs[k := a]) = add_mset a R"
    and "mset (take k xs @ drop (Suc k) xs) = R"
  by (rule mset_split1 [OF assms]) blast

lemma ev_act_ok:
  assumes mx: "mx < 2 ^ 32" and ok: "events_ok mx h (mset es)" and k: "\<forall>k\<in>set (ev_operands a). k < length es"
  shows "(\<exists>h' es'. ev_act mx env a h es = Fine (h', es') \<and> events_ok mx h' (mset es')) \<or>
    (undefined_call (ev_act mx env a h es) \<and> ev_fails env a es (ev_act mx env a h es))"
proof (cases a)
  case (EvMake i p pok specs)
  show ?thesis
  proof (cases "length specs \<le> mx")
    case True
    obtain h1 args where c: "create_args h specs = (h1, args)" by fastforce
    have h1: "handles_ok h1 (hsets args + all_handles (mset es))" "length args \<le> mx"
      using create_args_ok [OF _ c, of "all_handles (mset es)"] ok True by (simp_all add: events_ok_def)
    obtain h2 e rest where e: "Event_of_args mx pok env h1 i p args = Fine (h2, e, rest)" "event_ok mx e"
        "handles_ok h2 (hsets rest + (ehset e + all_handles (mset es)))"
      using Event_of_args_ok [OF h1 mx, of pok env i p] by (auto simp: union_ac)
    obtain h3 where "destroy_values h2 rest = Fine h3" "handles_ok h3 (ehset e + all_handles (mset es))"
      using destroy_values_ok [OF e(3)] by blast
    with c e True EvMake ok show ?thesis by (simp add: events_ok_def)
  next
    case False
    with EvMake ok show ?thesis by simp
  qed
next
  case (EvMove k)
  then obtain R where R: "mset es = add_mset (es ! k) R" "\<And>a. mset (es[k := a]) = add_mset a R"
    using k mset_split1_obtain [of k es] by auto
  note o = events_okD [OF ok [unfolded R(1)]]
  have fresh: "handles_ok h (ehset Event_new + (ehset (es ! k) + all_handles R))"
      "\<not> data_relocks env (edata Event_new) (edata (es ! k))"
    using o(1) by (cases "edata (es ! k)"; simp add: Event_new_def data_relocks_def)+
  obtain h' e e' where m: "Event_moveFrom env h Event_new (es ! k) = Fine (h', e, e')"
      "edata e = data_result env (edata Event_new) (edata (es ! k))" "edata e' = moved_data (edata (es ! k))"
      "handles_ok h' (ehset e + (ehset e' + all_handles R))"
    using Event_moveFrom_ok [OF fresh] by blast
  have "events_ok mx h' (add_mset e (add_mset e' R))"
    using m(4) event_ok_moved(1) [OF o(2) m(2)] event_ok_moved(2) [OF m(3)] o(3) by (simp add: events_ok_def)
  with EvMove m(1) R show ?thesis by (simp add: Event_move_def)
next
  case (EvMoveAssign k l)
  show ?thesis
  proof (cases "k = l")
    case True
    with EvMoveAssign ok show ?thesis by (simp add: Event_move_assign_def)
  next
    case False
    then obtain R where R: "mset es = add_mset (es ! k) (add_mset (es ! l) R)"
        "\<And>a b. mset (es[k := a, l := b]) = add_mset a (add_mset b R)"
      using EvMoveAssign k mset_split2 [of k es l] by auto
    note o = events_okD [OF ok [unfolded R(1)]]
    have h: "handles_ok h (ehset (es ! k) + (ehset (es ! l) + all_handles R))" using o(1) by simp
    show ?thesis
    proof (cases "data_relocks env (edata (es ! k)) (edata (es ! l))")
      case True
      with data_move_assign_relock [OF h] EvMoveAssign False show ?thesis
        by (simp add: Event_move_assign_def Event_moveFrom_def ev_fails_def)
    next
      case nd: False
      from Event_moveFrom_ok [OF h nd] obtain h' e e' where
        m: "Event_moveFrom env h (es ! k) (es ! l) = Fine (h', e, e')"
          "edata e = data_result env (edata (es ! k)) (edata (es ! l))" "edata e' = moved_data (edata (es ! l))"
          "handles_ok h' (ehset e + (ehset e' + all_handles R))"
        by blast
      have "event_ok mx (es ! l)" using o(3) by simp
      then have "events_ok mx h' (add_mset e (add_mset e' R))"
        using m(4) event_ok_moved(1) [OF _ m(2)] event_ok_moved(2) [OF m(3)] o(3) by (simp add: events_ok_def)
      with EvMoveAssign m(1) R False show ?thesis by (simp add: Event_move_assign_def)
    qed
  qed
next
  case (EvClone k pok)
  then obtain R where R: "mset es = add_mset (es ! k) R"
    using k mset_split1_obtain [of k es] by auto
  note o = events_okD [OF ok [unfolded R]]
  show ?thesis
  proof (cases "edata (es ! k) = ListData None")
    case lost: True
    show ?thesis
    proof (cases pok)
      case True
      with lost EvClone show ?thesis by (simp add: Event_clone_lost_list ev_fails_def)
    next
      case False
      with lost EvClone ok show ?thesis by (simp add: Event_clone_lost_list events_ok_def event_ok_def)
    qed
  next
    case False
    from Event_clone_no_block [OF o(1,2) False, of pok env] obtain h' e' where
      c: "Event_clone mx pok env h (es ! k) = Fine (h', e')" "event_ok mx e'"
        "handles_ok h' (ehset e' + (ehset (es ! k) + all_handles R))" by blast
    have "events_ok mx h' (add_mset e' (mset es))" unfolding R using c(2,3) o(2,3) by (simp add: events_ok_def)
    with c(1) EvClone False show ?thesis by simp
  qed
next
  case (EvSetTTL k ms)
  then obtain R where R: "mset es = add_mset (es ! k) R" "\<And>a. mset (es[k := a]) = add_mset a R"
    using k mset_split1_obtain [of k es] by auto
  have "events_ok mx h (add_mset (Event_setTTL (es ! k) ms) R)"
    using events_okD [OF ok [unfolded R(1)]] by (simp add: events_ok_def event_ok_def Event_setTTL_def)
  with EvSetTTL show ?thesis by (simp add: R)
next
  case (EvGet k ty)
  then obtain R where R: "mset es = add_mset (es ! k) R" "\<And>a. mset (es[k := a]) = add_mset a R"
    using k mset_split1_obtain [of k es] by auto
  note o = events_okD [OF ok [unfolded R(1)]]
  show ?thesis
  proof (cases "edata (es ! k)")
    case (Single v)
    then have "handles_ok h (hset v + all_handles R)" using o(1) by simp
    from VP_getValue_ok [OF this, of env ty] obtain h1 r v' where
      g: "VP_getValue env h ty v = Fine (h1, r, v')" "handles_ok h1 (hset r + (hset v' + all_handles R))" by blast
    obtain h2 where "CV_destroy h1 r = Fine h2" "handles_ok h2 (hset v' + all_handles R)"
      using CV_destroy_ok [OF g(2)] by blast
    moreover from this(2) have "events_ok mx h2 (add_mset ((es ! k)\<lparr>edata := Single v'\<rparr>) R)"
      using o(3) by (simp add: events_ok_def event_ok_def)
    ultimately show ?thesis using g EvGet Single by (simp add: Event_get_def R)
  next
    case (ListData m)
    have "CV_destroy h (default_value ty) = Fine h \<or> (\<exists>p. CV_handle (default_value ty) = Some PB_null)"
      by (cases ty) (simp_all add: CV_destroy_def)
    then have "CV_destroy h (default_value ty) = Fine h"
      by (auto simp: CV_destroy_def PB_destroy_def release_mtx_def release_obj_def sp_release_def)
    with EvGet ListData ok show ?thesis by (simp add: Event_get_def)
  qed
next
  case (EvApply k args st)
  then obtain R where R: "mset es = add_mset (es ! k) R" "\<And>a. mset (es[k := a]) = add_mset a R"
    using k mset_split1_obtain [of k es] by auto
  note o = events_okD [OF ok [unfolded R(1)]]
  from Event_apply_ok [OF o(1,2) consumes_drop_args, of env args st] obtain h' e' r where
    "Event_apply env h args (drop_args st) (es ! k) = Fine (h', e', r)"
    and e': "handles_ok h' (ehset e' + all_handles R)" "event_ok mx e'" by blast
  moreover have "events_ok mx h' (add_mset e' R)" using e' o(3) by (simp add: events_ok_def)
  ultimately show ?thesis using EvApply by (simp add: R)
next
  case (EvDestroy k)
  then obtain R where R: "mset es = add_mset (es ! k) R" "mset (take k es @ drop (Suc k) es) = R"
    using k mset_split1_obtain [of k es] by auto
  note o = events_okD [OF ok [unfolded R(1)]]
  from destroy_data_ok [OF o(1)] o(3) EvDestroy R show ?thesis
    by (auto simp: Event_destroy_def events_ok_def)
qed

interpretation ev: handle_ops "ev_act (unat (mx :: u32)) env" ev_operands
    "\<lambda>h es. events_ok (unat (mx :: u32)) h (mset es)" "\<lambda>a h es r. ev_fails env a es r"
  for mx env
  by unfold_locales (rule ev_act_ok; use unsigned_less [of mx, where 'a = nat] in simp)

text \<open>
  What a type reads from a value and what is left of the value: a handle is moved out, unless
  its mutex is missing or refused; then the argument is null and the value stays.
\<close>

fun plain_type :: "arg_type \<Rightarrow> bool" where
  "plain_type ABuffer = False"
| "plain_type (ATensor c t) = False"
| "plain_type a = True"

definition read_at :: "lock_env \<Rightarrow> arg_type \<Rightarrow> cg_value \<Rightarrow> cg_value" where
  "read_at env a v =
     (if plain_type a then (case VP_getValue env heap_empty a v of Fine (h, r, v') \<Rightarrow> r | _ \<Rightarrow> VNone)
      else if holds a v then map_handle (copy_result env) v else default_value a)"

definition left_at :: "lock_env \<Rightarrow> arg_type \<Rightarrow> cg_value \<Rightarrow> cg_value" where
  "left_at env a v =
     (if plain_type a then (case VP_getValue env heap_empty a v of Fine (h, r, v') \<Rightarrow> v' | _ \<Rightarrow> VNone)
      else if holds a v then map_handle (\<lambda>p. if copy_result env p = PB_null then p else PB_null) v
      else v)"

lemma VP_getValue_plain: "plain_type a \<Longrightarrow> VP_getValue env h a v = Fine (h, read_at env a v, left_at env a v)"
  by (cases a) (simp_all add: read_at_def left_at_def)

lemma VP_getValue_exact:
  assumes ok: "handles_ok h (hset v + R)"
  shows "VP_getValue env h a v = Fine (h, read_at env a v, left_at env a v)"
proof (cases "plain_type a")
  case False
  then have a: "a = ABuffer \<or> (\<exists>c t. a = ATensor c t)" by (cases a) simp_all
  show ?thesis
  proof (cases "holds a v")
    case True
    with a obtain p where v: "v = VBuffer p \<and> a = ABuffer \<or> (\<exists>c t. v = VTensor c t p \<and> a = ATensor c t)"
      by (cases v) auto
    then have "handles_ok h (add_mset p R)" using ok by auto
    from PB_move_ok [OF this, of env] v show ?thesis by (auto simp: VP_getHandle_def read_at_def left_at_def)
  next
    case no: False
    with a show ?thesis by (auto simp: VP_getHandle_def read_at_def left_at_def)
  qed
qed (rule VP_getValue_plain)

lemma get_array_types_plain:
  "list_all plain_type args \<Longrightarrow> i + length args \<le> length vs \<Longrightarrow>
   get_array_types env h args vs i =
     Fine (h, map2 (read_at env) args (drop i vs), take i vs @ map2 (left_at env) args (drop i vs) @ drop (i + length args) vs)"
proof (induction args arbitrary: vs i)
  case (Cons a args)
  then have i: "i < length vs" and a: "plain_type a" by simp_all
  have "drop i vs = vs ! i # drop (Suc i) vs" using i by (simp add: Cons_nth_drop_Suc)
  moreover have "take (Suc i) (vs[i := x]) = take i vs @ [x]" for x using i by (simp add: take_Suc_conv_app_nth)
  ultimately show ?case
    using Cons.IH [of "Suc i" "vs[i := left_at env a (vs ! i)]"] Cons.prems i
    by (simp add: VP_getValue_plain [OF a])
qed simp

lemma get_array_types_exact:
  "handles_ok h (hsets vs + R) \<Longrightarrow> i + length args \<le> length vs \<Longrightarrow>
   get_array_types env h args vs i =
     Fine (h, map2 (read_at env) args (drop i vs), take i vs @ map2 (left_at env) args (drop i vs) @ drop (i + length args) vs)"
proof (induction args arbitrary: vs i R)
  case (Cons a args)
  then have i: "i < length vs" by simp
  let ?r = "read_at env a (vs ! i)" and ?v = "left_at env a (vs ! i)"
  have h: "handles_ok h (hset (vs ! i) + (hsets (vs[i := VNone]) + R))"
    using Cons.prems(1) hsets_update [OF i] by (simp add: union_assoc)
  note get = VP_getValue_exact [OF h, of env a]
  have "handles_ok h (hset ?r + (hset ?v + (hsets (vs[i := VNone]) + R)))"
    using VP_getValue_ok [OF h, of env a] by (simp add: get)
  then have "handles_ok h (hsets (vs[i := ?v]) + (hset ?r + R))"
    using hsets_update_val [OF i, of ?v] by (simp add: union_ac)
  note IH = Cons.IH [OF this, of "Suc i"]
  have "drop i vs = vs ! i # drop (Suc i) vs" using i by (simp add: Cons_nth_drop_Suc)
  moreover have "take (Suc i) (vs[i := x]) = take i vs @ [x]" for x using i by (simp add: take_Suc_conv_app_nth)
  ultimately show ?case using IH Cons.prems i by (simp add: get)
qed simp

section \<open>Properties\<close>

text \<open>
  C17. A sequence of constructions, moves, move assignments, clones, changes of the time to
  live, reads, calls of apply and destructions of events has two undefined behaviours,
  whatever allocations and acquisitions fail: the clone of an event whose list of values was
  taken from it (by a move or by apply), and, with \<^verbatim>\<open>std::shared_mutex\<close>, a move assignment
  between two different events whose single values are handles with the same mutex. In every
  other case the sequence returns, every object and mutex is counted once for each value of
  an event that refers to it, no mutex stays locked, and when no event is left nothing is left.
\<close>

theorem events_safe:
  "case run_ops (ev_act (unat (mx :: u32)) env) ev_operands ops heap_empty [] of
     Fine (h, es) \<Rightarrow>
       (let hs = List.map_filter CV_handle (concat (map (data_values \<circ> edata) es))
        in (\<forall>i. entry_count (objs h) i = length (filter (\<lambda>p. pb_obj p = Some i) hs)) \<and>
           (\<forall>i. entry_count (mtxs h) i = length (filter (\<lambda>p. pb_mtx p = Some i) hs)) \<and>
           held h = [] \<and> (if es = [] then objs h = (\<lambda>i. None) \<and> mtxs h = (\<lambda>i. None) else True))
   | Relock \<Rightarrow> on_relock env = Undefined \<and>
       (\<exists>pre k l suf h es v w p q m. ops = pre @ EvMoveAssign k l # suf \<and>
          run_ops (ev_act (unat mx) env) ev_operands pre heap_empty [] = Fine (h, es) \<and>
          k < length es \<and> l < length es \<and> k \<noteq> l \<and> edata (es ! k) = Single v \<and> edata (es ! l) = Single w \<and>
          CV_handle v = Some p \<and> CV_handle w = Some q \<and> pb_mtx p = Some m \<and> pb_mtx q = Some m)
   | UB \<Rightarrow>
       (\<exists>pre k suf h es. ops = pre @ EvClone k True # suf \<and>
          run_ops (ev_act (unat mx) env) ev_operands pre heap_empty [] = Fine (h, es) \<and>
          k < length es \<and> edata (es ! k) = ListData None)"
proof -
  have vals: "hsets vs = mset (List.map_filter CV_handle vs)" for vs
    by (induction vs) (auto simp: List.map_filter_simps hset_def split: option.splits)
  have hs: "all_handles (mset es) = mset (List.map_filter CV_handle (concat (map (data_values \<circ> edata) es)))" for es
    by (induction es) (simp_all flip: vals)
  have "events_ok (unat (mx :: u32)) heap_empty (mset [])"
    by (simp add: events_ok_def heap_empty_ok)
  from ev.run_ok [OF this, of env ops] consider
      h es where "run_ops (ev_act (unat (mx :: u32)) env) ev_operands ops heap_empty [] = Fine (h, es)"
        "events_ok (unat (mx :: u32)) h (mset es)"
    | pre a suf h es where "ops = pre @ a # suf"
        "run_ops (ev_act (unat (mx :: u32)) env) ev_operands pre heap_empty [] = Fine (h, es)"
        "\<forall>k\<in>set (ev_operands a). k < length es"
        "ev_fails env a es (run_ops (ev_act (unat (mx :: u32)) env) ev_operands ops heap_empty [])"
    by metis
  then show ?thesis
  proof cases
    case 1
    let ?hs = "List.map_filter CV_handle (concat (map (data_values \<circ> edata) es))"
    have ok: "handles_ok h (mset ?hs)" using 1(2) by (simp add: events_ok_def hs)
    note c = handles_okD(1,2) [OF ok]
    have "entry_count (objs h) i = length (filter (\<lambda>p. pb_obj p = Some i) ?hs)"
        "entry_count (mtxs h) i = length (filter (\<lambda>p. pb_mtx p = Some i) ?hs)" for i
      using c count_handles [of pb_obj ?hs i] count_handles [of pb_mtx ?hs i] by (simp_all add: counted_def)
    moreover have "objs h = (\<lambda>i. None) \<and> mtxs h = (\<lambda>i. None)" if "es = []"
      using c that by (simp add: counted_empty List.map_filter_simps)
    ultimately show ?thesis using 1(1) handles_okD(3) [OF ok] by (simp add: Let_def)
  next
    case 2
    from 2(4) show ?thesis
    proof (cases rule: ev_failsE)
      case (1 k l)
      from 1(4) show ?thesis
      proof (cases rule: data_relocksE)
        case (1 v w p q m)
        have "k < length es" "l < length es" using 2(3) \<open>a = EvMoveAssign k l\<close> by simp_all
        with 1 2(1,2) \<open>a = EvMoveAssign k l\<close> \<open>k \<noteq> l\<close> \<open>_ = Relock\<close> show ?thesis
          by (simp only: exec.case) blast
      qed
    next
      case (2 k)
      with \<open>ops = pre @ a # suf\<close> \<open>\<forall>k\<in>set (ev_operands a). k < length es\<close>
        \<open>run_ops _ _ pre heap_empty [] = Fine (h, es)\<close> show ?thesis by auto
    qed
  qed
qed

text \<open>
  A clone has the identifier, priority, time to live and values of the event, its handles
  refer to the same objects as those of the event (null for a mutex that was refused), and
  the event itself is unchanged and still owns its own handles.
\<close>

theorem event_clone_shares:
  assumes "handles_ok h (ehset e + R)" and "event_ok mx e" and "edata e \<noteq> ListData None"
  shows "\<exists>h' c. Event_clone mx True env h e = Fine (h', c) \<and>
    event_id c = event_id e \<and> priority c = priority e \<and> ttl c = ttl e \<and>
    edata c = clone_data mx env (edata e) \<and> handles_ok h' (ehset c + (ehset e + R))"
  using Event_clone_ok [OF assms, of env] by fastforce

definition demo_buffer :: "shared_obj sheap \<times> pbuf" where
  "demo_buffer = PB_create_with True True heap_empty (RawObj \<lparr>buf_size = 2, rb_data = Owned (Some [1, 2])\<rparr>)"

definition demo_event :: event where
  "demo_event = \<lparr>event_id = 6, priority = 2,
     edata = ListData (Some \<lparr>nb_values = 2, lv_values = [VInt16 (- 3), VBuffer (snd demo_buffer), VNone]\<rparr>), ttl = 50\<rparr>"

lemma demo_event_ok: "handles_ok (fst demo_buffer) (ehset demo_event + {#})" "event_ok 3 demo_event"
    "edata demo_event \<noteq> ListData None"
proof -
  obtain h p where b: "demo_buffer = (h, p)" by fastforce
  then have "handles_ok h {#p#}"
    using PB_create_with_ok [OF heap_empty_ok, of True True] by (auto simp: demo_buffer_def)
  then show "handles_ok (fst demo_buffer) (ehset demo_event + {#})"
    by (simp add: demo_event_def b hset_def)
qed (simp_all add: demo_event_def event_ok_def)

theorem event_clone_shares_witness:
  "\<exists>h' c. Event_clone 3 True demo_env (fst demo_buffer) demo_event = Fine (h', c) \<and>
    ttl c = 50 \<and> edata c = ListData (Some \<lparr>nb_values = 2, lv_values = [VInt16 (- 3), VBuffer (snd demo_buffer), VNone]\<rparr>)"
proof -
  obtain h' c where "Event_clone 3 True demo_env (fst demo_buffer) demo_event = Fine (h', c)"
      "ttl c = ttl demo_event" "edata c = clone_data 3 demo_env (edata demo_event)"
    using event_clone_shares [OF demo_event_ok, of demo_env] by blast
  moreover have "copy_result demo_env (snd demo_buffer) = snd demo_buffer"
    by (simp add: copy_result_def demo_env_def demo_buffer_def PB_create_with_def Let_def)
  then have "clone_data 3 demo_env (edata demo_event) = edata demo_event"
    by (simp add: demo_event_def clone_data_def)
  ultimately show ?thesis by (simp add: demo_event_def)
qed

text \<open>
  C18. A well formed call of apply: when the event has as many values as there are types and
  each type contains its value, the handler is called once, with every value read at its type
  in order, and its status is returned. The values read are the arguments: numbers and strings
  as getValue converts them, buffers and tensors as the handles themselves (null where the
  mutex is refused). A list of values is taken out of the event and what is left of it is
  destroyed after the call; the single value of an event stays, without the handle or string
  that was moved to the handler.
\<close>

theorem apply_wellformed_calls:
  assumes "Event_wellFormed args e" and "handles_ok h (ehset e + R)" and "event_ok mx e"
  shows "(\<exists>a v. args = [a] \<and> edata e = Single v \<and> VP_contains a v \<and>
      Event_apply env h args f e =
        exec_then (apply_status f h [read_at env a v]) (\<lambda>(h1, st).
          Fine (h1, e\<lparr>edata := Single (left_at env a v)\<rparr>, st))) \<or>
    (\<exists>lv. edata e = ListData (Some lv) \<and> 1 < length args \<and> length args = unat (nb_values lv) \<and>
      list_all2 VP_contains args (take (unat (nb_values lv)) (lv_values lv)) \<and>
      Event_apply env h args f e =
        exec_then (apply_status f h (map2 (read_at env) args (lv_values lv))) (\<lambda>(h1, st).
          exec_then (destroy_values h1 (map2 (left_at env) args (lv_values lv) @ drop (unat (nb_values lv)) (lv_values lv)))
            (\<lambda>h2. Fine (h2, e\<lparr>edata := ListData None\<rparr>, st))))"
proof -
  consider a where "args = [a]" | a b as where "args = a # b # as"
    using assms(1) by (cases args rule: remdups_adj.cases) (auto simp: Event_wellFormed_def)
  then show ?thesis
  proof cases
    case 1
    then obtain v where v: "edata e = Single v" "VP_contains a v"
      using assms(1) by (auto simp: Event_wellFormed_def split: event_data.splits)
    have "handles_ok h (hset v + R)" using assms(2) v(1) by simp
    note get = VP_getValue_exact [OF this, of env a]
    show ?thesis using v by (simp add: 1 Event_apply_def get)
  next
    case (2 a b as)
    obtain lv where lv: "edata e = ListData (Some lv)" "nb_values lv > 0" "length args = unat (nb_values lv)"
        "check_array_types args (lv_values lv) 0"
      using assms(1) by (auto simp: 2 Event_wellFormed_def split: event_data.splits option.splits if_splits)
    have len: "length args \<le> length (lv_values lv)" using lv(1,3) assms(3) by (simp add: event_ok_def)
    have chk: "check_array_types as vs i \<Longrightarrow> i + length as \<le> length vs \<Longrightarrow>
        list_all2 VP_contains as (take (length as) (drop i vs))" for as vs i
      by (induction as arbitrary: i) (auto simp: Cons_nth_drop_Suc [symmetric])
    have con: "list_all2 VP_contains args (take (unat (nb_values lv)) (lv_values lv))"
      using chk [OF lv(4)] len lv(3) by simp
    have "handles_ok h (hsets (lv_values lv) + R)" using assms(2) lv(1) by simp
    from get_array_types_exact [OF this, of 0 args env] len
    have app: "apply_noobj_array_types env f h args (lv_values lv) =
        exec_then (apply_status f h (map2 (read_at env) args (lv_values lv)))
          (\<lambda>(h2, st). Fine (h2, map2 (left_at env) args (lv_values lv) @ drop (length args) (lv_values lv), st))"
      unfolding apply_noobj_array_types_def by simp
    have many: "Event_apply env h args f e =
        exec_then (apply_noobj_array_types env f h args (lv_values lv)) (\<lambda>(h1, vs', st).
          exec_then (destroy_values h1 vs') (\<lambda>h2. Fine (h2, e\<lparr>edata := ListData None\<rparr>, st)))"
      using lv(1-3) by (simp add: 2 Event_apply_def)
    have "1 < length args" by (simp add: 2)
    moreover have "Event_apply env h args f e =
        exec_then (apply_status f h (map2 (read_at env) args (lv_values lv))) (\<lambda>(h1, st).
          exec_then (destroy_values h1 (map2 (left_at env) args (lv_values lv) @ drop (unat (nb_values lv)) (lv_values lv)))
            (\<lambda>h2. Fine (h2, e\<lparr>edata := ListData None\<rparr>, st)))"
      unfolding many app lv(3)
      by (cases "apply_status f h (map2 (read_at env) args (lv_values lv))") (auto simp: case_prod_beta)
    ultimately show ?thesis using lv(1,3) con by blast
  qed
qed

definition demo_call :: event where
  "demo_call = \<lparr>event_id = 1, priority = 1, edata = ListData (Some \<lparr>nb_values = 2,
     lv_values = [VInt8 (- 2), VBuffer (snd demo_buffer), VNone]\<rparr>), ttl = 0\<rparr>"

theorem apply_wellformed_calls_witness:
  "Event_wellFormed [AInt32, ABuffer] demo_call \<and>
   Event_apply demo_env (fst demo_buffer) [AInt32, ABuffer]
     (\<lambda>h vs. Fine (h, if vs = [VInt32 (- 2), VBuffer (snd demo_buffer)] then Some CG_OS_ERROR else None)) demo_call =
   Fine (fst demo_buffer, demo_call\<lparr>edata := ListData None\<rparr>, CG_OS_ERROR)"
proof -
  let ?f = "\<lambda>h vs. Fine (h, if vs = [VInt32 (- 2), VBuffer (snd demo_buffer)] then Some CG_OS_ERROR else None)
    :: (shared_obj sheap \<times> _) exec"
  have wf: "Event_wellFormed [AInt32, ABuffer] demo_call" "event_ok 3 demo_call"
    by (simp_all add: demo_call_def Event_wellFormed_def contains_defs event_ok_def)
  have h: "handles_ok (fst demo_buffer) (ehset demo_call + {#})"
    using demo_event_ok(1) by (simp add: demo_event_def demo_call_def)
  have null: "copy_result demo_env (snd demo_buffer) = snd demo_buffer" "snd demo_buffer \<noteq> PB_null"
    by (simp_all add: copy_result_def demo_env_def demo_buffer_def PB_create_with_def Let_def PB_null_def)
  have rd: "read_at demo_env AInt32 (VInt8 (- 2)) = VInt32 (- 2)"
      "left_at demo_env AInt32 (VInt8 (- 2)) = VInt8 (- 2)"
      "read_at demo_env ABuffer (VBuffer (snd demo_buffer)) = VBuffer (snd demo_buffer)"
      "left_at demo_env ABuffer (VBuffer (snd demo_buffer)) = VBuffer PB_null"
    by (simp_all add: read_at_def left_at_def null)
  have "destroy_values (fst demo_buffer) [VInt8 (- 2), VBuffer PB_null, VNone] = Fine (fst demo_buffer)"
    by (simp add: CV_destroy_def PB_destroy_def release_mtx_def release_obj_def sp_release_def PB_null_def)
  then show ?thesis
    using apply_wellformed_calls [OF wf(1) h wf(2), of demo_env ?f] wf(1)
    by (auto simp: demo_call_def rd apply_status_def)
qed

text \<open>
  The handler of apply is not protected from a wrong type: with one type, the handler is
  called also when the event does not contain it, with the default of the type. With several
  types and another number of values the handler is not called, the result is
  CG_BUFFER_ERROR, and the list is destroyed.
\<close>

theorem apply_mismatch:
  "Event_apply env h [AStr] f \<lparr>event_id = i, priority = p, edata = Single (VInt8 x), ttl = t\<rparr> =
     exec_then (apply_status f h [VStr []])
       (\<lambda>(h', st). Fine (h', \<lparr>event_id = i, priority = p, edata = Single (VInt8 x), ttl = t\<rparr>, st)) \<and>
   Event_apply env h [AInt8, AInt8] f \<lparr>event_id = i, priority = p,
       edata = ListData (Some \<lparr>nb_values = 3, lv_values = [VInt8 x, VInt8 y, VInt8 z]\<rparr>), ttl = t\<rparr> =
     Fine (h, \<lparr>event_id = i, priority = p, edata = ListData None, ttl = t\<rparr>, CG_BUFFER_ERROR)"
  by (simp add: Event_apply_def CV_destroy_def)

text \<open>
  Cloning an event whose list of values was moved out reads through the null pointer: the
  move leaves the variant on the list alternative.
\<close>

theorem clone_after_move_undefined:
  "case Event_move demo_env h \<lparr>event_id = 6, priority = 1, edata = ListData (Some lv), ttl = 0\<rparr> of
     Fine (h', e, e') \<Rightarrow> undefined_call (Event_clone mx True demo_env h' e')
   | _ \<Rightarrow> False"
  by (simp add: Event_move_def Event_moveFrom_def Event_new_def destroy_data_def CV_destroy_def
      undefined_call_def Event_clone_def Event_copyFrom_def)

end
