(* ===== verification/Pack.thy ===== *)
theory Pack
  imports Events
begin

text \<open>
  The wire format of events (\<^verbatim>\<open>cg_pack.hpp\<close>): \<^verbatim>\<open>Pack\<close> appends an event to a vector of bytes,
  \<^verbatim>\<open>Unpack\<close> reads one back. Bytes are written least significant first and memory is copied as
  it is, so the hosts are little-endian; \<^verbatim>\<open>size_t\<close> is taken to be wide enough for a byte count.
\<close>

section \<open>Tags\<close>

datatype cg_value_type =
    kNone | kInt8 | kInt16 | kInt32 | kInt64 | kFloat | kDouble | kUInt8 | kUInt16 | kUInt32 | kUInt64
  | kAny | kStr | kTensor | kCombined

fun value_type_code :: "cg_value_type \<Rightarrow> u8" where
  "value_type_code kNone = 0"
| "value_type_code kInt8 = 1"
| "value_type_code kInt16 = 2"
| "value_type_code kInt32 = 3"
| "value_type_code kInt64 = 4"
| "value_type_code kFloat = 5"
| "value_type_code kDouble = 6"
| "value_type_code kUInt8 = 7"
| "value_type_code kUInt16 = 8"
| "value_type_code kUInt32 = 9"
| "value_type_code kUInt64 = 10"
| "value_type_code kAny = 11"
| "value_type_code kStr = 12"
| "value_type_code kTensor = 13"
| "value_type_code kCombined = 14"

datatype cg_buffer_type = kCopyBuffer | kSharedBuffer

fun buffer_type_code :: "cg_buffer_type \<Rightarrow> u8" where
  "buffer_type_code kCopyBuffer = 0"
| "buffer_type_code kSharedBuffer = 1"

text \<open>The tag \<^verbatim>\<open>pack\<close> passes for the elements of a tensor.\<close>

fun elem_tag :: "elem_type \<Rightarrow> cg_value_type" where
  "elem_tag TInt8 = kInt8"
| "elem_tag TInt16 = kInt16"
| "elem_tag TInt32 = kInt32"
| "elem_tag TInt64 = kInt64"
| "elem_tag TUInt8 = kUInt8"
| "elem_tag TUInt16 = kUInt16"
| "elem_tag TUInt32 = kUInt32"
| "elem_tag TUInt64 = kUInt64"
| "elem_tag TFloat = kFloat"
| "elem_tag TDouble = kDouble"

section \<open>Pack\<close>

text \<open>The bytes, and the identifiers acquired from the memory server on the way.\<close>

record pack_st =
  serialized_object :: "u8 list"
  acquired :: "32 word list"

definition Pack_new :: pack_st where
  "Pack_new = \<lparr>serialized_object = [], acquired = []\<rparr>"

definition Pack_new_data :: "u8 list \<Rightarrow> pack_st" where
  "Pack_new_data data = \<lparr>serialized_object = data, acquired = []\<rparr>"

definition Pack_vector :: "pack_st \<Rightarrow> u8 list" where
  "Pack_vector s = serialized_object s"

definition Pack_reset :: "pack_st \<Rightarrow> pack_st" where
  "Pack_reset s = s\<lparr>serialized_object := []\<rparr>"

definition Pack_size :: "pack_st \<Rightarrow> nat" where
  "Pack_size s = length (serialized_object s)"

definition append_bytes :: "pack_st \<Rightarrow> u8 list \<Rightarrow> pack_st" where
  "append_bytes s bs = s\<lparr>serialized_object := serialized_object s @ bs\<rparr>"

definition low_byte :: "'a::len word \<Rightarrow> u8" where
  "low_byte w = ucast (and w 0xFF)"

definition write_u8 :: "pack_st \<Rightarrow> u8 \<Rightarrow> pack_st" where
  "write_u8 s res = append_bytes s [low_byte res]"

definition write_u16 :: "pack_st \<Rightarrow> u16 \<Rightarrow> pack_st" where
  "write_u16 s res = append_bytes s [low_byte res, low_byte (drop_bit 8 res)]"

definition write_u32 :: "pack_st \<Rightarrow> u32 \<Rightarrow> pack_st" where
  "write_u32 s res =
     append_bytes s [low_byte res, low_byte (drop_bit 8 res), low_byte (drop_bit 16 res), low_byte (drop_bit 24 res)]"

text \<open>An \<^verbatim>\<open>int32_t\<close> is copied into a \<^verbatim>\<open>uint32_t\<close> with the same bits.\<close>

definition write_i32 :: "pack_st \<Rightarrow> 32 word \<Rightarrow> pack_st" where
  "write_i32 s val = write_u32 s val"

definition write_u64 :: "pack_st \<Rightarrow> u64 \<Rightarrow> pack_st" where
  "write_u64 s res =
     append_bytes s [low_byte res, low_byte (drop_bit 8 res), low_byte (drop_bit 16 res), low_byte (drop_bit 24 res),
       low_byte (drop_bit 32 res), low_byte (drop_bit 40 res), low_byte (drop_bit 48 res), low_byte (drop_bit 56 res)]"

text \<open>The memory at a pointer, \<open>n\<close> bytes of it; past the allocation the read is undefined.\<close>

definition memory_bytes :: "u8 list option \<Rightarrow> nat \<Rightarrow> u8 list exec" where
  "memory_bytes d n =
     (if n = 0 then Fine []
      else (case d of None \<Rightarrow> UB | Some bs \<Rightarrow> if n \<le> length bs then Fine (take n bs) else UB))"

definition pack_array :: "nat \<Rightarrow> pack_st \<Rightarrow> u8 list option \<Rightarrow> nat \<Rightarrow> pack_st exec" where
  "pack_array elem s d nbelems =
     (let s1 = write_u32 s (of_nat nbelems)
      in exec_then (memory_bytes d (nbelems * elem)) (\<lambda>bs. Fine (append_bytes s1 bs)))"

definition u32_bytes :: "u32 \<Rightarrow> u8 list" where
  "u32_bytes w = [low_byte w, low_byte (drop_bit 8 w), low_byte (drop_bit 16 w), low_byte (drop_bit 24 w)]"

text \<open>A \<^verbatim>\<open>std::array\<close> of dimensions, as long as its list.\<close>

definition pack_dims :: "pack_st \<Rightarrow> u32 list \<Rightarrow> pack_st" where
  "pack_dims s t = append_bytes (write_u32 s (of_nat (length t))) (concat (map u32_bytes t))"

text \<open>\<open>ms\<close> is the memory server and \<open>ds\<close> the descriptors of the shared buffers.\<close>

definition pack_shared ::
    "mem_server option \<Rightarrow> descs \<Rightarrow> bool \<Rightarrow> pack_st \<Rightarrow> shbuf \<Rightarrow> u32 \<Rightarrow> pack_st exec" where
  "pack_shared ms ds network s buf nbelems =
     exec_then (SB_validFd ds buf) (\<lambda>valid.
       if valid then
         exec_then (deref ds buf) (\<lambda>d.
           let s1 = write_i32 (write_u32 s nbelems) (Descriptor_global_id d)
           in Fine (if ms \<noteq> None \<and> \<not> network then s1\<lparr>acquired := acquired s1 @ [Descriptor_global_id d]\<rparr> else s1))
       else Fine (write_i32 (write_u32 s 0) (- 1)))"

text \<open>The callbacks of \<^verbatim>\<open>lock_shared\<close>, for a tensor and for a raw buffer.\<close>

definition pack_tensor_data ::
    "mem_server option \<Rightarrow> descs \<Rightarrow> bool \<Rightarrow> elem_type \<Rightarrow> pack_st \<Rightarrow> tensor \<Rightarrow> pack_st exec" where
  "pack_tensor_data ms ds network t s v =
     (let s1 = write_u8 s (nb_dims v);
          s2 = pack_dims s1 (dims v);
          s3 = write_u8 s2 (value_type_code (elem_tag t))
      in case t_data v of
           Shm buf \<Rightarrow>
             exec_then (Tensor_size v) (\<lambda>n.
               pack_shared ms ds network (write_u8 s3 (buffer_type_code kSharedBuffer)) buf n)
         | Owned buf \<Rightarrow>
             exec_then (Tensor_size v) (\<lambda>n.
               pack_array (elem_size t) (write_u8 s3 (buffer_type_code kCopyBuffer)) buf (unat n)))"

definition pack_raw_data ::
    "mem_server option \<Rightarrow> descs \<Rightarrow> bool \<Rightarrow> pack_st \<Rightarrow> raw_buffer \<Rightarrow> pack_st exec" where
  "pack_raw_data ms ds network s v =
     (case rb_data v of
        Owned buf \<Rightarrow> pack_array 1 (write_u8 s (buffer_type_code kCopyBuffer)) buf (unat (buf_size v))
      | Shm buf \<Rightarrow> pack_shared ms ds network (write_u8 s (buffer_type_code kSharedBuffer)) buf (buf_size v))"

text \<open>
  \<^verbatim>\<open>lock_shared\<close> on a copy of the handle: when there is no object or the mutex is refused, the
  callback does not run and nothing is written.
\<close>

definition pack_locked ::
    "lock_env \<Rightarrow> shared_obj sheap \<Rightarrow> pbuf \<Rightarrow> (shared_obj \<Rightarrow> pack_st exec) \<Rightarrow> pack_st \<Rightarrow>
     (shared_obj sheap \<times> pack_st) exec" where
  "pack_locked env h p f s =
     exec_then (PB_copy env h p) (\<lambda>(h1, t).
       exec_then (PB_lock_shared env h1 t f (Fine s)) (\<lambda>(h2, lockError, r).
         exec_then r (\<lambda>s'.
           exec_then (PB_destroy h2 t) (\<lambda>h3. Fine (h3, s')))))"

fun pack_tensor_object ::
    "mem_server option \<Rightarrow> descs \<Rightarrow> bool \<Rightarrow> elem_type \<Rightarrow> pack_st \<Rightarrow> shared_obj \<Rightarrow> pack_st exec" where
  "pack_tensor_object ms ds network t s (TensorObj c t' v) = pack_tensor_data ms ds network t s v"
| "pack_tensor_object ms ds network t s (RawObj r) = UB"

fun pack_raw_object :: "mem_server option \<Rightarrow> descs \<Rightarrow> bool \<Rightarrow> pack_st \<Rightarrow> shared_obj \<Rightarrow> pack_st exec" where
  "pack_raw_object ms ds network s (RawObj r) = pack_raw_data ms ds network s r"
| "pack_raw_object ms ds network s (TensorObj c t v) = UB"

definition pack_tensor ::
    "mem_server option \<Rightarrow> descs \<Rightarrow> bool \<Rightarrow> lock_env \<Rightarrow> shared_obj sheap \<Rightarrow> elem_type \<Rightarrow> pbuf \<Rightarrow> pack_st \<Rightarrow>
     (shared_obj sheap \<times> pack_st) exec" where
  "pack_tensor ms ds network env h t p s =
     (let s1 = write_u8 s (value_type_code kTensor)
      in pack_locked env h p (pack_tensor_object ms ds network t s1) s1)"

text \<open>The const case is a second copy of the same code.\<close>

definition pack_const_tensor ::
    "mem_server option \<Rightarrow> descs \<Rightarrow> bool \<Rightarrow> lock_env \<Rightarrow> shared_obj sheap \<Rightarrow> elem_type \<Rightarrow> pbuf \<Rightarrow> pack_st \<Rightarrow>
     (shared_obj sheap \<times> pack_st) exec" where
  "pack_const_tensor ms ds network env h t p s =
     (let s1 = write_u8 s (value_type_code kTensor)
      in pack_locked env h p (pack_tensor_object ms ds network t s1) s1)"

fun pack_value ::
    "mem_server option \<Rightarrow> descs \<Rightarrow> bool \<Rightarrow> lock_env \<Rightarrow> shared_obj sheap \<Rightarrow> cg_value \<Rightarrow> pack_st \<Rightarrow>
     (shared_obj sheap \<times> pack_st) exec" where
  "pack_value ms ds network env h VNone s = Fine (h, write_u8 s (value_type_code kNone))"
| "pack_value ms ds network env h (VUInt8 x) s = Fine (h, write_u8 (write_u8 s (value_type_code kUInt8)) x)"
| "pack_value ms ds network env h (VUInt16 x) s = Fine (h, write_u16 (write_u8 s (value_type_code kUInt16)) x)"
| "pack_value ms ds network env h (VUInt32 x) s = Fine (h, write_u32 (write_u8 s (value_type_code kUInt32)) x)"
| "pack_value ms ds network env h (VUInt64 x) s = Fine (h, write_u64 (write_u8 s (value_type_code kUInt64)) x)"
| "pack_value ms ds network env h (VInt8 x) s = Fine (h, write_u8 (write_u8 s (value_type_code kInt8)) x)"
| "pack_value ms ds network env h (VInt16 x) s = Fine (h, write_u16 (write_u8 s (value_type_code kInt16)) x)"
| "pack_value ms ds network env h (VInt32 x) s = Fine (h, write_u32 (write_u8 s (value_type_code kInt32)) x)"
| "pack_value ms ds network env h (VInt64 x) s = Fine (h, write_u64 (write_u8 s (value_type_code kInt64)) x)"
| "pack_value ms ds network env h (VFloat x) s = Fine (h, write_u32 (write_u8 s (value_type_code kFloat)) x)"
| "pack_value ms ds network env h (VDouble x) s = Fine (h, write_u64 (write_u8 s (value_type_code kDouble)) x)"
| "pack_value ms ds network env h (VBuffer p) s =
     (let s1 = write_u8 s (value_type_code kAny)
      in pack_locked env h p (pack_raw_object ms ds network s1) s1)"
| "pack_value ms ds network env h (VStr str) s =
     exec_then (pack_array 1 (write_u8 s (value_type_code kStr)) (Some (str @ [0])) (length str + 1))
       (\<lambda>s'. Fine (h, s'))"
| "pack_value ms ds network env h (VTensor c t p) s =
     exec_then (PB_copy env h p) (\<lambda>(h1, anyt).
       exec_then (if c then pack_const_tensor ms ds network env h1 t anyt s
                  else pack_tensor ms ds network env h1 t anyt s) (\<lambda>(h2, s').
         exec_then (PB_destroy h2 anyt) (\<lambda>h3. Fine (h3, s'))))"

text \<open>The loop over the values of a list.\<close>

fun pack_values ::
    "mem_server option \<Rightarrow> descs \<Rightarrow> bool \<Rightarrow> lock_env \<Rightarrow> shared_obj sheap \<Rightarrow> cg_value list \<Rightarrow> nat \<Rightarrow> nat \<Rightarrow> pack_st \<Rightarrow>
     (shared_obj sheap \<times> pack_st) exec" where
  "pack_values ms ds network env h vs i 0 s = Fine (h, s)"
| "pack_values ms ds network env h vs i (Suc left) s =
     (if i < length vs then
        exec_then (pack_value ms ds network env h (vs ! i) s) (\<lambda>(h1, s1).
          pack_values ms ds network env h1 vs (Suc i) left s1)
      else UB)"

text \<open>\<^verbatim>\<open>pack\<close> takes the event by value and destroys it.\<close>

definition pack_event ::
    "mem_server option \<Rightarrow> descs \<Rightarrow> bool \<Rightarrow> lock_env \<Rightarrow> shared_obj sheap \<Rightarrow> u32 \<Rightarrow> event \<Rightarrow> pack_st \<Rightarrow>
     (shared_obj sheap \<times> pack_st) exec" where
  "pack_event ms ds network env h nodeid evt s =
     (let s1 = write_u32 s nodeid;
          s2 = write_u32 s1 (event_id evt);
          s3 = write_u8 s2 (ucast (priority evt))
      in exec_then
           (case edata evt of
              Single v \<Rightarrow> pack_value ms ds network env h v (write_u8 s3 0)
            | ListData None \<Rightarrow> UB
            | ListData (Some cv) \<Rightarrow>
                pack_values ms ds network env h (lv_values cv) 0 (unat (nb_values cv))
                  (write_u32 (write_u8 s3 1) (nb_values cv)))
           (\<lambda>(h1, s'). exec_then (Event_destroy h1 evt) (\<lambda>h2. Fine (h2, s'))))"

section \<open>Unpack\<close>

text \<open>
  The object has only a pointer: the size given to the constructor is ignored. Reading past
  the end of the bytes is undefined.
\<close>

definition Unpack_new :: "u8 list \<Rightarrow> nat \<Rightarrow> u8 list" where
  "Unpack_new data sz = data"

definition take_bytes :: "nat \<Rightarrow> u8 list \<Rightarrow> (u8 list \<times> u8 list) exec" where
  "take_bytes n bs = (if n \<le> length bs then Fine (take n bs, drop n bs) else UB)"

fun le_word :: "u8 list \<Rightarrow> 'a::len word" where
  "le_word [] = 0"
| "le_word (b # bs) = or (ucast b) (push_bit 8 (le_word bs))"

text \<open>\<^verbatim>\<open>read_value\<close> at a type of \<open>n\<close> bytes.\<close>

definition read_value :: "nat \<Rightarrow> u8 list \<Rightarrow> ('a::len word \<times> u8 list) exec" where
  "read_value n bs = exec_then (take_bytes n bs) (\<lambda>(v, rest). Fine (le_word v, rest))"

fun read_elems :: "nat \<Rightarrow> u8 list \<Rightarrow> (u32 list \<times> u8 list) exec" where
  "read_elems 0 bs = Fine ([], bs)"
| "read_elems (Suc n) bs =
     exec_then (read_value 4 bs) (\<lambda>(x, r). exec_then (read_elems n r) (\<lambda>(xs, r'). Fine (x # xs, r')))"

text \<open>\<^verbatim>\<open>read_array\<close> of \<open>n\<close> dimensions: the length in the bytes is skipped.\<close>

definition read_array :: "nat \<Rightarrow> u8 list \<Rightarrow> (u32 list \<times> u8 list) exec" where
  "read_array n bs = exec_then (read_value 4 bs :: (u32 \<times> u8 list) exec) (\<lambda>(unused, r). read_elems n r)"

definition maybe :: "cg_value_type \<Rightarrow> u8 list \<Rightarrow> (bool \<times> u8 list) exec" where
  "maybe k bs =
     (case bs of [] \<Rightarrow> UB | b # r \<Rightarrow> if b = value_type_code k then Fine (True, r) else Fine (False, bs))"

text \<open>
  Which allocations succeed, as functions of the number of bytes left to read when they are
  made, and the platform: the limits of a list and of a tensor, and the mutexes.
\<close>

record unpack_env =
  max_values :: nat
  max_dims :: nat
  buf_ok :: "nat \<Rightarrow> bool"
  mtx_ok :: "nat \<Rightarrow> bool"
  obj_ok :: "nat \<Rightarrow> bool"
  list_ok :: bool
  locks :: lock_env

record unpack_st =
  data_pointer :: "u8 list"
  u_heap :: "shared_obj sheap"
  u_descs :: descs
  next_desc :: nat
  released :: "32 word list"

text \<open>\<^verbatim>\<open>make_typed_buffer\<close> and \<^verbatim>\<open>make_raw_buffer\<close>; copying to a null pointer is undefined.\<close>

definition make_typed_buffer :: "unpack_env \<Rightarrow> nat \<Rightarrow> nat \<Rightarrow> u8 list \<Rightarrow> (u8 list option \<times> u8 list) exec" where
  "make_typed_buffer ue elem n bs =
     (if buf_ok ue (length bs) then exec_then (take_bytes (n * elem) bs) (\<lambda>(v, r). Fine (Some v, r)) else UB)"

definition make_raw_buffer :: "unpack_env \<Rightarrow> nat \<Rightarrow> u8 list \<Rightarrow> (u8 list option \<times> u8 list) exec" where
  "make_raw_buffer ue n bs =
     (if buf_ok ue (length bs) then exec_then (take_bytes n bs) (\<lambda>(v, r). Fine (Some v, r)) else UB)"

text \<open>
  \<^verbatim>\<open>create_with\<close>, and returning the handle as a value: it is moved into the variant and the
  local is destroyed.
\<close>

definition return_object ::
    "unpack_env \<Rightarrow> unpack_st \<Rightarrow> shared_obj \<Rightarrow> (pbuf \<Rightarrow> cg_value) \<Rightarrow> (unpack_st \<times> cg_value) exec" where
  "return_object ue s x mk =
     (let n = length (data_pointer s);
          (h1, p) = PB_create_with (mtx_ok ue n) (obj_ok ue n) (u_heap s) x
      in exec_then (PB_move (locks ue) h1 p) (\<lambda>(h2, q, p').
           exec_then (PB_destroy h2 p') (\<lambda>h3. Fine (s\<lparr>u_heap := h3\<rparr>, mk q))))"

text \<open>
  A shared buffer from its identifier: the server gives a new descriptor, is told to release
  the reference the sender acquired, and a raw buffer is made whatever the element type.
\<close>

definition unpack_shared ::
    "mem_server option \<Rightarrow> unpack_env \<Rightarrow> unpack_st \<Rightarrow> u32 \<Rightarrow> 32 word \<Rightarrow> (unpack_st \<times> cg_value) exec" where
  "unpack_shared ms ue s nb global_id =
     (if nb = 0 then Fine (s, VNone)
      else (case ms of
              None \<Rightarrow> Fine (s, VNone)
            | Some server \<Rightarrow>
                (case ms_get_buffer server global_id of
                   None \<Rightarrow> Fine (s, VNone)
                 | Some d \<Rightarrow>
                     let fd = next_desc s;
                         s1 = s\<lparr>u_descs := (u_descs s)(fd := Some d), next_desc := Suc fd,
                                released := released s @ [global_id]\<rparr>
                     in exec_then (RawBuffer_new_shared (u_descs s1) (SB_new (Some fd))) (\<lambda>r.
                          return_object ue s1 (RawObj r) VBuffer))))"

definition unpack_tensor ::
    "mem_server option \<Rightarrow> unpack_env \<Rightarrow> elem_type \<Rightarrow> u8 \<Rightarrow> u32 list \<Rightarrow> unpack_st \<Rightarrow> (unpack_st \<times> cg_value) exec" where
  "unpack_tensor ms ue t nd dl s =
     exec_then (read_value 1 (data_pointer s) :: (u8 \<times> u8 list) exec) (\<lambda>(buffer_type, r1).
       if buffer_type = buffer_type_code kCopyBuffer then
         exec_then (read_value 4 r1 :: (u32 \<times> u8 list) exec) (\<lambda>(nb, r2).
           exec_then (make_typed_buffer ue (elem_size t) (unat nb) r2) (\<lambda>(data, r3).
             return_object ue (s\<lparr>data_pointer := r3\<rparr>) (TensorObj False t (Tensor_new nd dl data))
               (VTensor False t)))
       else if buffer_type = buffer_type_code kSharedBuffer then
         exec_then (read_value 4 r1 :: (u32 \<times> u8 list) exec) (\<lambda>(nb_elems, r2).
           exec_then (read_value 4 r2 :: (32 word \<times> u8 list) exec) (\<lambda>(global_id, r3).
             unpack_shared ms ue (s\<lparr>data_pointer := r3\<rparr>) nb_elems global_id))
       else Fine (s\<lparr>data_pointer := r1\<rparr>, VNone))"

definition unpack_raw ::
    "mem_server option \<Rightarrow> unpack_env \<Rightarrow> unpack_st \<Rightarrow> (unpack_st \<times> cg_value) exec" where
  "unpack_raw ms ue s =
     exec_then (read_value 1 (data_pointer s) :: (u8 \<times> u8 list) exec) (\<lambda>(buf_type, r1).
       if buf_type = buffer_type_code kCopyBuffer then
         exec_then (read_value 4 r1 :: (u32 \<times> u8 list) exec) (\<lambda>(sz, r2).
           exec_then (make_raw_buffer ue (unat sz) r2) (\<lambda>(data, r3).
             return_object ue (s\<lparr>data_pointer := r3\<rparr>) (RawObj (RawBuffer_new sz data)) VBuffer))
       else if buf_type = buffer_type_code kSharedBuffer then
         exec_then (read_value 4 r1 :: (u32 \<times> u8 list) exec) (\<lambda>(sz, r2).
           exec_then (read_value 4 r2 :: (32 word \<times> u8 list) exec) (\<lambda>(global_id, r3).
             unpack_shared ms ue (s\<lparr>data_pointer := r3\<rparr>) sz global_id))
       else Fine (s\<lparr>data_pointer := r1\<rparr>, VNone))"

text \<open>
  The string is built from one byte less than the size read; with size 0 the length wraps
  around and the constructor reads past the buffer.
\<close>

definition unpack_string :: "u8 list \<Rightarrow> (u8 list \<times> u8 list) exec" where
  "unpack_string bs =
     exec_then (read_value 4 bs :: (u32 \<times> u8 list) exec) (\<lambda>(str_size, r1).
       exec_then (take_bytes (unat str_size) r1) (\<lambda>(buf, r2).
         exec_then (memory_bytes (Some buf) (unat (str_size - 1))) (\<lambda>str. Fine (str, r2))))"

text \<open>The chain of tests on the element tag of a tensor.\<close>

fun unpack_elems ::
    "mem_server option \<Rightarrow> unpack_env \<Rightarrow> elem_type list \<Rightarrow> u8 \<Rightarrow> u32 list \<Rightarrow> unpack_st \<Rightarrow>
     (unpack_st \<times> cg_value) exec" where
  "unpack_elems ms ue [] nd ds s = Fine (s, VNone)"
| "unpack_elems ms ue (t # ts) nd ds s =
     exec_then (maybe (elem_tag t) (data_pointer s)) (\<lambda>(yes, r).
       if yes then unpack_tensor ms ue t nd ds (s\<lparr>data_pointer := r\<rparr>) else unpack_elems ms ue ts nd ds s)"

definition elem_order :: "elem_type list" where
  "elem_order = [TInt8, TInt16, TInt32, TInt64, TUInt8, TUInt16, TUInt32, TUInt64, TFloat, TDouble]"

text \<open>A number: \<open>n\<close> bytes read as a word.\<close>

definition unpack_num ::
    "nat \<Rightarrow> ('a::len word \<Rightarrow> cg_value) \<Rightarrow> unpack_st \<Rightarrow> u8 list \<Rightarrow> (unpack_st \<times> cg_value) exec" where
  "unpack_num n mk s r = exec_then (read_value n r) (\<lambda>(x, r'). Fine (s\<lparr>data_pointer := r'\<rparr>, mk x))"

definition unpack_value :: "mem_server option \<Rightarrow> unpack_env \<Rightarrow> unpack_st \<Rightarrow> (unpack_st \<times> cg_value) exec" where
  "unpack_value ms ue s =
     exec_then (maybe kNone (data_pointer s)) (\<lambda>(yes, r). if yes then Fine (s\<lparr>data_pointer := r\<rparr>, VNone) else
     exec_then (maybe kUInt8 r) (\<lambda>(yes, r). if yes then unpack_num 1 VUInt8 s r else
     exec_then (maybe kInt8 r) (\<lambda>(yes, r). if yes then unpack_num 1 VInt8 s r else
     exec_then (maybe kUInt16 r) (\<lambda>(yes, r). if yes then unpack_num 2 VUInt16 s r else
     exec_then (maybe kInt16 r) (\<lambda>(yes, r). if yes then unpack_num 2 VInt16 s r else
     exec_then (maybe kUInt32 r) (\<lambda>(yes, r). if yes then unpack_num 4 VUInt32 s r else
     exec_then (maybe kInt32 r) (\<lambda>(yes, r). if yes then unpack_num 4 VInt32 s r else
     exec_then (maybe kFloat r) (\<lambda>(yes, r). if yes then unpack_num 4 VFloat s r else
     exec_then (maybe kDouble r) (\<lambda>(yes, r). if yes then unpack_num 8 VDouble s r else
     exec_then (maybe kAny r) (\<lambda>(yes, r). if yes then unpack_raw ms ue (s\<lparr>data_pointer := r\<rparr>) else
     exec_then (maybe kStr r) (\<lambda>(yes, r).
       if yes then exec_then (unpack_string r) (\<lambda>(str, r'). Fine (s\<lparr>data_pointer := r'\<rparr>, VStr str)) else
     exec_then (maybe kTensor r) (\<lambda>(yes, r).
       if yes then
         exec_then (read_value 1 r) (\<lambda>(nd, r1).
           exec_then (read_array (max_dims ue) r1) (\<lambda>(ds, r2).
             unpack_elems ms ue elem_order nd ds (s\<lparr>data_pointer := r2\<rparr>)))
       else Fine (s\<lparr>data_pointer := r\<rparr>, VNone)))))))))))))"

text \<open>The loop that fills a list: nothing compares its length with that of the array.\<close>

fun unpack_values ::
    "mem_server option \<Rightarrow> unpack_env \<Rightarrow> cg_value list \<Rightarrow> nat \<Rightarrow> nat \<Rightarrow> unpack_st \<Rightarrow>
     (unpack_st \<times> cg_value list) exec" where
  "unpack_values ms ue vs i 0 s = Fine (s, vs)"
| "unpack_values ms ue vs i (Suc left) s =
     exec_then (unpack_value ms ue s) (\<lambda>(s1, x).
       if i < length vs then
         exec_then (CV_moveFrom (locks ue) (u_heap s1) (vs ! i) x) (\<lambda>(h2, v, x').
           exec_then (CV_destroy h2 x') (\<lambda>h3.
             unpack_values ms ue (vs[i := v]) (Suc i) left (s1\<lparr>u_heap := h3\<rparr>)))
       else UB)"

definition unpack_priority :: "u8 \<Rightarrow> cg_event_priority" where
  "unpack_priority n = (if n = 0 then kLowPriority else if n = 2 then kHighPriority else kNormalPriority)"

text \<open>An event from one value, as \<^verbatim>\<open>Event(event_id, priority, std::move(val))\<close> makes it.\<close>

definition event_of_value ::
    "unpack_env \<Rightarrow> unpack_st \<Rightarrow> u32 \<Rightarrow> cg_event_priority \<Rightarrow> cg_value \<Rightarrow> (unpack_st \<times> event) exec" where
  "event_of_value ue s i p val =
     exec_then (CV_move (locks ue) (u_heap s) val) (\<lambda>(h1, tmp, val').
       exec_then (Event_of_args (max_values ue) (list_ok ue) (locks ue) h1 i p [tmp]) (\<lambda>(h2, e, rest).
         exec_then (destroy_values h2 (rest @ [val'])) (\<lambda>h3. Fine (s\<lparr>u_heap := h3\<rparr>, e))))"

definition unpack_event :: "mem_server option \<Rightarrow> unpack_env \<Rightarrow> unpack_st \<Rightarrow> (unpack_st \<times> u32 \<times> event) exec" where
  "unpack_event ms ue s =
     exec_then (read_value 4 (data_pointer s)) (\<lambda>(nodeid, r1).
     exec_then (read_value 4 r1) (\<lambda>(event_id, r2).
     exec_then (read_value 1 r2) (\<lambda>(priority_nb, r3).
     exec_then (read_value 1 r3 :: (u8 \<times> u8 list) exec) (\<lambda>(dataCase, r4).
       let p = unpack_priority priority_nb
       in if dataCase = 0 then
            exec_then (unpack_value ms ue (s\<lparr>data_pointer := r4\<rparr>)) (\<lambda>(s1, val).
              exec_then (event_of_value ue s1 event_id p val) (\<lambda>(s2, e). Fine (s2, nodeid, e)))
          else if dataCase = 1 then
            exec_then (read_value 4 r4) (\<lambda>(nb, r5).
              if list_ok ue then
                exec_then (unpack_values ms ue (lv_values (list_value_new (max_values ue))) 0 (unat nb)
                    (s\<lparr>data_pointer := r5\<rparr>)) (\<lambda>(s1, vs).
                  Fine (s1, nodeid, Event_of_list event_id (Some \<lparr>nb_values = nb, lv_values = vs\<rparr>) p))
              else UB)
          else
            exec_then (event_of_value ue (s\<lparr>data_pointer := r4\<rparr>) (selector_code kDo) p VNone) (\<lambda>(s2, e).
              Fine (s2, nodeid, e))))))"

end
