(* ===== verification/RoundTrip.thy ===== *)
theory RoundTrip
  imports Pack
begin

text \<open>
  What \<^verbatim>\<open>Unpack\<close> makes of the bytes of \<^verbatim>\<open>Pack\<close>: the content of an event, independent of the
  heap its buffers live in, and the proof that it arrives; then the cases in which it does not.
\<close>

section \<open>Objects a call keeps\<close>

text \<open>Objects that are still alive have their old content; new ones have new addresses.\<close>

definition keeps :: "'o sheap \<Rightarrow> 'o sheap \<Rightarrow> bool" where
  "keeps h h' \<longleftrightarrow> fresh h \<le> fresh h' \<and>
     (\<forall>j. j < fresh h \<and> objs h' j \<noteq> None \<longrightarrow> map_option fst (objs h' j) = map_option fst (objs h j))"

lemma keeps_refl [simp]: "keeps h h"
  by (simp add: keeps_def)

lemma keeps_trans: "keeps h h1 \<Longrightarrow> keeps h1 h2 \<Longrightarrow> keeps h h2"
  unfolding keeps_def by (metis (no_types, lifting) map_option_is_None order.strict_trans2 order.trans)

lemma keeps_held [simp]: "keeps h (h'\<lparr>held := x\<rparr>) \<longleftrightarrow> keeps h h'" "keeps (h\<lparr>held := x\<rparr>) h' \<longleftrightarrow> keeps h h'"
  by (simp_all add: keeps_def)

lemma keeps_mtxs [simp]: "keeps h (h'\<lparr>mtxs := x\<rparr>) \<longleftrightarrow> keeps h h'" "keeps (h\<lparr>mtxs := x\<rparr>) h' \<longleftrightarrow> keeps h h'"
  by (simp_all add: keeps_def)

lemma retain_obj_keeps: "retain_obj h p = Fine h' \<Longrightarrow> keeps h h'"
  by (auto simp: retain_obj_def sp_retain_def keeps_def split: option.splits if_splits)

lemma release_obj_keeps: "release_obj h p = Fine h' \<Longrightarrow> keeps h h'"
  by (auto simp: release_obj_def sp_release_def keeps_def split: option.splits if_splits)

lemma mtx_keeps: "retain_mtx h p = Fine h' \<Longrightarrow> keeps h h'" "release_mtx h p = Fine h' \<Longrightarrow> keeps h h'"
  by (auto simp: retain_mtx_def release_mtx_def)

lemma section_keeps:
  "enter_section env h m = Fine (h', e) \<Longrightarrow> keeps h h'" "exit_section h m e = Fine h' \<Longrightarrow> keeps h h'"
  by (auto simp: enter_section_def exit_section_def split: if_splits relock.splits)

lemma critical_keeps:
  assumes "critical env h m body = Fine (h', r)" and "\<And>e h1 h2 r. body e h1 = Fine (h2, r) \<Longrightarrow> keeps h1 h2"
  shows "keeps h h'"
  using assms by (auto simp: critical_def) (meson keeps_trans section_keeps)

lemma PB_copy_keeps:
  assumes "PB_copy env h p = Fine (h', q)"
  shows "keeps h h'"
proof (cases "pb_mtx p")
  case (Some m)
  then obtain h1 o1 ok where c: "critical env h m (\<lambda>err h1.
              if \<not> err then exec_then (retain_obj h1 (pb_obj p)) (\<lambda>h2. Fine (h2, (pb_obj p, True)))
              else Fine (h1, (None, False))) = Fine (h1, (o1, ok))"
    and h': "(if \<not> ok then Fine (h1, PB_null)
               else exec_then (retain_mtx h1 (pb_mtx p))
                      (\<lambda>h3. Fine (h3, \<lparr>pb_obj = o1, pb_mtx = pb_mtx p\<rparr>))) = Fine (h', q)"
    using assms by (auto simp: PB_copy_def)
  have "keeps h h1" by (rule critical_keeps [OF c]) (auto split: if_splits dest: retain_obj_keeps)
  moreover have "keeps h1 h'" using h' by (auto split: if_splits dest: mtx_keeps)
  ultimately show ?thesis by (rule keeps_trans)
qed (use assms in \<open>simp add: PB_copy_def\<close>)

lemma PB_move_keeps: "PB_move env h p = Fine (h', q, p') \<Longrightarrow> keeps h h'"
  by (auto simp: PB_move_def split: option.splits if_splits elim!: critical_keeps)

lemma PB_destroy_keeps: "PB_destroy h p = Fine h' \<Longrightarrow> keeps h h'"
  by (auto simp: PB_destroy_def dest!: release_obj_keeps mtx_keeps intro: keeps_trans)

lemma PB_create_with_keeps:
  assumes ok: "handles_ok h H" and "PB_create_with mok ook h x = (h', p)"
  shows "keeps h h'"
  using assms(2) by (auto simp: PB_create_with_def keeps_def sp_make_def Let_def split: if_splits)

section \<open>The content of values and events\<close>

text \<open>A value without its heap: the handle is replaced by the object it refers to.\<close>

datatype wire = Plain cg_value | Object shared_obj | NoObject

definition wire_value :: "shared_obj sheap \<Rightarrow> cg_value \<Rightarrow> wire" where
  "wire_value h v =
     (case CV_handle v of
        None \<Rightarrow> Plain v
      | Some p \<Rightarrow>
          (case pb_obj p of
             None \<Rightarrow> NoObject
           | Some i \<Rightarrow> (case objs h i of None \<Rightarrow> NoObject | Some (x, n) \<Rightarrow> Object x)))"

definition sent_values :: "event_data \<Rightarrow> cg_value list" where
  "sent_values d =
     (case d of
        Single v \<Rightarrow> [v]
      | ListData None \<Rightarrow> []
      | ListData (Some lv) \<Rightarrow> take (unat (nb_values lv)) (lv_values lv))"

definition is_list :: "event_data \<Rightarrow> bool" where
  "is_list d = (case d of Single v \<Rightarrow> False | ListData l \<Rightarrow> True)"

text \<open>What arrives: a tensor of const elements is received as one of elements that are not.\<close>

fun delivered :: "wire \<Rightarrow> wire" where
  "delivered (Object (TensorObj c t x)) = Object (TensorObj False t x)"
| "delivered w = w"

text \<open>
  The values that can be sent: no 64-bit integer, no shared memory, no handle without object,
  and memory exactly as large as the buffer or tensor says.
\<close>

fun owned_size :: "payload \<Rightarrow> nat option" where
  "owned_size (Owned b) = map_option length b"
| "owned_size (Shm b) = None"

fun sendable_object :: "nat \<Rightarrow> shared_obj \<Rightarrow> bool" where
  "sendable_object md (RawObj r) \<longleftrightarrow> owned_size (rb_data r) = Some (unat (buf_size r))"
| "sendable_object md (TensorObj c t x) \<longleftrightarrow>
     length (dims x) = md \<and> md < 2 ^ 32 \<and>
     (case Tensor_size x of Fine n \<Rightarrow> owned_size (t_data x) = Some (unat n * elem_size t) | _ \<Rightarrow> False)"

fun sendable :: "nat \<Rightarrow> shared_obj sheap \<Rightarrow> cg_value \<Rightarrow> bool" where
  "sendable md h (VInt64 x) \<longleftrightarrow> False"
| "sendable md h (VUInt64 x) \<longleftrightarrow> False"
| "sendable md h (VStr s) \<longleftrightarrow> length s + 1 < 2 ^ 32"
| "sendable md h (VBuffer p) \<longleftrightarrow>
     (case wire_value h (VBuffer p) of Object (RawObj r) \<Rightarrow> sendable_object md (RawObj r) | _ \<Rightarrow> False)"
| "sendable md h (VTensor c t p) \<longleftrightarrow>
     (case wire_value h (VTensor c t p) of
        Object (TensorObj c' t' x) \<Rightarrow> c' = c \<and> t' = t \<and> sendable_object md (TensorObj c' t' x)
      | _ \<Rightarrow> False)"
| "sendable md h v \<longleftrightarrow> True"

lemma wire_value_plain [simp]: "CV_handle v = None \<Longrightarrow> wire_value h v = Plain v"
  by (simp add: wire_value_def)

text \<open>Content only depends on the objects, so it survives what keeps them.\<close>

lemma wire_value_keeps:
  assumes k: "keeps h h'" and ok: "handles_ok h H" and ok': "handles_ok h' H'"
    and v: "set_mset (hset v) \<subseteq> set_mset H" "set_mset (hset v) \<subseteq> set_mset H'"
  shows "wire_value h' v = wire_value h v"
proof (cases "CV_handle v")
  case (Some p)
  show ?thesis
  proof (cases "pb_obj p")
    case o: (Some i)
    have p: "p \<in># H" "p \<in># H'" using v Some by auto
    have "i < fresh h" using handles_okD(4) [OF ok p(1)] o by (simp add: handle_wf_def)
    moreover obtain x n y m where "objs h i = Some (x, n)" "objs h' i = Some (y, m)"
      using handle_object_live [OF ok p(1) o] handle_object_live [OF ok' p(2) o] by auto
    ultimately show ?thesis using k Some o by (auto simp: keeps_def wire_value_def)
  qed (use Some in \<open>simp add: wire_value_def\<close>)
qed simp

lemma wire_values_keep:
  assumes "keeps h h'" and "handles_ok h H" and "handles_ok h' H'"
    and "set_mset (hsets vs) \<subseteq> set_mset H" and "set_mset (hsets vs) \<subseteq> set_mset H'"
  shows "map (wire_value h') vs = map (wire_value h) vs"
  using assms(4,5) by (induction vs) (simp_all add: wire_value_keeps [OF assms(1-3)])

lemma sendable_wire: "wire_value h v = wire_value h' v \<Longrightarrow> sendable md h v \<longleftrightarrow> sendable md h' v"
  by (cases v) (simp_all del: wire_value_plain)

section \<open>Bytes\<close>

lemma low_byte_bit: "bit (low_byte w) n \<longleftrightarrow> n < 8 \<and> bit w n"
proof -
  have "bit (0xFF :: 'a word) n \<longleftrightarrow> n < 8 \<and> n < LENGTH('a)" for n
    using bit_mask_iff [of 8 n, where 'a = "'a word"] by (auto simp: mask_eq_exp_minus_1)
  then show ?thesis by (simp add: low_byte_def bit_simps) (auto dest: bit_imp_le_length)
qed

lemma bit_le_word:
  "bit (le_word bs :: 'a::len word) n \<longleftrightarrow> n < LENGTH('a) \<and> n div 8 < length bs \<and> bit (bs ! (n div 8)) (n mod 8)"
proof (induction bs arbitrary: n)
  case (Cons b bs)
  show ?case
  proof (cases "n < 8")
    case False
    then obtain m where m: "n = 8 + m" using le_Suc_ex by (metis not_less)
    have "\<not> bit b n" using m bit_imp_le_length [of b n] by auto
    then show ?thesis using Cons.IH [of m] m
      by (cases "m < LENGTH('a)") (auto simp: bit_simps dest: bit_imp_le_length)
  qed (auto simp: bit_simps)
qed simp

lemma le_word_bytes:
  assumes "LENGTH('a::len) = 8 * m"
  shows "le_word (map (\<lambda>k. low_byte (drop_bit (8 * k) w)) [0..<m]) = (w :: 'a word)"
proof (rule bit_word_eqI)
  fix n assume n: "n < LENGTH('a)"
  then have d: "n div 8 < m" using assms by auto
  have "8 * (n div 8) + n mod 8 = n" by simp
  then show "bit (le_word (map (\<lambda>k. low_byte (drop_bit (8 * k) w)) [0..<m]) :: 'a word) n = bit w n"
    using n d by (simp add: bit_le_word low_byte_bit bit_drop_bit_eq)
qed

lemma le_word_8 [simp]: "le_word [low_byte (w :: u8)] = w"
  using le_word_bytes [of 1 w] by simp

lemma le_word_16 [simp]: "le_word [low_byte w, low_byte (drop_bit 8 w)] = (w :: u16)"
  using le_word_bytes [of 2 w] by (simp add: upt_rec)

lemma le_word_32 [simp]:
  "le_word [low_byte w, low_byte (drop_bit 8 w), low_byte (drop_bit 16 w), low_byte (drop_bit 24 w)] = (w :: u32)"
  using le_word_bytes [of 4 w] by (simp add: upt_rec)

lemma le_word_64 [simp]:
  "le_word [low_byte w, low_byte (drop_bit 8 w), low_byte (drop_bit 16 w), low_byte (drop_bit 24 w),
     low_byte (drop_bit 32 w), low_byte (drop_bit 40 w), low_byte (drop_bit 48 w), low_byte (drop_bit 56 w)] = (w :: u64)"
  using le_word_bytes [of 8 w] by (simp add: upt_rec)

lemma low_byte_u8 [simp]: "low_byte (x :: u8) = x"
  by (rule bit_word_eqI) (auto simp: low_byte_bit)

definition u16_bytes :: "u16 \<Rightarrow> u8 list" where
  "u16_bytes w = [low_byte w, low_byte (drop_bit 8 w)]"

definition u64_bytes :: "u64 \<Rightarrow> u8 list" where
  "u64_bytes w = [low_byte w, low_byte (drop_bit 8 w), low_byte (drop_bit 16 w), low_byte (drop_bit 24 w),
     low_byte (drop_bit 32 w), low_byte (drop_bit 40 w), low_byte (drop_bit 48 w), low_byte (drop_bit 56 w)]"

lemma write_bytes [simp]:
  "write_u8 s b = append_bytes s [b]" "write_u16 s x = append_bytes s (u16_bytes x)"
  "write_u32 s y = append_bytes s (u32_bytes y)" "write_i32 s y = append_bytes s (u32_bytes y)"
  "write_u64 s z = append_bytes s (u64_bytes z)"
  by (simp_all add: write_u8_def write_u16_def write_u32_def write_i32_def write_u64_def u16_bytes_def
      u32_bytes_def u64_bytes_def)

lemma append_append_bytes [simp]: "append_bytes (append_bytes s a) b = append_bytes s (a @ b)"
  by (simp add: append_bytes_def)

lemma append_bytes_sel [simp]:
  "serialized_object (append_bytes s a) = serialized_object s @ a" "acquired (append_bytes s a) = acquired s"
  by (simp_all add: append_bytes_def)

lemma read_value_bytes [simp]:
  "read_value (Suc 0) (b # r) = Fine (b, r)" "read_value 2 (u16_bytes x @ r) = Fine (x, r)"
  "read_value 4 (u32_bytes y @ r) = Fine (y, r)" "read_value 8 (u64_bytes z @ r) = Fine (z, r)"
  by (simp_all add: read_value_def take_bytes_def u16_bytes_def u32_bytes_def u64_bytes_def
      del: le_word.simps) (simp add: bit_eq_iff bit_simps)

lemma take_bytes_append [simp]: "length xs = n \<Longrightarrow> take_bytes n (xs @ r) = Fine (xs, r)"
  by (auto simp: take_bytes_def)

section \<open>What Pack writes\<close>

fun payload_bytes :: "payload \<Rightarrow> u8 list" where
  "payload_bytes (Owned (Some bs)) = bs"
| "payload_bytes p = []"

fun encode_plain :: "cg_value \<Rightarrow> u8 list" where
  "encode_plain VNone = [value_type_code kNone]"
| "encode_plain (VInt8 x) = [value_type_code kInt8, x]"
| "encode_plain (VInt16 x) = value_type_code kInt16 # u16_bytes x"
| "encode_plain (VInt32 x) = value_type_code kInt32 # u32_bytes x"
| "encode_plain (VInt64 x) = value_type_code kInt64 # u64_bytes x"
| "encode_plain (VFloat x) = value_type_code kFloat # u32_bytes x"
| "encode_plain (VDouble x) = value_type_code kDouble # u64_bytes x"
| "encode_plain (VUInt8 x) = [value_type_code kUInt8, x]"
| "encode_plain (VUInt16 x) = value_type_code kUInt16 # u16_bytes x"
| "encode_plain (VUInt32 x) = value_type_code kUInt32 # u32_bytes x"
| "encode_plain (VUInt64 x) = value_type_code kUInt64 # u64_bytes x"
| "encode_plain (VStr s) = value_type_code kStr # u32_bytes (of_nat (length s + 1)) @ s @ [0]"
| "encode_plain v = []"

fun encode :: "wire \<Rightarrow> u8 list" where
  "encode (Plain v) = encode_plain v"
| "encode (Object (RawObj r)) =
     [value_type_code kAny, buffer_type_code kCopyBuffer] @ u32_bytes (buf_size r) @ payload_bytes (rb_data r)"
| "encode (Object (TensorObj c t x)) =
     [value_type_code kTensor, nb_dims x] @ u32_bytes (of_nat (length (dims x))) @ concat (map u32_bytes (dims x)) @
     [value_type_code (elem_tag t), buffer_type_code kCopyBuffer] @
     u32_bytes (case Tensor_size x of Fine n \<Rightarrow> n | _ \<Rightarrow> 0) @ payload_bytes (t_data x)"
| "encode NoObject = []"

definition grants :: "lock_env \<Rightarrow> bool" where
  "grants env \<longleftrightarrow> os_refuses env = (\<lambda>m. False)"

lemma copy_result_grants: "grants env \<Longrightarrow> handle_wf n p \<Longrightarrow> copy_result env p = p"
  by (auto simp: copy_result_def grants_def handle_wf_def PB_null_def split: option.splits)

lemma PB_copy_live:
  assumes ok: "handles_ok h H" and p: "p \<in># H" and env: "grants env"
  shows "\<exists>h'. PB_copy env h p = Fine (h', p) \<and> handles_ok h' (add_mset p H) \<and> keeps h h'"
  using PB_copy_ok [OF ok p, of env] copy_result_grants [OF env handles_okD(4) [OF ok p]] PB_copy_keeps
  by fastforce

lemma PB_destroy_live:
  assumes "handles_ok h (add_mset p H)"
  shows "\<exists>h'. PB_destroy h p = Fine h' \<and> handles_ok h' H \<and> keeps h h'"
  using PB_destroy_ok [OF assms] PB_destroy_keeps by blast

text \<open>An object at an address, whatever its count.\<close>

lemma keeps_object:
  fixes h :: "shared_obj sheap"
  assumes k: "keeps h h'" and ok: "handles_ok h H" "handles_ok h' H'" and p: "p \<in># H" "p \<in># H'"
    and i: "pb_obj p = Some i" "objs h i = Some (x, n)"
  shows "\<exists>n'. objs h' i = Some (x, n')"
  using wire_value_keeps [OF k ok, of "VBuffer p"] p i handle_object_live [OF ok(2) p(2) i(1)]
  by (auto simp: wire_value_def)

lemma pack_locked_live:
  assumes ok: "handles_ok h H" and p: "p \<in># H" and i: "pb_obj p = Some i" "objs h i = Some (x, n)"
    and env: "grants env"
  shows "\<exists>h'. pack_locked env h p f s = exec_then (f x) (\<lambda>s'. Fine (h', s')) \<and> handles_ok h' H \<and> keeps h h'"
proof -
  obtain h1 where h1: "PB_copy env h p = Fine (h1, p)" "handles_ok h1 (add_mset p H)" "keeps h h1"
    using PB_copy_live [OF ok p env] by blast
  obtain n' where n': "objs h1 i = Some (x, n')"
    using keeps_object [OF h1(3) ok h1(2) p _ i] by auto
  have m: "pb_mtx p \<noteq> None" using handles_okD(4) [OF ok p] i(1) by (auto simp: handle_wf_def)
  obtain h2 where h2: "PB_destroy h1 p = Fine h2" "handles_ok h2 H" "keeps h1 h2"
    using PB_destroy_live [OF h1(2)] by blast
  have "PB_lock_shared env h1 p f (Fine s) = Fine (h1, False, f x)"
    using PB_lock_shared_spec [OF h1(2), of p env f "Fine s"] m i(1) n' env by (auto simp: grants_def)
  then have "pack_locked env h p f s = exec_then (f x) (\<lambda>s'. Fine (h2, s'))"
    using h1(1) h2(1) by (simp add: pack_locked_def)
  with h2(2) keeps_trans [OF h1(3) h2(3)] show ?thesis by blast
qed

text \<open>Writing an object whose memory has the size it says.\<close>

lemma memory_bytes_exact [simp]: "memory_bytes (Some bs) (length bs) = Fine bs"
  by (simp add: memory_bytes_def)

lemma owned_size_Some: "owned_size p = Some n \<longleftrightarrow> (\<exists>bs. p = Owned (Some bs) \<and> length bs = n)"
  by (cases p) auto

lemma pack_raw_data_sendable:
  "sendable_object md (RawObj r) \<Longrightarrow>
   pack_raw_object ms ds net (append_bytes s [value_type_code kAny]) (RawObj r) =
     Fine (append_bytes s (encode (Object (RawObj r))))"
  by (auto simp: pack_raw_data_def pack_array_def owned_size_Some memory_bytes_def)

lemma pack_tensor_data_sendable:
  "sendable_object md (TensorObj c t x) \<Longrightarrow>
   pack_tensor_object ms ds net t (append_bytes s [value_type_code kTensor]) (TensorObj c t x) =
     Fine (append_bytes s (encode (Object (TensorObj c t x))))"
  by (auto simp: pack_tensor_data_def pack_array_def owned_size_Some memory_bytes_def pack_dims_def
      split: exec.splits)

lemma pack_handle:
  assumes ok: "handles_ok h H" and p: "p \<in># H" and env: "grants env"
    and w: "wire_value h (VBuffer p) = Object x" and f: "f x = Fine s'"
  shows "\<exists>h'. pack_locked env h p f s = Fine (h', s') \<and> handles_ok h' H \<and> keeps h h'"
proof -
  obtain i n where "pb_obj p = Some i" "objs h i = Some (x, n)"
    using w by (auto simp: wire_value_def split: option.splits)
  from pack_locked_live [OF ok p this env, of f s] f show ?thesis by auto
qed

lemma wire_value_tensor: "wire_value h (VTensor c t p) = wire_value h (VBuffer p)"
  by (simp add: wire_value_def)

lemma pack_value_sendable:
  assumes ok: "handles_ok h H" and v: "set_mset (hset v) \<subseteq> set_mset H" and env: "grants env"
    and s: "sendable md h v"
  shows "\<exists>h'. pack_value ms ds net env h v s0 = Fine (h', append_bytes s0 (encode (wire_value h v))) \<and>
    handles_ok h' H \<and> keeps h h'"
proof (cases v)
  case (VBuffer p)
  then obtain r where r: "wire_value h (VBuffer p) = Object (RawObj r)" "sendable_object md (RawObj r)"
    using s by (auto split: wire.splits shared_obj.splits)
  have p: "p \<in># H" using v VBuffer by simp
  show ?thesis
    using pack_handle [where f = "pack_raw_object ms ds net (append_bytes s0 [value_type_code kAny])",
        OF ok p env r(1) pack_raw_data_sendable [OF r(2)]] VBuffer r(1)
    by (simp add: Let_def del: encode.simps value_type_code.simps)
next
  case (VTensor c t p)
  then obtain x where x: "wire_value h (VBuffer p) = Object (TensorObj c t x)" "sendable_object md (TensorObj c t x)"
    using s by (auto simp: wire_value_tensor split: wire.splits shared_obj.splits)
  have p: "p \<in># H" using v VTensor by simp
  obtain h1 where h1: "PB_copy env h p = Fine (h1, p)" "handles_ok h1 (add_mset p H)" "keeps h h1"
    using PB_copy_live [OF ok p env] by blast
  have w1: "wire_value h1 (VBuffer p) = Object (TensorObj c t x)"
    using wire_value_keeps [OF h1(3) ok h1(2), of "VBuffer p"] p x(1) by simp
  obtain h2 where h2: "pack_locked env h1 p (pack_tensor_object ms ds net t (append_bytes s0 [value_type_code kTensor]))
       (append_bytes s0 [value_type_code kTensor]) = Fine (h2, append_bytes s0 (encode (Object (TensorObj c t x))))"
      "handles_ok h2 (add_mset p H)" "keeps h1 h2"
    using pack_handle [where f = "pack_tensor_object ms ds net t (append_bytes s0 [value_type_code kTensor])",
        OF h1(2) _ env w1 pack_tensor_data_sendable [OF x(2)]] by auto
  obtain h3 where h3: "PB_destroy h2 p = Fine h3" "handles_ok h3 H" "keeps h2 h3"
    using PB_destroy_live [OF h2(2)] by blast
  have "keeps h h3" using keeps_trans h1(3) h2(3) h3(3) by blast
  then show ?thesis using h1(1) h2(1) h3(1,2) VTensor x(1)
    by (simp add: pack_tensor_def pack_const_tensor_def Let_def wire_value_tensor
        del: encode.simps value_type_code.simps)
next
  case (VStr str)
  then show ?thesis using ok memory_bytes_exact [of "str @ [0]"] by (simp add: pack_array_def)
qed (use ok s in simp_all)

lemma sendable_keeps:
  assumes "keeps h h'" "handles_ok h H" "handles_ok h' H'"
    and "set_mset (hset v) \<subseteq> set_mset H" "set_mset (hset v) \<subseteq> set_mset H'"
  shows "sendable md h' v \<longleftrightarrow> sendable md h v"
  by (rule sendable_wire) (rule wire_value_keeps [OF assms])

lemma pack_values_sendable:
  "handles_ok h H \<Longrightarrow> set_mset (hsets vs) \<subseteq> set_mset H \<Longrightarrow> grants env \<Longrightarrow> i + left \<le> length vs \<Longrightarrow>
   list_all (sendable md h) (take left (drop i vs)) \<Longrightarrow>
   \<exists>h'. pack_values ms ds net env h vs i left s =
       Fine (h', append_bytes s (concat (map (\<lambda>v. encode (wire_value h v)) (take left (drop i vs))))) \<and>
     handles_ok h' H \<and> keeps h h'"
proof (induction left arbitrary: h i s)
  case 0
  then show ?case by (simp add: append_bytes_def)
next
  case (Suc left)
  have i: "i < length vs" using Suc.prems(4) by simp
  have split: "take (Suc left) (drop i vs) = vs ! i # take left (drop (Suc i) vs)"
    using i by (simp add: Cons_nth_drop_Suc [symmetric])
  have sub: "set_mset (hset v) \<subseteq> set_mset H" if "v \<in> set vs" for v
    using that Suc.prems(2) hset_nth_subset [of _ vs] by (fastforce simp: in_set_conv_nth)
  obtain h1 where h1: "pack_value ms ds net env h (vs ! i) s = Fine (h1, append_bytes s (encode (wire_value h (vs ! i))))"
      "handles_ok h1 H" "keeps h h1"
    using pack_value_sendable [OF Suc.prems(1) sub [of "vs ! i"] Suc.prems(3), of md ms ds net s] Suc.prems(5) i split
    by auto
  have same: "wire_value h1 v = wire_value h v" if "v \<in> set vs" for v
    using wire_value_keeps [OF h1(3) Suc.prems(1) h1(2) sub sub] that by blast
  have rest: "set (take left (drop (Suc i) vs)) \<subseteq> set vs"
    by (meson in_set_dropD in_set_takeD subsetI)
  have "sendable md h1 v" if "v \<in> set (take left (drop (Suc i) vs))" for v
    using that rest same Suc.prems(5) split sendable_wire [of h1 v h md] by (auto simp: list_all_iff)
  then have "list_all (sendable md h1) (take left (drop (Suc i) vs))" by (simp add: list_all_iff)
  from Suc.IH [OF h1(2) Suc.prems(2,3) _ this, of "append_bytes s (encode (wire_value h (vs ! i)))"] Suc.prems(4)
  obtain h2 where h2: "pack_values ms ds net env h1 vs (Suc i) left (append_bytes s (encode (wire_value h (vs ! i)))) =
       Fine (h2, append_bytes s (encode (wire_value h (vs ! i)) @
         concat (map (\<lambda>v. encode (wire_value h1 v)) (take left (drop (Suc i) vs)))))"
     "handles_ok h2 H" "keeps h1 h2"
    by (auto simp: comp_def)
  have "map (\<lambda>v. encode (wire_value h1 v)) (take left (drop (Suc i) vs)) =
        map (\<lambda>v. encode (wire_value h v)) (take left (drop (Suc i) vs))"
    using same rest by (simp add: subset_iff)
  with h1(1) h2 i split keeps_trans [OF h1(3) h2(3)] show ?case by auto
qed

section \<open>What Unpack reads\<close>

definition generous :: "unpack_env \<Rightarrow> bool" where
  "generous ue \<longleftrightarrow> buf_ok ue = (\<lambda>n. True) \<and> mtx_ok ue = (\<lambda>n. True) \<and> obj_ok ue = (\<lambda>n. True) \<and> list_ok ue \<and>
     grants (locks ue) \<and> max_values ue < 2 ^ 32"

lemma maybe_Cons [simp]:
  "maybe k (b # r) = (if b = value_type_code k then Fine (True, r) else Fine (False, b # r))"
  by (simp add: maybe_def)

lemma read_elems_bytes [simp]: "read_elems (length xs) (concat (map u32_bytes xs) @ r) = Fine (xs, r)"
  by (induction xs) simp_all

lemma return_object_ok:
  assumes ok: "handles_ok (u_heap s) Q" and ue: "generous ue"
  shows "\<exists>h' p. return_object ue s x mk = Fine (s\<lparr>u_heap := h'\<rparr>, mk p) \<and> handles_ok h' (add_mset p Q) \<and>
    keeps (u_heap s) h' \<and> wire_value h' (VBuffer p) = Object x"
proof -
  let ?p = "\<lparr>pb_obj = Some (Suc (fresh (u_heap s))), pb_mtx = Some (fresh (u_heap s))\<rparr>"
  obtain h1 where c: "PB_create_with True True (u_heap s) x = (h1, ?p)"
    and x: "objs h1 (Suc (fresh (u_heap s))) = Some (x, 1)"
    by (simp add: PB_create_with_def Let_def sp_make_def)
  note ok1 = PB_create_with_ok [OF ok c]
  have "copy_result (locks ue) ?p = ?p"
    using ue handles_okD(4) [OF ok1, of ?p] copy_result_grants by (auto simp: generous_def)
  then obtain h2 where h2: "PB_move (locks ue) h1 ?p = Fine (h2, ?p, PB_null)"
      "handles_ok h2 (add_mset ?p (add_mset PB_null Q))"
    using PB_move_ok [OF ok1, of "locks ue"] by (auto simp: PB_null_def)
  obtain h3 where h3: "PB_destroy h2 PB_null = Fine h3" "handles_ok h3 (add_mset ?p Q)" "keeps h2 h3"
    using PB_destroy_live [of h2 PB_null "add_mset ?p Q"] h2(2) by (auto simp: add_mset_commute)
  have k: "keeps h1 h3" using keeps_trans [OF PB_move_keeps [OF h2(1)] h3(3)] .
  have "keeps (u_heap s) h3" using keeps_trans [OF PB_create_with_keeps [OF ok c] k] .
  moreover have "wire_value h3 (VBuffer ?p) = wire_value h1 (VBuffer ?p)"
    by (rule wire_value_keeps [OF k ok1 h3(2)]) simp_all
  ultimately show ?thesis using c h2(1) h3(1,2) ue x
    by (intro exI [of _ h3] exI [of _ ?p]) (simp add: return_object_def generous_def wire_value_def)
qed

lemma unpack_elems_tag:
  "data_pointer s = value_type_code (elem_tag t) # r \<Longrightarrow>
   unpack_elems ms ue elem_order nd dl s = unpack_tensor ms ue t nd dl (s\<lparr>data_pointer := r\<rparr>)"
  by (cases t) (simp_all add: elem_order_def)

lemma Tensor_size_new: "Tensor_size (Tensor_new (nb_dims x) (dims x) (Some bs)) = Tensor_size x"
  by (simp add: Tensor_size_def Tensor_new_def)

text \<open>One value, followed by anything.\<close>

lemma unpack_value_encode:
  assumes s: "sendable (max_dims ue) h v" and ue: "generous ue"
    and d: "data_pointer s = encode (wire_value h v) @ rest" and ok: "handles_ok (u_heap s) Q"
  shows "\<exists>h' v'. unpack_value ms ue s = Fine (s\<lparr>data_pointer := rest, u_heap := h'\<rparr>, v') \<and>
    wire_value h' v' = delivered (wire_value h v) \<and> handles_ok h' (hset v' + Q) \<and> keeps (u_heap s) h'"
proof (cases "CV_handle v")
  case None
  show ?thesis
  proof (cases v)
    case (VStr str)
    have "unat (of_nat (length str + 1) :: u32) = length str + 1"
      using s VStr by (simp only: unat_of_nat) simp
    moreover have "unat ((of_nat (length str + 1) :: u32) - 1) = length str"
      using s VStr by (simp add: unat_of_nat)
    ultimately show ?thesis using d ok VStr
      by (intro exI [of _ "u_heap s"] exI [of _ v])
        (simp add: unpack_value_def unpack_string_def memory_bytes_def take_bytes_def hset_def)
  qed (use None s d ok in \<open>auto simp: unpack_value_def unpack_num_def hset_def intro!: exI [of _ "u_heap s"]\<close>)
next
  case (Some p)
  then consider "v = VBuffer p" | c t where "v = VTensor c t p" by (cases v) auto
  then show ?thesis
  proof cases
    case 1
    then obtain r bs where r: "wire_value h v = Object (RawObj r)" "rb_data r = Owned (Some bs)"
        "length bs = unat (buf_size r)"
      using s by (auto simp: owned_size_Some split: wire.splits shared_obj.splits)
    let ?s = "s\<lparr>data_pointer := rest\<rparr>"
    have "RawBuffer_new (buf_size r) (Some bs) = r" using r(2) by (cases r) (simp add: RawBuffer_new_def)
    then have "unpack_value ms ue s = return_object ue ?s (RawObj r) VBuffer"
      using d r ue by (simp add: unpack_value_def unpack_raw_def make_raw_buffer_def generous_def)
    moreover obtain h' q where "return_object ue ?s (RawObj r) VBuffer = Fine (?s\<lparr>u_heap := h'\<rparr>, VBuffer q)"
        "handles_ok h' (add_mset q Q)" "keeps (u_heap s) h'" "wire_value h' (VBuffer q) = Object (RawObj r)"
      using return_object_ok [of ?s Q ue "RawObj r" VBuffer] ok ue by auto
    ultimately show ?thesis using r(1) by auto
  next
    case (2 c t)
    then obtain x bs n where x: "wire_value h v = Object (TensorObj c t x)" "t_data x = Owned (Some bs)"
        "Tensor_size x = Fine n" "length bs = unat n * elem_size t" "length (dims x) = max_dims ue" "max_dims ue < 2 ^ 32"
      using s by (auto simp: owned_size_Some split: wire.splits shared_obj.splits exec.splits)
    let ?s = "s\<lparr>data_pointer := rest\<rparr>"
    have "Tensor_new (nb_dims x) (dims x) (Some bs) = x" using x(2) by (cases x) (simp add: Tensor_new_def)
    then have "unpack_value ms ue s = return_object ue ?s (TensorObj False t x) (VTensor False t)"
      using d x(1-4) ue by (simp add: unpack_value_def read_array_def unpack_elems_tag unpack_tensor_def
          make_typed_buffer_def generous_def flip: x(5))
    moreover obtain h' q where "return_object ue ?s (TensorObj False t x) (VTensor False t) =
          Fine (?s\<lparr>u_heap := h'\<rparr>, VTensor False t q)"
        "handles_ok h' (add_mset q Q)" "keeps (u_heap s) h'" "wire_value h' (VBuffer q) = Object (TensorObj False t x)"
      using return_object_ok [of ?s Q ue "TensorObj False t x" "VTensor False t"] ok ue by auto
    ultimately show ?thesis using x(1) by (auto simp: wire_value_tensor)
  qed
qed

text \<open>Moving a value into an empty one loses nothing.\<close>

lemma CV_moveFrom_live:
  assumes ok: "handles_ok h (hset x + R)" and env: "grants env"
  shows "\<exists>h'. CV_moveFrom env h VNone x = Fine (h', x, VNone) \<and> handles_ok h' (hset x + R) \<and> keeps h h' \<and>
    wire_value h' x = wire_value h x"
proof -
  have "map_handle (copy_result env) x = x"
    using copy_result_grants [OF env handles_okD(4) [OF ok]] by (cases x) auto
  then obtain h' where h': "CV_moveFrom env h VNone x = Fine (h', x, VNone)" "handles_ok h' (hset x + R)"
    using CV_moveFrom_ok [of h VNone x R env] ok by auto
  have "keeps h h'"
  proof (cases "CV_handle x")
    case (Some p)
    then show ?thesis using h'(1)
      by (auto simp: CV_moveFrom_def CV_destroy_def dest!: PB_move_keeps PB_destroy_keeps intro: keeps_trans)
  qed (use h'(1) in \<open>simp add: CV_moveFrom_def CV_destroy_def\<close>)
  with h' wire_value_keeps [OF _ ok h'(2), of x] show ?thesis by auto
qed

lemma CV_destroy_none [simp]: "CV_destroy h VNone = Fine h"
  by (simp add: CV_destroy_def)

lemma unpack_values_encode:
  "handles_ok (u_heap s) (hsets vs + Q) \<Longrightarrow> generous ue \<Longrightarrow> \<forall>j. i \<le> j \<and> j < length vs \<longrightarrow> vs ! j = VNone \<Longrightarrow>
   i + length ws \<le> length vs \<Longrightarrow> list_all (sendable (max_dims ue) h) ws \<Longrightarrow>
   data_pointer s = concat (map (\<lambda>v. encode (wire_value h v)) ws) @ rest \<Longrightarrow>
   \<exists>h' new. unpack_values ms ue vs i (length ws) s =
       Fine (s\<lparr>data_pointer := rest, u_heap := h'\<rparr>, take i vs @ new @ drop (i + length ws) vs) \<and>
     map (wire_value h') new = map (\<lambda>v. delivered (wire_value h v)) ws \<and>
     handles_ok h' (hsets (take i vs @ new @ drop (i + length ws) vs) + Q) \<and> keeps (u_heap s) h'"
proof (induction ws arbitrary: i vs s)
  case Nil
  then show ?case by (intro exI [of _ "u_heap s"] exI [of _ "[]"]) (simp del: hsets_simps)
next
  case (Cons w ws)
  have i: "i < length vs" "vs ! i = VNone" using Cons.prems by auto
  have none: "vs[i := VNone] = vs" using i(2) by (metis list_update_id)
  let ?rest = "concat (map (\<lambda>v. encode (wire_value h v)) ws) @ rest"
  have d: "data_pointer s = encode (wire_value h w) @ ?rest" and w: "sendable (max_dims ue) h w"
    using Cons.prems(5,6) by simp_all
  obtain h1 x where h1: "unpack_value ms ue s = Fine (s\<lparr>data_pointer := ?rest, u_heap := h1\<rparr>, x)"
      "wire_value h1 x = delivered (wire_value h w)" "handles_ok h1 (hset x + (hsets vs + Q))" "keeps (u_heap s) h1"
    using unpack_value_encode [OF w Cons.prems(2) d Cons.prems(1)] by blast
  obtain h2 where h2: "CV_moveFrom (locks ue) h1 VNone x = Fine (h2, x, VNone)"
      "handles_ok h2 (hset x + (hsets vs + Q))" "keeps h1 h2" "wire_value h2 x = wire_value h1 x"
    using CV_moveFrom_live [OF h1(3)] Cons.prems(2) by (auto simp: generous_def)
  let ?vs = "vs[i := x]"
  let ?s = "s\<lparr>data_pointer := ?rest, u_heap := h2\<rparr>"
  have ok2: "handles_ok (u_heap ?s) (hsets ?vs + Q)"
    using h2(2) hsets_update_val [OF i(1), of x] none by (simp add: union_assoc)
  have later: "\<forall>j. Suc i \<le> j \<and> j < length ?vs \<longrightarrow> ?vs ! j = VNone" using Cons.prems(3) by auto
  have len: "Suc i + length ws \<le> length ?vs" and sws: "list_all (sendable (max_dims ue) h) ws"
    using Cons.prems(4,5) by simp_all
  obtain h3 new where h3: "unpack_values ms ue ?vs (Suc i) (length ws) ?s =
       Fine (?s\<lparr>data_pointer := rest, u_heap := h3\<rparr>, take (Suc i) ?vs @ new @ drop (Suc i + length ws) ?vs)"
     "map (wire_value h3) new = map (\<lambda>v. delivered (wire_value h v)) ws"
     "handles_ok h3 (hsets (take (Suc i) ?vs @ new @ drop (Suc i + length ws) ?vs) + Q)" "keeps h2 h3"
    using Cons.IH [OF ok2 Cons.prems(2) later len sws] by auto
  have list: "take (Suc i) ?vs @ new @ drop (Suc i + length ws) ?vs =
      take i vs @ (x # new) @ drop (i + length (w # ws)) vs"
    using i(1) by (simp add: take_Suc_conv_app_nth)
  have "wire_value h3 x = wire_value h2 x"
    by (rule wire_value_keeps [OF h3(4) _ h3(3)]) (use h2(2) list in auto)
  then have new: "map (wire_value h3) (x # new) = map (\<lambda>v. delivered (wire_value h v)) (w # ws)"
    using h3(2) h2(4) h1(2) by simp
  have "unpack_values ms ue vs i (length (w # ws)) s =
      Fine (s\<lparr>data_pointer := rest, u_heap := h3\<rparr>, take i vs @ (x # new) @ drop (i + length (w # ws)) vs)"
    using h1(1) h2(1) h3(1) i list by simp
  moreover have "handles_ok h3 (hsets (take i vs @ (x # new) @ drop (i + length (w # ws)) vs) + Q)"
    using h3(3) unfolding list .
  moreover have "keeps (u_heap s) h3" using keeps_trans h1(4) h2(3) h3(4) by blast
  ultimately show ?case using new by blast
qed

lemma event_of_value_ok:
  assumes ok: "handles_ok (u_heap s) (hset v + Q)" and ue: "generous ue"
  shows "\<exists>h'. event_of_value ue s i p v =
      Fine (s\<lparr>u_heap := h'\<rparr>, setPriority p \<lparr>event_id = i, priority = 1, edata = Single v, ttl = 0\<rparr>) \<and>
    handles_ok h' (hset v + Q) \<and> wire_value h' v = wire_value (u_heap s) v"
proof -
  have env: "grants (locks ue)" using ue by (simp add: generous_def)
  obtain h1 where h1: "CV_moveFrom (locks ue) (u_heap s) VNone v = Fine (h1, v, VNone)"
      "handles_ok h1 (hset v + Q)" "wire_value h1 v = wire_value (u_heap s) v"
    using CV_moveFrom_live [OF ok env] by blast
  obtain h2 where h2: "CV_moveFrom (locks ue) h1 VNone v = Fine (h2, v, VNone)"
      "handles_ok h2 (hset v + Q)" "wire_value h2 v = wire_value h1 v"
    using CV_moveFrom_live [OF h1(2) env] by blast
  have "setPriority p \<lparr>event_id = i, priority = 1, edata = Single VNone, ttl = 0\<rparr>\<lparr>edata := Single v\<rparr> =
      setPriority p \<lparr>event_id = i, priority = 1, edata = Single v, ttl = 0\<rparr>"
    by (cases p) simp_all
  with h1 h2 show ?thesis
    by (intro exI [of _ h2]) (simp add: event_of_value_def CV_move_def Event_of_args_def Let_def)
qed

section \<open>Events\<close>

text \<open>What an event says: identifier, priority, whether it is a list, and its values.\<close>

definition event_content :: "shared_obj sheap \<Rightarrow> event \<Rightarrow> u32 \<times> u32 \<times> bool \<times> wire list" where
  "event_content h e =
     (event_id e, priority e, is_list (edata e), map (wire_value h) (sent_values (edata e)))"

definition delivered_content :: "u32 \<times> u32 \<times> bool \<times> wire list \<Rightarrow> u32 \<times> u32 \<times> bool \<times> wire list" where
  "delivered_content = (\<lambda>(i, p, l, ws). (i, p, l, map delivered ws))"

definition sendable_event :: "nat \<Rightarrow> nat \<Rightarrow> shared_obj sheap \<Rightarrow> event \<Rightarrow> bool" where
  "sendable_event mx md h e \<longleftrightarrow>
     edata e \<noteq> ListData None \<and> event_ok mx e \<and> priority e \<le> 2 \<and>
     list_all (sendable md h) (sent_values (edata e))"

definition encode_event :: "shared_obj sheap \<Rightarrow> u32 \<Rightarrow> event \<Rightarrow> u8 list" where
  "encode_event h nodeid e =
     u32_bytes nodeid @ u32_bytes (event_id e) @ [ucast (priority e)] @
     (if is_list (edata e) then 1 # u32_bytes (of_nat (length (sent_values (edata e)))) else [0]) @
     concat (map (\<lambda>v. encode (wire_value h v)) (sent_values (edata e)))"

lemma event_data_cases:
  assumes "edata e \<noteq> ListData None"
  obtains v where "edata e = Single v" | lv where "edata e = ListData (Some lv)"
  using assms by (cases "edata e") (auto simp: option.split_sel)

lemma sent_length: "event_ok mx e \<Longrightarrow> edata e = ListData (Some lv) \<Longrightarrow>
    length (take (unat (nb_values lv)) (lv_values lv)) = unat (nb_values lv)"
  by (auto simp: event_ok_def)

lemma pack_event_sendable:
  assumes ok: "handles_ok h (ehset e + R)" and s: "sendable_event mx md h e" and env: "grants env"
  shows "\<exists>h'. pack_event ms ds net env h nodeid e s0 = Fine (h', append_bytes s0 (encode_event h nodeid e)) \<and>
    handles_ok h' R"
proof -
  have d: "edata e \<noteq> ListData None" using s by (simp add: sendable_event_def)
  let ?s = "write_u8 (write_u32 (write_u32 s0 nodeid) (event_id e)) (ucast (priority e))"
  have "\<exists>h1. (case edata e of
              Single v \<Rightarrow> pack_value ms ds net env h v (write_u8 ?s 0)
            | ListData None \<Rightarrow> UB
            | ListData (Some cv) \<Rightarrow>
                pack_values ms ds net env h (lv_values cv) 0 (unat (nb_values cv))
                  (write_u32 (write_u8 ?s 1) (nb_values cv))) =
        Fine (h1, append_bytes s0 (encode_event h nodeid e)) \<and> handles_ok h1 (ehset e + R)"
  proof (rule event_data_cases [OF d])
    fix v assume v: "edata e = Single v"
    then have "sendable md h v" using s by (simp add: sendable_event_def sent_values_def)
    from pack_value_sendable [OF ok _ env this, of ms ds net "write_u8 ?s 0"] v
    show ?thesis by (auto simp: encode_event_def is_list_def sent_values_def)
  next
    fix lv assume lv: "edata e = ListData (Some lv)"
    have len: "unat (nb_values lv) \<le> length (lv_values lv)" using s lv by (simp add: sendable_event_def event_ok_def)
    have all: "list_all (sendable md h) (take (unat (nb_values lv)) (drop 0 (lv_values lv)))"
      using s lv by (simp add: sendable_event_def sent_values_def)
    have sub: "set_mset (hsets (lv_values lv)) \<subseteq> set_mset (ehset e + R)" using lv by simp
    obtain h1 where "pack_values ms ds net env h (lv_values lv) 0 (unat (nb_values lv))
          (write_u32 (write_u8 ?s 1) (nb_values lv)) =
        Fine (h1, append_bytes (write_u32 (write_u8 ?s 1) (nb_values lv))
          (concat (map (\<lambda>v. encode (wire_value h v)) (take (unat (nb_values lv)) (drop 0 (lv_values lv))))))"
        "handles_ok h1 (ehset e + R)"
      using pack_values_sendable [OF ok sub env _ all, of ms ds net "write_u32 (write_u8 ?s 1) (nb_values lv)"] len
      by auto
    then show ?thesis using lv len by (auto simp: encode_event_def is_list_def sent_values_def min_def)
  qed
  then obtain h1 where h1: "(case edata e of
              Single v \<Rightarrow> pack_value ms ds net env h v (write_u8 ?s 0)
            | ListData None \<Rightarrow> UB
            | ListData (Some cv) \<Rightarrow>
                pack_values ms ds net env h (lv_values cv) 0 (unat (nb_values cv))
                  (write_u32 (write_u8 ?s 1) (nb_values cv))) =
        Fine (h1, append_bytes s0 (encode_event h nodeid e))" "handles_ok h1 (ehset e + R)" by blast
  obtain h2 where "Event_destroy h1 e = Fine h2" "handles_ok h2 R"
    using destroy_data_ok [OF h1(2)] by (auto simp: Event_destroy_def)
  with h1(1) show ?thesis unfolding pack_event_def Let_def by (simp del: write_bytes)
qed

lemma unpack_priority_code:
  assumes "p \<le> (2 :: u32)"
  shows "priority (setPriority (unpack_priority (ucast p)) \<lparr>event_id = i, priority = q, edata = d, ttl = t\<rparr>) = p"
proof -
  have "p = 0 \<or> p = 1 \<or> p = 2"
  proof -
    have "unat p \<le> 2" using assms by (simp add: word_le_nat_alt)
    then have "unat p = 0 \<or> unat p = 1 \<or> unat p = 2" by linarith
    then show ?thesis by (simp add: word_unat_eq_iff)
  qed
  then show ?thesis by (auto simp: unpack_priority_def)
qed

lemma setPriority_sel [simp]:
  "event_id (setPriority p e) = event_id e" "ttl (setPriority p e) = ttl e"
  by (cases p; simp)+

section \<open>Properties\<close>

text \<open>
  C1. Events round trip, when their values can be sent: no 64-bit integer (unpacking has no case
  for it), no buffer in shared memory (C21), no null handle, no list that was taken from the
  event, strings of less than 4 GB, memory exactly as large as the buffer or tensor says, the
  same largest number of dimensions on both sides, and no more values than the receiver takes.
  Where no acquisition is refused and the allocations of the receiver
  succeed, packing such an event gives bytes from which, whatever follows them, unpacking makes
  an event with the same identifier, priority and values; buffers and tensors are new ones with
  the content of the old ones, constant tensors arrive as tensors that are not constant
  (\<open>delivered\<close>), and the time to live is 0. Packing releases what the event held and adds its
  bytes to those already there, unpacking consumes exactly them, and the heap of the receiver
  counts the new handles.
\<close>

theorem event_roundtrip:
  assumes "handles_ok h (ehset e + R)" and "sendable_event mx (max_dims ue) h e"
    and "length (sent_values (edata e)) \<le> max_values ue"
    and "grants env" and "generous ue" and "handles_ok (u_heap us) Q"
    and "data_pointer us = encode_event h nodeid e @ rest"
  shows "(\<exists>h'. pack_event ms ds net env h nodeid e s = Fine (h', append_bytes s (encode_event h nodeid e)) \<and>
      handles_ok h' R) \<and>
    (\<exists>h' e'. unpack_event ms' ue us = Fine (us\<lparr>data_pointer := rest, u_heap := h'\<rparr>, nodeid, e') \<and>
      event_content h' e' = delivered_content (event_content h e) \<and> ttl e' = 0 \<and> handles_ok h' (ehset e' + Q))"
proof
  show "\<exists>h'. pack_event ms ds net env h nodeid e s = Fine (h', append_bytes s (encode_event h nodeid e)) \<and>
      handles_ok h' R"
    using pack_event_sendable assms(1,2,4) by blast
  let ?p = "unpack_priority (ucast (priority e))"
  have d: "edata e \<noteq> ListData None" and p: "priority e \<le> 2"
    and all: "list_all (sendable (max_dims ue) h) (sent_values (edata e))"
    using assms(2) by (simp_all add: sendable_event_def)
  show "\<exists>h' e'. unpack_event ms' ue us = Fine (us\<lparr>data_pointer := rest, u_heap := h'\<rparr>, nodeid, e') \<and>
      event_content h' e' = delivered_content (event_content h e) \<and> ttl e' = 0 \<and> handles_ok h' (ehset e' + Q)"
  proof (rule event_data_cases [OF d])
    fix v assume v: "edata e = Single v"
    let ?us = "us\<lparr>data_pointer := encode (wire_value h v) @ rest\<rparr>"
    have sv: "sendable (max_dims ue) h v" using all v by (simp add: sent_values_def)
    obtain h1 v' where h1: "unpack_value ms' ue ?us = Fine (?us\<lparr>data_pointer := rest, u_heap := h1\<rparr>, v')"
        "wire_value h1 v' = delivered (wire_value h v)" "handles_ok h1 (hset v' + Q)"
      using unpack_value_encode [OF sv assms(5), of ?us rest Q ms'] assms(6) by auto
    let ?e = "setPriority ?p \<lparr>event_id = event_id e, priority = 1, edata = Single v', ttl = 0\<rparr>"
    obtain h2 where h2: "event_of_value ue (us\<lparr>data_pointer := rest, u_heap := h1\<rparr>) (event_id e) ?p v' =
        Fine (us\<lparr>data_pointer := rest, u_heap := h2\<rparr>, ?e)" "handles_ok h2 (hset v' + Q)"
        "wire_value h2 v' = wire_value h1 v'"
      using event_of_value_ok [of "us\<lparr>data_pointer := rest, u_heap := h1\<rparr>" v' Q ue "event_id e" ?p] h1(3) assms(5)
      by auto
    have "unpack_event ms' ue us = Fine (us\<lparr>data_pointer := rest, u_heap := h2\<rparr>, nodeid, ?e)"
      using assms(7) v h1(1) h2(1) by (simp add: unpack_event_def encode_event_def is_list_def sent_values_def)
    then show ?thesis using h1(2) h2(2,3) v unpack_priority_code [OF p]
      by (intro exI [of _ h2] exI [of _ ?e])
        (simp add: event_content_def delivered_content_def is_list_def sent_values_def)
  next
    fix lv assume lv: "edata e = ListData (Some lv)"
    let ?n = "unat (nb_values lv)"
    let ?ws = "take ?n (lv_values lv)"
    let ?vs = "replicate (max_values ue) VNone"
    let ?us = "us\<lparr>data_pointer := concat (map (\<lambda>v. encode (wire_value h v)) ?ws) @ rest\<rparr>"
    have len: "length ?ws = ?n" using assms(2) lv sent_length by (simp add: sendable_event_def event_ok_def)
    have n: "?n \<le> max_values ue" using assms(3) lv len by (simp add: sent_values_def)
    have "list_all (sendable (max_dims ue) h) ?ws" using all lv by (simp add: sent_values_def)
    then obtain h1 new where h1: "unpack_values ms' ue ?vs 0 ?n ?us =
         Fine (us\<lparr>data_pointer := rest, u_heap := h1\<rparr>, new @ drop ?n ?vs)"
       "map (wire_value h1) new = map (\<lambda>v. delivered (wire_value h v)) ?ws"
       "handles_ok h1 (hsets (new @ drop ?n ?vs) + Q)"
      using unpack_values_encode [of ?us ?vs Q ue 0 ?ws h rest ms'] assms(5,6) n len by auto
    let ?e = "Event_of_list (event_id e) (Some \<lparr>nb_values = nb_values lv, lv_values = new @ drop ?n ?vs\<rparr>) ?p"
    have new: "length new = ?n" using arg_cong [OF h1(2), of length] len by simp
    have "unpack_event ms' ue us = Fine (us\<lparr>data_pointer := rest, u_heap := h1\<rparr>, nodeid, ?e)"
      using assms(5,7) lv h1(1) len
      by (simp add: unpack_event_def encode_event_def is_list_def sent_values_def generous_def list_value_new_def)
    then show ?thesis using h1(2,3) lv new unpack_priority_code [OF p]
      by (intro exI [of _ h1] exI [of _ ?e])
        (simp add: event_content_def delivered_content_def is_list_def sent_values_def Event_of_list_def)
  qed
qed

definition demo_unpack :: unpack_env where
  "demo_unpack = \<lparr>max_values = 3, max_dims = 3, buf_ok = (\<lambda>n. True), mtx_ok = (\<lambda>n. True), obj_ok = (\<lambda>n. True),
     list_ok = True, locks = demo_env\<rparr>"

definition demo_received :: "u8 list \<Rightarrow> unpack_st" where
  "demo_received bs = \<lparr>data_pointer = bs, u_heap = heap_empty, u_descs = (\<lambda>i. None), next_desc = 0, released = []\<rparr>"

theorem event_roundtrip_witness:
  "\<exists>h' e'. unpack_event None demo_unpack
       (demo_received (encode_event (fst demo_buffer) 5 demo_event @ [77])) =
       Fine ((demo_received [77])\<lparr>u_heap := h'\<rparr>, 5, e') \<and>
     event_content h' e' = (6, 2, True, [Plain (VInt16 (- 3)), Object (RawObj \<lparr>buf_size = 2, rb_data = Owned (Some [1, 2])\<rparr>)])"
proof -
  have w: "wire_value (fst demo_buffer) (VBuffer (snd demo_buffer)) =
      Object (RawObj \<lparr>buf_size = 2, rb_data = Owned (Some [1, 2])\<rparr>)"
    by (simp add: wire_value_def demo_buffer_def PB_create_with_def Let_def sp_make_def)
  have sent: "sent_values (edata demo_event) = [VInt16 (- 3), VBuffer (snd demo_buffer)]"
    by (simp add: demo_event_def sent_values_def)
  have s: "sendable_event 3 (max_dims demo_unpack) (fst demo_buffer) demo_event"
    using demo_event_ok(2,3) w sent by (simp add: sendable_event_def) (simp add: demo_event_def)
  have env: "grants demo_env" "generous demo_unpack"
    by (simp_all add: grants_def demo_env_def generous_def demo_unpack_def)
  have r: "handles_ok (u_heap (demo_received bs)) {#}" for bs by (simp add: demo_received_def heap_empty_ok)
  have "event_content (fst demo_buffer) demo_event =
      (6, 2, True, [Plain (VInt16 (- 3)), Object (RawObj \<lparr>buf_size = 2, rb_data = Owned (Some [1, 2])\<rparr>)])"
    using sent w by (simp add: event_content_def) (simp add: demo_event_def is_list_def)
  moreover have "length (sent_values (edata demo_event)) \<le> max_values demo_unpack"
    by (simp add: sent demo_unpack_def)
  moreover have "data_pointer (demo_received bs) = bs" for bs by (simp add: demo_received_def)
  ultimately show ?thesis
    using event_roundtrip [OF demo_event_ok(1) s _ env r, of "encode_event (fst demo_buffer) 5 demo_event @ [77]" 5 "[77]"]
    by (simp add: delivered_content_def demo_received_def) blast
qed

text \<open>
  A 64-bit integer, signed or not, is packed but never read back: unpacking gives the empty
  value and stays on the tag, so the value and all values after it in a list arrive empty.
\<close>

theorem int64_blocks_unpack:
  "unpack_value ms ue (us\<lparr>data_pointer := encode_plain (VInt64 x) @ rest\<rparr>) =
     Fine (us\<lparr>data_pointer := encode_plain (VInt64 x) @ rest\<rparr>, VNone) \<and>
   unpack_value ms ue (us\<lparr>data_pointer := encode_plain (VUInt64 y) @ rest\<rparr>) =
     Fine (us\<lparr>data_pointer := encode_plain (VUInt64 y) @ rest\<rparr>, VNone) \<and>
   unpack_values ms ue (replicate (i + n) VNone) i n (us\<lparr>data_pointer := encode_plain (VInt64 x) @ rest\<rparr>) =
     Fine (us\<lparr>data_pointer := encode_plain (VInt64 x) @ rest\<rparr>, replicate (i + n) VNone)"
proof -
  have one: "unpack_value ms ue (us\<lparr>data_pointer := encode_plain (VInt64 x) @ rest\<rparr>) =
     Fine (us\<lparr>data_pointer := encode_plain (VInt64 x) @ rest\<rparr>, VNone)" for us
    by (simp add: unpack_value_def)
  have "unpack_values ms ue (replicate m VNone) i n (us\<lparr>data_pointer := encode_plain (VInt64 x) @ rest\<rparr>) =
     Fine (us\<lparr>data_pointer := encode_plain (VInt64 x) @ rest\<rparr>, replicate m VNone)" if "i + n = m" for m
    using that one
  proof (induction n arbitrary: i)
    case (Suc n)
    then have "i < m" "(replicate m VNone)[i := VNone] = replicate m VNone"
      by (simp_all add: list_update_same_conv)
    with Suc show ?case
      by (simp del: encode_plain.simps add: CV_moveFrom_def)
  qed simp
  with one show ?thesis by (simp add: unpack_value_def)
qed

lemma unpack_values_none:
  "data_pointer s = replicate n 0 @ rest \<Longrightarrow> i \<le> m \<Longrightarrow>
   unpack_values ms ue (replicate m VNone) i n s =
     (if i + n \<le> m then Fine (s\<lparr>data_pointer := rest\<rparr>, replicate m VNone) else UB)"
proof (induction n arbitrary: i s)
  case (Suc n)
  have "unpack_value ms ue s = Fine (s\<lparr>data_pointer := replicate n 0 @ rest\<rparr>, VNone)"
    using Suc.prems(1) by (simp add: unpack_value_def)
  moreover have "(replicate m VNone)[i := VNone] = replicate m VNone" if "i < m"
    using that by (simp add: list_update_same_conv)
  ultimately show ?case using Suc.IH [of _ "Suc i"] Suc.prems
    by (auto simp: CV_moveFrom_def)
qed simp

text \<open>
  The length of a list is not compared with the array: a message that announces more values
  than a list can hold writes past the end of the array.
\<close>

theorem announced_length_unchecked:
  "undefined_call (unpack_event ms demo_unpack
     (demo_received (u32_bytes nodeid @ u32_bytes i @ [p, 1] @ u32_bytes n @ replicate (unat n) 0))) \<longleftrightarrow> unat n > 3"
  using unpack_values_none [of "demo_received (replicate (unat n) 0)" "unat n" "[]" 0 3 ms demo_unpack]
  by (simp add: unpack_event_def demo_received_def demo_unpack_def list_value_new_def undefined_call_def)

text \<open>
  A buffer or tensor whose handle is null, because it was moved out or its mutex was refused, is
  packed as its tag alone: unpacking reads past the end of the message.
\<close>

theorem null_handle_corrupts_message:
  "case pack_event ms ds net demo_env heap_empty 5
        \<lparr>event_id = 6, priority = 1, edata = Single (VBuffer PB_null), ttl = 0\<rparr> Pack_new of
     Fine (h, s) \<Rightarrow>
       serialized_object s = [5, 0, 0, 0, 6, 0, 0, 0, 1, 0, 11] \<and>
       undefined_call (unpack_event ms' demo_unpack (demo_received (serialized_object s)))
   | _ \<Rightarrow> False"
proof -
  have "pack_locked demo_env heap_empty PB_null f s = Fine (heap_empty, s)" for f s
    by (simp add: pack_locked_def PB_copy_def PB_lock_shared_def PB_destroy_def release_mtx_def release_obj_def
        sp_release_def heap_empty_def)
  then have "pack_value ms ds net demo_env heap_empty (VBuffer PB_null) s = Fine (heap_empty, append_bytes s [11])" for s
    by (simp add: Let_def)
  then show ?thesis
    by (simp del: pack_value.simps add: pack_event_def Event_destroy_def destroy_data_def CV_destroy_def
        PB_destroy_def release_mtx_def
        release_obj_def sp_release_def Pack_new_def append_bytes_def u32_bytes_def low_byte_def unpack_event_def
        demo_received_def read_value_def take_bytes_def unpack_value_def unpack_raw_def undefined_call_def)
qed

text \<open>A buffer in shared memory is packed as its size and identifier and unpacked by them.\<close>

lemma shared_memory_pack_unpack:
  assumes "handles_ok h H" and "p \<in># H" and "grants env"
    and "wire_value h (VBuffer p) = Object (RawObj \<lparr>buf_size = n, rb_data = Shm (Some i)\<rparr>)"
    and "ds i = Some d" and "ds_valid d" and "n \<noteq> 0" and "ms_get_buffer server (ds_global_id d) = Some d'"
    and "generous ue" and "handles_ok (u_heap us) Q"
    and "data_pointer us = [11, 1] @ u32_bytes n @ u32_bytes (ds_global_id d) @ rest"
  shows "(\<exists>h'. pack_value (Some server) ds network env h (VBuffer p) s =
       Fine (h', (append_bytes s ([11, 1] @ u32_bytes n @ u32_bytes (ds_global_id d)))
         \<lparr>acquired := acquired s @ (if network then [] else [ds_global_id d])\<rparr>) \<and> handles_ok h' H) \<and>
    (\<exists>us' q. unpack_value (Some server) ue us = Fine (us', VBuffer q) \<and>
       data_pointer us' = rest \<and> released us' = released us @ [ds_global_id d] \<and>
       u_descs us' = (u_descs us)(next_desc us := Some d') \<and>
       wire_value (u_heap us') (VBuffer q) =
         Object (RawObj \<lparr>buf_size = ucast (ds_size d'), rb_data = Shm (Some (next_desc us))\<rparr>) \<and>
       handles_ok (u_heap us') (add_mset q Q))"
proof
  let ?r = "\<lparr>buf_size = n, rb_data = Shm (Some i)\<rparr>"
  let ?s = "(append_bytes s ([11, 1] @ u32_bytes n @ u32_bytes (ds_global_id d)))
         \<lparr>acquired := acquired s @ (if network then [] else [ds_global_id d])\<rparr>"
  have same: "t\<lparr>acquired := acquired t\<rparr> = t" for t :: pack_st by simp
  have "pack_raw_object (Some server) ds network (append_bytes s [11]) (RawObj ?r) = Fine ?s"
    using assms(5,6) same [of ?s]
    by (cases s) (simp add: pack_raw_data_def pack_shared_def SB_validFd_def deref_def Descriptor_global_id_def append_bytes_def)
  then obtain h' where "pack_locked env h p (pack_raw_object (Some server) ds network (append_bytes s [11]))
        (append_bytes s [11]) = Fine (h', ?s)" "handles_ok h' H"
    using pack_handle [where f = "pack_raw_object (Some server) ds network (append_bytes s [11])", OF assms(1-4)] by blast
  then show "\<exists>h'. pack_value (Some server) ds network env h (VBuffer p) s = Fine (h', ?s) \<and> handles_ok h' H"
    by (simp add: Let_def)
next
  let ?r = "RawObj \<lparr>buf_size = ucast (ds_size d'), rb_data = Shm (Some (next_desc us))\<rparr>"
  let ?us = "us\<lparr>data_pointer := rest, u_descs := (u_descs us)(next_desc us := Some d'),
      next_desc := Suc (next_desc us), released := released us @ [ds_global_id d]\<rparr>"
  obtain h' q where "return_object ue ?us ?r VBuffer = Fine (?us\<lparr>u_heap := h'\<rparr>, VBuffer q)"
      "handles_ok h' (add_mset q Q)" "wire_value h' (VBuffer q) = Object ?r"
    using return_object_ok [of ?us Q ue ?r VBuffer] assms(9,10) by auto
  moreover have "unpack_value (Some server) ue us = return_object ue ?us ?r VBuffer"
    using assms(7,8,11)
    by (simp add: unpack_value_def unpack_raw_def unpack_shared_def RawBuffer_new_shared_def SB_bytes_def SB_new_def
        deref_def Descriptor_bytes_def Let_def)
  ultimately show "\<exists>us' q. unpack_value (Some server) ue us = Fine (us', VBuffer q) \<and>
       data_pointer us' = rest \<and> released us' = released us @ [ds_global_id d] \<and>
       u_descs us' = (u_descs us)(next_desc us := Some d') \<and>
       wire_value (u_heap us') (VBuffer q) =
         Object (RawObj \<lparr>buf_size = ucast (ds_size d'), rb_data = Shm (Some (next_desc us))\<rparr>) \<and>
       handles_ok (u_heap us') (add_mset q Q)"
    by (intro exI [of _ "?us\<lparr>u_heap := h'\<rparr>"] exI [of _ q]) simp
qed

text \<open>
  C21. A buffer in shared memory that is packed for another process (not for the network) goes by
  its identifier: the sender writes the size and the identifier and acquires the identifier once
  from the memory server; where the server still knows the identifier and the allocations
  of the receiver succeed, unpacking these bytes asks the server for a descriptor, releases the
  identifier once, and gives a buffer on the new descriptor with its size.
\<close>

theorem shared_memory_transfer:
  assumes "handles_ok h H" and "p \<in># H" and "grants env"
    and "wire_value h (VBuffer p) = Object (RawObj \<lparr>buf_size = n, rb_data = Shm (Some i)\<rparr>)"
    and "ds i = Some d" and "ds_valid d" and "n \<noteq> 0" and "ms_get_buffer server (ds_global_id d) = Some d'"
    and "generous ue" and "handles_ok (u_heap us) Q"
    and "data_pointer us = [11, 1] @ u32_bytes n @ u32_bytes (ds_global_id d) @ rest"
  shows "(\<exists>h'. pack_value (Some server) ds False env h (VBuffer p) s =
       Fine (h', (append_bytes s ([11, 1] @ u32_bytes n @ u32_bytes (ds_global_id d)))
         \<lparr>acquired := acquired s @ [ds_global_id d]\<rparr>) \<and> handles_ok h' H) \<and>
    (\<exists>us' q. unpack_value (Some server) ue us = Fine (us', VBuffer q) \<and>
       data_pointer us' = rest \<and> released us' = released us @ [ds_global_id d] \<and>
       u_descs us' = (u_descs us)(next_desc us := Some d') \<and>
       wire_value (u_heap us') (VBuffer q) =
         Object (RawObj \<lparr>buf_size = ucast (ds_size d'), rb_data = Shm (Some (next_desc us))\<rparr>) \<and>
       handles_ok (u_heap us') (add_mset q Q))"
  using shared_memory_pack_unpack [where h = h and H = H and p = p and env = env and n = n and i = i and ds = ds and d = d and server = server
      and d' = d' and ue = ue and us = us and Q = Q and rest = rest and s = s and network = False, OF assms] by simp

text \<open>
  Packing the same buffer for the network writes the same bytes, though the comment of pack says
  that shared buffers are not transmitted, and acquires nothing; the receiver that unpacks them
  releases the identifier all the same.
\<close>

theorem network_sends_shared_unacquired:
  assumes "handles_ok h H" and "p \<in># H" and "grants env"
    and "wire_value h (VBuffer p) = Object (RawObj \<lparr>buf_size = n, rb_data = Shm (Some i)\<rparr>)"
    and "ds i = Some d" and "ds_valid d" and "n \<noteq> 0" and "ms_get_buffer server (ds_global_id d) = Some d'"
    and "generous ue" and "handles_ok (u_heap us) Q"
    and "data_pointer us = [11, 1] @ u32_bytes n @ u32_bytes (ds_global_id d) @ rest"
  shows "(\<exists>h'. pack_value (Some server) ds True env h (VBuffer p) s =
       Fine (h', append_bytes s ([11, 1] @ u32_bytes n @ u32_bytes (ds_global_id d)))) \<and>
    (\<exists>us' q. unpack_value (Some server) ue us = Fine (us', VBuffer q) \<and>
       released us' = released us @ [ds_global_id d])"
proof -
  have "t\<lparr>acquired := acquired s\<rparr> = t" if "acquired t = acquired s" for t :: pack_st using that by (cases t) simp
  then show ?thesis
    using shared_memory_pack_unpack [where h = h and H = H and p = p and env = env and n = n and i = i and ds = ds and d = d and server = server
      and d' = d' and ue = ue and us = us and Q = Q and rest = rest and s = s and network = True, OF assms] by (auto simp: append_bytes_def)
qed

definition demo_server :: mem_server where
  "demo_server = \<lparr>ms_lock = (\<lambda>i. 0), ms_unlock = (\<lambda>i. 0), ms_read_lock = (\<lambda>i. 0), ms_read_unlock = (\<lambda>i. 0),
     ms_refcount = (\<lambda>i. 1), ms_get_buffer = (\<lambda>i. Some (Descriptor_new 64 i True))\<rparr>"

definition demo_shared :: "shared_obj sheap \<times> pbuf" where
  "demo_shared = PB_create_with True True heap_empty (RawObj \<lparr>buf_size = 64, rb_data = Shm (Some 3)\<rparr>)"

theorem shared_memory_transfer_witness:
  "\<exists>us' q. unpack_value (Some demo_server) demo_unpack (demo_received [11, 1, 64, 0, 0, 0, 9, 0, 0, 0]) = Fine (us', VBuffer q) \<and>
     released us' = [9] \<and>
     wire_value (u_heap us') (VBuffer q) = Object (RawObj \<lparr>buf_size = 64, rb_data = Shm (Some 0)\<rparr>)"
proof -
  obtain h p where b: "demo_shared = (h, p)" by fastforce
  then have ok: "handles_ok h {#p#}"
    using PB_create_with_ok [OF heap_empty_ok, of True True] by (auto simp: demo_shared_def)
  have w: "wire_value h (VBuffer p) = Object (RawObj \<lparr>buf_size = 64, rb_data = Shm (Some 3)\<rparr>)"
    using b by (auto simp: demo_shared_def wire_value_def PB_create_with_def Let_def sp_make_def)
  have env: "grants demo_env" "generous demo_unpack"
    by (simp_all add: grants_def demo_env_def generous_def demo_unpack_def)
  have r: "handles_ok (u_heap (demo_received bs)) {#}" for bs by (simp add: demo_received_def heap_empty_ok)
  let ?d = "Descriptor_new 64 9 True"
  let ?us = "demo_received [11, 1, 64, 0, 0, 0, 9, 0, 0, 0]"
  have d: "ds_valid ?d" "ms_get_buffer demo_server (ds_global_id ?d) = Some ?d" "ds_size ?d = 64" "ds_global_id ?d = 9"
    by (simp_all add: Descriptor_new_def demo_server_def)
  have bytes: "data_pointer ?us = [11, 1] @ u32_bytes 64 @ u32_bytes (ds_global_id ?d) @ []"
    by (simp add: d(4) demo_received_def u32_bytes_def low_byte_def)
  have "released ?us = []" "next_desc ?us = 0" by (simp_all add: demo_received_def)
  then show ?thesis
    using conjunct2 [OF shared_memory_transfer [where h = h and p = p and i = 3 and d = ?d and us = ?us and n = 64 and rest = "[]"
        and ds = "\<lambda>i. Some ?d" and server = demo_server,
        OF ok _ env(1) w refl d(1) _ d(2) env(2) r bytes]] d(3,4) by auto
qed

end
