(* ===== verification/Ring.thy ===== *)
theory Ring
  imports Main
begin

text \<open>
  Circular arrays: the elements between a read and a write position that wrap around, as the
  list they stand for, and what writing at the end and reading at the front do to that list.
\<close>

section \<open>Positions\<close>

definition ring_next :: "nat \<Rightarrow> nat \<Rightarrow> nat" where
  "ring_next N i = (if Suc i = N then 0 else Suc i)"

lemma ring_next_mod: "i < N \<Longrightarrow> ring_next N i = Suc i mod N"
  by (auto simp: ring_next_def)

lemma ring_next_less [simp]: "i < N \<Longrightarrow> ring_next N i < N"
  by (auto simp: ring_next_def)

lemma ring_next_add: "0 < N \<Longrightarrow> ring_next N ((r + n) mod N) = (r + Suc n) mod N"
  by (simp add: ring_next_mod mod_Suc_eq)

lemma ring_next_shift: "r < N \<Longrightarrow> (ring_next N r + n) mod N = (r + Suc n) mod N"
  by (simp add: ring_next_mod mod_add_left_eq)

lemma ring_position_less: "i < j \<Longrightarrow> j < N \<Longrightarrow> (r + i) mod N \<noteq> (r + j) mod (N :: nat)"
  using mod_eq_dvd_iff_nat [of "r + i" "r + j" N] by (auto dest: dvd_imp_le)

lemma ring_position_inj: "i < N \<Longrightarrow> j < N \<Longrightarrow> (r + i) mod N = (r + j) mod N \<Longrightarrow> i = (j :: nat)"
  using ring_position_less [of i j N r] ring_position_less [of j i N r] by (metis linorder_neqE_nat)

lemma ring_position_zero: "0 < k \<Longrightarrow> k < N \<Longrightarrow> r < N \<Longrightarrow> (r + k) mod N \<noteq> (r :: nat)"
  using ring_position_inj [of k N 0 r] by auto

text \<open>Writing one slot does not change the others.\<close>

lemma ring_nth_other:
  "i < N \<Longrightarrow> j < N \<Longrightarrow> i \<noteq> j \<Longrightarrow> s[(r + i) mod N := x] ! ((r + j) mod N) = s ! ((r + j) mod (N :: nat))"
  by (rule nth_list_update_neq) (auto dest: ring_position_inj)

lemma ring_nth_first:
  "r < N \<Longrightarrow> 0 < j \<Longrightarrow> j < N \<Longrightarrow> s[r := x] ! ((r + j) mod N) = s ! ((r + j) mod (N :: nat))"
  using ring_nth_other [of 0 N j s r x] by simp

section \<open>Elements\<close>

definition ring_items :: "nat \<Rightarrow> 'a list \<Rightarrow> nat \<Rightarrow> nat \<Rightarrow> 'a list" where
  "ring_items N s r n = map (\<lambda>k. s ! ((r + k) mod N)) [0..<n]"

lemma ring_items_empty [simp]: "ring_items N s r 0 = []"
  by (simp add: ring_items_def)

lemma length_ring_items [simp]: "length (ring_items N s r n) = n"
  by (simp add: ring_items_def)

lemma ring_push:
  assumes "length s = N" and "n < N"
  shows "ring_items N (s[(r + n) mod N := x]) r (Suc n) = ring_items N s r n @ [x]"
proof -
  have "(r + n) mod N < length s" using assms by simp
  then show ?thesis using assms(2) by (simp add: ring_items_def ring_nth_other)
qed

lemma ring_pop:
  assumes "length s = N" and "r < N" and "n < N"
  shows "ring_items N s r (Suc n) = s ! r # ring_items N (s[r := y]) (ring_next N r) n"
proof -
  have "map (\<lambda>k. s ! ((r + Suc k) mod N)) [0..<n] = ring_items N (s[r := y]) (ring_next N r) n"
    using assms(2,3) ring_nth_first [of r N "Suc k" s y for k] by (simp add: ring_items_def ring_next_shift del: add_Suc_right)
  moreover have "[0..<Suc n] = 0 # map Suc [0..<n]" by (simp only: upt_conv_Cons map_Suc_upt zero_less_Suc)
  ultimately show ?thesis using assms(2) by (simp add: ring_items_def comp_def del: upt_Suc)
qed

text \<open>The slots outside of the list satisfy \<open>P\<close>.\<close>

definition ring_rest :: "('a \<Rightarrow> bool) \<Rightarrow> nat \<Rightarrow> 'a list \<Rightarrow> nat \<Rightarrow> nat \<Rightarrow> bool" where
  "ring_rest P N s r n \<longleftrightarrow> (\<forall>k. n \<le> k \<and> k < N \<longrightarrow> P (s ! ((r + k) mod N)))"

lemma ring_rest_push:
  assumes "ring_rest P N s r n" and "n < N"
  shows "ring_rest P N (s[(r + n) mod N := x]) r (Suc n)"
  unfolding ring_rest_def
proof (intro allI impI)
  fix k assume "Suc n \<le> k \<and> k < N"
  then show "P (s[(r + n) mod N := x] ! ((r + k) mod N))"
    using ring_nth_other [of n N k s r x] assms by (simp add: ring_rest_def)
qed

lemma ring_rest_pop:
  assumes "ring_rest P N s r (Suc n)" and "length s = N" and "r < N" and "P y"
  shows "ring_rest P N (s[r := y]) (ring_next N r) n"
  unfolding ring_rest_def
proof (intro allI impI)
  fix k assume k: "n \<le> k \<and> k < N"
  have pos: "(ring_next N r + k) mod N = (r + Suc k) mod N" by (rule ring_next_shift [OF assms(3)])
  show "P (s[r := y] ! ((ring_next N r + k) mod N))"
  proof (cases "Suc k < N")
    case True
    then have "s[r := y] ! ((r + Suc k) mod N) = s ! ((r + Suc k) mod N)"
      by (rule ring_nth_first [OF assms(3) zero_less_Suc])
    moreover have "P (s ! ((r + Suc k) mod N))" using assms(1) k True unfolding ring_rest_def by blast
    ultimately show ?thesis unfolding pos by simp
  next
    case False
    then have "Suc k = N" using k by simp
    then show ?thesis unfolding pos using assms(2-4) by simp
  qed
qed

lemma ring_rest_next: "ring_rest P N s r n \<Longrightarrow> n < N \<Longrightarrow> P (s ! ((r + n) mod N))"
  by (simp add: ring_rest_def)

end
