(* ===== verification/EventQueue.thy ===== *)
theory EventQueue
  imports Events
begin

text \<open>
  Messages, the base class \<^verbatim>\<open>EventQueue\<close> with its requests and pending error, the handler of the
  application, and \<^verbatim>\<open>EventOutput\<close>, which sends an event to the subscribers of a port
  (\<^verbatim>\<open>EventQueue.hpp\<close>). What belongs to a derived class or to a node is a parameter: \<open>'s\<close> is the
  state of the rest of the program, which such a call may change.
\<close>

section \<open>Messages\<close>

text \<open>A local destination is a pointer to a node and a port of it.\<close>

datatype destination = LocalDestination "nat option" int | DistantDestination int

record message =
  destination :: destination
  m_event :: event
  timestamp :: u32

definition Message_new :: message where
  "Message_new = \<lparr>destination = LocalDestination None 0, m_event = Event_new, timestamp = 0\<rparr>"

text \<open>The implicit members: the moved message and the source afterwards.\<close>

definition Message_move ::
    "lock_env \<Rightarrow> shared_obj sheap \<Rightarrow> message \<Rightarrow> (shared_obj sheap \<times> message \<times> message) exec" where
  "Message_move env h other =
     exec_then (Event_move env h (m_event other)) (\<lambda>(h', e, e').
       Fine (h', other\<lparr>m_event := e\<rparr>, other\<lparr>m_event := e'\<rparr>))"

definition Message_move_assign ::
    "lock_env \<Rightarrow> shared_obj sheap \<Rightarrow> message \<Rightarrow> message \<Rightarrow> (shared_obj sheap \<times> message \<times> message) exec" where
  "Message_move_assign env h this other =
     exec_then (Event_move_assign False env h (m_event this) (m_event other)) (\<lambda>(h', e, e').
       Fine (h', other\<lparr>m_event := e\<rparr>, other\<lparr>m_event := e'\<rparr>))"

definition Message_destroy :: "shared_obj sheap \<Rightarrow> message \<Rightarrow> shared_obj sheap exec" where
  "Message_destroy h m = Event_destroy h (m_event m)"

section \<open>The base class\<close>

definition CG_UNIDENTIFIED_NODE :: int where
  "CG_UNIDENTIFIED_NODE = - 1"

record event_queue =
  must_end :: bool
  must_pause :: bool
  error_pending :: bool
  error_status :: cg_status
  error_node_id :: int
  error_info :: int

definition mustEnd :: "'a event_queue_scheme \<Rightarrow> bool" where
  "mustEnd q = must_end q"

definition mustPause :: "'a event_queue_scheme \<Rightarrow> bool" where
  "mustPause q = must_pause q"

definition EventQueue_end :: "'a event_queue_scheme \<Rightarrow> 'a event_queue_scheme" where
  "EventQueue_end q = q\<lparr>must_end := True\<rparr>"

definition EventQueue_pause :: "'a event_queue_scheme \<Rightarrow> 'a event_queue_scheme" where
  "EventQueue_pause q = q\<lparr>must_pause := True\<rparr>"

definition clearError :: "'a event_queue_scheme \<Rightarrow> 'a event_queue_scheme" where
  "clearError q = q\<lparr>error_pending := False, error_status := CG_SUCCESS,
     error_node_id := CG_UNIDENTIFIED_NODE, error_info := 0\<rparr>"

definition EventQueue_resume :: "'a event_queue_scheme \<Rightarrow> 'a event_queue_scheme" where
  "EventQueue_resume q = clearError (q\<lparr>must_pause := False\<rparr>)"

text \<open>\<open>pause\<close> is virtual.\<close>

definition setError ::
    "('a event_queue_scheme \<Rightarrow> 'a event_queue_scheme) \<Rightarrow> cg_status \<Rightarrow> int \<Rightarrow> int \<Rightarrow>
     'a event_queue_scheme \<Rightarrow> 'a event_queue_scheme" where
  "setError pause status node_id info q =
     pause (q\<lparr>error_status := status, error_node_id := node_id, error_info := info, error_pending := True\<rparr>)"

definition consumeError ::
    "'a event_queue_scheme \<Rightarrow> 'a event_queue_scheme \<times> (cg_status \<times> int \<times> int) option" where
  "consumeError q =
     (if \<not> error_pending q then (q\<lparr>error_pending := False\<rparr>, None)
      else (q\<lparr>error_pending := False\<rparr>, Some (error_status q, error_node_id q, error_info q)))"

section \<open>The handler of the application\<close>

text \<open>
  A receiver gets the state of the program, the heap and an event by \<^verbatim>\<open>&&\<close>; it leaves in the event
  what it did not move out, which the caller destroys.
\<close>

type_synonym ('s, 'r) receiver =
  "'s \<Rightarrow> shared_obj sheap \<Rightarrow> event \<Rightarrow> ('s \<times> shared_obj sheap \<times> event \<times> 'r) exec"

record ('d, 's) app_handler =
  handler_ready :: bool
  handler_data :: 'd
  handler :: "(int \<Rightarrow> 'd \<Rightarrow> ('s, bool) receiver) option"

definition setHandler ::
    "'d \<Rightarrow> (int \<Rightarrow> 'd \<Rightarrow> ('s, bool) receiver) option \<Rightarrow> ('d, 's) app_handler \<Rightarrow> ('d, 's) app_handler" where
  "setHandler data f a = a\<lparr>handler_data := data, handler := f, handler_ready := True\<rparr>"

definition callSyncHandler :: "('d, 's) app_handler \<Rightarrow> int \<Rightarrow> ('s, bool) receiver" where
  "callSyncHandler a node_id s h evt =
     (if handler_ready a then
        (case handler a of
           Some f \<Rightarrow> f node_id (handler_data a) s h evt
         | None \<Rightarrow> Fine (s, h, evt, False))
      else Fine (s, h, evt, False))"

definition callAsyncHandler :: "'a event_queue_scheme \<Rightarrow> ('d, 's) app_handler \<Rightarrow> int \<Rightarrow> ('s, bool) receiver" where
  "callAsyncHandler q a node_id s h evt =
     (if must_end q then Fine (s, h, evt, False)
      else if handler_ready a then
        (case handler a of
           Some f \<Rightarrow> f node_id (handler_data a) s h evt
         | None \<Rightarrow> Fine (s, h, evt, False))
      else Fine (s, h, evt, False))"

section \<open>EventOutput\<close>

text \<open>
  The two public \<^verbatim>\<open>push\<close> members: the event is moved into a message stamped with the time \<open>now\<close>,
  which is pushed and destroyed. \<open>push\<close> is the member of the derived class; it leaves the message
  it did not move out.
\<close>

type_synonym 's pusher =
  "'s \<Rightarrow> shared_obj sheap \<Rightarrow> message \<Rightarrow> ('s \<times> shared_obj sheap \<times> message \<times> bool) exec"

definition push_event ::
    "lock_env \<Rightarrow> 's pusher \<Rightarrow> u32 \<Rightarrow> destination \<Rightarrow> ('s, bool) receiver" where
  "push_event env push now dest s h evt =
     exec_then (Event_move env h evt) (\<lambda>(h1, e, evt').
       exec_then (push s h1 \<lparr>destination = dest, m_event = e, timestamp = now\<rparr>) (\<lambda>(s', h2, msg, ok).
         exec_then (Message_destroy h2 msg) (\<lambda>h3. Fine (s', h3, evt', ok))))"

datatype event_mode = kSync | kAsync

text \<open>The subscribed nodes and ports, and whether the queue pointer is set.\<close>

record event_output =
  mNodes :: "(nat option \<times> int) list"
  has_queue :: bool

definition EventOutput_new :: "bool \<Rightarrow> event_output" where
  "EventOutput_new queue = \<lparr>mNodes = [], has_queue = queue\<rparr>"

definition subscribe :: "nat \<Rightarrow> int \<Rightarrow> event_output \<Rightarrow> event_output" where
  "subscribe node dstPort out = out\<lparr>mNodes := mNodes out @ [(Some node, dstPort)]\<rparr>"

text \<open>
  What the calls need of the rest of the program: the queue's \<^verbatim>\<open>mustEnd\<close> and \<^verbatim>\<open>push\<close>, the time,
  and \<^verbatim>\<open>processEvent\<close> of a node at a port.
\<close>

record 's program =
  queue_ended :: "'s \<Rightarrow> bool"
  queue_push :: "'s pusher"
  time_of :: "'s \<Rightarrow> u32"
  process_event :: "nat \<Rightarrow> int \<Rightarrow> ('s, cg_status) receiver"

text \<open>One delivery; without a queue an asynchronous one calls through a null pointer.\<close>

definition deliver ::
    "lock_env \<Rightarrow> 's program \<Rightarrow> event_output \<Rightarrow> event_mode \<Rightarrow> nat option \<times> int \<Rightarrow> ('s, bool) receiver" where
  "deliver env prog out mode dst s h evt =
     (case mode of
        kAsync \<Rightarrow>
          if has_queue out then
            push_event env (queue_push prog) (time_of prog s) (LocalDestination (fst dst) (snd dst)) s h evt
          else UB
      | kSync \<Rightarrow>
          (case fst dst of
             None \<Rightarrow> UB
           | Some node \<Rightarrow>
               exec_then (process_event prog node (snd dst) s h evt) (\<lambda>(s', h', evt', st).
                 Fine (s', h', evt', st = CG_SUCCESS))))"

text \<open>
  Several subscribers: each gets a clone, until one refuses. \<open>pool_ok\<close> says, by the number of
  subscribers left, whether the block for the list of the clone is available.
\<close>

fun deliver_clones ::
    "lock_env \<Rightarrow> nat \<Rightarrow> (nat \<Rightarrow> bool) \<Rightarrow> 's program \<Rightarrow> event_output \<Rightarrow> event_mode \<Rightarrow> (nat option \<times> int) list \<Rightarrow>
     ('s, bool) receiver" where
  "deliver_clones env mx pool_ok prog out mode [] s h evt = Fine (s, h, evt, True)"
| "deliver_clones env mx pool_ok prog out mode (dst # dsts) s h evt =
     exec_then (Event_clone mx (pool_ok (length dsts)) env h evt) (\<lambda>(h1, e).
       exec_then (deliver env prog out mode dst s h1 e) (\<lambda>(s2, h2, e', ok).
         exec_then (Event_destroy h2 e') (\<lambda>h3.
           if ok then deliver_clones env mx pool_ok prog out mode dsts s2 h3 evt
           else Fine (s2, h3, evt, False))))"

definition sendEventToAllNodes ::
    "lock_env \<Rightarrow> nat \<Rightarrow> (nat \<Rightarrow> bool) \<Rightarrow> 's program \<Rightarrow> event_output \<Rightarrow> event_mode \<Rightarrow> ('s, bool) receiver" where
  "sendEventToAllNodes env mx pool_ok prog out mode s h evt =
     (if mode = kAsync \<and> (\<not> has_queue out \<or> queue_ended prog s) then Fine (s, h, evt, False)
      else if event_id evt = selector_code kNoEvent then Fine (s, h, evt, True)
      else (case mNodes out of
              [dst] \<Rightarrow> deliver env prog out mode dst s h evt
            | _ \<Rightarrow> deliver_clones env mx pool_ok prog out mode (mNodes out) s h evt))"

text \<open>The members that build the event first; \<open>args\<close> are the values of the arguments.\<close>

definition sendCombinedValue ::
    "lock_env \<Rightarrow> nat \<Rightarrow> bool \<Rightarrow> (nat \<Rightarrow> bool) \<Rightarrow> 's program \<Rightarrow> event_output \<Rightarrow> cg_event_priority \<Rightarrow> event_mode \<Rightarrow>
     u32 \<Rightarrow> u32 \<Rightarrow> cg_value list \<Rightarrow> 's \<Rightarrow> shared_obj sheap \<Rightarrow> ('s \<times> shared_obj sheap \<times> bool) exec" where
  "sendCombinedValue env mx list_ok pool_ok prog out p mode selector t args s h =
     exec_then (Event_of_args mx list_ok env h selector p args) (\<lambda>(h1, evt, rest).
       exec_then (sendEventToAllNodes env mx pool_ok prog out mode s h1
           (if t \<noteq> 0 then Event_setTTL evt t else evt)) (\<lambda>(s2, h2, evt', ok).
         exec_then (Event_destroy h2 evt') (\<lambda>h3.
           exec_then (destroy_values h3 rest) (\<lambda>h4. Fine (s2, h4, ok)))))"

definition sendSync ::
    "lock_env \<Rightarrow> nat \<Rightarrow> bool \<Rightarrow> (nat \<Rightarrow> bool) \<Rightarrow> 's program \<Rightarrow> event_output \<Rightarrow> cg_event_priority \<Rightarrow>
     u32 \<Rightarrow> cg_value list \<Rightarrow> 's \<Rightarrow> shared_obj sheap \<Rightarrow> ('s \<times> shared_obj sheap) exec" where
  "sendSync env mx list_ok pool_ok prog out p selector args s h =
     exec_then (sendCombinedValue env mx list_ok pool_ok prog out p kSync selector 0 args s h)
       (\<lambda>(s', h', ok). Fine (s', h'))"

definition sendAsync ::
    "lock_env \<Rightarrow> nat \<Rightarrow> bool \<Rightarrow> (nat \<Rightarrow> bool) \<Rightarrow> 's program \<Rightarrow> event_output \<Rightarrow> cg_event_priority \<Rightarrow>
     u32 \<Rightarrow> cg_value list \<Rightarrow> 's \<Rightarrow> shared_obj sheap \<Rightarrow> ('s \<times> shared_obj sheap \<times> bool) exec" where
  "sendAsync env mx list_ok pool_ok prog out p selector args s h =
     sendCombinedValue env mx list_ok pool_ok prog out p kAsync selector 0 args s h"

definition sendAsyncWithTTL ::
    "lock_env \<Rightarrow> nat \<Rightarrow> bool \<Rightarrow> (nat \<Rightarrow> bool) \<Rightarrow> 's program \<Rightarrow> event_output \<Rightarrow> cg_event_priority \<Rightarrow>
     u32 \<Rightarrow> u32 \<Rightarrow> cg_value list \<Rightarrow> 's \<Rightarrow> shared_obj sheap \<Rightarrow> ('s \<times> shared_obj sheap \<times> bool) exec" where
  "sendAsyncWithTTL env mx list_ok pool_ok prog out p selector t args s h =
     sendCombinedValue env mx list_ok pool_ok prog out p kAsync selector t args s h"

definition sendAsync_event ::
    "lock_env \<Rightarrow> nat \<Rightarrow> (nat \<Rightarrow> bool) \<Rightarrow> 's program \<Rightarrow> event_output \<Rightarrow> ('s, bool) receiver" where
  "sendAsync_event env mx pool_ok prog out s h evt = sendEventToAllNodes env mx pool_ok prog out kAsync s h evt"

definition sendAsyncToApp ::
    "lock_env \<Rightarrow> nat \<Rightarrow> bool \<Rightarrow> 's program \<Rightarrow> event_output \<Rightarrow> int \<Rightarrow> cg_event_priority \<Rightarrow> u32 \<Rightarrow> cg_value list \<Rightarrow>
     's \<Rightarrow> shared_obj sheap \<Rightarrow> ('s \<times> shared_obj sheap \<times> bool) exec" where
  "sendAsyncToApp env mx list_ok prog out node_id p selector args s h =
     (if \<not> has_queue out \<or> queue_ended prog s then
        exec_then (destroy_values h args) (\<lambda>h'. Fine (s, h', False))
      else
        exec_then (Event_of_args mx list_ok env h selector p args) (\<lambda>(h1, evt, rest).
          exec_then (push_event env (queue_push prog) (time_of prog s) (DistantDestination node_id) s h1 evt)
            (\<lambda>(s2, h2, evt', ok).
              exec_then (Event_destroy h2 evt') (\<lambda>h3.
                exec_then (destroy_values h3 rest) (\<lambda>h4. Fine (s2, h4, ok))))))"

definition sendSyncToApp ::
    "lock_env \<Rightarrow> nat \<Rightarrow> bool \<Rightarrow> ('d, 's) app_handler \<Rightarrow> int \<Rightarrow> cg_event_priority \<Rightarrow> u32 \<Rightarrow> cg_value list \<Rightarrow>
     's \<Rightarrow> shared_obj sheap \<Rightarrow> ('s \<times> shared_obj sheap \<times> bool) exec" where
  "sendSyncToApp env mx list_ok a node_id p selector args s h =
     exec_then (Event_of_args mx list_ok env h selector p args) (\<lambda>(h1, evt, rest).
       exec_then (callSyncHandler a node_id s h1 evt) (\<lambda>(s2, h2, evt', ok).
         exec_then (Event_destroy h2 evt') (\<lambda>h3.
           exec_then (destroy_values h3 rest) (\<lambda>h4. Fine (s2, h4, ok)))))"

end
