(* ===== verification/PrioQueue.thy ===== *)
theory PrioQueue
  imports EventQueue Ring
begin

text \<open>
  What the event queues of the three platforms have in common: a circular array of messages for
  each of three priorities, putting a message in and taking the next one out. A slot whose
  message was taken keeps a moved-out message without handles.
\<close>

section \<open>State\<close>

definition nb_priorities :: nat where
  "nb_priorities = 3"

text \<open>
  The arrays are indexed by the priority; \<open>None\<close> is the null pointer of a failed allocation.
  \<open>signalled\<close> is the wake-up flag of the thread that executes the queue.
\<close>

record 'p prio_queue = event_queue +
  queue :: "nat \<Rightarrow> message list option"
  read_ix :: "nat \<Rightarrow> nat"
  write_ix :: "nat \<Rightarrow> nat"
  nb_elems :: "nat \<Rightarrow> nat"
  priorities :: "nat \<Rightarrow> 'p"
  signalled :: bool

definition prio_queue_new :: "nat \<Rightarrow> (nat \<Rightarrow> bool) \<Rightarrow> 'p \<Rightarrow> 'p \<Rightarrow> 'p \<Rightarrow> 'p prio_queue" where
  "prio_queue_new N alloc_ok low normal high =
     \<lparr>must_end = False, must_pause = False, error_pending = False, error_status = CG_SUCCESS,
      error_node_id = CG_UNIDENTIFIED_NODE, error_info = 0,
      queue = (\<lambda>p. if alloc_ok p then Some (replicate N Message_new) else None),
      read_ix = (\<lambda>p. 0), write_ix = (\<lambda>p. 0), nb_elems = (\<lambda>p. 0),
      priorities = (\<lambda>p. if p = 0 then low else if p = 1 then normal else high), signalled = False\<rparr>"

definition priority_index :: "u32 \<Rightarrow> nat" where
  "priority_index p = (if nb_priorities \<le> unat p then nb_priorities - 1 else unat p)"

section \<open>Storing and taking a message\<close>

text \<open>The message is left as the moves leave it; the flag is \<open>False\<close> when the level is full.\<close>

definition store_message :: "nat \<Rightarrow> lock_env \<Rightarrow> u32 \<Rightarrow> 'p prio_queue pusher" where
  "store_message N env now q h m =
     (let p = priority_index (priority (m_event m))
      in if nb_elems q p < N then
           (case queue q p of
              None \<Rightarrow> UB
            | Some slots \<Rightarrow>
                if write_ix q p < length slots then
                  exec_then (Message_move_assign env h (slots ! write_ix q p) (m\<lparr>timestamp := now\<rparr>)) (\<lambda>(h', x, m').
                    Fine (q\<lparr>queue := (queue q)(p := Some (slots[write_ix q p := x])),
                             write_ix := (write_ix q)(p := ring_next N (write_ix q p)),
                             nb_elems := (nb_elems q)(p := Suc (nb_elems q p))\<rparr>, h', m', True))
                else UB)
         else Fine (q, h, m, False))"

text \<open>The highest level with a message.\<close>

definition next_level :: "'p prio_queue \<Rightarrow> nat option" where
  "next_level q = find (\<lambda>p. nb_elems q p \<noteq> 0) (rev [0..<nb_priorities])"

definition is_empty :: "'p prio_queue \<Rightarrow> bool" where
  "is_empty q = list_all (\<lambda>p. nb_elems q p = 0) [0..<nb_priorities]"

text \<open>Moving the front of a level out with \<open>move\<close> and advancing the read position.\<close>

definition take_front ::
    "nat \<Rightarrow> (shared_obj sheap \<Rightarrow> message \<Rightarrow> (shared_obj sheap \<times> message \<times> message) exec) \<Rightarrow> nat \<Rightarrow>
     'p prio_queue \<Rightarrow> shared_obj sheap \<Rightarrow> ('p prio_queue \<times> shared_obj sheap \<times> message) exec" where
  "take_front N move p q h =
     (case queue q p of
        None \<Rightarrow> UB
      | Some slots \<Rightarrow>
          if read_ix q p < length slots then
            exec_then (move h (slots ! read_ix q p)) (\<lambda>(h', msg, x).
              Fine (q\<lparr>queue := (queue q)(p := Some (slots[read_ix q p := x])),
                       read_ix := (read_ix q)(p := ring_next N (read_ix q p)),
                       nb_elems := (nb_elems q)(p := nb_elems q p - 1)\<rparr>, h', msg))
          else UB)"

text \<open>The loop of \<^verbatim>\<open>execute\<close> that moves the next message into \<^verbatim>\<open>msg\<close>.\<close>

definition take_message ::
    "nat \<Rightarrow> lock_env \<Rightarrow> 'p prio_queue \<Rightarrow> shared_obj sheap \<Rightarrow> ('p prio_queue \<times> shared_obj sheap \<times> message option) exec" where
  "take_message N env q h =
     (case next_level q of
        None \<Rightarrow> Fine (q, h, None)
      | Some p \<Rightarrow>
          exec_then (take_front N (\<lambda>h x. Message_move_assign env h Message_new x) p q h)
            (\<lambda>(q', h', msg). Fine (q', h', Some msg)))"

text \<open>
  \<^verbatim>\<open>clear\<close>: while a level has messages, one is moved out, overwritten with an empty message and
  destroyed. The bound \<open>n\<close> is the number of messages at the start.
\<close>

definition discard_message :: "lock_env \<Rightarrow> shared_obj sheap \<Rightarrow> message \<Rightarrow> shared_obj sheap exec" where
  "discard_message env h msg =
     exec_then (Message_move_assign env h msg Message_new) (\<lambda>(h1, msg', tmp).
       exec_then (Message_destroy h1 tmp) (\<lambda>h2. Message_destroy h2 msg'))"

fun clear_level ::
    "nat \<Rightarrow> lock_env \<Rightarrow> nat \<Rightarrow> nat \<Rightarrow> 'p prio_queue \<Rightarrow> shared_obj sheap \<Rightarrow> ('p prio_queue \<times> shared_obj sheap) exec" where
  "clear_level N env p 0 q h = Fine (q, h)"
| "clear_level N env p (Suc n) q h =
     (if nb_elems q p = 0 then Fine (q, h)
      else exec_then (take_front N (Message_move env) p q h) (\<lambda>(q1, h1, msg).
             exec_then (discard_message env h1 msg) (\<lambda>h2. clear_level N env p n q1 h2)))"

fun clear_levels ::
    "nat \<Rightarrow> lock_env \<Rightarrow> nat list \<Rightarrow> 'p prio_queue \<Rightarrow> shared_obj sheap \<Rightarrow> ('p prio_queue \<times> shared_obj sheap) exec" where
  "clear_levels N env [] q h = Fine (q, h)"
| "clear_levels N env (p # ps) q h =
     exec_then (clear_level N env p (nb_elems q p) q h) (\<lambda>(q', h'). clear_levels N env ps q' h')"

text \<open>The destructor deletes the arrays with the messages in them.\<close>

fun destroy_messages :: "shared_obj sheap \<Rightarrow> message list \<Rightarrow> shared_obj sheap exec" where
  "destroy_messages h [] = Fine h"
| "destroy_messages h (m # ms) = exec_then (Message_destroy h m) (\<lambda>h'. destroy_messages h' ms)"

fun destroy_levels :: "nat list \<Rightarrow> 'p prio_queue \<Rightarrow> shared_obj sheap \<Rightarrow> shared_obj sheap exec" where
  "destroy_levels [] q h = Fine h"
| "destroy_levels (p # ps) q h =
     exec_then (destroy_messages h (case queue q p of None \<Rightarrow> [] | Some slots \<Rightarrow> slots))
       (\<lambda>h'. destroy_levels ps q h')"

section \<open>Moving a message into an empty one\<close>

text \<open>What arrives: a buffer is lost when its mutex is refused.\<close>

definition accept_data :: "lock_env \<Rightarrow> event_data \<Rightarrow> event_data" where
  "accept_data env d = (case d of Single v \<Rightarrow> Single (map_handle (copy_result env) v) | ListData l \<Rightarrow> ListData l)"

definition accepted :: "lock_env \<Rightarrow> message \<Rightarrow> message" where
  "accepted env m = m\<lparr>m_event := (m_event m)\<lparr>edata := accept_data env (edata (m_event m))\<rparr>\<rparr>"

abbreviation mhset :: "message \<Rightarrow> pbuf multiset" where
  "mhset m \<equiv> ehset (m_event m)"

definition msg_empty :: "message \<Rightarrow> bool" where
  "msg_empty m \<longleftrightarrow> mhset m = {#}"

lemma accepted_sel [simp]:
  "destination (accepted env m) = destination m" "timestamp (accepted env m) = timestamp m"
  "priority (m_event (accepted env m)) = priority (m_event m)" "ttl (m_event (accepted env m)) = ttl (m_event m)"
  "event_id (m_event (accepted env m)) = event_id (m_event m)"
  by (simp_all add: accepted_def)

lemma accepted_idem [simp]: "accepted env (accepted env m) = accepted env m"
proof -
  have "map_handle (copy_result env) (map_handle (copy_result env) v) = map_handle (copy_result env) v" for v
    by (cases v) simp_all
  then show ?thesis by (cases "edata (m_event m)") (simp_all add: accepted_def accept_data_def)
qed

lemma accepted_empty: "msg_empty m \<Longrightarrow> msg_empty (accepted env m)"
  by (cases "edata (m_event m)") (auto simp: msg_empty_def accepted_def accept_data_def)

lemma hset_empty: "hset v = {#} \<longleftrightarrow> CV_handle v = None"
  by (simp add: hset_def split: option.split)

lemma same_alternative_no_handle: "CV_handle v = None \<Longrightarrow> \<not> same_alternative v w"
  by (cases v) simp_all

lemma data_empty:
  assumes "hsets (data_values d) = {#}"
  shows "\<not> data_relocks env d d'" and "data_result env d d' = accept_data env d'"
proof -
  have "CV_handle v = None" if "d = Single v" for v using assms that by (simp add: hset_empty)
  then have na: "\<not> same_alternative v w" if "d = Single v" for v w
    using that same_alternative_no_handle by blast
  then show "\<not> data_relocks env d d'"
    by (auto simp: data_relocks_def CV_relocks_def split: event_data.splits)
  show "data_result env d d' = accept_data env d'"
    using na by (cases d; cases d') (auto simp: accept_data_def CV_result_def)
qed

text \<open>A moved-out message.\<close>

definition moved_msg :: "message \<Rightarrow> message" where
  "moved_msg m = m\<lparr>m_event := (m_event m)\<lparr>edata := moved_data (edata (m_event m)),
     event_id := selector_code kNoEvent, ttl := 0\<rparr>\<rparr>"

lemma moved_msg_empty [simp]: "msg_empty (moved_msg m)"
  by (cases "edata (m_event m)") (simp_all add: moved_msg_def msg_empty_def)

lemma Message_new_empty [simp]: "msg_empty Message_new"
  by (simp add: Message_new_def msg_empty_def Event_new_def)

lemma Event_moveFrom_empty:
  assumes ok: "handles_ok h (ehset m + R)" and e: "ehset this = {#}"
  shows "\<exists>h'. Event_moveFrom env h this m = Fine (h', m\<lparr>edata := accept_data env (edata m)\<rparr>,
      m\<lparr>edata := moved_data (edata m), event_id := selector_code kNoEvent, ttl := 0\<rparr>) \<and>
    handles_ok h' (ehset (m\<lparr>edata := accept_data env (edata m)\<rparr>) + R)"
proof -
  have "handles_ok h (hsets (data_values (edata this)) + (hsets (data_values (edata m)) + R))" using ok e by simp
  from data_move_assign_ok [OF this data_empty(1) [OF e], of env]
  obtain h' where "data_move_assign env h (edata this) (edata m) = Fine (h', accept_data env (edata m), moved_data (edata m))"
      "handles_ok h' (hsets (data_values (accept_data env (edata m))) + R)"
    by (auto simp: data_empty(2) [OF e])
  then show ?thesis by (intro exI [of _ h']) (cases this; cases m; simp add: Event_moveFrom_def)
qed

lemma Message_move_assign_empty:
  assumes "handles_ok h (mhset m + R)" and "msg_empty this"
  shows "\<exists>h'. Message_move_assign env h this m = Fine (h', accepted env m, moved_msg m) \<and>
    handles_ok h' (mhset (accepted env m) + R)"
  using Event_moveFrom_empty [OF assms(1), of "m_event this" env] assms(2)
  by (auto simp: Message_move_assign_def Event_move_assign_def accepted_def moved_msg_def msg_empty_def)

lemma Message_move_empty:
  assumes "handles_ok h (mhset m + R)"
  shows "\<exists>h'. Message_move env h m = Fine (h', accepted env m, moved_msg m) \<and>
    handles_ok h' (mhset (accepted env m) + R)"
  using Event_moveFrom_empty [OF assms, of Event_new env]
  by (auto simp: Message_move_def Event_move_def accepted_def moved_msg_def Event_new_def)

lemma Message_destroy_ok:
  "handles_ok h (mhset m + R) \<Longrightarrow> \<exists>h'. Message_destroy h m = Fine h' \<and> handles_ok h' R"
  by (simp add: Message_destroy_def Event_destroy_def destroy_data_ok)

section \<open>The queue as lists\<close>

definition contents :: "nat \<Rightarrow> 'p prio_queue \<Rightarrow> nat \<Rightarrow> message list" where
  "contents N q p = ring_items N (the (queue q p)) (read_ix q p) (nb_elems q p)"

definition level_ok :: "nat \<Rightarrow> 'p prio_queue \<Rightarrow> nat \<Rightarrow> bool" where
  "level_ok N q p \<longleftrightarrow>
     (case queue q p of
        None \<Rightarrow> False
      | Some s \<Rightarrow>
          length s = N \<and> read_ix q p < N \<and> nb_elems q p \<le> N \<and>
          write_ix q p = (read_ix q p + nb_elems q p) mod N \<and>
          ring_rest msg_empty N s (read_ix q p) (nb_elems q p))"

definition queue_ok :: "nat \<Rightarrow> 'p prio_queue \<Rightarrow> bool" where
  "queue_ok N q \<longleftrightarrow> 0 < N \<and> (\<forall>p < nb_priorities. level_ok N q p)"

definition level_handles :: "message list \<Rightarrow> pbuf multiset" where
  "level_handles ms = (\<Sum>m\<leftarrow>ms. mhset m)"

definition queue_handles :: "nat \<Rightarrow> 'p prio_queue \<Rightarrow> pbuf multiset" where
  "queue_handles N q = (\<Sum>p<nb_priorities. level_handles (contents N q p))"

lemma level_handles_simps [simp]:
  "level_handles [] = {#}" "level_handles (m # ms) = mhset m + level_handles ms"
  "level_handles (ms @ ns) = level_handles ms + level_handles ns"
  by (simp_all add: level_handles_def)

lemma priority_index_less [simp]: "priority_index p < nb_priorities"
  by (simp add: priority_index_def nb_priorities_def)

lemma length_contents [simp]: "length (contents N q p) = nb_elems q p"
  by (simp add: contents_def)

lemma level_okD:
  assumes "level_ok N q p"
  obtains s where "queue q p = Some s" "length s = N" "read_ix q p < N" "nb_elems q p \<le> N"
    "write_ix q p = (read_ix q p + nb_elems q p) mod N" "ring_rest msg_empty N s (read_ix q p) (nb_elems q p)"
  using assms by (auto simp: level_ok_def split: option.splits)

text \<open>Changing one level.\<close>

lemma queue_handles_level:
  assumes "p < nb_priorities"
  shows "queue_handles N q =
    level_handles (contents N q p) + (\<Sum>k\<in>{..<nb_priorities} - {p}. level_handles (contents N q k))"
  using assms by (simp add: queue_handles_def sum.remove)

lemma queue_handles_update:
  assumes "p < nb_priorities" and "\<And>k. k \<noteq> p \<Longrightarrow> contents N q' k = contents N q k"
    and "level_handles (contents N q' p) + A = level_handles (contents N q p) + B"
  shows "queue_handles N q' + A = queue_handles N q + B"
proof -
  have "(\<Sum>k\<in>{..<nb_priorities} - {p}. level_handles (contents N q' k)) =
      (\<Sum>k\<in>{..<nb_priorities} - {p}. level_handles (contents N q k))"
    using assms(2) by (intro sum.cong) auto
  with assms(1,3) show ?thesis by (simp add: queue_handles_level [of p] union_ac)
qed

lemma queue_ok_update:
  assumes "queue_ok N q" and "level_ok N q' p" and "\<And>k. k \<noteq> p \<Longrightarrow> level_ok N q' k = level_ok N q k"
  shows "queue_ok N q'"
  using assms unfolding queue_ok_def by metis

section \<open>The operations on the lists\<close>

lemma store_message_full:
  "\<not> nb_elems q (priority_index (priority (m_event m))) < N \<Longrightarrow> store_message N env now q h m = Fine (q, h, m, False)"
  by (simp add: store_message_def Let_def)

lemma store_message_ok:
  fixes q :: "'p prio_queue" and m :: message
  defines "p \<equiv> priority_index (priority (m_event m))"
  assumes q: "queue_ok N q" and ok: "handles_ok h (queue_handles N q + (mhset m + R))" and room: "nb_elems q p < N"
  shows "\<exists>q' h' m'. store_message N env now q h m = Fine (q', h', m', True) \<and> queue_ok N q' \<and> msg_empty m' \<and>
    contents N q' = (contents N q)(p := contents N q p @ [accepted env (m\<lparr>timestamp := now\<rparr>)]) \<and>
    handles_ok h' (queue_handles N q' + R) \<and>
    event_queue.truncate q' = event_queue.truncate q \<and> signalled q' = signalled q \<and> priorities q' = priorities q"
proof -
  have p: "p < nb_priorities" by (simp add: p_def)
  then have l: "level_ok N q p" using q by (simp add: queue_ok_def)
  obtain s where s: "queue q p = Some s" "length s = N" "read_ix q p < N" "nb_elems q p \<le> N"
    "write_ix q p = (read_ix q p + nb_elems q p) mod N" "ring_rest msg_empty N s (read_ix q p) (nb_elems q p)"
    using level_okD [OF l] by blast
  let ?m = "m\<lparr>timestamp := now\<rparr>"
  let ?x = "accepted env ?m"
  have w: "write_ix q p < length s" "msg_empty (s ! write_ix q p)"
    using s room ring_rest_next [OF s(6) room] by auto
  have "handles_ok h (mhset ?m + (queue_handles N q + R))" using ok by (simp add: union_ac)
  then obtain h' where h': "Message_move_assign env h (s ! write_ix q p) ?m = Fine (h', ?x, moved_msg ?m)"
      "handles_ok h' (mhset ?x + (queue_handles N q + R))"
    using Message_move_assign_empty [OF _ w(2)] by blast
  define q' where "q' = q\<lparr>queue := (queue q)(p := Some (s[write_ix q p := ?x])),
                             write_ix := (write_ix q)(p := ring_next N (write_ix q p)),
                             nb_elems := (nb_elems q)(p := Suc (nb_elems q p))\<rparr>"
  have st: "store_message N env now q h m = Fine (q', h', moved_msg ?m, True)"
    using s(1) room w(1) h'(1) by (simp add: store_message_def Let_def q'_def flip: p_def)
  have c: "contents N q' = (contents N q)(p := contents N q p @ [?x])"
    using ring_push [OF s(2) room, of "read_ix q p" ?x] s(1,5) by (auto simp: contents_def q'_def)
  have l': "level_ok N q' p"
    using s room ring_rest_push [OF s(6) room, of ?x] q
    by (auto simp: level_ok_def q'_def ring_next_add queue_ok_def)
  have qok: "queue_ok N q'"
    by (rule queue_ok_update [OF q l']) (simp add: level_ok_def q'_def split: option.split)
  have "queue_handles N q' + {#} = queue_handles N q + mhset ?x"
    by (rule queue_handles_update [OF p]) (simp_all add: c)
  then have "handles_ok h' (queue_handles N q' + R)" using h'(2) by (simp add: union_ac)
  with st c qok show ?thesis
    by (intro exI [of _ q'] exI [of _ h'] exI [of _ "moved_msg ?m"]) (simp add: q'_def event_queue.defs)
qed

lemma take_front_ok:
  fixes q :: "'p prio_queue"
  assumes q: "queue_ok N q" and p: "p < nb_priorities" and c: "contents N q p = m # ms"
    and ok: "handles_ok h (queue_handles N q + R)"
    and move: "\<And>h R. handles_ok h (mhset m + R) \<Longrightarrow> \<exists>h'. move h m = Fine (h', accepted env m, moved_msg m) \<and>
      handles_ok h' (mhset (accepted env m) + R)"
  shows "\<exists>q' h'. take_front N move p q h = Fine (q', h', accepted env m) \<and> queue_ok N q' \<and>
    contents N q' = (contents N q)(p := ms) \<and> handles_ok h' (mhset (accepted env m) + (queue_handles N q' + R)) \<and>
    event_queue.truncate q' = event_queue.truncate q \<and> signalled q' = signalled q \<and> priorities q' = priorities q"
proof -
  have l: "level_ok N q p" using q p by (simp add: queue_ok_def)
  obtain s where s: "queue q p = Some s" "length s = N" "read_ix q p < N" "nb_elems q p \<le> N"
    "write_ix q p = (read_ix q p + nb_elems q p) mod N" "ring_rest msg_empty N s (read_ix q p) (nb_elems q p)"
    using level_okD [OF l] by blast
  obtain n where n: "nb_elems q p = Suc n" using c length_contents [of N q p] by (cases "nb_elems q p") auto
  have nN: "n < N" using s(4) n by simp
  let ?s = "s[read_ix q p := moved_msg m]"
  have front: "s ! read_ix q p = m" and rest: "ring_items N ?s (ring_next N (read_ix q p)) n = ms"
    using ring_pop [OF s(2,3) nN, of "moved_msg m"] c n s(1) by (simp_all add: contents_def)
  define q' where "q' = q\<lparr>queue := (queue q)(p := Some ?s),
                       read_ix := (read_ix q)(p := ring_next N (read_ix q p)),
                       nb_elems := (nb_elems q)(p := n)\<rparr>"
  have c': "contents N q' = (contents N q)(p := ms)" using rest by (auto simp: contents_def q'_def)
  have l': "level_ok N q' p"
    using s(1-5) n nN ring_rest_pop [OF s(6) [unfolded n] s(2,3), of "moved_msg m"]
    by (simp add: level_ok_def q'_def ring_next_shift)
  have qok: "queue_ok N q'" by (rule queue_ok_update [OF q l']) (simp add: level_ok_def q'_def split: option.split)
  have hs: "queue_handles N q' + mhset m = queue_handles N q + {#}"
    by (rule queue_handles_update [OF p]) (simp_all add: c' c union_ac)
  have "handles_ok h (mhset m + (queue_handles N q' + R))" using ok hs by (simp add: union_ac)
  from move [OF this] obtain h' where "move h m = Fine (h', accepted env m, moved_msg m)"
      "handles_ok h' (mhset (accepted env m) + (queue_handles N q' + R))"
    by blast
  with s(1-3) front n c' qok show ?thesis
    by (intro exI [of _ q'] exI [of _ h']) (simp add: take_front_def q'_def event_queue.defs)
qed

section \<open>The abstract queue\<close>

text \<open>One list for each level; the next message is the head of the highest that is not empty.\<close>

definition list_next :: "(nat \<Rightarrow> 'a list) \<Rightarrow> nat option" where
  "list_next a = find (\<lambda>p. a p \<noteq> []) (rev [0..<nb_priorities])"

definition list_order :: "(nat \<Rightarrow> 'a list) \<Rightarrow> 'a list" where
  "list_order a = concat (map a (rev [0..<nb_priorities]))"

lemma levels: "rev [0..<nb_priorities] = [2, 1, 0]" "[0..<nb_priorities] = [0, 1, 2]" "p < nb_priorities \<longleftrightarrow> p = 0 \<or> p = 1 \<or> p = 2"
  by (auto simp: nb_priorities_def upt_rec)

lemma list_order_levels: "list_order a = a 2 @ a 1 @ a 0"
  by (simp add: list_order_def levels)

lemma list_next_Some:
  assumes "list_next a = Some p"
  shows "p < nb_priorities" and "a p \<noteq> []" and "list_order a = hd (a p) # list_order (a(p := tl (a p)))"
  using assms by (auto simp: list_next_def levels list_order_levels split: if_splits)

lemma list_next_None: "list_next a = None \<longleftrightarrow> list_order a = []"
  by (auto simp: list_next_def levels list_order_levels)

lemma next_level_contents: "next_level q = list_next (contents N q)"
proof -
  have "contents N q p \<noteq> [] \<longleftrightarrow> nb_elems q p \<noteq> 0" for p
    using length_contents [of N q p] by (metis length_0_conv)
  then show ?thesis by (simp add: next_level_def list_next_def)
qed

lemma is_empty_contents: "is_empty q \<longleftrightarrow> list_order (contents N q) = []"
  using length_contents [of N q] by (simp add: is_empty_def levels list_order_levels flip: length_0_conv) auto

lemma take_message_ok:
  assumes q: "queue_ok N q" and ok: "handles_ok h (queue_handles N q + R)"
  shows "case list_next (contents N q) of
      None \<Rightarrow> take_message N env q h = Fine (q, h, None)
    | Some p \<Rightarrow> (\<exists>q' h'. take_message N env q h = Fine (q', h', Some (accepted env (hd (contents N q p)))) \<and>
        queue_ok N q' \<and> contents N q' = (contents N q)(p := tl (contents N q p)) \<and>
        handles_ok h' (mhset (accepted env (hd (contents N q p))) + (queue_handles N q' + R)) \<and>
        event_queue.truncate q' = event_queue.truncate q \<and> signalled q' = signalled q \<and> priorities q' = priorities q)"
proof (cases "list_next (contents N q)")
  case None
  then show ?thesis by (simp add: take_message_def next_level_contents [of q N])
next
  case (Some p)
  then have p: "p < nb_priorities" and c: "contents N q p = hd (contents N q p) # tl (contents N q p)"
    using list_next_Some [OF Some] by simp_all
  from take_front_ok [where move = "\<lambda>h x. Message_move_assign env h Message_new x", OF q p c ok
      Message_move_assign_empty [OF _ Message_new_empty]] Some
  show ?thesis by (auto simp: take_message_def next_level_contents [of q N])
qed

lemma discard_message_ok:
  assumes "handles_ok h (mhset m + R)"
  shows "\<exists>h'. discard_message env h m = Fine h' \<and> handles_ok h' R"
proof -
  have "data_relocks env d (Single VNone) = False" for d
    by (cases d) (auto simp: data_relocks_def CV_relocks_def elim: same_alternative.elims)
  moreover have "data_result env d (Single VNone) = Single VNone" for d
    by (cases d) (auto simp: CV_result_def elim: same_alternative.elims)
  moreover have "handles_ok h (hsets (data_values (edata (m_event m))) + (hsets (data_values (Single VNone)) + R))"
    using assms by simp
  ultimately obtain h1 where "data_move_assign env h (edata (m_event m)) (Single VNone) =
      Fine (h1, Single VNone, Single VNone)" "handles_ok h1 R"
    using data_move_assign_ok [of h "edata (m_event m)" "Single VNone" R env] by auto
  then show ?thesis
    by (auto simp: discard_message_def Message_move_assign_def Event_move_assign_def Event_moveFrom_def Message_new_def
        Event_new_def Message_destroy_def Event_destroy_def destroy_data_def CV_destroy_def)
qed

lemma clear_level_ok:
  "queue_ok N q \<Longrightarrow> p < nb_priorities \<Longrightarrow> handles_ok h (queue_handles N q + R) \<Longrightarrow>
   \<exists>q' h'. clear_level N env p (nb_elems q p) q h = Fine (q', h') \<and> queue_ok N q' \<and>
     contents N q' = (contents N q)(p := []) \<and> handles_ok h' (queue_handles N q' + R) \<and>
     event_queue.truncate q' = event_queue.truncate q \<and> signalled q' = signalled q \<and> priorities q' = priorities q"
proof (induction "nb_elems q p" arbitrary: q h)
  case 0
  then have "contents N q p = []" by (simp add: contents_def)
  then have "(contents N q)(p := []) = contents N q" by (simp add: fun_upd_idem)
  with 0 show ?case by simp
next
  case (Suc n)
  obtain m ms where c: "contents N q p = m # ms"
    using length_contents [of N q p] Suc.hyps(2) by (cases "contents N q p") auto
  from take_front_ok [where move = "Message_move env", OF Suc.prems(1,2) c Suc.prems(3) Message_move_empty]
  obtain q1 h1 where q1: "take_front N (Message_move env) p q h = Fine (q1, h1, accepted env m)" "queue_ok N q1"
      "contents N q1 = (contents N q)(p := ms)" "handles_ok h1 (mhset (accepted env m) + (queue_handles N q1 + R))"
      "event_queue.truncate q1 = event_queue.truncate q" "signalled q1 = signalled q" "priorities q1 = priorities q"
    by blast
  obtain h2 where h2: "discard_message env h1 (accepted env m) = Fine h2" "handles_ok h2 (queue_handles N q1 + R)"
    using discard_message_ok [OF q1(4)] by blast
  have n: "n = nb_elems q1 p"
    using length_contents [of N q1 p] length_contents [of N q p] q1(3) c Suc.hyps(2) by simp
  from Suc.hyps(1) [OF n q1(2) Suc.prems(2) h2(2)] obtain q' h' where
    "clear_level N env p (nb_elems q1 p) q1 h2 = Fine (q', h')" "queue_ok N q'"
    "contents N q' = (contents N q1)(p := [])" "handles_ok h' (queue_handles N q' + R)"
    "event_queue.truncate q' = event_queue.truncate q1" "signalled q' = signalled q1" "priorities q' = priorities q1"
    by blast
  then show ?case using q1 h2(1) Suc.hyps(2) n by (simp flip: Suc.hyps(2))
qed

lemma clear_levels_ok:
  "queue_ok N q \<Longrightarrow> \<forall>p\<in>set ps. p < nb_priorities \<Longrightarrow> handles_ok h (queue_handles N q + R) \<Longrightarrow>
   \<exists>q' h'. clear_levels N env ps q h = Fine (q', h') \<and> queue_ok N q' \<and>
     contents N q' = (\<lambda>p. if p \<in> set ps then [] else contents N q p) \<and> handles_ok h' (queue_handles N q' + R) \<and>
     event_queue.truncate q' = event_queue.truncate q \<and> signalled q' = signalled q \<and> priorities q' = priorities q"
proof (induction ps arbitrary: q h)
  case (Cons p ps)
  then have p: "p < nb_priorities" by simp
  from clear_level_ok [OF Cons.prems(1) p Cons.prems(3), of env] obtain q1 h1 where
    q1: "clear_level N env p (nb_elems q p) q h = Fine (q1, h1)" "queue_ok N q1" "contents N q1 = (contents N q)(p := [])"
    "handles_ok h1 (queue_handles N q1 + R)"
    "event_queue.truncate q1 = event_queue.truncate q" "signalled q1 = signalled q" "priorities q1 = priorities q" by blast
  from Cons.IH [OF q1(2) _ q1(4)] Cons.prems(2) q1 show ?case by (auto simp: fun_eq_iff)
qed auto

lemma queue_handles_empty: "list_order (contents N q) = [] \<Longrightarrow> queue_handles N q = {#}"
  by (simp add: queue_handles_def list_order_levels nb_priorities_def numeral_3_eq_3 numeral_2_eq_2)

lemma prio_queue_new_ok:
  assumes "0 < N"
  shows "queue_ok N (prio_queue_new N (\<lambda>p. True) l n h)" and "contents N (prio_queue_new N a l n h) = (\<lambda>p. [])"
    and "queue_handles N (prio_queue_new N a l n h) = {#}"
proof -
  show c: "contents N (prio_queue_new N a l n h) = (\<lambda>p. [])" by (auto simp: contents_def prio_queue_new_def)
  show "queue_ok N (prio_queue_new N (\<lambda>p. True) l n h)"
    using assms by (simp add: queue_ok_def level_ok_def prio_queue_new_def ring_rest_def)
  show "queue_handles N (prio_queue_new N a l n h) = {#}"
    by (rule queue_handles_empty) (simp add: c list_order_levels)
qed

end
