(* ===== verification/QueueSpec.thy ===== *)
theory QueueSpec
  imports PrioQueue
begin

text \<open>
  The contract of an event queue, as the locale \<open>message_queue\<close>: one list of messages for each
  priority, a bound on their length, and what \<^verbatim>\<open>push\<close> and taking a message do to them. What
  follows from it, the order in which messages come out, is proved once for all platforms.
\<close>

abbreviation level_of :: "message \<Rightarrow> nat" where
  "level_of m \<equiv> priority_index (priority (m_event m))"

definition at_level :: "nat \<Rightarrow> message list \<Rightarrow> message list" where
  "at_level p ms = filter (\<lambda>m. level_of m = p) ms"

definition by_priority :: "message list \<Rightarrow> message list" where
  "by_priority ms = list_order (\<lambda>p. at_level p ms)"

text \<open>Pushing messages with the time of each push, and taking \<open>n\<close> messages.\<close>

fun push_all ::
    "(u32 \<Rightarrow> message \<Rightarrow> 's \<Rightarrow> ('s \<times> message \<times> bool) exec) \<Rightarrow> (u32 \<times> message) list \<Rightarrow> 's \<Rightarrow> ('s \<times> bool list) exec" where
  "push_all push [] s = Fine (s, [])"
| "push_all push ((now, m) # ms) s =
     exec_then (push now m s) (\<lambda>(s1, m', ok).
       exec_then (push_all push ms s1) (\<lambda>(s2, oks). Fine (s2, ok # oks)))"

fun pop_all :: "('s \<Rightarrow> ('s \<times> message option) exec) \<Rightarrow> nat \<Rightarrow> 's \<Rightarrow> ('s \<times> message list) exec" where
  "pop_all pop 0 s = Fine (s, [])"
| "pop_all pop (Suc n) s =
     exec_then (pop s) (\<lambda>(s1, r).
       case r of None \<Rightarrow> Fine (s1, [])
       | Some m \<Rightarrow> exec_then (pop_all pop n s1) (\<lambda>(s2, ms). Fine (s2, m # ms)))"

definition stamped :: "(u32 \<times> message) list \<Rightarrow> message list" where
  "stamped nms = map (\<lambda>(now, m). m\<lparr>timestamp := now\<rparr>) nms"

locale message_queue =
  fixes inv :: "'s \<Rightarrow> pbuf multiset \<Rightarrow> bool"
    and items :: "'s \<Rightarrow> nat \<Rightarrow> message list"
    and running :: "'s \<Rightarrow> bool"
    and push :: "u32 \<Rightarrow> message \<Rightarrow> 's \<Rightarrow> ('s \<times> message \<times> bool) exec"
    and pop :: "'s \<Rightarrow> ('s \<times> message option) exec"
    and cap :: nat
    and env :: lock_env
  assumes push_law: "inv s (mhset m + R) \<Longrightarrow>
      \<exists>s' m'. push now m s = Fine (s', m', running s \<and> length (items s (level_of m)) < cap) \<and>
        inv s' (mhset m' + R) \<and>
        (if running s \<and> length (items s (level_of m)) < cap
         then running s' \<and> msg_empty m' \<and>
           items s' = (items s)(level_of m := items s (level_of m) @ [accepted env (m\<lparr>timestamp := now\<rparr>)])
         else items s' = items s \<and> m' = m)"
    and pop_law: "inv s R \<Longrightarrow>
      (case list_next (items s) of
         None \<Rightarrow> pop s = Fine (s, None)
       | Some p \<Rightarrow> (\<exists>s'. pop s = Fine (s', Some (accepted env (hd (items s p)))) \<and>
           items s' = (items s)(p := tl (items s p)) \<and> inv s' (mhset (accepted env (hd (items s p))) + R) \<and>
           running s' = running s))"

context message_queue
begin

lemma push_all_ok:
  "inv s (level_handles (map snd nms) + R) \<Longrightarrow> running s \<Longrightarrow>
   \<forall>p < nb_priorities. length (items s p) + length (at_level p (map snd nms)) \<le> cap \<Longrightarrow>
   \<exists>s'. push_all push nms s = Fine (s', map (\<lambda>x. True) nms) \<and> inv s' R \<and> running s' \<and>
     (\<forall>p < nb_priorities. items s' p = items s p @ map (accepted env) (at_level p (stamped nms)))"
proof (induction nms arbitrary: s)
  case Nil
  then show ?case by (simp add: at_level_def stamped_def)
next
  case (Cons nm nms)
  obtain now m where nm: "nm = (now, m)" by fastforce
  let ?p = "level_of m"
  have p: "?p < nb_priorities" by simp
  have room: "length (items s ?p) < cap" using Cons.prems(3) p nm by (fastforce simp: at_level_def)
  have "inv s (mhset m + (level_handles (map snd nms) + R))" using Cons.prems(1) nm by (simp add: union_ac)
  from push_law [OF this, of now] room Cons.prems(2) obtain s1 m' where
    s1: "push now m s = Fine (s1, m', True)" "inv s1 (level_handles (map snd nms) + R)" "running s1"
      "items s1 = (items s)(?p := items s ?p @ [accepted env (m\<lparr>timestamp := now\<rparr>)])"
    by (auto simp: msg_empty_def)
  have "\<forall>p < nb_priorities. length (items s1 p) + length (at_level p (map snd nms)) \<le> cap"
    using Cons.prems(3) nm s1(4) by (auto simp: at_level_def split: if_splits)
  from Cons.IH [OF s1(2,3) this] obtain s2 where
    "push_all push nms s1 = Fine (s2, map (\<lambda>x. True) nms)" "inv s2 R" "running s2"
    "\<forall>p < nb_priorities. items s2 p = items s1 p @ map (accepted env) (at_level p (stamped nms))"
    by blast
  then show ?case using s1(1,4) nm by (auto simp: at_level_def stamped_def)
qed

lemma pop_all_ok:
  "inv s R \<Longrightarrow> n = length (list_order (items s)) \<Longrightarrow>
   \<exists>s'. pop_all pop n s = Fine (s', map (accepted env) (list_order (items s))) \<and> list_order (items s') = [] \<and>
     running s' = running s \<and> inv s' (level_handles (map (accepted env) (list_order (items s))) + R)"
proof (induction n arbitrary: s R)
  case 0
  then show ?case by simp
next
  case (Suc n)
  then have "list_next (items s) \<noteq> None" by (auto simp: list_next_None)
  then obtain p where p: "list_next (items s) = Some p" by blast
  note o = list_next_Some(3) [OF p]
  let ?m = "accepted env (hd (items s p))"
  from pop_law [OF Suc.prems(1)] p obtain s1 where s1: "pop s = Fine (s1, Some ?m)"
      "items s1 = (items s)(p := tl (items s p))" "inv s1 (mhset ?m + R)" "running s1 = running s"
    by auto
  have n: "n = length (list_order (items s1))" using Suc.prems(2) o s1(2) by simp
  from Suc.IH [OF s1(3) n] obtain s2 where
    "pop_all pop n s1 = Fine (s2, map (accepted env) (list_order (items s1)))" "list_order (items s2) = []"
    "running s2 = running s1" "inv s2 (level_handles (map (accepted env) (list_order (items s1))) + (mhset ?m + R))"
    by blast
  then show ?case using s1 o by (auto simp: union_ac)
qed

text \<open>Messages that fit come out by priority, and in the order they were pushed within one.\<close>

lemma push_pop_order:
  assumes "inv s (level_handles (map snd nms) + R)" and "running s" and "\<forall>p < nb_priorities. items s p = []"
    and "\<forall>p < nb_priorities. length (at_level p (map snd nms)) \<le> cap"
  shows "\<exists>s1 s2. push_all push nms s = Fine (s1, map (\<lambda>x. True) nms) \<and>
    pop_all pop (length nms) s1 = Fine (s2, map (accepted env) (by_priority (stamped nms))) \<and>
    inv s2 (level_handles (map (accepted env) (by_priority (stamped nms))) + R)"
proof -
  obtain s1 where s1: "push_all push nms s = Fine (s1, map (\<lambda>x. True) nms)" "inv s1 R"
     "\<forall>p < nb_priorities. items s1 p = map (accepted env) (at_level p (stamped nms))"
    using push_all_ok [OF assms(1,2)] assms(3,4) by auto
  have o: "list_order (items s1) = map (accepted env) (by_priority (stamped nms))"
    using s1(3) by (simp add: list_order_levels by_priority_def nb_priorities_def)
  have "length (at_level 2 ms) + (length (at_level 1 ms) + length (at_level 0 ms)) = length ms" for ms
  proof (induction ms)
    case (Cons m ms)
    have "level_of m = 0 \<or> level_of m = 1 \<or> level_of m = 2" using priority_index_less levels(3) by blast
    with Cons show ?case by (auto simp: at_level_def)
  qed (simp add: at_level_def)
  then have "length nms = length (list_order (items s1))"
    unfolding o by (simp add: by_priority_def list_order_levels stamped_def)
  from pop_all_ok [OF s1(2) this] obtain s2 where
    "pop_all pop (length nms) s1 = Fine (s2, map (accepted env) (list_order (items s1)))"
    "inv s2 (level_handles (map (accepted env) (list_order (items s1))) + R)" by blast
  with s1(1) show ?thesis unfolding o by (auto simp: comp_def)
qed

end

lemma truncate_flags:
  assumes "event_queue.truncate q' = event_queue.truncate q"
  shows "must_end q' = must_end q" "must_pause q' = must_pause q" "error_pending q' = error_pending q"
    "error_status q' = error_status q" "error_node_id q' = error_node_id q" "error_info q' = error_info q"
  using assms by (simp_all add: event_queue.defs)

text \<open>The invariant of the queue and the heap of its messages; \<open>R\<close> are the handles elsewhere.\<close>

definition heap_inv :: "nat \<Rightarrow> 'p prio_queue \<times> shared_obj sheap \<Rightarrow> pbuf multiset \<Rightarrow> bool" where
  "heap_inv N = (\<lambda>(q, h) R. queue_ok N q \<and> handles_ok h (queue_handles N q + R))"

definition accepting :: "'p prio_queue \<times> shared_obj sheap \<Rightarrow> bool" where
  "accepting = (\<lambda>(q, h). \<not> must_pause q \<and> \<not> must_end q)"

definition as_push ::
    "(u32 \<Rightarrow> 'p prio_queue pusher) \<Rightarrow> u32 \<Rightarrow> message \<Rightarrow> 'p prio_queue \<times> shared_obj sheap \<Rightarrow>
     (('p prio_queue \<times> shared_obj sheap) \<times> message \<times> bool) exec" where
  "as_push push now m = (\<lambda>(q, h). exec_then (push now q h m) (\<lambda>(q', h', m', ok). Fine ((q', h'), m', ok)))"

definition as_pop ::
    "nat \<Rightarrow> lock_env \<Rightarrow> 'p prio_queue \<times> shared_obj sheap \<Rightarrow> (('p prio_queue \<times> shared_obj sheap) \<times> message option) exec" where
  "as_pop N env = (\<lambda>(q, h). exec_then (take_message N env q h) (\<lambda>(q', h', r). Fine ((q', h'), r)))"

lemma as_pop_law:
  assumes "heap_inv N s R"
  shows "case list_next (contents N (fst s)) of
         None \<Rightarrow> as_pop N env s = Fine (s, None)
       | Some p \<Rightarrow> (\<exists>s'. as_pop N env s = Fine (s', Some (accepted env (hd (contents N (fst s) p)))) \<and>
           contents N (fst s') = (contents N (fst s))(p := tl (contents N (fst s) p)) \<and>
           heap_inv N s' (mhset (accepted env (hd (contents N (fst s) p))) + R) \<and> accepting s' = accepting s)"
proof -
  obtain q h where s: "s = (q, h)" by fastforce
  have "queue_ok N q" "handles_ok h (queue_handles N q + R)" using assms s by (simp_all add: heap_inv_def)
  from take_message_ok [OF this, of env] s show ?thesis
    by (fastforce simp: as_pop_def heap_inv_def accepting_def union_ac dest: truncate_flags split: option.splits)
qed

end
