(* ===== verification/QueueExec.thy ===== *)
theory QueueExec
  imports QueueSpec
begin

text \<open>
  The loop that executes an event queue, with what differs between the platforms as parameters: how
  the queue is paused and which messages have expired. The locale \<open>event_runner\<close> states what the
  loop needs of a pause; its lemmas say what executing does, with any nodes and with nodes that
  leave the queue alone. The locale \<open>prio_push\<close> is for nodes that push into the queue.
\<close>

section \<open>Executing the queue\<close>

text \<open>
  The program around the queue: its state \<open>'w\<close> besides the queue, the mutex and clock, setting
  the priority of the thread, \<^verbatim>\<open>processEvent\<close> and the identifiers of the nodes, and the handler of
  the application. Nodes and the handler may use the queue.
\<close>

record ('p, 'd, 'w) executor =
  capacity :: nat
  x_locks :: lock_env
  lock_error :: "'w \<times> 'p prio_queue \<Rightarrow> int"
  clock :: "'w \<times> 'p prio_queue \<Rightarrow> u32"
  set_priority :: "'p \<Rightarrow> 'w \<Rightarrow> 'w"
  x_process :: "nat \<Rightarrow> int \<Rightarrow> ('w \<times> 'p prio_queue, cg_status) receiver"
  x_node_id :: "nat \<Rightarrow> int"
  x_handler :: "('d, 'w \<times> 'p prio_queue) app_handler"

text \<open>Processing a message that has not expired, at the priority of its event.\<close>

definition queue_process ::
    "('p prio_queue \<Rightarrow> 'p prio_queue) \<Rightarrow> ('p, 'd, 'w) executor \<Rightarrow> message \<Rightarrow>
     'w \<times> 'p prio_queue \<Rightarrow> shared_obj sheap \<Rightarrow> (('w \<times> 'p prio_queue) \<times> shared_obj sheap) exec" where
  "queue_process pause X msg s h =
     (let p = priority_index (priority (m_event msg));
          s1 = (set_priority X (priorities (snd s) p) (fst s), snd s)
      in exec_then
           (case destination msg of
              LocalDestination None port \<Rightarrow> UB
            | LocalDestination (Some node) port \<Rightarrow>
                exec_then (x_process X node port s1 h (m_event msg)) (\<lambda>(s2, h2, evt, status).
                  Fine ((fst s2, if status \<noteq> CG_SUCCESS then setError pause status (x_node_id X node) 0 (snd s2)
                                 else snd s2), h2, evt))
            | DistantDestination node \<Rightarrow>
                exec_then (callAsyncHandler (snd s1) (x_handler X) node s1 h (m_event msg)) (\<lambda>(s2, h2, evt, ok).
                  Fine ((fst s2, if \<not> ok then setError pause CG_EVENT_QUEUE_FULL node 0 (snd s2)
                                 else snd s2), h2, evt)))
           (\<lambda>((w3, q3), h3, evt).
             let w4 = set_priority X (priorities q3 (nb_priorities - 1)) w3
             in exec_then (Event_destroy h3 evt) (\<lambda>h4. Fine ((w4, q3), h4))))"

text \<open>One round of the inner loop.\<close>

definition queue_step ::
    "('p prio_queue \<Rightarrow> 'p prio_queue) \<Rightarrow> (message \<Rightarrow> u32 \<Rightarrow> bool) \<Rightarrow> ('p, 'd, 'w) executor \<Rightarrow>
     'w \<times> 'p prio_queue \<Rightarrow> shared_obj sheap \<Rightarrow> (('w \<times> 'p prio_queue) \<times> shared_obj sheap) exec" where
  "queue_step pause expired X s h =
     exec_then
       (if lock_error X s = 0 then take_message (capacity X) (x_locks X) (snd s) h
        else Fine (setError pause CG_OS_ERROR CG_UNIDENTIFIED_NODE (lock_error X s) (snd s), h, None))
       (\<lambda>(q1, h1, r).
         case r of
           None \<Rightarrow> Fine ((fst s, q1), h1)
         | Some msg \<Rightarrow>
             if expired msg (clock X (fst s, q1)) then
               exec_then (Message_destroy h1 msg) (\<lambda>h2. Fine ((fst s, q1), h2))
             else queue_process pause X msg (fst s, q1) h1)"

definition stop_requested :: "'p prio_queue \<Rightarrow> bool" where
  "stop_requested q \<longleftrightarrow> mustEnd q \<or> mustPause q"

text \<open>
  The inner loop, at most \<open>n\<close> rounds of \<open>step\<close>: the flag says whether it ended. The conditions are read
  in another order on two platforms, which is the same as they have no effect.
\<close>

type_synonym ('w, 'p) stepper =
  "'w \<times> 'p prio_queue \<Rightarrow> shared_obj sheap \<Rightarrow> (('w \<times> 'p prio_queue) \<times> shared_obj sheap) exec"

fun queue_drain ::
    "('w, 'p) stepper \<Rightarrow> nat \<Rightarrow> 'w \<times> 'p prio_queue \<Rightarrow> shared_obj sheap \<Rightarrow>
     (('w \<times> 'p prio_queue) \<times> shared_obj sheap \<times> bool) exec" where
  "queue_drain step 0 s h = Fine (s, h, False)"
| "queue_drain step (Suc n) s h =
     (if \<not> stop_requested (snd s) \<and> \<not> is_empty (snd s) then
        exec_then (step s h) (\<lambda>(s', h'). queue_drain step n s' h')
      else Fine (s, h, True))"

text \<open>
  The outer loop on POSIX: it ends with a request to stop or waits for the wake-up flag; waiting
  stays a result when the flag is not set.
\<close>

datatype run_state = Returned | Waiting | Running

fun queue_execute ::
    "('w, 'p) stepper \<Rightarrow> nat \<Rightarrow> 'w \<times> 'p prio_queue \<Rightarrow> shared_obj sheap \<Rightarrow>
     (('w \<times> 'p prio_queue) \<times> shared_obj sheap \<times> run_state) exec" where
  "queue_execute step 0 s h = Fine (s, h, Running)"
| "queue_execute step (Suc n) s h =
     (if stop_requested (snd s) then Fine (s, h, Returned)
      else
        exec_then (queue_drain step n s h) (\<lambda>(s1, h1, ended).
          if \<not> ended then Fine (s1, h1, Running)
          else if stop_requested (snd s1) then Fine (s1, h1, Returned)
          else if signalled (snd s1) then queue_execute step n (fst s1, (snd s1)\<lparr>signalled := False\<rparr>) h1
          else Fine (s1, h1, Waiting)))"

text \<open>
  The outer loop on the real-time systems: after the messages it returns when the end is requested;
  when a pause is requested it does not wait and the condition of the loop ends it.
\<close>

fun rtos_execute ::
    "('w, 'p) stepper \<Rightarrow> nat \<Rightarrow> 'w \<times> 'p prio_queue \<Rightarrow> shared_obj sheap \<Rightarrow>
     (('w \<times> 'p prio_queue) \<times> shared_obj sheap \<times> run_state) exec" where
  "rtos_execute step 0 s h = Fine (s, h, Running)"
| "rtos_execute step (Suc n) s h =
     (if \<not> (\<not> mustEnd (snd s) \<and> \<not> mustPause (snd s)) then Fine (s, h, Returned)
      else
        exec_then (queue_drain step n s h) (\<lambda>(s1, h1, ended).
          if \<not> ended then Fine (s1, h1, Running)
          else if mustEnd (snd s1) then Fine (s1, h1, Returned)
          else if mustPause (snd s1) then rtos_execute step n s1 h1
          else if signalled (snd s1) then rtos_execute step n (fst s1, (snd s1)\<lparr>signalled := False\<rparr>) h1
          else Fine (s1, h1, Waiting)))"

section \<open>Executing with any nodes\<close>

lemma queue_fields_irrelevant [simp]:
  "contents N (q\<lparr>signalled := b\<rparr>) = contents N q" "queue_ok N (q\<lparr>signalled := b\<rparr>) = queue_ok N q"
  "contents N (q\<lparr>must_pause := b\<rparr>) = contents N q" "queue_ok N (q\<lparr>must_pause := b\<rparr>) = queue_ok N q"
  "contents N (q\<lparr>must_end := b\<rparr>) = contents N q" "queue_ok N (q\<lparr>must_end := b\<rparr>) = queue_ok N q"
  "contents N (q\<lparr>error_pending := b\<rparr>) = contents N q" "queue_ok N (q\<lparr>error_pending := b\<rparr>) = queue_ok N q"
  "contents N (q\<lparr>error_status := st\<rparr>) = contents N q" "queue_ok N (q\<lparr>error_status := st\<rparr>) = queue_ok N q"
  "contents N (q\<lparr>error_node_id := i\<rparr>) = contents N q" "queue_ok N (q\<lparr>error_node_id := i\<rparr>) = queue_ok N q"
  "contents N (q\<lparr>error_info := i\<rparr>) = contents N q" "queue_ok N (q\<lparr>error_info := i\<rparr>) = queue_ok N q"
  by (simp_all add: fun_eq_iff contents_def queue_ok_def level_ok_def cong: option.case_cong)

lemma queue_handles_contents: "contents N q' = contents N q \<Longrightarrow> queue_handles N q' = queue_handles N q"
  by (simp add: queue_handles_def)

definition addressed :: "message \<Rightarrow> bool" where
  "addressed m \<longleftrightarrow> (case destination m of LocalDestination n port \<Rightarrow> n \<noteq> None | DistantDestination n \<Rightarrow> True)"

definition program_inv :: "nat \<Rightarrow> 'p prio_queue \<Rightarrow> shared_obj sheap \<Rightarrow> pbuf multiset \<Rightarrow> bool" where
  "program_inv N q h R \<longleftrightarrow> heap_inv N (q, h) R \<and> (\<forall>p < nb_priorities. list_all addressed (contents N q p))"

text \<open>A receiver may use the queue and the heap as long as it leaves them in order.\<close>

definition receiver_ok :: "nat \<Rightarrow> ('w \<times> 'p prio_queue, 'r) receiver \<Rightarrow> bool" where
  "receiver_ok N f \<longleftrightarrow>
     (\<forall>w q h e R. program_inv N q h (ehset e + R) \<longrightarrow>
        (case f (w, q) h e of
           Fine ((w', q'), h', e', r) \<Rightarrow> program_inv N q' h' (ehset e' + R)
         | Relock \<Rightarrow> True
         | UB \<Rightarrow> False))"

definition executor_ok :: "('p, 'd, 'w) executor \<Rightarrow> bool" where
  "executor_ok X \<longleftrightarrow>
     (\<forall>node port. receiver_ok (capacity X) (x_process X node port)) \<and>
     (\<forall>node f. handler (x_handler X) = Some f \<longrightarrow> receiver_ok (capacity X) (f node (handler_data (x_handler X))))"

text \<open>
  Whether a receiver, called with queue and heap in order, acquires a mutex twice; and whether
  a node or the handler of the application does.
\<close>

definition receiver_relocks :: "nat \<Rightarrow> ('w \<times> 'p prio_queue, 'r) receiver \<Rightarrow> bool" where
  "receiver_relocks N f \<longleftrightarrow> (\<exists>s h e R. program_inv N (snd s) h (ehset e + R) \<and> f s h e = Relock)"

definition receivers_relock :: "('p, 'd, 'w) executor \<Rightarrow> bool" where
  "receivers_relock X \<longleftrightarrow>
     (\<exists>node port. receiver_relocks (capacity X) (x_process X node port)) \<or>
     (\<exists>f node. handler (x_handler X) = Some f \<and> receiver_relocks (capacity X) (f node (handler_data (x_handler X))))"

lemma receivers_relockI:
  assumes "program_inv (capacity X) q h (ehset e + R)"
  shows "x_process X node port (w, q) h e = Relock \<Longrightarrow> receivers_relock X"
    and "handler (x_handler X) = Some f \<Longrightarrow> f i (handler_data (x_handler X)) (w, q) h e = Relock \<Longrightarrow> receivers_relock X"
  using assms unfolding receivers_relock_def receiver_relocks_def by (metis snd_conv)+

text \<open>\<open>d\<close> says whether the mutex of a buffer may be acquired twice.\<close>

definition safe :: "bool \<Rightarrow> nat \<Rightarrow> pbuf multiset \<Rightarrow> (('w \<times> 'p prio_queue) \<times> shared_obj sheap \<times> 'r) exec \<Rightarrow> bool" where
  "safe d N R r \<longleftrightarrow> (case r of Fine ((w, q), h, x) \<Rightarrow> program_inv N q h R | Relock \<Rightarrow> d | UB \<Rightarrow> False)"

lemma safe_simps [simp]:
  "safe d N R (Fine ((w, q), h, x)) \<longleftrightarrow> program_inv N q h R" "safe d N R Relock \<longleftrightarrow> d" "\<not> safe d N R UB"
  by (simp_all add: safe_def)

lemma safe_cases:
  assumes "safe d N R r"
  obtains w q h x where "r = Fine ((w, q), h, x)" "program_inv N q h R" | "r = Relock" "d"
  using assms by (cases r) (auto simp: safe_def split: prod.splits)

lemma receiver_okD:
  assumes "receiver_ok N f" and "program_inv N q h (ehset e + R)"
  obtains w' q' h' e' r where "f (w, q) h e = Fine ((w', q'), h', e', r)" "program_inv N q' h' (ehset e' + R)"
  | "f (w, q) h e = Relock"
  using assms by (cases "f (w, q) h e") (fastforce simp: receiver_ok_def split: exec.splits prod.splits)+

lemma program_inv_flag [simp]: "program_inv N (q\<lparr>signalled := b\<rparr>) h R \<longleftrightarrow> program_inv N q h R"
  by (simp add: program_inv_def heap_inv_def queue_handles_contents [of N "q\<lparr>signalled := b\<rparr>" q])

lemma program_inv_destroy:
  assumes "program_inv N q h (ehset e + R)"
  shows "\<exists>h'. Event_destroy h e = Fine h' \<and> program_inv N q h' R"
proof -
  have "handles_ok h (ehset e + (queue_handles N q + R))"
    using assms by (simp add: program_inv_def heap_inv_def union_ac)
  then obtain h' where "Event_destroy h e = Fine h'" "handles_ok h' (queue_handles N q + R)"
    using destroy_data_ok [of h "edata e"] by (auto simp: Event_destroy_def)
  with assms show ?thesis by (auto simp: program_inv_def heap_inv_def)
qed

lemma take_message_inv:
  assumes i: "program_inv N q h R"
  shows "(take_message N env q h = Fine (q, h, None) \<and> list_order (contents N q) = []) \<or>
    (\<exists>q' h' m. take_message N env q h = Fine (q', h', Some (accepted env m)) \<and>
      list_order (contents N q) = m # list_order (contents N q') \<and>
      program_inv N q' h' (mhset (accepted env m) + R) \<and> addressed (accepted env m) \<and>
      event_queue.truncate q' = event_queue.truncate q \<and> signalled q' = signalled q \<and> priorities q' = priorities q)"
proof (cases "list_next (contents N q)")
  case None
  with take_message_ok [of N q h R env] i show ?thesis
    by (simp add: program_inv_def heap_inv_def list_next_None)
next
  case (Some p)
  let ?m = "hd (contents N q p)"
  have p: "p < nb_priorities" "contents N q p \<noteq> []" using list_next_Some [OF Some] by simp_all
  from take_message_ok [of N q h R env] i Some obtain q' h' where t:
    "take_message N env q h = Fine (q', h', Some (accepted env ?m))" "queue_ok N q'"
    "contents N q' = (contents N q)(p := tl (contents N q p))"
    "handles_ok h' (mhset (accepted env ?m) + (queue_handles N q' + R))"
    "event_queue.truncate q' = event_queue.truncate q" "signalled q' = signalled q" "priorities q' = priorities q"
    by (auto simp: program_inv_def heap_inv_def)
  have all: "list_all addressed (contents N q k)" if "k < nb_priorities" for k
    using i that by (simp add: program_inv_def)
  have "addressed ?m" "list_all addressed (tl (contents N q p))"
    using all [OF p(1)] p(2) by (cases "contents N q p"; simp)+
  then show ?thesis using t list_next_Some(3) [OF Some] all
    by (auto simp: program_inv_def heap_inv_def addressed_def union_ac)
qed

locale event_runner =
  fixes pause :: "'p prio_queue \<Rightarrow> 'p prio_queue"
    and expired :: "message \<Rightarrow> u32 \<Rightarrow> bool"
  assumes never_expires: "ttl (m_event m) = 0 \<Longrightarrow> \<not> expired m t"
    and pause_contents: "contents N (pause q) = contents N q" "queue_ok N (pause q) = queue_ok N q"
    and pause_requests: "must_pause (pause q)" "must_end (pause q) = must_end q"
    and pause_errors: "error_pending (pause q) = error_pending q" "error_status (pause q) = error_status q"
      "error_node_id (pause q) = error_node_id q" "error_info (pause q) = error_info q"
    and pause_wakes: "signalled (pause q)"
    and expired_message: "timestamp m' = timestamp m \<Longrightarrow> ttl (m_event m') = ttl (m_event m) \<Longrightarrow> expired m' t = expired m t"

context event_runner
begin

lemma setError_queue [simp]:
  "contents N (setError pause st i j q) = contents N q" "queue_ok N (setError pause st i j q) = queue_ok N q"
  by (simp_all add: setError_def pause_contents)

lemma setError_stops:
  "must_pause (setError pause st i j q)" "must_end (setError pause st i j q) = must_end q"
  "snd (consumeError (setError pause st i j q)) = Some (st, i, j)" "signalled (setError pause st i j q)"
  by (simp_all add: setError_def consumeError_def pause_requests pause_errors pause_wakes)

lemma program_inv_setError [simp]: "program_inv N (setError pause st i j q) h R \<longleftrightarrow> program_inv N q h R"
  by (simp add: program_inv_def heap_inv_def queue_handles_contents [of N "setError pause st i j q" q])

lemma process_safe:
  assumes X: "executor_ok X" and i: "program_inv (capacity X) q h (mhset msg + R)" and a: "addressed msg"
  shows "case queue_process pause X msg (w, q) h of
      Fine ((w', q'), h') \<Rightarrow> program_inv (capacity X) q' h' R | Relock \<Rightarrow> receivers_relock X | UB \<Rightarrow> False"
proof (cases "destination msg")
  case (LocalDestination n port)
  then obtain node where n: "n = Some node" using a by (auto simp: addressed_def)
  let ?w = "set_priority X (priorities q (priority_index (priority (m_event msg)))) w"
  have "receiver_ok (capacity X) (x_process X node port)" using X by (simp add: executor_ok_def)
  then show ?thesis
  proof (rule receiver_okD [OF _ i, of _ ?w])
    fix w' q' h' e' r
    assume f: "x_process X node port (?w, q) h (m_event msg) = Fine ((w', q'), h', e', r)"
      and i': "program_inv (capacity X) q' h' (ehset e' + R)"
    from program_inv_destroy [OF i'] obtain h2 where "Event_destroy h' e' = Fine h2" "program_inv (capacity X) q' h2 R"
      by blast
    with f LocalDestination n show ?thesis by (simp add: queue_process_def Let_def)
  next
    assume "x_process X node port (?w, q) h (m_event msg) = Relock"
    with LocalDestination n receivers_relockI(1) [OF i this] show ?thesis by (simp add: queue_process_def Let_def)
  qed
next
  case (DistantDestination node)
  let ?w = "set_priority X (priorities q (priority_index (priority (m_event msg)))) w"
  have "receiver_ok (capacity X) (callAsyncHandler q (x_handler X) node)"
    using X unfolding receiver_ok_def callAsyncHandler_def
    by (auto simp: executor_ok_def receiver_ok_def split: option.split)
  then show ?thesis
  proof (rule receiver_okD [OF _ i, of _ ?w])
    fix w' q' h' e' r
    assume f: "callAsyncHandler q (x_handler X) node (?w, q) h (m_event msg) = Fine ((w', q'), h', e', r)"
      and i': "program_inv (capacity X) q' h' (ehset e' + R)"
    from program_inv_destroy [OF i'] obtain h2 where "Event_destroy h' e' = Fine h2" "program_inv (capacity X) q' h2 R"
      by blast
    with f DistantDestination show ?thesis by (simp add: queue_process_def Let_def)
  next
    assume r: "callAsyncHandler q (x_handler X) node (?w, q) h (m_event msg) = Relock"
    then have "receivers_relock X"
      using receivers_relockI(2) [OF i] by (cases "handler (x_handler X)") (auto simp: callAsyncHandler_def split: if_splits)
    with r DistantDestination show ?thesis by (simp add: queue_process_def Let_def)
  qed
qed

lemma step_safe:
  assumes X: "executor_ok X" and i: "program_inv (capacity X) q h R"
  shows "case queue_step pause expired X (w, q) h of
      Fine ((w', q'), h') \<Rightarrow> program_inv (capacity X) q' h' R | Relock \<Rightarrow> receivers_relock X | UB \<Rightarrow> False"
proof (cases "lock_error X (w, q) = 0")
  case True
  consider "take_message (capacity X) (x_locks X) q h = Fine (q, h, None)"
    | q' h' m where "take_message (capacity X) (x_locks X) q h = Fine (q', h', Some (accepted (x_locks X) m))"
      "program_inv (capacity X) q' h' (mhset (accepted (x_locks X) m) + R)" "addressed (accepted (x_locks X) m)"
    using take_message_inv [OF i, of "x_locks X"] by blast
  then show ?thesis
  proof cases
    case (2 q' h' m)
    obtain h2 where "Message_destroy h' (accepted (x_locks X) m) = Fine h2" "program_inv (capacity X) q' h2 R"
      using program_inv_destroy [OF 2(2)] by (auto simp: Message_destroy_def)
    with True 2(1) process_safe [OF X 2(2,3), of w] show ?thesis by (simp add: queue_step_def)
  qed (use True i in \<open>simp add: queue_step_def\<close>)
qed (use i in \<open>simp add: queue_step_def\<close>)

lemma drain_safe:
  "executor_ok X \<Longrightarrow> program_inv (capacity X) (snd s) h R \<Longrightarrow> safe (receivers_relock X) (capacity X) R (queue_drain (queue_step pause expired X) n s h)"
proof (induction n arbitrary: s h)
  case (Suc n)
  obtain w q where s: "s = (w, q)" by fastforce
  with step_safe [OF Suc.prems(1), of q h R w] Suc.prems(2) Suc.IH [OF Suc.prems(1)] show ?case
    by (cases "queue_step pause expired X (w, q) h") auto
next
  case 0
  then show ?case by (cases s) simp
qed

lemma execute_safe:
  "executor_ok X \<Longrightarrow> program_inv (capacity X) (snd s) h R \<Longrightarrow> safe (receivers_relock X) (capacity X) R (queue_execute (queue_step pause expired X) n s h)"
proof (induction n arbitrary: s h)
  case (Suc n)
  obtain w q where s: "s = (w, q)" by fastforce
  show ?case
  proof (rule safe_cases [OF drain_safe [OF Suc.prems, of n]])
    fix w1 q1 h1 ended
    assume d: "queue_drain (queue_step pause expired X) n s h = Fine ((w1, q1), h1, ended)" and i1: "program_inv (capacity X) q1 h1 R"
    have "safe (receivers_relock X) (capacity X) R (queue_execute (queue_step pause expired X) n (w1, q1\<lparr>signalled := False\<rparr>) h1)"
      by (rule Suc.IH [OF Suc.prems(1)]) (simp add: i1)
    then show ?thesis using s d i1 Suc.prems(2) by simp
  qed (use s Suc.prems in simp)
next
  case 0
  then show ?case by (cases s) simp
qed

end

section \<open>Executing with nodes that do not use the queue\<close>

definition local_message :: "message \<Rightarrow> bool" where
  "local_message m \<longleftrightarrow> (case destination m of LocalDestination (Some n) port \<Rightarrow> True | _ \<Rightarrow> False)"

lemma local_addressed: "local_message m \<Longrightarrow> addressed m"
  by (auto simp: local_message_def addressed_def split: destination.splits option.splits)

lemma local_accepted [simp]: "local_message (accepted env m) = local_message m"
  by (simp add: local_message_def)

text \<open>What the nodes see: \<open>act\<close> is their effect on the program, \<open>tm\<close> the time.\<close>

fun delivered_all ::
    "(message \<Rightarrow> u32 \<Rightarrow> bool) \<Rightarrow> ('p, 'd, 'w) executor \<Rightarrow> (nat \<Rightarrow> int \<Rightarrow> 'w \<Rightarrow> event \<Rightarrow> 'w) \<Rightarrow> ('w \<Rightarrow> u32) \<Rightarrow> (nat \<Rightarrow> 'p) \<Rightarrow> 'w \<Rightarrow> message list \<Rightarrow> 'w" where
  "delivered_all expired X act tm pr w [] = w"
| "delivered_all expired X act tm pr w (m # ms) =
     delivered_all expired X act tm pr
       (if expired m (tm w) then w
        else set_priority X (pr (nb_priorities - 1))
          (case destination m of
             LocalDestination (Some n) port \<Rightarrow> act n port (set_priority X (pr (level_of m)) w) (m_event m)
           | _ \<Rightarrow> w)) ms"

text \<open>The same where nothing expires: every message is delivered.\<close>

fun deliver_messages ::
    "('p, 'd, 'w) executor \<Rightarrow> (nat \<Rightarrow> int \<Rightarrow> 'w \<Rightarrow> event \<Rightarrow> 'w) \<Rightarrow> (nat \<Rightarrow> 'p) \<Rightarrow> 'w \<Rightarrow> message list \<Rightarrow> 'w" where
  "deliver_messages X act pr w [] = w"
| "deliver_messages X act pr w (m # ms) =
     deliver_messages X act pr
       (set_priority X (pr (nb_priorities - 1))
          (case destination m of
             LocalDestination (Some n) port \<Rightarrow> act n port (set_priority X (pr (level_of m)) w) (m_event m)
           | _ \<Rightarrow> w)) ms"

lemma delivered_all_in_time:
  "list_all (\<lambda>m. \<forall>v. \<not> expired m (tm v)) ms \<Longrightarrow>
   delivered_all expired X act tm pr w ms = deliver_messages X act pr w ms"
  by (induction ms arbitrary: w) simp_all

definition inert :: "('p, 'd, 'w) executor \<Rightarrow> (nat \<Rightarrow> int \<Rightarrow> 'w \<Rightarrow> event \<Rightarrow> 'w) \<Rightarrow> ('w \<Rightarrow> u32) \<Rightarrow> bool" where
  "inert X act tm \<longleftrightarrow>
     lock_error X = (\<lambda>s. 0) \<and> clock X = (\<lambda>s. tm (fst s)) \<and>
     x_process X = (\<lambda>node port s h e. Fine ((act node port (fst s) e, snd s), h, e, CG_SUCCESS))"

lemma delivered_all_append:
  "delivered_all expired X act tm pr w (ms @ ns) = delivered_all expired X act tm pr (delivered_all expired X act tm pr w ms) ns"
  by (induction ms arbitrary: w) simp_all

context event_runner
begin

lemma delivered_without_ttl:
  "list_all (\<lambda>m. ttl (m_event m) = 0) ms \<Longrightarrow>
   delivered_all expired X act tm pr w (map (accepted env) ms) = deliver_messages X act pr w (map (accepted env) ms)"
  by (rule delivered_all_in_time) (simp add: list_all_iff never_expires)

lemma step_inert:
  assumes X: "inert X act tm" and i: "program_inv (capacity X) q h R"
    and loc: "list_all local_message (list_order (contents (capacity X) q))"
    and ne: "\<not> is_empty q"
  shows "\<exists>q' h' m. queue_step pause expired X (w, q) h =
        Fine ((delivered_all expired X act tm (priorities q) w [accepted (x_locks X) m], q'), h') \<and>
      list_order (contents (capacity X) q) = m # list_order (contents (capacity X) q') \<and>
      program_inv (capacity X) q' h' R \<and>
      event_queue.truncate q' = event_queue.truncate q \<and> signalled q' = signalled q \<and> priorities q' = priorities q"
proof -
  let ?N = "capacity X" and ?env = "x_locks X"
  have "list_order (contents ?N q) \<noteq> []"
    using ne is_empty_contents [of q ?N] by simp
  with take_message_inv [OF i, of ?env] obtain q' h' m where t:
    "take_message ?N ?env q h = Fine (q', h', Some (accepted ?env m))"
    "list_order (contents ?N q) = m # list_order (contents ?N q')"
    "program_inv ?N q' h' (mhset (accepted ?env m) + R)"
    "event_queue.truncate q' = event_queue.truncate q" "signalled q' = signalled q" "priorities q' = priorities q"
    by auto
  obtain h2 where h2: "Event_destroy h' (m_event (accepted ?env m)) = Fine h2" "program_inv ?N q' h2 R"
    using program_inv_destroy [OF t(3)] by blast
  have "local_message m" using loc t(2) by simp
  then obtain n port where "destination m = LocalDestination (Some n) port"
    by (auto simp: local_message_def split: destination.splits option.splits)
  then have "queue_step pause expired X (w, q) h =
      Fine ((delivered_all expired X act tm (priorities q) w [accepted ?env m], q'), h2)"
    using X t(1,6) h2(1) by (simp add: inert_def queue_step_def queue_process_def Message_destroy_def Let_def)
  with t h2(2) show ?thesis by blast
qed

lemma drain_inert:
  "inert X act tm \<Longrightarrow> program_inv (capacity X) q h R \<Longrightarrow>
   list_all local_message (list_order (contents (capacity X) q)) \<Longrightarrow> \<not> stop_requested q \<Longrightarrow>
   length (list_order (contents (capacity X) q)) < n \<Longrightarrow>
   \<exists>q' h'. queue_drain (queue_step pause expired X) n (w, q) h =
       Fine ((delivered_all expired X act tm (priorities q) w (map (accepted (x_locks X)) (list_order (contents (capacity X) q))), q'), h', True) \<and>
     list_order (contents (capacity X) q') = [] \<and> program_inv (capacity X) q' h' R \<and>
     event_queue.truncate q' = event_queue.truncate q \<and> signalled q' = signalled q \<and> priorities q' = priorities q"
proof (induction n arbitrary: q h w)
  case (Suc n)
  show ?case
  proof (cases "is_empty q")
    case True
    then have "list_order (contents (capacity X) q) = []"
      using is_empty_contents [of q "capacity X"] by simp
    with True Suc.prems(2) show ?thesis by simp
  next
    case False
    obtain q1 h1 m where s1: "queue_step pause expired X (w, q) h =
        Fine ((delivered_all expired X act tm (priorities q) w [accepted (x_locks X) m], q1), h1)"
      "list_order (contents (capacity X) q) = m # list_order (contents (capacity X) q1)"
      "program_inv (capacity X) q1 h1 R"
      "event_queue.truncate q1 = event_queue.truncate q" "signalled q1 = signalled q" "priorities q1 = priorities q"
      using step_inert [OF Suc.prems(1-3) False, of w] by blast
    have prems: "list_all local_message (list_order (contents (capacity X) q1))" "\<not> stop_requested q1"
        "length (list_order (contents (capacity X) q1)) < n"
      using Suc.prems(3-5) s1(2) truncate_flags [OF s1(4)] by (simp_all add: stop_requested_def mustEnd_def mustPause_def)
    from Suc.IH [OF Suc.prems(1) s1(3) prems, of "delivered_all expired X act tm (priorities q) w [accepted (x_locks X) m]"]
    show ?thesis using s1 Suc.prems(4) False by auto
  qed
qed simp

lemma execute_inert:
  assumes X: "inert X act tm" and i: "program_inv (capacity X) q h R" and run: "\<not> stop_requested q"
    and loc: "list_all local_message (list_order (contents (capacity X) q))"
    and n: "length (list_order (contents (capacity X) q)) + 2 < n"
  shows "\<exists>q' h'. queue_execute (queue_step pause expired X) n (w, q) h =
       Fine ((delivered_all expired X act tm (priorities q) w (map (accepted (x_locks X)) (list_order (contents (capacity X) q))), q'), h', Waiting) \<and>
     list_order (contents (capacity X) q') = [] \<and> program_inv (capacity X) q' h' R \<and>
     event_queue.truncate q' = event_queue.truncate q"
proof -
  let ?N = "capacity X"
  obtain k where k: "n = Suc (Suc (Suc k))" using n by (cases n; cases "n - 1"; cases "n - 2") auto
  obtain q1 h1 where q1: "queue_drain (queue_step pause expired X) (Suc (Suc k)) (w, q) h =
       Fine ((delivered_all expired X act tm (priorities q) w (map (accepted (x_locks X)) (list_order (contents ?N q))), q1), h1, True)"
     "list_order (contents ?N q1) = []" "program_inv ?N q1 h1 R"
     "event_queue.truncate q1 = event_queue.truncate q" "signalled q1 = signalled q" "priorities q1 = priorities q"
    using drain_inert [OF X i loc run, of "Suc (Suc k)" w] n k by auto
  have run1: "\<not> stop_requested q1"
    using run truncate_flags [OF q1(4)] by (simp add: stop_requested_def mustEnd_def mustPause_def)
  show ?thesis
  proof (cases "signalled q1")
    case False
    with q1 run run1 k show ?thesis by simp
  next
    case True
    let ?q = "q1\<lparr>signalled := False\<rparr>"
    have "is_empty ?q" using is_empty_contents [of ?q ?N] q1(2) by simp
    moreover have "\<not> stop_requested ?q" using run1 by (simp add: stop_requested_def mustEnd_def mustPause_def)
    moreover have "event_queue.truncate ?q = event_queue.truncate q" using q1(4) by (simp add: event_queue.defs)
    ultimately show ?thesis using q1 run run1 k True
      by (intro exI [of _ ?q] exI [of _ h1]) simp
  qed
qed

end

section \<open>Nodes that send events\<close>

text \<open>\<^verbatim>\<open>push\<close> of the queue as a program with state \<open>'w\<close> uses it.\<close>

definition queue_pusher :: "(u32 \<Rightarrow> 'p prio_queue pusher) \<Rightarrow> u32 \<Rightarrow> ('w \<times> 'p prio_queue) pusher" where
  "queue_pusher push now s h m =
     exec_then (push now (snd s) h m) (\<lambda>(q', h', m', ok). Fine ((fst s, q'), h', m', ok))"

text \<open>
  The law of \<^verbatim>\<open>push\<close> for a queue that refuses when it is not accepting and otherwise stores the message
  and changes only requests, error and flag, by \<open>good\<close> or, when there is no room, by \<open>bad\<close>.
\<close>

definition only_flags :: "('p prio_queue \<Rightarrow> 'p prio_queue) \<Rightarrow> bool" where
  "only_flags f \<longleftrightarrow> (\<forall>N q. contents N (f q) = contents N q \<and> queue_ok N (f q) = queue_ok N q)"

lemma push_law_store:
  assumes i: "heap_inv N s (mhset m + R)"
    and refuse: "\<not> accepting s \<Longrightarrow> push now (fst s) (snd s) m = Fine (fst s, snd s, m, False)"
    and store: "accepting s \<Longrightarrow> push now (fst s) (snd s) m =
        exec_then (store_message N env now (fst s) (snd s) m) (\<lambda>(q1, h1, m1, ok). Fine (if ok then good q1 else bad q1, h1, m1, ok))"
    and flags: "only_flags good" "only_flags bad" and good: "\<And>q h. accepting (good q, h) = accepting (q, h)"
  shows "\<exists>s' m'. as_push push now m s =
        Fine (s', m', accepting s \<and> length (contents N (fst s) (level_of m)) < N) \<and>
      heap_inv N s' (mhset m' + R) \<and>
      (if accepting s \<and> length (contents N (fst s) (level_of m)) < N
       then accepting s' \<and> msg_empty m' \<and> contents N (fst s') =
           (contents N (fst s))(level_of m := contents N (fst s) (level_of m) @ [accepted env (m\<lparr>timestamp := now\<rparr>)])
       else contents N (fst s') = contents N (fst s) \<and> m' = m)"
proof -
  obtain q h where s: "s = (q, h)" by fastforce
  have q: "queue_ok N q" and ok: "handles_ok h (queue_handles N q + (mhset m + R))"
    using i s by (simp_all add: heap_inv_def)
  have g: "contents N (good q) = contents N q" "queue_ok N (good q) = queue_ok N q"
      "contents N (bad q) = contents N q" "queue_ok N (bad q) = queue_ok N q" for q
    using flags by (simp_all add: only_flags_def)
  show ?thesis
  proof (cases "accepting s \<and> nb_elems q (level_of m) < N")
    case True
    from store_message_ok [OF q ok conjunct2 [OF True], of env now] obtain q' h' m' where st:
      "store_message N env now q h m = Fine (q', h', m', True)" "queue_ok N q'" "msg_empty m'"
      "contents N q' = (contents N q)(level_of m := contents N q (level_of m) @ [accepted env (m\<lparr>timestamp := now\<rparr>)])"
      "handles_ok h' (queue_handles N q' + R)" "event_queue.truncate q' = event_queue.truncate q"
      by blast
    have a: "accepting (good q', h')"
      unfolding good using True s truncate_flags [OF st(6)] by (simp add: accepting_def)
    from True s store st g queue_handles_contents [of N "good q'" q'] a show ?thesis
      by (simp add: as_push_def heap_inv_def msg_empty_def)
  next
    case False
    then show ?thesis
      using s q ok refuse store store_message_full [of q m N env now h] g queue_handles_contents [of N "bad q" q]
      by (cases "accepting (q, h)") (auto simp: as_push_def heap_inv_def)
  qed
qed

locale prio_push = message_queue "heap_inv N" "\<lambda>s. contents N (fst s)" accepting "as_push push" "as_pop N env" N env
  for N :: nat and push :: "u32 \<Rightarrow> 'p prio_queue pusher" and env :: lock_env
begin

lemma push_event_appends:
  assumes i: "heap_inv N (q, h) (ehset e + R)"
    and m: "m = accepted env \<lparr>destination = dest, m_event = e, timestamp = now\<rparr>"
    and ok: "ok = (accepting (q, h) \<and> length (contents N q (priority_index (priority e))) < N)"
  shows "\<exists>q' h'. push_event env (queue_pusher push now) t dest (w, q) h e =
      Fine ((w, q'), h', e\<lparr>edata := moved_data (edata e), event_id := selector_code kNoEvent, ttl := 0\<rparr>, ok) \<and>
    heap_inv N (q', h') R \<and> (ok \<longrightarrow> accepting (q', h')) \<and>
    contents N q' = (if ok then (contents N q)(level_of m := contents N q (level_of m) @ [m]) else contents N q)"
proof -
  have q: "queue_ok N q" and h: "handles_ok h (ehset e + (queue_handles N q + R))"
    using i by (simp_all add: heap_inv_def union_ac)
  let ?e = "e\<lparr>edata := accept_data env (edata e)\<rparr>"
  let ?e' = "e\<lparr>edata := moved_data (edata e), event_id := selector_code kNoEvent, ttl := 0\<rparr>"
  let ?m = "\<lparr>destination = dest, m_event = ?e, timestamp = t\<rparr>"
  obtain h1 where h1: "Event_move env h e = Fine (h1, ?e, ?e')" "handles_ok h1 (ehset ?e + (queue_handles N q + R))"
    using Event_moveFrom_empty [OF h, of Event_new env] by (auto simp: Event_move_def Event_new_def)
  have "heap_inv N (q, h1) (mhset ?m + R)" using q h1(2) by (simp add: heap_inv_def union_ac)
  from push_law [OF this, of now] obtain q2 h2 m2 where p:
    "push now q h1 ?m = Fine (q2, h2, m2, ok)" "heap_inv N (q2, h2) (mhset m2 + R)"
    "if ok then accepting (q2, h2) \<and> contents N q2 =
         (contents N q)(level_of ?m := contents N q (level_of ?m) @ [accepted env (?m\<lparr>timestamp := now\<rparr>)])
     else contents N q2 = contents N q"
    by (auto simp: as_push_def ok accepting_def split: if_splits)
  have "accepted env (?m\<lparr>timestamp := now\<rparr>) = m"
    using accepted_idem [of env "\<lparr>destination = dest, m_event = e, timestamp = now\<rparr>"] by (simp add: m accepted_def)
  moreover have "level_of ?m = level_of m" by (simp add: m)
  ultimately have c: "contents N q2 = (if ok then (contents N q)(level_of m := contents N q (level_of m) @ [m]) else contents N q)"
      "ok \<longrightarrow> accepting (q2, h2)"
    using p(3) by (simp_all split: if_splits)
  have "handles_ok h2 (mhset m2 + (queue_handles N q2 + R))" using p(2) by (simp add: heap_inv_def union_ac)
  then obtain h3 where h3: "Event_destroy h2 (m_event m2) = Fine h3" "handles_ok h3 (queue_handles N q2 + R)"
    using destroy_data_ok [of h2 "edata (m_event m2)"] by (auto simp: Event_destroy_def)
  have "push_event env (queue_pusher push now) t dest (w, q) h e = Fine ((w, q2), h3, ?e', ok)"
    using h1(1) p(1) h3(1) by (simp add: push_event_def queue_pusher_def Message_destroy_def)
  moreover have "heap_inv N (q2, h3) R" using p(2) h3(2) by (simp add: heap_inv_def)
  moreover have "ok \<longrightarrow> accepting (q2, h3)" using c(2) by (simp add: accepting_def)
  ultimately show ?thesis using c(1) by blast
qed

lemma push_event_receiver_ok:
  assumes "addressed \<lparr>destination = dest, m_event = e0, timestamp = 0\<rparr>"
  shows "receiver_ok N (push_event env (queue_pusher push now) t dest)"
  unfolding receiver_ok_def
proof (intro allI impI)
  fix w :: 'b and q :: "'p prio_queue" and h e R
  assume i: "program_inv N q h (ehset e + R)"
  then have "heap_inv N (q, h) (ehset e + R)" by (simp add: program_inv_def)
  from push_event_appends [OF this refl refl, of now t dest w] obtain q' h' ok where p:
    "push_event env (queue_pusher push now) t dest (w, q) h e =
       Fine ((w, q'), h', e\<lparr>edata := moved_data (edata e), event_id := selector_code kNoEvent, ttl := 0\<rparr>, ok)"
    "heap_inv N (q', h') R"
    "contents N q' = (if ok then (contents N q)
         (level_of (accepted env \<lparr>destination = dest, m_event = e, timestamp = now\<rparr>) := contents N q (level_of (accepted env \<lparr>destination = dest, m_event = e, timestamp = now\<rparr>)) @
            [accepted env \<lparr>destination = dest, m_event = e, timestamp = now\<rparr>]) else contents N q)"
    by blast
  have "addressed (accepted env \<lparr>destination = dest, m_event = e, timestamp = now\<rparr>)" using assms by (simp add: addressed_def)
  then have "program_inv N q' h' R" using p(2,3) i by (auto simp: program_inv_def)
  moreover have "ehset (e\<lparr>edata := moved_data (edata e), event_id := selector_code kNoEvent, ttl := 0\<rparr>) = {#}"
    by (cases "edata e") simp_all
  ultimately show "case push_event env (queue_pusher push now) t dest (w, q) h e of
      Fine ((w', q'), h', e', r) \<Rightarrow> program_inv N q' h' (ehset e' + R) | Relock \<Rightarrow> True | UB \<Rightarrow> False"
    using p(1) by simp
qed

end

text \<open>So a node that does nothing but push never acquires a mutex twice.\<close>

context prio_push
begin

lemma push_event_never_relocks: "\<not> receiver_relocks N (push_event env (queue_pusher push now) t dest)"
proof
  assume "receiver_relocks N (push_event env (queue_pusher push now) t dest :: ('c \<times> 'p prio_queue, bool) receiver)"
  then obtain w :: 'c and q h e R where i: "program_inv N q h (ehset e + R)"
    and r: "push_event env (queue_pusher push now) t dest (w, q) h e = Relock"
    unfolding receiver_relocks_def by auto
  from i have "heap_inv N (q, h) (ehset e + R)" by (simp add: program_inv_def)
  from push_event_appends [OF this refl refl, of now t dest w] r show False by auto
qed

end

section \<open>The loop of the real-time systems\<close>

lemma drain_more: "queue_drain step n s h = Fine (s', h', True) \<Longrightarrow> queue_drain step (Suc n) s h = Fine (s', h', True)"
proof (induction n arbitrary: s h)
  case (Suc n)
  show ?case
  proof (cases "\<not> stop_requested (snd s) \<and> \<not> is_empty (snd s)")
    case True
    with Suc.prems obtain s1 h1 where s1: "step s h = Fine (s1, h1)" "queue_drain step n s1 h1 = Fine (s', h', True)"
      by (cases "step s h") auto
    with Suc.IH [OF s1(2)] True show ?thesis by simp
  qed (use Suc.prems in auto)
qed simp

text \<open>A run that ends on POSIX ends in the same state, after at most one more test of the condition.\<close>

lemma rtos_execute_posix:
  "queue_execute step n s h = Fine (s', h', st) \<Longrightarrow> st \<noteq> Running \<Longrightarrow> rtos_execute step (Suc n) s h = Fine (s', h', st)"
proof (induction n arbitrary: s h)
  case (Suc n)
  show ?case
  proof (cases "stop_requested (snd s)")
    case True
    with Suc.prems show ?thesis by (auto simp: stop_requested_def)
  next
    case False
    with Suc.prems obtain s1 h1 where d: "queue_drain step n s h = Fine (s1, h1, True)"
      by (cases "queue_drain step n s h") (auto split: if_splits)
    note d' = drain_more [OF d]
    consider "stop_requested (snd s1)" | "\<not> stop_requested (snd s1)" "signalled (snd s1)"
      | "\<not> stop_requested (snd s1)" "\<not> signalled (snd s1)" by blast
    then show ?thesis
    proof cases
      case 1
      with Suc.prems False d have "s' = s1" "h' = h1" "st = Returned" by auto
      with d' 1 False show ?thesis by (auto simp: stop_requested_def)
    next
      case 2
      with Suc.prems False d
      have "queue_execute step n (fst s1, (snd s1)\<lparr>signalled := False\<rparr>) h1 = Fine (s', h', st)" by simp
      from Suc.IH [OF this Suc.prems(2)] d' 2 False show ?thesis by (simp add: stop_requested_def)
    next
      case 3
      with Suc.prems False d have "s' = s1" "h' = h1" "st = Waiting" by auto
      with d' 3 False show ?thesis by (simp add: stop_requested_def)
    qed
  qed
qed simp

context event_runner
begin

lemma rtos_loop_safe:
  "executor_ok X \<Longrightarrow> program_inv (capacity X) (snd s) h R \<Longrightarrow>
   safe (receivers_relock X) (capacity X) R (rtos_execute (queue_step pause expired X) n s h)"
proof (induction n arbitrary: s h)
  case (Suc n)
  obtain w q where s: "s = (w, q)" by fastforce
  show ?case
  proof (rule safe_cases [OF drain_safe [OF Suc.prems, of n]])
    fix w1 q1 h1 ended
    assume d: "queue_drain (queue_step pause expired X) n s h = Fine ((w1, q1), h1, ended)"
      and i1: "program_inv (capacity X) q1 h1 R"
    have "safe (receivers_relock X) (capacity X) R (rtos_execute (queue_step pause expired X) n (w1, q1\<lparr>signalled := False\<rparr>) h1)"
      "safe (receivers_relock X) (capacity X) R (rtos_execute (queue_step pause expired X) n (w1, q1) h1)"
      by (rule Suc.IH [OF Suc.prems(1)]; simp add: i1)+
    then show ?thesis using s d i1 Suc.prems(2) by simp
  qed (use s Suc.prems in simp)
next
  case 0
  then show ?case by (cases s) simp
qed

text \<open>The error of the node that gets the next message stops the loop.\<close>

lemma execute_error:
  assumes "program_inv (capacity X) q h R" and "\<not> must_end q" and "\<not> must_pause q"
    and "list_order (contents (capacity X) q) = m # ms" and "destination m = LocalDestination (Some node) port"
    and "\<not> expired m (tm w)" and "lock_error X = (\<lambda>s. 0)" and "clock X = (\<lambda>s. tm (fst s))"
    and "x_process X = (\<lambda>node port s h e. Fine ((act node port (fst s) e, snd s), h, e, st))" and "st \<noteq> CG_SUCCESS"
  shows "\<exists>w' q' h'. queue_execute (queue_step pause expired X) (Suc (Suc (Suc n))) (w, q) h = Fine ((w', q'), h', Returned) \<and>
     list_order (contents (capacity X) q') = ms \<and> handles_ok h' (queue_handles (capacity X) q' + R) \<and>
     snd (consumeError q') = Some (st, x_node_id X node, 0) \<and> must_pause q'"
proof -
  let ?N = "capacity X" and ?env = "x_locks X"
  obtain q1 h1 m1 where t: "take_message ?N ?env q h = Fine (q1, h1, Some (accepted ?env m1))"
      "list_order (contents ?N q) = m1 # list_order (contents ?N q1)"
      "program_inv ?N q1 h1 (mhset (accepted ?env m1) + R)" "event_queue.truncate q1 = event_queue.truncate q"
    using take_message_inv [OF assms(1), of ?env] assms(4) by auto
  have m1: "m1 = m" "list_order (contents ?N q1) = ms" using t(2) assms(4) by simp_all
  obtain h2 where h2: "Event_destroy h1 (m_event (accepted ?env m)) = Fine h2" "program_inv ?N q1 h2 R"
    using program_inv_destroy [OF t(3) [unfolded m1(1)]] by blast
  let ?q = "setError pause st (x_node_id X node) 0 q1"
  have ne: "\<not> is_empty q" using is_empty_contents [of q ?N] assms(4) by simp
  have "\<not> expired (accepted ?env m) (clock X (w, q1))"
    using assms(6,8) expired_message [of "accepted ?env m" m] by simp
  then obtain w' where step: "queue_step pause expired X (w, q) h = Fine ((w', ?q), h2)"
    using t(1) h2(1) assms(5,7,9,10) m1(1) by (simp add: queue_step_def queue_process_def Let_def)
  have run: "\<not> stop_requested q" and stop: "stop_requested ?q"
    using assms(2,3) setError_stops(1) by (simp_all add: stop_requested_def mustEnd_def mustPause_def)
  have "queue_execute (queue_step pause expired X) (Suc (Suc (Suc n))) (w, q) h = Fine ((w', ?q), h2, Returned)"
    using step run stop ne by simp
  moreover have "handles_ok h2 (queue_handles ?N ?q + R)"
    using h2(2) queue_handles_contents [of ?N ?q q1] by (simp add: program_inv_def heap_inv_def)
  ultimately show ?thesis using setError_stops m1(2)
    by (intro exI [of _ w'] exI [of _ ?q] exI [of _ h2]) simp
qed

end

end
