(* ===== verification/PosixQueue.thy ===== *)
theory PosixQueue
  imports QueueExec
begin

text \<open>
  The event queue of the POSIX runtime (\<^verbatim>\<open>posix_runtime/stream_event_queue.cpp\<close>): push, clear,
  pause and end, the loop that executes it, and the expiry of events. Time is in milliseconds.
\<close>

section \<open>Thread priorities\<close>

datatype ThreadPriority = Low | Normal | High | RealTime

datatype sched_policy = SCHED_OTHER | SCHED_RR | SCHED_FIFO

text \<open>What \<^verbatim>\<open>pthread_setschedparam\<close> is asked for.\<close>

fun thread_sched :: "ThreadPriority \<Rightarrow> sched_policy \<times> int" where
  "thread_sched High = (SCHED_RR, 50)"
| "thread_sched RealTime = (SCHED_FIFO, 80)"
| "thread_sched p = (SCHED_OTHER, 0)"

section \<open>Operations\<close>

type_synonym posix_queue = "ThreadPriority prio_queue"

definition PosixEventQueue_new ::
    "nat \<Rightarrow> (nat \<Rightarrow> bool) \<Rightarrow> ThreadPriority \<Rightarrow> ThreadPriority \<Rightarrow> ThreadPriority \<Rightarrow> posix_queue" where
  "PosixEventQueue_new N alloc_ok low normal high = prio_queue_new N alloc_ok low normal high"

definition PosixEventQueue_destroy :: "posix_queue \<Rightarrow> shared_obj sheap \<Rightarrow> shared_obj sheap exec" where
  "PosixEventQueue_destroy q h = destroy_levels [0..<nb_priorities] q h"

definition Posix_notifyQueue :: "'p prio_queue \<Rightarrow> 'p prio_queue" where
  "Posix_notifyQueue q = q\<lparr>signalled := True\<rparr>"

definition Posix_end :: "'p prio_queue \<Rightarrow> 'p prio_queue" where
  "Posix_end q = Posix_notifyQueue (q\<lparr>must_end := True\<rparr>)"

definition Posix_pause :: "'p prio_queue \<Rightarrow> 'p prio_queue" where
  "Posix_pause q = Posix_notifyQueue (q\<lparr>must_pause := True\<rparr>)"

text \<open>
  \<open>err\<close> is the error of the queue's mutex, which is 0 on this platform. A full level is an error
  that pauses the queue.
\<close>

definition Posix_push :: "nat \<Rightarrow> lock_env \<Rightarrow> int \<Rightarrow> u32 \<Rightarrow> posix_queue pusher" where
  "Posix_push N env err now q h event =
     (if must_pause q \<or> must_end q then Fine (q, h, event, False)
      else
        exec_then
          (if err = 0 then
             exec_then (store_message N env now q h event) (\<lambda>(q1, h1, m1, ok).
               Fine (if ok then q1 else setError Posix_pause CG_EVENT_QUEUE_FULL CG_UNIDENTIFIED_NODE 0 q1, h1, m1, ok))
           else Fine (setError Posix_pause CG_OS_ERROR CG_UNIDENTIFIED_NODE err q, h, event, False))
          (\<lambda>(q2, h2, m2, ok). Fine (Posix_notifyQueue q2, h2, m2, ok)))"

definition Posix_isEmpty :: "posix_queue \<Rightarrow> bool" where
  "Posix_isEmpty q = is_empty q"

definition Posix_clear ::
    "nat \<Rightarrow> lock_env \<Rightarrow> int \<Rightarrow> posix_queue \<Rightarrow> shared_obj sheap \<Rightarrow> (posix_queue \<times> shared_obj sheap) exec" where
  "Posix_clear N env err q h =
     (if err = 0 then clear_levels N env [0..<nb_priorities] q h else Fine (q, h))"

text \<open>The limit is computed modulo 2 to the 32.\<close>

definition Posix_expired :: "message \<Rightarrow> u32 \<Rightarrow> bool" where
  "Posix_expired msg nowMs \<longleftrightarrow>
     ttl (m_event msg) \<noteq> 0 \<and> (let limitMs = timestamp msg + ttl (m_event msg) in nowMs > limitMs)"

section \<open>Executing the queue\<close>

definition Posix_process ::
    "(ThreadPriority, 'd, 'w) executor \<Rightarrow> message \<Rightarrow> 'w \<times> posix_queue \<Rightarrow> shared_obj sheap \<Rightarrow>
     (('w \<times> posix_queue) \<times> shared_obj sheap) exec" where
  "Posix_process X = queue_process Posix_pause X"

definition Posix_step :: "(ThreadPriority, 'd, 'w) executor \<Rightarrow> ('w, ThreadPriority) stepper" where
  "Posix_step X = queue_step Posix_pause Posix_expired X"

definition Posix_execute ::
    "(ThreadPriority, 'd, 'w) executor \<Rightarrow> nat \<Rightarrow> 'w \<times> posix_queue \<Rightarrow> shared_obj sheap \<Rightarrow>
     (('w \<times> posix_queue) \<times> shared_obj sheap \<times> run_state) exec" where
  "Posix_execute X = queue_execute (Posix_step X)"

section \<open>The queue keeps its contract\<close>

interpretation posix_run: event_runner Posix_pause Posix_expired
  by unfold_locales (simp_all add: Posix_pause_def Posix_notifyQueue_def Posix_expired_def)

lemma notify_queue [simp]:
  "contents N (Posix_notifyQueue q) = contents N q" "queue_ok N (Posix_notifyQueue q) = queue_ok N q"
  by (simp_all add: Posix_notifyQueue_def)

lemma Posix_push_law:
  assumes "heap_inv N s (mhset m + R)"
  shows "\<exists>s' m'. as_push (Posix_push N env 0) now m s =
        Fine (s', m', accepting s \<and> length (contents N (fst s) (level_of m)) < N) \<and>
      heap_inv N s' (mhset m' + R) \<and>
      (if accepting s \<and> length (contents N (fst s) (level_of m)) < N
       then accepting s' \<and> msg_empty m' \<and> contents N (fst s') =
           (contents N (fst s))(level_of m := contents N (fst s) (level_of m) @ [accepted env (m\<lparr>timestamp := now\<rparr>)])
       else contents N (fst s') = contents N (fst s) \<and> m' = m)"
proof (rule push_law_store [OF assms, where good = Posix_notifyQueue
      and bad = "\<lambda>q. Posix_notifyQueue (setError Posix_pause CG_EVENT_QUEUE_FULL CG_UNIDENTIFIED_NODE 0 q)"])
  obtain q h where s: "s = (q, h)" by fastforce
  show "accepting s \<Longrightarrow> Posix_push N env 0 now (fst s) (snd s) m =
      exec_then (store_message N env now (fst s) (snd s) m) (\<lambda>(q1, h1, m1, ok).
        Fine (if ok then Posix_notifyQueue q1 else Posix_notifyQueue (setError Posix_pause CG_EVENT_QUEUE_FULL CG_UNIDENTIFIED_NODE 0 q1), h1, m1, ok))"
    using s by (cases "store_message N env now q h m") (auto simp: accepting_def Posix_push_def)
qed (auto simp: only_flags_def accepting_def Posix_push_def Posix_notifyQueue_def)

interpretation posix: prio_push N "Posix_push N env 0" env for N env
  by unfold_locales (rule Posix_push_law as_pop_law; assumption)+

section \<open>Properties\<close>

text \<open>
  C31. \<^verbatim>\<open>push\<close> implements appending to one of three bounded lists: the message goes to the end of the
  list of its priority, stamped with the time, exactly when no pause or end was requested and the
  list has room, and the executing thread is woken up. Otherwise the lists are unchanged and the
  message stays with the caller; when it is the room that is missing, the queue is paused with the
  error \<^verbatim>\<open>CG_EVENT_QUEUE_FULL\<close> pending.
\<close>

theorem posix_push_refines:
  assumes "queue_ok N q" and "handles_ok h (queue_handles N q + (mhset m + R))"
  shows "\<exists>q' h' m'. Posix_push N env 0 now q h m =
       Fine (q', h', m', \<not> must_pause q \<and> \<not> must_end q \<and> length (contents N q (level_of m)) < N) \<and>
     queue_ok N q' \<and> handles_ok h' (queue_handles N q' + (mhset m' + R)) \<and>
     (if must_pause q \<or> must_end q then q' = q \<and> m' = m
      else if length (contents N q (level_of m)) < N then
        contents N q' = (contents N q)(level_of m := contents N q (level_of m) @ [accepted env (m\<lparr>timestamp := now\<rparr>)]) \<and>
        msg_empty m' \<and> signalled q' \<and> \<not> must_pause q' \<and> \<not> must_end q'
      else contents N q' = contents N q \<and> m' = m \<and> must_pause q' \<and> signalled q' \<and>
        snd (consumeError q') = Some (CG_EVENT_QUEUE_FULL, CG_UNIDENTIFIED_NODE, 0))"
proof -
  have "heap_inv N (q, h) (mhset m + R)" using assms by (simp add: heap_inv_def)
  from Posix_push_law [OF this, of env now] obtain s' m' where l:
    "as_push (Posix_push N env 0) now m (q, h) = Fine (s', m', accepting (q, h) \<and> length (contents N q (level_of m)) < N)"
    "heap_inv N s' (mhset m' + R)"
    "if accepting (q, h) \<and> length (contents N q (level_of m)) < N
       then accepting s' \<and> msg_empty m' \<and> contents N (fst s') =
           (contents N q)(level_of m := contents N q (level_of m) @ [accepted env (m\<lparr>timestamp := now\<rparr>)])
       else contents N (fst s') = contents N q \<and> m' = m"
    unfolding fst_conv by blast
  obtain q' h' where s': "s' = (q', h')" by fastforce
  have p: "Posix_push N env 0 now q h m = Fine (q', h', m', accepting (q, h) \<and> length (contents N q (level_of m)) < N)"
    using l(1) s' by (auto simp: as_push_def)
  note l' = l(2,3) [unfolded s' fst_conv]
  have "accepting (q, h) \<Longrightarrow> signalled q'"
    using p by (auto simp: Posix_push_def accepting_def Posix_notifyQueue_def)
  moreover have "accepting (q, h) \<Longrightarrow> \<not> length (contents N q (level_of m)) < N \<Longrightarrow>
      q' = Posix_notifyQueue (setError Posix_pause CG_EVENT_QUEUE_FULL CG_UNIDENTIFIED_NODE 0 q)"
    using p store_message_full [of q m N env now h] by (auto simp: Posix_push_def accepting_def)
  moreover have "\<not> accepting (q, h) \<Longrightarrow> q' = q"
    using p by (auto simp: Posix_push_def accepting_def)
  ultimately show ?thesis using p l'
    by (intro exI [of _ q'] exI [of _ h'] exI [of _ m'])
      (auto simp: heap_inv_def accepting_def consumeError_def setError_def Posix_pause_def Posix_notifyQueue_def)
qed

definition demo_msg :: "int \<Rightarrow> u32 \<Rightarrow> cg_value \<Rightarrow> message" where
  "demo_msg port p v = \<lparr>destination = LocalDestination (Some 4) port,
     m_event = \<lparr>event_id = 6, priority = p, edata = Single v, ttl = 0\<rparr>, timestamp = 0\<rparr>"

definition demo_queue :: posix_queue where
  "demo_queue = PosixEventQueue_new 2 (\<lambda>p. True) Low Normal High"

lemma demo_queue_ok: "queue_ok 2 demo_queue" "contents 2 demo_queue = (\<lambda>p. [])" "queue_handles 2 demo_queue = {#}"
  by (simp_all add: demo_queue_def PosixEventQueue_new_def prio_queue_new_ok)

lemma accepted_plain: "accepted env (demo_msg port p (VInt8 x)) = demo_msg port p (VInt8 x)"
    "mhset (demo_msg port p (VInt8 x)) = {#}" "level_of (demo_msg port p v) = priority_index p"
    "(demo_msg port p v)\<lparr>timestamp := 0\<rparr> = demo_msg port p v"
  by (simp_all add: demo_msg_def accepted_def accept_data_def)

lemma demo_queue_flags: "\<not> must_pause demo_queue" "\<not> must_end demo_queue"
  by (simp_all add: demo_queue_def PosixEventQueue_new_def prio_queue_new_def)

theorem posix_push_refines_witness:
  "\<exists>q' h' m'. Posix_push 2 demo_env 0 0 demo_queue heap_empty (demo_msg 1 2 (VInt8 5)) = Fine (q', h', m', True) \<and>
     contents 2 q' 2 = [demo_msg 1 2 (VInt8 5)]"
proof -
  have l: "priority_index 2 = 2" by (simp add: priority_index_def nb_priorities_def)
  have "handles_ok heap_empty (queue_handles 2 demo_queue + (mhset (demo_msg 1 2 (VInt8 5)) + {#}))"
    by (simp add: demo_queue_ok accepted_plain heap_empty_ok)
  from posix_push_refines [OF demo_queue_ok(1) this, of demo_env 0] show ?thesis
    by (auto simp: demo_queue_flags demo_queue_ok l accepted_plain fun_eq_iff)
qed

lemma prio_queue_new_flags:
  "\<not> must_pause (prio_queue_new N a l n h)" "\<not> must_end (prio_queue_new N a l n h)"
  by (simp_all add: prio_queue_new_def)

text \<open>
  C32. Order of messages: when no priority gets more messages than a level holds, every push into a
  new queue succeeds, and taking as many messages gives them by decreasing priority, in the order
  of the pushes within a priority, each with the time of its push; the heap counts their handles.
\<close>

theorem posix_queue_order:
  assumes "0 < N" and "handles_ok h (level_handles (map snd nms) + R)"
    and "\<forall>p < nb_priorities. length (at_level p (map snd nms)) \<le> N"
  shows "\<exists>s1 q2 h2. push_all (as_push (Posix_push N env 0)) nms (PosixEventQueue_new N (\<lambda>p. True) low normal high, h) =
       Fine (s1, map (\<lambda>x. True) nms) \<and>
     pop_all (as_pop N env) (length nms) s1 = Fine ((q2, h2), map (accepted env) (by_priority (stamped nms))) \<and>
     handles_ok h2 (queue_handles N q2 + (level_handles (map (accepted env) (by_priority (stamped nms))) + R))"
proof -
  let ?s = "(PosixEventQueue_new N (\<lambda>p. True) low normal high, h)"
  have "heap_inv N ?s (level_handles (map snd nms) + R)" "accepting ?s" "\<forall>p < nb_priorities. contents N (fst ?s) p = []"
    using assms(2)
    by (simp_all add: heap_inv_def PosixEventQueue_new_def accepting_def prio_queue_new_flags
        prio_queue_new_ok [OF assms(1)])
  from posix.push_pop_order [OF this assms(3), of env] obtain s1 s2 where
    "push_all (as_push (Posix_push N env 0)) nms ?s = Fine (s1, map (\<lambda>x. True) nms)"
    "pop_all (as_pop N env) (length nms) s1 = Fine (s2, map (accepted env) (by_priority (stamped nms)))"
    "heap_inv N s2 (level_handles (map (accepted env) (by_priority (stamped nms))) + R)"
    by blast
  moreover obtain q2 h2 where "s2 = (q2, h2)" by fastforce
  ultimately show ?thesis by (auto simp: heap_inv_def)
qed

theorem posix_queue_order_witness:
  "\<exists>s1 s2. push_all (as_push (Posix_push 2 demo_env 0))
       [(0, demo_msg 1 0 (VInt8 5)), (0, demo_msg 2 2 (VInt8 6)), (0, demo_msg 3 0 (VInt8 7))]
       (PosixEventQueue_new 2 (\<lambda>p. True) Low Normal High, heap_empty) = Fine (s1, [True, True, True]) \<and>
     pop_all (as_pop 2 demo_env) 3 s1 =
       Fine (s2, [demo_msg 2 2 (VInt8 6), demo_msg 1 0 (VInt8 5), demo_msg 3 0 (VInt8 7)])"
proof -
  let ?ms = "[(0, demo_msg 1 0 (VInt8 5)), (0, demo_msg 2 2 (VInt8 6)), (0, demo_msg 3 0 (VInt8 7))]"
  have l: "priority_index 2 = 2" "priority_index 0 = 0" by (simp_all add: priority_index_def nb_priorities_def)
  have h: "handles_ok heap_empty (level_handles (map snd ?ms) + {#})" by (simp add: accepted_plain heap_empty_ok)
  have r: "\<forall>p < nb_priorities. length (at_level p (map snd ?ms)) \<le> 2"
    by (simp add: at_level_def accepted_plain l levels)
  have o: "map (accepted demo_env) (by_priority (stamped ?ms)) =
      [demo_msg 2 2 (VInt8 6), demo_msg 1 0 (VInt8 5), demo_msg 3 0 (VInt8 7)]"
    by (simp add: by_priority_def list_order_levels at_level_def stamped_def accepted_plain l)
  from posix_queue_order [OF _ h r, of demo_env Low Normal High] show ?thesis
    unfolding o by (simp del: push_all.simps pop_all.simps level_handles_simps add: numeral_3_eq_3) blast
qed

text \<open>
  C33. Executing the queue is safe with any nodes and application handler that leave the queue and the
  heap in order, whatever they push, pause or end and whatever acquisitions fail: nothing is
  undefined, unless a node or the handler itself acquires the mutex of a buffer twice
  (\<open>Relock\<close>; the queue never does), and the queue, and the counts of all buffers held by its
  messages, stay in order after any number of rounds.
\<close>

theorem posix_execute_safe:
  assumes "executor_ok X" and "program_inv (capacity X) q h R"
  shows "case Posix_execute X n (w, q) h of
      Fine ((w', q'), h', st) \<Rightarrow> queue_ok (capacity X) q' \<and> handles_ok h' (queue_handles (capacity X) q' + R)
    | Relock \<Rightarrow> receivers_relock X
    | UB \<Rightarrow> False"
proof -
  have "safe (receivers_relock X) (capacity X) R (Posix_execute X n (w, q) h)"
    unfolding Posix_execute_def Posix_step_def by (rule posix_run.execute_safe [OF assms(1)]) (simp add: assms(2))
  then show ?thesis by (auto simp: safe_def program_inv_def heap_inv_def split: exec.splits)
qed

text \<open>An executor whose nodes forward every event to port 7 of node 4 through the queue.\<close>

definition demo_forward :: "(ThreadPriority, unit, nat) executor" where
  "demo_forward = \<lparr>capacity = 2, x_locks = demo_env, lock_error = (\<lambda>s. 0), clock = (\<lambda>s. 0), set_priority = (\<lambda>p w. w),
     x_process = (\<lambda>node port s h e.
       exec_then (push_event demo_env (queue_pusher (Posix_push 2 demo_env 0) 0) 0 (LocalDestination (Some 4) 7) s h e)
         (\<lambda>(s', h', e', ok). Fine (s', h', e', if ok then CG_SUCCESS else CG_EVENT_QUEUE_FULL))),
     x_node_id = int, x_handler = \<lparr>handler_ready = True, handler_data = (), handler = None\<rparr>\<rparr>"

theorem posix_execute_safe_witness:
  "case Posix_execute demo_forward 9 (0, demo_queue) heap_empty of
      Fine ((w', q'), h', st) \<Rightarrow> queue_ok 2 q' \<and> handles_ok h' (queue_handles 2 q' + {#})
    | Relock \<Rightarrow> False
    | UB \<Rightarrow> False"
proof -
  have "receiver_ok 2 (x_process demo_forward node port)" for node port
    unfolding receiver_ok_def
  proof (intro allI impI)
    fix w :: nat and q :: posix_queue and h e R
    assume i: "program_inv 2 q h (ehset e + R)"
    have "receiver_ok 2 (push_event demo_env (queue_pusher (Posix_push 2 demo_env 0) 0) 0 (LocalDestination (Some 4) 7)
        :: (nat \<times> posix_queue, bool) receiver)"
      by (rule posix.push_event_receiver_ok) (simp add: addressed_def)
    from this i show "case x_process demo_forward node port (w, q) h e of
        Fine ((w', q'), h', e', r) \<Rightarrow> program_inv 2 q' h' (ehset e' + R) | Relock \<Rightarrow> True | UB \<Rightarrow> False"
      by (rule receiver_okD [of 2 _ q h e R w]) (simp_all add: demo_forward_def)
  qed
  then have "executor_ok demo_forward" by (simp add: executor_ok_def) (simp add: demo_forward_def)
  moreover have "program_inv (capacity demo_forward) demo_queue heap_empty {#}"
    using demo_queue_ok by (simp add: program_inv_def heap_inv_def demo_forward_def heap_empty_ok)
  moreover have cap: "capacity demo_forward = 2" by (simp add: demo_forward_def)
  moreover have "\<not> receivers_relock demo_forward"
    using posix.push_event_never_relocks [of 2 demo_env 0 0 "LocalDestination (Some 4) 7"]
    by (auto simp: receivers_relock_def receiver_relocks_def demo_forward_def exec_then_Relock split: if_splits)
  ultimately show ?thesis
    using posix_execute_safe [of demo_forward demo_queue heap_empty "{#}" 9 0] unfolding cap
    by (auto split: exec.splits)
qed



definition demo_busy :: posix_queue where
  "demo_busy = demo_queue\<lparr>queue := (\<lambda>p. Some (if p = 2 then [Message_new, demo_msg 1 2 (VInt8 5)] else [demo_msg 3 0 (VInt8 6), Message_new])),
     read_ix := (\<lambda>p. if p = 2 then 1 else 0), write_ix := (\<lambda>p. if p = 2 then 0 else if p = 0 then 1 else 0),
     nb_elems := (\<lambda>p. if p = 1 then 0 else 1)\<rparr>"

lemma demo_busy_inv: "program_inv 2 demo_busy heap_empty {#}"
    "list_order (contents 2 demo_busy) = [demo_msg 1 2 (VInt8 5), demo_msg 3 0 (VInt8 6)]"
    "\<not> must_end demo_busy" "\<not> must_pause demo_busy"
proof -
  have e: "msg_empty (demo_msg i p (VInt8 x))" for i p x by (simp add: msg_empty_def accepted_plain)
  have c: "contents 2 demo_busy = (\<lambda>p. if p = 2 then [demo_msg 1 2 (VInt8 5)] else if p = 1 then [] else [demo_msg 3 0 (VInt8 6)])"
    by (auto simp: contents_def demo_busy_def ring_items_def)
  have rest: "ring_rest msg_empty 2 [x, y] r n" if "msg_empty x" "msg_empty y" for x y r n
    using that by (auto simp: ring_rest_def nth_Cons split: nat.splits)
  have q: "queue_ok 2 demo_busy"
    using e Message_new_empty rest by (auto simp: queue_ok_def level_ok_def levels demo_busy_def)
  have "{..<nb_priorities} = {0, 1, 2}" by (auto simp: levels)
  then have "queue_handles 2 demo_busy = {#}"
    by (simp add: queue_handles_def c accepted_plain)
  then show "program_inv 2 demo_busy heap_empty {#}"
    using q by (simp add: program_inv_def heap_inv_def heap_empty_ok c levels) (auto simp: addressed_def demo_msg_def)
  show "list_order (contents 2 demo_busy) = [demo_msg 1 2 (VInt8 5), demo_msg 3 0 (VInt8 6)]"
    by (simp add: list_order_levels c)
  show "\<not> must_end demo_busy" "\<not> must_pause demo_busy" using demo_queue_flags by (simp_all add: demo_busy_def)
qed


text \<open>
  A node that returns an error stops the queue: the status and the identifier of the node are
  the pending error, the loop returns with the messages after it still in the queue, pushing is
  refused, and after resume pushing is possible again and no error is pending.
\<close>

theorem posix_node_error_stops:
  assumes "program_inv (capacity X) q h R" and "\<not> must_end q" and "\<not> must_pause q"
    and "list_order (contents (capacity X) q) = m # ms" and "destination m = LocalDestination (Some node) port"
    and "\<not> Posix_expired m (tm w)" and "lock_error X = (\<lambda>s. 0)" and "clock X = (\<lambda>s. tm (fst s))"
    and "x_process X = (\<lambda>node port s h e. Fine ((act node port (fst s) e, snd s), h, e, st))" and "st \<noteq> CG_SUCCESS"
  shows "\<exists>w' q' h'. Posix_execute X (Suc (Suc (Suc n))) (w, q) h = Fine ((w', q'), h', Returned) \<and>
     list_order (contents (capacity X) q') = ms \<and> handles_ok h' (queue_handles (capacity X) q' + R) \<and>
     snd (consumeError q') = Some (st, x_node_id X node, 0) \<and>
     (\<forall>env err now h m. Posix_push (capacity X) env err now q' h m = Fine (q', h, m, False)) \<and>
     \<not> must_pause (EventQueue_resume q') \<and> snd (consumeError (EventQueue_resume q')) = None"
proof -
  from posix_run.execute_error [OF assms, of n] obtain w' q' h' where e:
    "Posix_execute X (Suc (Suc (Suc n))) (w, q) h = Fine ((w', q'), h', Returned)"
    "list_order (contents (capacity X) q') = ms" "handles_ok h' (queue_handles (capacity X) q' + R)"
    "snd (consumeError q') = Some (st, x_node_id X node, 0)" "must_pause q'"
    unfolding Posix_execute_def Posix_step_def by blast
  moreover have "\<forall>env err now h m. Posix_push (capacity X) env err now q' h m = Fine (q', h, m, False)"
    using e(5) by (simp add: Posix_push_def)
  moreover have "\<not> must_pause (EventQueue_resume q')" "snd (consumeError (EventQueue_resume q')) = None"
    by (simp_all add: EventQueue_resume_def clearError_def consumeError_def)
  ultimately show ?thesis by blast
qed

definition demo_failing :: "(ThreadPriority, unit, nat) executor" where
  "demo_failing = \<lparr>capacity = 2, x_locks = demo_env, lock_error = (\<lambda>s. 0), clock = (\<lambda>s. 0), set_priority = (\<lambda>p w. w),
     x_process = (\<lambda>node port s h e. Fine ((Suc (fst s), snd s), h, e, CG_BUFFER_ERROR)),
     x_node_id = (\<lambda>node. 10 + int node), x_handler = \<lparr>handler_ready = False, handler_data = (), handler = None\<rparr>\<rparr>"

theorem posix_node_error_stops_witness:
  "\<exists>w' q' h'. Posix_execute demo_failing (Suc (Suc (Suc 0))) (0, demo_busy) heap_empty = Fine ((w', q'), h', Returned) \<and>
     list_order (contents 2 q') = [demo_msg 3 0 (VInt8 6)] \<and>
     snd (consumeError q') = Some (CG_BUFFER_ERROR, 14, 0)"
proof -
  have X: "capacity demo_failing = 2" "lock_error demo_failing = (\<lambda>s. 0)" "x_node_id demo_failing 4 = 14"
      "clock demo_failing = (\<lambda>s. (\<lambda>w. 0) (fst s))"
      "x_process demo_failing = (\<lambda>node port s h e. Fine (((\<lambda>n p w e. Suc w) node port (fst s) e, snd s), h, e, CG_BUFFER_ERROR))"
    by (simp_all add: demo_failing_def)
  have m: "destination (demo_msg 1 2 (VInt8 5)) = LocalDestination (Some 4) 1"
      "\<not> Posix_expired (demo_msg 1 2 (VInt8 5)) 0"
    by (simp_all add: demo_msg_def Posix_expired_def)
  have i: "program_inv (capacity demo_failing) demo_busy heap_empty {#}"
      "list_order (contents (capacity demo_failing) demo_busy) = demo_msg 1 2 (VInt8 5) # [demo_msg 3 0 (VInt8 6)]"
    by (simp_all add: X(1) demo_busy_inv)
  from posix_node_error_stops [OF i(1) demo_busy_inv(3,4) i(2) m X(2,4,5), of 0 0] show ?thesis
    unfolding X(1,3) by auto
qed

text \<open>
  C35. \<^verbatim>\<open>clear\<close> empties the three levels and releases the buffers of all their messages; the requests
  and the pending error are as before.
\<close>

theorem posix_clear_releases:
  assumes "queue_ok N q" and "handles_ok h (queue_handles N q + R)"
  shows "\<exists>q' h'. Posix_clear N env 0 q h = Fine (q', h') \<and> queue_ok N q' \<and> Posix_isEmpty q' \<and> handles_ok h' R \<and>
     event_queue.truncate q' = event_queue.truncate q"
proof -
  have "\<forall>p\<in>set [0..<nb_priorities]. p < nb_priorities" by simp
  from clear_levels_ok [OF assms(1) this assms(2), of env] obtain q' h' where c:
    "clear_levels N env [0..<nb_priorities] q h = Fine (q', h')" "queue_ok N q'"
    "contents N q' = (\<lambda>p. if p \<in> set [0..<nb_priorities] then [] else contents N q p)"
    "handles_ok h' (queue_handles N q' + R)" "event_queue.truncate q' = event_queue.truncate q"
    by blast
  have e: "list_order (contents N q') = []" by (simp add: list_order_levels c(3) levels)
  then show ?thesis using c(1,2,4,5) queue_handles_empty [OF e] is_empty_contents [of q' N]
    by (simp add: Posix_clear_def Posix_isEmpty_def)
qed

theorem posix_clear_releases_witness:
  "\<exists>q' h'. Posix_clear 2 demo_env 0 demo_busy heap_empty = Fine (q', h') \<and> Posix_isEmpty q'"
  using posix_clear_releases [of 2 demo_busy heap_empty "{#}" demo_env] demo_busy_inv(1)
  by (auto simp: program_inv_def heap_inv_def)

text \<open>
  Expiry on the POSIX clock, which counts milliseconds modulo 2 to the 32: for a message whose
  time stamp is not in the future, an event expires when more than its time to live has passed, and
  also, however little has passed, when stamp plus time to live exceed the range of the clock.
\<close>

theorem posix_expiry:
  assumes "timestamp msg \<le> nowMs"
  shows "Posix_expired msg nowMs \<longleftrightarrow> ttl (m_event msg) \<noteq> 0 \<and>
     (unat (ttl (m_event msg)) < unat nowMs - unat (timestamp msg) \<or>
      2 ^ 32 \<le> unat (timestamp msg) + unat (ttl (m_event msg)))"
proof -
  let ?s = "timestamp msg" and ?t = "ttl (m_event msg)"
  have s: "unat ?s \<le> unat nowMs" using assms by (simp add: word_le_nat_alt)
  have b: "unat ?s < 2 ^ 32" "unat ?t < 2 ^ 32" using unsigned_less [of ?s] unsigned_less [of ?t] by simp_all
  have limit: "unat (?s + ?t) = (if unat ?s + unat ?t < 2 ^ 32 then unat ?s + unat ?t else unat ?s + unat ?t - 2 ^ 32)"
    using b by (auto simp: unat_word_ariths mod_if)
  show ?thesis
    using s b limit by (auto simp: Posix_expired_def word_less_nat_alt Let_def split: if_splits)
qed

theorem posix_expiry_witness:
  "Posix_expired \<lparr>destination = DistantDestination 1,
     m_event = \<lparr>event_id = 6, priority = 0, edata = Single VNone, ttl = 1000\<rparr>, timestamp = 4294967000\<rparr> 4294967001"
  using posix_expiry [of "\<lparr>destination = DistantDestination 1,
     m_event = \<lparr>event_id = 6, priority = 0, edata = Single VNone, ttl = 1000\<rparr>, timestamp = 4294967000\<rparr>" 4294967001]
  by simp

end
