(* ===== verification/CmsisQueue.thy ===== *)
theory CmsisQueue
  imports QueueExec
begin

text \<open>
  The event queue on CMSIS-RTOS (\<^verbatim>\<open>cmsis_rtos_runtime/stream_event_queue.cpp\<close>) and the wrappers of its
  mutexes. Time stamps are kernel ticks. The event flags object is taken to exist; its flag 1 is
  \<open>signalled\<close>.
\<close>

section \<open>Mutexes and locks\<close>

text \<open>
  The kernel: creating, deleting, acquiring and releasing a mutex, on a state \<open>'k\<close>. Acquiring says
  whether it may wait. The status 0 is \<^verbatim>\<open>osOK\<close>.
\<close>

record ('k, 'm) mutex_kernel =
  mutex_new :: "'k \<Rightarrow> 'k \<times> 'm option"
  mutex_delete :: "'m \<Rightarrow> 'k \<Rightarrow> 'k"
  mutex_acquire :: "'m option \<Rightarrow> bool \<Rightarrow> 'k \<Rightarrow> 'k \<times> int"
  mutex_release :: "'m option \<Rightarrow> 'k \<Rightarrow> 'k \<times> int"

record 'm cmsis_mutex =
  mutex_id :: "'m option"

definition CMSISMutex_new :: "('k, 'm) mutex_kernel \<Rightarrow> 'k \<Rightarrow> 'k \<times> 'm cmsis_mutex" where
  "CMSISMutex_new K k = (let (k', i) = mutex_new K k in (k', \<lparr>mutex_id = i\<rparr>))"

definition CMSISMutex_destroy :: "('k, 'm) mutex_kernel \<Rightarrow> 'm cmsis_mutex \<Rightarrow> 'k \<Rightarrow> 'k" where
  "CMSISMutex_destroy K m k = (case mutex_id m of None \<Rightarrow> k | Some i \<Rightarrow> mutex_delete K i k)"

text \<open>The error of a lock is not initialised before an acquisition.\<close>

record 'm cmsis_lock =
  lock_mutex :: "'m cmsis_mutex"
  lock_status :: "int option"

definition CMSISLock_new :: "'m cmsis_mutex \<Rightarrow> 'm cmsis_lock" where
  "CMSISLock_new m = \<lparr>lock_mutex = m, lock_status = None\<rparr>"

definition CMSISLock_acquire :: "('k, 'm) mutex_kernel \<Rightarrow> 'm cmsis_lock \<Rightarrow> 'k \<Rightarrow> 'k \<times> 'm cmsis_lock \<times> int" where
  "CMSISLock_acquire K l k =
     (let (k', e) = mutex_acquire K (mutex_id (lock_mutex l)) True k in (k', l\<lparr>lock_status := Some e\<rparr>, e))"

definition CMSISLock_tryAcquire :: "('k, 'm) mutex_kernel \<Rightarrow> 'm cmsis_lock \<Rightarrow> 'k \<Rightarrow> 'k \<times> 'm cmsis_lock \<times> int" where
  "CMSISLock_tryAcquire K l k =
     (let (k', e) = mutex_acquire K (mutex_id (lock_mutex l)) False k in (k', l\<lparr>lock_status := Some e\<rparr>, e))"

definition CMSISLock_destroy :: "('k, 'm) mutex_kernel \<Rightarrow> 'm cmsis_lock \<Rightarrow> 'k \<Rightarrow> ('k \<times> 'm cmsis_lock) exec" where
  "CMSISLock_destroy K l k =
     (case lock_status l of
        None \<Rightarrow> UB
      | Some e \<Rightarrow>
          if e = 0 then
            (let (k', e') = mutex_release K (mutex_id (lock_mutex l)) k in Fine (k', l\<lparr>lock_status := Some e'\<rparr>))
          else Fine (k, l))"

definition CMSISLock_getError :: "'m cmsis_lock \<Rightarrow> int exec" where
  "CMSISLock_getError l = (case lock_status l of None \<Rightarrow> UB | Some e \<Rightarrow> Fine e)"

text \<open>The two macros around a block, which sees the error of the acquisition.\<close>

definition Cmsis_critical ::
    "('k, 'm) mutex_kernel \<Rightarrow> 'm cmsis_mutex \<Rightarrow> (int \<Rightarrow> 'k \<Rightarrow> ('k \<times> 'r) exec) \<Rightarrow> 'k \<Rightarrow> ('k \<times> 'r) exec" where
  "Cmsis_critical K m body k =
     (let (k1, l, e) = CMSISLock_acquire K (CMSISLock_new m) k
      in exec_then (body e k1) (\<lambda>(k2, r). exec_then (CMSISLock_destroy K l k2) (\<lambda>(k3, l'). Fine (k3, r))))"

lemma Cmsis_critical_eq:
  "Cmsis_critical K m body k =
     (let (k1, e) = mutex_acquire K (mutex_id m) True k
      in exec_then (body e k1) (\<lambda>(k2, r). Fine (if e = 0 then fst (mutex_release K (mutex_id m) k2) else k2, r)))"
proof -
  obtain k1 e where a: "mutex_acquire K (mutex_id m) True k = (k1, e)" by fastforce
  show ?thesis
    by (cases "body e k1")
      (auto simp: Cmsis_critical_def CMSISLock_acquire_def CMSISLock_new_def CMSISLock_destroy_def a Let_def split: prod.splits)
qed

section \<open>Operations\<close>

text \<open>Thread priorities are the numbers of \<^verbatim>\<open>osPriority_t\<close>.\<close>

type_synonym cmsis_queue = "int prio_queue"

definition CMSISEventQueue_new :: "nat \<Rightarrow> (nat \<Rightarrow> bool) \<Rightarrow> int \<Rightarrow> int \<Rightarrow> int \<Rightarrow> cmsis_queue" where
  "CMSISEventQueue_new N alloc_ok low normal high = prio_queue_new N alloc_ok low normal high"

definition CMSISEventQueue_destroy :: "cmsis_queue \<Rightarrow> shared_obj sheap \<Rightarrow> shared_obj sheap exec" where
  "CMSISEventQueue_destroy q h = destroy_levels [0..<nb_priorities] q h"

definition Cmsis_end :: "cmsis_queue \<Rightarrow> cmsis_queue" where
  "Cmsis_end q = q\<lparr>must_end := True, signalled := True\<rparr>"

definition Cmsis_pause :: "cmsis_queue \<Rightarrow> cmsis_queue" where
  "Cmsis_pause q = q\<lparr>must_pause := True, signalled := True\<rparr>"

text \<open>Neither an overflow nor a failed acquisition is an error of the queue here.\<close>

definition Cmsis_push :: "nat \<Rightarrow> lock_env \<Rightarrow> int \<Rightarrow> u32 \<Rightarrow> cmsis_queue pusher" where
  "Cmsis_push N env err now q h event =
     (if must_pause q \<or> must_end q then Fine (q, h, event, False)
      else
        exec_then (if err = 0 then store_message N env now q h event else Fine (q, h, event, False))
          (\<lambda>(q1, h1, m1, ok). Fine (q1\<lparr>signalled := True\<rparr>, h1, m1, ok)))"

definition Cmsis_isEmpty :: "cmsis_queue \<Rightarrow> bool" where
  "Cmsis_isEmpty q = is_empty q"

definition Cmsis_clear ::
    "nat \<Rightarrow> lock_env \<Rightarrow> int \<Rightarrow> cmsis_queue \<Rightarrow> shared_obj sheap \<Rightarrow> (cmsis_queue \<times> shared_obj sheap) exec" where
  "Cmsis_clear N env err q h =
     (if err = 0 then clear_levels N env [0..<nb_priorities] q h else Fine (q, h))"

section \<open>Executing\<close>

text \<open>Ticks to milliseconds, all in 32 bits; \<open>freq\<close> is the tick frequency, which is not 0.\<close>

definition Cmsis_ms :: "u32 \<Rightarrow> u32 \<Rightarrow> u32" where
  "Cmsis_ms freq t = (1000 * t) div freq"

definition Cmsis_expired :: "u32 \<Rightarrow> message \<Rightarrow> u32 \<Rightarrow> bool" where
  "Cmsis_expired freq msg now \<longleftrightarrow>
     ttl (m_event msg) \<noteq> 0 \<and>
     (let startMs = Cmsis_ms freq (timestamp msg);
          limitMs = startMs + ttl (m_event msg);
          nowMs = Cmsis_ms freq now
      in nowMs > limitMs)"

definition Cmsis_process ::
    "(int, 'd, 'w) executor \<Rightarrow> message \<Rightarrow> 'w \<times> cmsis_queue \<Rightarrow> shared_obj sheap \<Rightarrow>
     (('w \<times> cmsis_queue) \<times> shared_obj sheap) exec" where
  "Cmsis_process X = queue_process Cmsis_pause X"

definition Cmsis_step :: "u32 \<Rightarrow> (int, 'd, 'w) executor \<Rightarrow> ('w, int) stepper" where
  "Cmsis_step freq X = queue_step Cmsis_pause (Cmsis_expired freq) X"

definition Cmsis_execute ::
    "u32 \<Rightarrow> (int, 'd, 'w) executor \<Rightarrow> nat \<Rightarrow> 'w \<times> cmsis_queue \<Rightarrow> shared_obj sheap \<Rightarrow>
     (('w \<times> cmsis_queue) \<times> shared_obj sheap \<times> run_state) exec" where
  "Cmsis_execute freq X = rtos_execute (Cmsis_step freq X)"

section \<open>The queue keeps its contract\<close>

interpretation cmsis_run: event_runner Cmsis_pause "Cmsis_expired freq" for freq
  by unfold_locales (simp_all add: Cmsis_pause_def Cmsis_expired_def)

lemma Cmsis_push_law:
  assumes "heap_inv N s (mhset m + R)"
  shows "\<exists>s' m'. as_push (Cmsis_push N env 0) now m s =
        Fine (s', m', accepting s \<and> length (contents N (fst s) (level_of m)) < N) \<and>
      heap_inv N s' (mhset m' + R) \<and>
      (if accepting s \<and> length (contents N (fst s) (level_of m)) < N
       then accepting s' \<and> msg_empty m' \<and> contents N (fst s') =
           (contents N (fst s))(level_of m := contents N (fst s) (level_of m) @ [accepted env (m\<lparr>timestamp := now\<rparr>)])
       else contents N (fst s') = contents N (fst s) \<and> m' = m)"
proof (rule push_law_store [OF assms, where good = "\<lambda>q. q\<lparr>signalled := True\<rparr>"
      and bad = "\<lambda>q. q\<lparr>signalled := True\<rparr>"])
  obtain q h where s: "s = (q, h)" by fastforce
  show "accepting s \<Longrightarrow> Cmsis_push N env 0 now (fst s) (snd s) m =
      exec_then (store_message N env now (fst s) (snd s) m) (\<lambda>(q1, h1, m1, ok).
        Fine (if ok then q1\<lparr>signalled := True\<rparr> else q1\<lparr>signalled := True\<rparr>, h1, m1, ok))"
    using s by (cases "store_message N env now q h m") (auto simp: accepting_def Cmsis_push_def)
qed (auto simp: only_flags_def accepting_def Cmsis_push_def)

interpretation cmsis: prio_push N "Cmsis_push N env 0" env for N env
  by unfold_locales (rule Cmsis_push_law as_pop_law; assumption)+

end
