(* ===== verification/ZephyrQueue.thy ===== *)
theory ZephyrQueue
  imports CmsisQueue
begin

text \<open>
  The event queue on Zephyr (\<^verbatim>\<open>zephyr_runtime/stream_event_queue.cpp\<close>), the wrappers of its mutexes,
  and the properties of the queues of the two real-time systems. Time stamps are hardware cycles.
\<close>

section \<open>Mutexes and locks\<close>

text \<open>A \<^verbatim>\<open>k_mutex\<close> is part of the object and always valid; the kernel is as on CMSIS-RTOS, with no deletion.\<close>

record 'm zephyr_mutex =
  my_mutex :: 'm

definition ZephyrMutex_new :: "('k \<Rightarrow> 'k \<times> 'm) \<Rightarrow> 'k \<Rightarrow> 'k \<times> 'm zephyr_mutex" where
  "ZephyrMutex_new k_mutex_init k = (let (k', i) = k_mutex_init k in (k', \<lparr>my_mutex = i\<rparr>))"

record 'm zephyr_lock =
  z_mutex :: "'m zephyr_mutex"
  z_error :: "int option"

definition ZephyrLock_new :: "'m zephyr_mutex \<Rightarrow> 'm zephyr_lock" where
  "ZephyrLock_new m = \<lparr>z_mutex = m, z_error = None\<rparr>"

definition ZephyrLock_acquire :: "('k, 'm) mutex_kernel \<Rightarrow> 'm zephyr_lock \<Rightarrow> 'k \<Rightarrow> 'k \<times> 'm zephyr_lock \<times> int" where
  "ZephyrLock_acquire K l k =
     (let (k', e) = mutex_acquire K (Some (my_mutex (z_mutex l))) True k in (k', l\<lparr>z_error := Some e\<rparr>, e))"

definition ZephyrLock_tryAcquire :: "('k, 'm) mutex_kernel \<Rightarrow> 'm zephyr_lock \<Rightarrow> 'k \<Rightarrow> 'k \<times> 'm zephyr_lock \<times> int" where
  "ZephyrLock_tryAcquire K l k =
     (let (k', e) = mutex_acquire K (Some (my_mutex (z_mutex l))) False k in (k', l\<lparr>z_error := Some e\<rparr>, e))"

definition ZephyrLock_destroy :: "('k, 'm) mutex_kernel \<Rightarrow> 'm zephyr_lock \<Rightarrow> 'k \<Rightarrow> 'k exec" where
  "ZephyrLock_destroy K l k =
     (case z_error l of
        None \<Rightarrow> UB
      | Some e \<Rightarrow> Fine (if e = 0 then fst (mutex_release K (Some (my_mutex (z_mutex l))) k) else k))"

definition ZephyrLock_getError :: "'m zephyr_lock \<Rightarrow> int exec" where
  "ZephyrLock_getError l = (case z_error l of None \<Rightarrow> UB | Some e \<Rightarrow> Fine e)"

definition Zephyr_critical ::
    "('k, 'm) mutex_kernel \<Rightarrow> 'm zephyr_mutex \<Rightarrow> (int \<Rightarrow> 'k \<Rightarrow> ('k \<times> 'r) exec) \<Rightarrow> 'k \<Rightarrow> ('k \<times> 'r) exec" where
  "Zephyr_critical K m body k =
     (let (k1, l, e) = ZephyrLock_acquire K (ZephyrLock_new m) k
      in exec_then (body e k1) (\<lambda>(k2, r). exec_then (ZephyrLock_destroy K l k2) (\<lambda>k3. Fine (k3, r))))"

lemma Zephyr_critical_cmsis: "Zephyr_critical K m body k = Cmsis_critical K \<lparr>mutex_id = Some (my_mutex m)\<rparr> body k"
proof -
  obtain k1 e where a: "mutex_acquire K (Some (my_mutex m)) True k = (k1, e)" by fastforce
  show ?thesis
    by (cases "body e k1")
      (auto simp: Cmsis_critical_eq Zephyr_critical_def ZephyrLock_acquire_def ZephyrLock_new_def ZephyrLock_destroy_def a Let_def)
qed

section \<open>Operations\<close>

type_synonym zephyr_queue = "int prio_queue"

definition MyQueue_new :: "nat \<Rightarrow> (nat \<Rightarrow> bool) \<Rightarrow> int \<Rightarrow> int \<Rightarrow> int \<Rightarrow> zephyr_queue" where
  "MyQueue_new N alloc_ok low normal high = prio_queue_new N alloc_ok low normal high"

definition MyQueue_destroy :: "zephyr_queue \<Rightarrow> shared_obj sheap \<Rightarrow> shared_obj sheap exec" where
  "MyQueue_destroy q h = destroy_levels [0..<nb_priorities] q h"

definition Zephyr_end :: "zephyr_queue \<Rightarrow> zephyr_queue" where
  "Zephyr_end q = q\<lparr>must_end := True, signalled := True\<rparr>"

definition Zephyr_pause :: "zephyr_queue \<Rightarrow> zephyr_queue" where
  "Zephyr_pause q = q\<lparr>must_pause := True, signalled := True\<rparr>"

definition Zephyr_push :: "nat \<Rightarrow> lock_env \<Rightarrow> int \<Rightarrow> u32 \<Rightarrow> zephyr_queue pusher" where
  "Zephyr_push N env err now q h event =
     (if must_pause q \<or> must_end q then Fine (q, h, event, False)
      else
        exec_then (if err = 0 then store_message N env now q h event else Fine (q, h, event, False))
          (\<lambda>(q1, h1, m1, ok). Fine (q1\<lparr>signalled := True\<rparr>, h1, m1, ok)))"

definition Zephyr_isEmpty :: "zephyr_queue \<Rightarrow> bool" where
  "Zephyr_isEmpty q = is_empty q"

definition Zephyr_clear ::
    "nat \<Rightarrow> lock_env \<Rightarrow> int \<Rightarrow> zephyr_queue \<Rightarrow> shared_obj sheap \<Rightarrow> (zephyr_queue \<times> shared_obj sheap) exec" where
  "Zephyr_clear N env err q h =
     (if err = 0 then clear_levels N env [0..<nb_priorities] q h else Fine (q, h))"

section \<open>Executing\<close>

text \<open>\<open>to_ms\<close> is the kernel's \<^verbatim>\<open>k_cyc_to_ms_near32\<close>.\<close>

definition Zephyr_expired :: "(u32 \<Rightarrow> u32) \<Rightarrow> message \<Rightarrow> u32 \<Rightarrow> bool" where
  "Zephyr_expired to_ms msg now \<longleftrightarrow>
     ttl (m_event msg) \<noteq> 0 \<and>
     (let startMs = to_ms (timestamp msg);
          limitMs = startMs + ttl (m_event msg);
          nowMs = to_ms now
      in nowMs > limitMs)"

definition Zephyr_process ::
    "(int, 'd, 'w) executor \<Rightarrow> message \<Rightarrow> 'w \<times> zephyr_queue \<Rightarrow> shared_obj sheap \<Rightarrow>
     (('w \<times> zephyr_queue) \<times> shared_obj sheap) exec" where
  "Zephyr_process X = queue_process Zephyr_pause X"

definition Zephyr_step :: "(u32 \<Rightarrow> u32) \<Rightarrow> (int, 'd, 'w) executor \<Rightarrow> ('w, int) stepper" where
  "Zephyr_step to_ms X = queue_step Zephyr_pause (Zephyr_expired to_ms) X"

text \<open>Waiting for the flag and clearing it are two calls, with nothing in between in one thread.\<close>

definition Zephyr_execute ::
    "(u32 \<Rightarrow> u32) \<Rightarrow> (int, 'd, 'w) executor \<Rightarrow> nat \<Rightarrow> 'w \<times> zephyr_queue \<Rightarrow> shared_obj sheap \<Rightarrow>
     (('w \<times> zephyr_queue) \<times> shared_obj sheap \<times> run_state) exec" where
  "Zephyr_execute to_ms X = rtos_execute (Zephyr_step to_ms X)"

interpretation zephyr_run: event_runner Zephyr_pause "Zephyr_expired to_ms" for to_ms
  by unfold_locales (simp_all add: Zephyr_pause_def Zephyr_expired_def)

lemma Zephyr_push_cmsis: "Zephyr_push = Cmsis_push"
  by (intro ext) (simp add: Zephyr_push_def Cmsis_push_def)

interpretation zephyr: prio_push N "Zephyr_push N env 0" env for N env
  unfolding Zephyr_push_cmsis by unfold_locales

section \<open>Properties\<close>

text \<open>
  C38. \<^verbatim>\<open>push\<close> of CMSIS-RTOS and of Zephyr is the same function and appends to one of three bounded
  lists, like the POSIX one; but when there is no room or the mutex is refused, the message is
  dropped and nothing tells so but the result: no pause is requested and no error is pending.
\<close>

theorem rtos_push_refines:
  assumes "queue_ok N q" and "handles_ok h (queue_handles N q + (mhset m + R))"
    and "ok = (\<not> must_pause q \<and> \<not> must_end q \<and> err = 0 \<and> length (contents N q (level_of m)) < N)"
  shows "Zephyr_push N env err now q h m = Cmsis_push N env err now q h m \<and>
     (\<exists>q' h' m'. Cmsis_push N env err now q h m = Fine (q', h', m', ok) \<and>
       queue_ok N q' \<and> handles_ok h' (queue_handles N q' + (mhset m' + R)) \<and>
       event_queue.truncate q' = event_queue.truncate q \<and>
       (if ok then
          contents N q' = (contents N q)(level_of m := contents N q (level_of m) @ [accepted env (m\<lparr>timestamp := now\<rparr>)]) \<and>
          msg_empty m' \<and> signalled q'
        else contents N q' = contents N q \<and> m' = m))"
proof -
  let ?room = "length (contents N q (level_of m)) < N"
  have t: "event_queue.truncate (x\<lparr>signalled := True\<rparr>) = event_queue.truncate x" for x :: "int prio_queue"
    by (simp add: event_queue.defs)
  show ?thesis
  proof (cases ok)
    case True
    with assms have "nb_elems q (level_of m) < N" by simp
    from store_message_ok [OF assms(1,2) this, of env now] obtain q' h' m' where st:
      "store_message N env now q h m = Fine (q', h', m', True)" "queue_ok N q'" "msg_empty m'"
      "contents N q' = (contents N q)(level_of m := contents N q (level_of m) @ [accepted env (m\<lparr>timestamp := now\<rparr>)])"
      "handles_ok h' (queue_handles N q' + R)" "event_queue.truncate q' = event_queue.truncate q"
      by blast
    with True assms(3) queue_handles_contents [of N "q'\<lparr>signalled := True\<rparr>" q'] t show ?thesis
      by (simp add: Zephyr_push_cmsis Cmsis_push_def msg_empty_def)
  next
    case False
    show ?thesis
    proof (cases "must_pause q \<or> must_end q")
      case True
      then show ?thesis using assms False by (simp add: Zephyr_push_cmsis Cmsis_push_def)
    next
      case run: False
      have "(if err = 0 then store_message N env now q h m else Fine (q, h, m, False)) = Fine (q, h, m, False)"
        using False run assms by (simp add: store_message_full)
      then have "Cmsis_push N env err now q h m = Fine (q\<lparr>signalled := True\<rparr>, h, m, False)"
        using run by (simp add: Cmsis_push_def)
      then show ?thesis
        using assms(1,2) False queue_handles_contents [of N "q\<lparr>signalled := True\<rparr>" q] t
        by (simp add: Zephyr_push_cmsis)
    qed
  qed
qed

definition demo_rtos_queue :: zephyr_queue where
  "demo_rtos_queue = MyQueue_new 2 (\<lambda>p. True) 10 20 30"

definition demo_rtos_msg :: "int \<Rightarrow> u32 \<Rightarrow> message" where
  "demo_rtos_msg port t = \<lparr>destination = LocalDestination (Some 4) port,
     m_event = \<lparr>event_id = 6, priority = 2, edata = Single (VInt8 5), ttl = t\<rparr>, timestamp = 0\<rparr>"

lemma demo_rtos_msg_simps [simp]:
  "accepted env (demo_rtos_msg port t) = demo_rtos_msg port t" "mhset (demo_rtos_msg port t) = {#}"
  "level_of (demo_rtos_msg port t) = 2" "(demo_rtos_msg port t)\<lparr>timestamp := 0\<rparr> = demo_rtos_msg port t"
  by (simp_all add: demo_rtos_msg_def accepted_def accept_data_def priority_index_def nb_priorities_def)

lemma demo_rtos_queue_ok:
  "queue_ok 2 demo_rtos_queue" "contents 2 demo_rtos_queue = (\<lambda>p. [])" "queue_handles 2 demo_rtos_queue = {#}"
  "\<not> must_end demo_rtos_queue" "\<not> must_pause demo_rtos_queue" "priorities demo_rtos_queue 2 = 30"
  by (simp_all add: demo_rtos_queue_def MyQueue_new_def prio_queue_new_ok) (simp_all add: prio_queue_new_def)

theorem rtos_push_refines_witness:
  "\<exists>q' h' m'. Zephyr_push 2 demo_env 0 0 demo_rtos_queue heap_empty (demo_rtos_msg 1 0) = Fine (q', h', m', True) \<and>
     contents 2 q' 2 = [demo_rtos_msg 1 0]"
proof -
  have "handles_ok heap_empty (queue_handles 2 demo_rtos_queue + (mhset (demo_rtos_msg 1 0) + {#}))"
    by (simp add: demo_rtos_queue_ok heap_empty_ok)
  from rtos_push_refines [OF demo_rtos_queue_ok(1) this refl, of demo_env 0 0] show ?thesis
    by (auto simp: demo_rtos_queue_ok)
qed

text \<open>
  C39. The loops of CMSIS-RTOS and Zephyr are safe with any nodes and application handler that leave
  the queue and the heap in order: nothing is undefined, unless a node or the handler itself acquires
  the mutex of a buffer twice (\<open>Relock\<close>), and the queue and the counts of the buffers of its
  messages stay in order.
\<close>

theorem rtos_execute_safe:
  assumes "executor_ok X" and "program_inv (capacity X) q h R"
    and "r = Cmsis_execute freq X n (w, q) h \<or> r = Zephyr_execute to_ms X n (w, q) h"
  shows "case r of
      Fine ((w', q'), h', st) \<Rightarrow> queue_ok (capacity X) q' \<and> handles_ok h' (queue_handles (capacity X) q' + R)
    | Relock \<Rightarrow> receivers_relock X
    | UB \<Rightarrow> False"
proof -
  have "program_inv (capacity X) (snd (w, q)) h R" using assms(2) by simp
  from cmsis_run.rtos_loop_safe [OF assms(1) this, of freq n] zephyr_run.rtos_loop_safe [OF assms(1) this, of to_ms n] assms(3)
  have "safe (receivers_relock X) (capacity X) R r" by (auto simp: Cmsis_execute_def Cmsis_step_def Zephyr_execute_def Zephyr_step_def)
  then show ?thesis by (auto simp: safe_def program_inv_def heap_inv_def split: exec.splits)
qed

text \<open>Nodes that forward every event to port 7 of node 4 through the queue.\<close>

definition demo_rtos_forward :: "(int, unit, nat) executor" where
  "demo_rtos_forward = \<lparr>capacity = 2, x_locks = demo_env, lock_error = (\<lambda>s. 0), clock = (\<lambda>s. 0), set_priority = (\<lambda>p w. w),
     x_process = (\<lambda>node port s h e.
       exec_then (push_event demo_env (queue_pusher (Zephyr_push 2 demo_env 0) 0) 0 (LocalDestination (Some 4) 7) s h e)
         (\<lambda>(s', h', e', ok). Fine (s', h', e', if ok then CG_SUCCESS else CG_EVENT_QUEUE_FULL))),
     x_node_id = int, x_handler = \<lparr>handler_ready = True, handler_data = (), handler = None\<rparr>\<rparr>"

theorem rtos_execute_safe_witness:
  "case Zephyr_execute (\<lambda>t. t) demo_rtos_forward 9 (0, demo_rtos_queue) heap_empty of
      Fine ((w', q'), h', st) \<Rightarrow> queue_ok 2 q' \<and> handles_ok h' (queue_handles 2 q' + {#})
    | Relock \<Rightarrow> False
    | UB \<Rightarrow> False"
proof -
  have "receiver_ok 2 (x_process demo_rtos_forward node port)" for node port
    unfolding receiver_ok_def
  proof (intro allI impI)
    fix w :: nat and q :: zephyr_queue and h e R
    assume i: "program_inv 2 q h (ehset e + R)"
    have "receiver_ok 2 (push_event demo_env (queue_pusher (Zephyr_push 2 demo_env 0) 0) 0 (LocalDestination (Some 4) 7)
        :: (nat \<times> zephyr_queue, bool) receiver)"
      by (rule zephyr.push_event_receiver_ok) (simp add: addressed_def)
    from this i show "case x_process demo_rtos_forward node port (w, q) h e of
        Fine ((w', q'), h', e', r) \<Rightarrow> program_inv 2 q' h' (ehset e' + R) | Relock \<Rightarrow> True | UB \<Rightarrow> False"
      by (rule receiver_okD [of 2 _ q h e R w]) (simp_all add: demo_rtos_forward_def)
  qed
  then have "executor_ok demo_rtos_forward" by (simp add: executor_ok_def) (simp add: demo_rtos_forward_def)
  moreover have cap: "capacity demo_rtos_forward = 2" by (simp add: demo_rtos_forward_def)
  moreover have "program_inv (capacity demo_rtos_forward) demo_rtos_queue heap_empty {#}"
    by (simp add: cap program_inv_def heap_inv_def demo_rtos_queue_ok heap_empty_ok)
  moreover have "\<not> receivers_relock demo_rtos_forward"
    using zephyr.push_event_never_relocks [of 2 demo_env 0 0 "LocalDestination (Some 4) 7"]
    by (auto simp: receivers_relock_def receiver_relocks_def demo_rtos_forward_def exec_then_Relock split: if_splits)
  ultimately show ?thesis
    using rtos_execute_safe [of demo_rtos_forward demo_rtos_queue heap_empty "{#}" _ 0 9 0 "\<lambda>t. t", OF _ _ disjI2 [OF refl]]
    unfolding cap by (auto split: exec.splits)
qed






text \<open>
  Expiry on CMSIS-RTOS, in ticks of frequency \<open>freq\<close> and 32 bits: the time to live is respected as
  long as 1000 times the ticks fit in 32 bits, 72 minutes at 1000 Hz. The milliseconds start again
  from 0 then, so an event whose limit is at or after the last millisecond never expires,
  however late it is processed.
\<close>

theorem cmsis_expiry:
  fixes freq :: u32 and msg :: message and now :: u32
  defines "start \<equiv> unat (Cmsis_ms freq (timestamp msg))" and "t \<equiv> unat (ttl (m_event msg))"
  assumes "freq \<noteq> 0" and "t \<noteq> 0" and "start + t < 2 ^ 32"
  shows "(if 1000 * unat (timestamp msg) < 2 ^ 32 \<and> 1000 * unat now < 2 ^ 32
          then Cmsis_expired freq msg now \<longleftrightarrow>
            1000 * unat (timestamp msg) div unat freq + t < 1000 * unat now div unat freq
          else True) \<and>
         (if (2 ^ 32 - 1) div unat freq \<le> start + t then \<not> Cmsis_expired freq msg now else True)"
proof -
  have ms: "unat (Cmsis_ms freq x) = (1000 * unat x mod 2 ^ 32) div unat freq" for x
    by (simp add: Cmsis_ms_def unat_div unat_word_ariths)
  have limit: "unat (Cmsis_ms freq (timestamp msg) + ttl (m_event msg)) = start + t"
    using assms(5) unfolding start_def t_def by (simp add: unat_word_ariths)
  have "ttl (m_event msg) \<noteq> 0" using assms(4) unfolding t_def by auto
  then have e: "Cmsis_expired freq msg now \<longleftrightarrow> start + t < unat (Cmsis_ms freq now)"
    by (simp add: Cmsis_expired_def Let_def word_less_nat_alt limit)
  have "unat (Cmsis_ms freq now) \<le> (2 ^ 32 - 1) div unat freq"
    unfolding ms by (intro div_le_mono) simp
  with e show ?thesis by (auto simp: ms start_def)
qed

theorem cmsis_expiry_witness:
  "Cmsis_expired 1000 (demo_rtos_msg 1 10) 11 \<and>
   \<not> Cmsis_expired 1000 ((demo_rtos_msg 1 10)\<lparr>timestamp := 4294960\<rparr>) 4295000"
proof -
  have "unat (Cmsis_ms 1000 4294960) = 4294960" "unat (Cmsis_ms 1000 0) = 0"
    by (simp_all add: Cmsis_ms_def unat_div unat_word_ariths)
  then show ?thesis
    using cmsis_expiry [of 1000 "demo_rtos_msg 1 10" 11] cmsis_expiry [of 1000 "(demo_rtos_msg 1 10)\<lparr>timestamp := 4294960\<rparr>" 4295000]
    by (simp add: demo_rtos_msg_def)
qed

end
