(* ===== verification/QueueThreads.thy ===== *)
theory QueueThreads
  imports PosixQueue ZephyrQueue
begin

text \<open>
  An event queue shared by threads: any number of clients that push messages, request a pause or the
  end, resume and clear, and the thread that executes the queue. A step is one critical section,
  one read or write of a request, or one operation on the wake-up flag; any thread may be next.
  The queue is seen as the number of its messages.
\<close>

section \<open>Steps\<close>

datatype platform = Posix | Cmsis | Zephyr

text \<open>
  Where a client is: before the reads of the requests in \<^verbatim>\<open>push\<close>, before its critical section, before
  the notification of the error it set there, and before the notification that ends an operation.
\<close>

datatype client_pc = Idle | ReadPause | ReadEnd | Store | NotifyError | Notify

text \<open>
  Where \<^verbatim>\<open>execute\<close> is: the conditions of the outer and inner loop, taking and processing a message, the
  tests after the inner loop and the wait. On Zephyr clearing the flag is a step of its own.
\<close>

datatype exec_pc = OuterEnd | OuterPause | InnerEnd | InnerPause | InnerEmpty | Take | Process | ProcessNotify
  | AfterEnd | AfterPause | Wait | ClearFlag | Done

record threads =
  nb_msgs :: nat
  end_req :: bool
  pause_req :: bool
  woken :: bool
  client :: "nat \<Rightarrow> client_pc"
  executing :: exec_pc

definition at_client :: "nat \<Rightarrow> client_pc \<Rightarrow> threads \<Rightarrow> threads" where
  "at_client i pc s = s\<lparr>client := (client s)(i := pc)\<rparr>"

inductive client_step :: "platform \<Rightarrow> nat \<Rightarrow> threads \<Rightarrow> threads \<Rightarrow> bool" where
  push_begin: "client s i = Idle \<Longrightarrow> client_step P i s (at_client i ReadPause s)"
| read_pause: "client s i = ReadPause \<Longrightarrow> client_step P i s (at_client i (if pause_req s then Idle else ReadEnd) s)"
| read_end: "client s i = ReadEnd \<Longrightarrow> client_step P i s (at_client i (if end_req s then Idle else Store) s)"
| store: "client s i = Store \<Longrightarrow> client_step P i s (at_client i Notify (s\<lparr>nb_msgs := Suc (nb_msgs s)\<rparr>))"
| refuse_error: "client s i = Store \<Longrightarrow> P = Posix \<Longrightarrow> client_step P i s (at_client i NotifyError (s\<lparr>pause_req := True\<rparr>))"
| refuse_silent: "client s i = Store \<Longrightarrow> P \<noteq> Posix \<Longrightarrow> client_step P i s (at_client i Notify s)"
| notify_error: "client s i = NotifyError \<Longrightarrow> client_step P i s (at_client i Notify (s\<lparr>woken := True\<rparr>))"
| notify: "client s i = Notify \<Longrightarrow> client_step P i s (at_client i Idle (s\<lparr>woken := True\<rparr>))"
| request_end: "client s i = Idle \<Longrightarrow> client_step P i s (at_client i Notify (s\<lparr>end_req := True\<rparr>))"
| request_pause: "client s i = Idle \<Longrightarrow> client_step P i s (at_client i Notify (s\<lparr>pause_req := True\<rparr>))"
| resume: "client s i = Idle \<Longrightarrow> client_step P i s (s\<lparr>pause_req := False\<rparr>)"
| clear: "client s i = Idle \<Longrightarrow> client_step P i s (s\<lparr>nb_msgs := 0\<rparr>)"

text \<open>
  A node may push, pause or end while its event is processed, and an error pauses: the notification
  follows. After \<^verbatim>\<open>execute\<close> returned the thread may call it again.
\<close>

inductive exec_step :: "platform \<Rightarrow> threads \<Rightarrow> threads \<Rightarrow> bool" where
  outer_end: "executing s = OuterEnd \<Longrightarrow>
     exec_step P s (s\<lparr>executing := (if end_req s then Done else OuterPause)\<rparr>)"
| outer_pause: "executing s = OuterPause \<Longrightarrow>
     exec_step P s (s\<lparr>executing := (if pause_req s then Done else InnerEnd)\<rparr>)"
| inner_end: "executing s = InnerEnd \<Longrightarrow>
     exec_step P s (s\<lparr>executing := (if end_req s then AfterEnd else if P = Posix then InnerPause else InnerEmpty)\<rparr>)"
| inner_pause: "executing s = InnerPause \<Longrightarrow>
     exec_step P s (s\<lparr>executing := (if pause_req s then AfterEnd else if P = Posix then InnerEmpty else Take)\<rparr>)"
| inner_empty: "executing s = InnerEmpty \<Longrightarrow>
     exec_step P s (s\<lparr>executing := (if nb_msgs s = 0 then AfterEnd else if P = Posix then Take else InnerPause)\<rparr>)"
| take: "executing s = Take \<Longrightarrow> nb_msgs s = Suc n \<Longrightarrow> exec_step P s (s\<lparr>nb_msgs := n, executing := Process\<rparr>)"
| take_nothing: "executing s = Take \<Longrightarrow> nb_msgs s = 0 \<Longrightarrow> exec_step P s (s\<lparr>executing := InnerEnd\<rparr>)"
| take_error: "executing s = Take \<Longrightarrow> exec_step P s (s\<lparr>pause_req := True, executing := ProcessNotify\<rparr>)"
| process_push: "executing s = Process \<Longrightarrow>
     exec_step P s (s\<lparr>nb_msgs := Suc (nb_msgs s), executing := ProcessNotify\<rparr>)"
| process_pause: "executing s = Process \<Longrightarrow> exec_step P s (s\<lparr>pause_req := True, executing := ProcessNotify\<rparr>)"
| process_end: "executing s = Process \<Longrightarrow> exec_step P s (s\<lparr>end_req := True, executing := ProcessNotify\<rparr>)"
| process_notify: "executing s = ProcessNotify \<Longrightarrow> exec_step P s (s\<lparr>woken := True, executing := Process\<rparr>)"
| process_done: "executing s = Process \<Longrightarrow> exec_step P s (s\<lparr>executing := InnerEnd\<rparr>)"
| after_end: "executing s = AfterEnd \<Longrightarrow>
     exec_step P s (s\<lparr>executing := (if end_req s then Done else AfterPause)\<rparr>)"
| after_pause: "executing s = AfterPause \<Longrightarrow>
     exec_step P s (s\<lparr>executing := (if \<not> pause_req s then Wait else if P = Posix then Done else OuterEnd)\<rparr>)"
| wait: "executing s = Wait \<Longrightarrow> woken s \<Longrightarrow>
     exec_step P s (if P = Zephyr then s\<lparr>executing := ClearFlag\<rparr> else s\<lparr>woken := False, executing := OuterEnd\<rparr>)"
| clear_flag: "executing s = ClearFlag \<Longrightarrow> exec_step P s (s\<lparr>woken := False, executing := OuterEnd\<rparr>)"
| again: "executing s = Done \<Longrightarrow> exec_step P s (s\<lparr>executing := OuterEnd\<rparr>)"

inductive thread_step :: "platform \<Rightarrow> threads \<Rightarrow> threads \<Rightarrow> bool" where
  client: "client_step P i s t \<Longrightarrow> thread_step P s t"
| executor: "exec_step P s t \<Longrightarrow> thread_step P s t"

definition threads_init :: threads where
  "threads_init = \<lparr>nb_msgs = 0, end_req = False, pause_req = False, woken = False, client = (\<lambda>i. Idle), executing = OuterEnd\<rparr>"

inductive queue_reachable :: "platform \<Rightarrow> threads \<Rightarrow> bool" for P where
  init: "queue_reachable P threads_init"
| step: "queue_reachable P s \<Longrightarrow> thread_step P s t \<Longrightarrow> queue_reachable P t"

section \<open>No lost wake-up\<close>

text \<open>The flag is set, or a thread that changed something has yet to set it.\<close>

definition notifying :: "(nat \<Rightarrow> client_pc) \<Rightarrow> bool" where
  "notifying c \<longleftrightarrow> (\<exists>i. c i = Notify \<or> c i = NotifyError)"

definition announced :: "threads \<Rightarrow> bool" where
  "announced s \<longleftrightarrow> woken s \<or> executing s = ProcessNotify \<or> notifying (client s)"

text \<open>
  What \<^verbatim>\<open>execute\<close> has not read since it took the flag has been announced: the end once it is past its
  first test, a pause past its second, messages once it has left the inner loop.
\<close>

definition wake_inv :: "threads \<Rightarrow> bool" where
  "wake_inv s \<longleftrightarrow>
     (end_req s \<longrightarrow> executing s \<notin> {OuterEnd, Done} \<longrightarrow> announced s) \<and>
     (pause_req s \<longrightarrow> executing s \<notin> {OuterEnd, OuterPause, Done} \<longrightarrow> announced s) \<and>
     (nb_msgs s \<noteq> 0 \<longrightarrow> executing s \<in> {AfterEnd, AfterPause, Wait} \<longrightarrow> announced s) \<and>
     (executing s = ClearFlag \<longrightarrow> woken s)"

lemma at_client_sel [simp]:
  "nb_msgs (at_client i pc s) = nb_msgs s" "end_req (at_client i pc s) = end_req s"
  "pause_req (at_client i pc s) = pause_req s" "woken (at_client i pc s) = woken s"
  "executing (at_client i pc s) = executing s" "client (at_client i pc s) = (client s)(i := pc)"
  by (simp_all add: at_client_def)

lemma notifying_upd [simp]: "notifying (c(i := Notify))" "notifying (c(i := NotifyError))"
  by (auto simp: notifying_def)

lemma notifying_kept: "notifying c \<Longrightarrow> c i \<noteq> Notify \<Longrightarrow> c i \<noteq> NotifyError \<Longrightarrow> notifying (c(i := pc))"
  unfolding notifying_def by (metis fun_upd_other)

lemma announced_kept: "announced s \<Longrightarrow> client s i \<noteq> Notify \<Longrightarrow> client s i \<noteq> NotifyError \<Longrightarrow> announced (at_client i pc s)"
  by (auto simp: announced_def intro: notifying_kept)

text \<open>A client that announces what it changes, and keeps what others announced, keeps the invariant.\<close>

lemma wake_inv_client:
  assumes "wake_inv s" and "executing t = executing s" and "woken s \<Longrightarrow> woken t" and "announced s \<Longrightarrow> announced t"
    and "end_req t = end_req s \<and> (pause_req t \<longrightarrow> pause_req s) \<and> (nb_msgs s = 0 \<longrightarrow> nb_msgs t = 0) \<or> announced t"
  shows "wake_inv t"
proof (cases "announced t")
  case True
  with assms(1-3) show ?thesis by (simp add: wake_inv_def)
next
  case False
  then have "\<not> announced s" using assms(4) by blast
  moreover have "end_req t = end_req s" "pause_req t \<Longrightarrow> pause_req s" "nb_msgs t \<noteq> 0 \<Longrightarrow> nb_msgs s \<noteq> 0"
    using assms(5) False by auto
  ultimately show ?thesis using assms(1,3) unfolding wake_inv_def assms(2) by blast
qed

lemma client_step_wake_inv: "client_step P i s t \<Longrightarrow> wake_inv s \<Longrightarrow> wake_inv t"
proof (induction rule: client_step.induct)
  case (read_pause s i P)
  then show ?case by (intro wake_inv_client [OF read_pause(2)] announced_kept) simp_all
next
  case (read_end s i P)
  then show ?case by (intro wake_inv_client [OF read_end(2)] announced_kept) simp_all
next
  case (push_begin s i P)
  then show ?case by (intro wake_inv_client [OF push_begin(2)] announced_kept) simp_all
qed (rule wake_inv_client, assumption; simp add: announced_def)+

lemma exec_step_wake_inv: "exec_step P s t \<Longrightarrow> wake_inv s \<Longrightarrow> wake_inv t"
  by (induction rule: exec_step.induct) (auto simp: wake_inv_def announced_def split: if_splits)

lemma reachable_wake_inv: "queue_reachable P s \<Longrightarrow> wake_inv s"
proof (induction rule: queue_reachable.induct)
  case init
  show ?case by (simp add: wake_inv_def threads_init_def)
next
  case (step s t)
  then show ?case by (auto elim!: thread_step.cases intro: client_step_wake_inv exec_step_wake_inv)
qed

section \<open>The operations as runs\<close>

definition queue_view :: "nat \<Rightarrow> 'p prio_queue \<Rightarrow> (nat \<Rightarrow> client_pc) \<Rightarrow> exec_pc \<Rightarrow> threads" where
  "queue_view N q c e = \<lparr>nb_msgs = length (list_order (contents N q)), end_req = must_end q, pause_req = must_pause q,
     woken = signalled q, client = c, executing = e\<rparr>"

lemma length_list_order_snoc:
  "p < nb_priorities \<Longrightarrow> length (list_order (f(p := f p @ [x]))) = Suc (length (list_order f))"
  by (auto simp: list_order_levels nb_priorities_def less_Suc_eq numeral_3_eq_3 numeral_2_eq_2)

lemma at_client_view: "at_client i pc (queue_view N q c e) = queue_view N q (c(i := pc)) e"
  by (simp add: at_client_def queue_view_def)

lemma view_upd:
  "nb_msgs (queue_view N q c e) = length (list_order (contents N q))" "pause_req (queue_view N q c e) = must_pause q"
  "end_req (queue_view N q c e) = must_end q" "client (queue_view N q c e) = c"
  by (simp_all add: queue_view_def)

text \<open>The reads of the requests: a client is back or at its critical section.\<close>

lemma push_reads:
  assumes "c i = Idle"
  shows "(client_step P i)\<^sup>*\<^sup>* (queue_view N q c e)
           (queue_view N q (c(i := if must_pause q \<or> must_end q then Idle else Store)) e)"
proof -
  let ?v = "\<lambda>pc. queue_view N q (c(i := pc)) e"
  have c: "c(i := Idle) = c" using assms by auto
  have 1: "client_step P i (queue_view N q c e) (?v ReadPause)"
    using client_step.push_begin [of "queue_view N q c e" i P] assms by (simp add: at_client_view view_upd)
  have 2: "client_step P i (?v ReadPause) (?v (if must_pause q then Idle else ReadEnd))"
    using client_step.read_pause [of "?v ReadPause" i P] by (simp add: at_client_view view_upd)
  have 3: "client_step P i (?v ReadEnd) (?v (if must_end q then Idle else Store))"
    using client_step.read_end [of "?v ReadEnd" i P] by (simp add: at_client_view view_upd)
  from 1 2 have r12: "(client_step P i)\<^sup>*\<^sup>* (queue_view N q c e) (?v (if must_pause q then Idle else ReadEnd))"
    by (meson r_into_rtranclp rtranclp.rtrancl_into_rtrancl)
  show ?thesis
  proof (cases "must_pause q")
    case True
    with r12 show ?thesis by simp
  next
    case False
    with r12 3 show ?thesis by (auto intro: rtranclp.rtrancl_into_rtrancl)
  qed
qed

text \<open>The sequential \<^verbatim>\<open>push\<close> of POSIX is a run of one client.\<close>

lemma posix_push_run:
  assumes "queue_ok N q" and "handles_ok h (queue_handles N q + (mhset m + R))" and c: "c i = Idle"
    and p: "Posix_push N env 0 now q h m = Fine (q', h', m', ok)"
  shows "(client_step Posix i)\<^sup>*\<^sup>* (queue_view N q c e) (queue_view N q' c e)"
proof -
  have cc: "c(i := Idle) = c" using c by auto
  let ?v = "\<lambda>q pc. queue_view N q (c(i := pc)) e"
  have "heap_inv N (q, h) (mhset m + R)" using assms(1,2) by (simp add: heap_inv_def)
  from Posix_push_law [OF this, of env now] p have l:
    "ok = (\<not> must_pause q \<and> \<not> must_end q \<and> length (contents N q (level_of m)) < N)"
    "if ok then contents N q' = (contents N q)(level_of m := contents N q (level_of m) @ [accepted env (m\<lparr>timestamp := now\<rparr>)])
       else contents N q' = contents N q"
    by (auto simp: as_push_def accepting_def split: if_splits)
  show ?thesis
  proof (cases "must_pause q \<or> must_end q")
    case True
    with p have "q' = q" by (auto simp: Posix_push_def)
    with True push_reads [where c = c and i = i and P = Posix and N = N and q = q and e = e] c cc show ?thesis by simp
  next
    case False
    with push_reads [where c = c and i = i and P = Posix and N = N and q = q and e = e] c have r: "(client_step Posix i)\<^sup>*\<^sup>* (queue_view N q c e) (?v q Store)" by simp
    obtain q1 h1 m1 where st: "store_message N env now q h m = Fine (q1, h1, m1, ok)"
        "q' = Posix_notifyQueue (if ok then q1 else setError Posix_pause CG_EVENT_QUEUE_FULL CG_UNIDENTIFIED_NODE 0 q1)"
      using p False by (auto simp: Posix_push_def)
    show ?thesis
    proof (cases ok)
      case True
      have room: "nb_elems q (level_of m) < N" using l(1) True assms(1) by simp
      from store_message_ok [OF assms(1,2) room, of env now] st(1) have t: "event_queue.truncate q1 = event_queue.truncate q"
        by auto
      have n: "length (list_order (contents N q')) = Suc (length (list_order (contents N q)))"
        using l(2) True length_list_order_snoc [of "level_of m" "contents N q"] by simp
      have "client_step Posix i (?v q Store) (at_client i Notify ((?v q Store)\<lparr>nb_msgs := Suc (nb_msgs (?v q Store))\<rparr>))"
        by (rule client_step.store) (simp add: view_upd)
      moreover have "client_step Posix i (at_client i Notify ((?v q Store)\<lparr>nb_msgs := Suc (nb_msgs (?v q Store))\<rparr>)) (queue_view N q' c e)"
        using client_step.notify [of "at_client i Notify ((?v q Store)\<lparr>nb_msgs := Suc (nb_msgs (?v q Store))\<rparr>)" i Posix]
          st(2) True n truncate_flags [OF t] cc
        by (simp add: queue_view_def at_client_def Posix_notifyQueue_def)
      ultimately show ?thesis using r by (auto intro: rtranclp.rtrancl_into_rtrancl)
    next
      case no: False
      then have "\<not> nb_elems q (level_of m) < N" using l(1) False assms(1) by simp
      then have q1: "q1 = q" using st(1) by (simp add: store_message_full)
      let ?e = "at_client i NotifyError ((?v q Store)\<lparr>pause_req := True\<rparr>)"
      have "client_step Posix i (?v q Store) ?e" by (rule client_step.refuse_error) (simp_all add: view_upd)
      moreover have "client_step Posix i ?e (at_client i Notify (?e\<lparr>woken := True\<rparr>))"
        by (rule client_step.notify_error) simp
      moreover have "client_step Posix i (at_client i Notify (?e\<lparr>woken := True\<rparr>)) (queue_view N q' c e)"
        using client_step.notify [of "at_client i Notify (?e\<lparr>woken := True\<rparr>)" i Posix] st(2) no q1 cc l(2)
        by (simp add: queue_view_def at_client_def Posix_notifyQueue_def setError_def Posix_pause_def)
      ultimately show ?thesis using r by (auto intro: rtranclp.rtrancl_into_rtrancl)
    qed
  qed
qed

section \<open>Properties\<close>

text \<open>
  C36. No wake-up is lost, on any of the three platforms and for any number of threads that push, pause,
  end, resume and clear in any order: when the executing thread sleeps and no other thread is about
  to notify it, the queue is empty and neither a pause nor the end is requested; in every other
  reachable state the executing thread can go on or a notification is under way.
\<close>

theorem no_lost_wakeup:
  assumes "queue_reachable P s"
  shows "if executing s = Wait \<and> \<not> woken s \<and> \<not> notifying (client s)
         then nb_msgs s = 0 \<and> \<not> end_req s \<and> \<not> pause_req s
         else (\<exists>t. exec_step P s t) \<or> notifying (client s)"
proof -
  have i: "wake_inv s" using assms by (rule reachable_wake_inv)
  show ?thesis
  proof (cases "executing s = Wait \<and> \<not> woken s")
    case True
    with i show ?thesis by (auto simp: wake_inv_def announced_def)
  next
    case False
    then have "\<exists>t. exec_step P s t"
      by (cases "executing s"; cases "nb_msgs s") (blast intro: exec_step.intros)+
    with False show ?thesis by auto
  qed
qed

text \<open>The thread goes to sleep on an empty queue.\<close>

theorem no_lost_wakeup_witness:
  "nb_msgs (threads_init\<lparr>executing := Wait\<rparr>) = 0 \<and> queue_reachable Posix (threads_init\<lparr>executing := Wait\<rparr>)"
proof -
  let ?s = "\<lambda>pc. threads_init\<lparr>executing := pc\<rparr>"
  have go: "queue_reachable Posix (?s pc) \<Longrightarrow> exec_step Posix (?s pc) (?s pc') \<Longrightarrow> queue_reachable Posix (?s pc')" for pc pc'
    by (rule queue_reachable.step) (auto intro: thread_step.executor)
  have "?s OuterEnd = threads_init" by (simp add: threads_init_def)
  then have "queue_reachable Posix (?s OuterEnd)" using queue_reachable.init [of Posix] by simp
  then have "queue_reachable Posix (?s OuterPause)"
    by (rule go) (use exec_step.outer_end [of "?s OuterEnd" Posix] in \<open>simp add: threads_init_def\<close>)
  then have "queue_reachable Posix (?s InnerEnd)"
    by (rule go) (use exec_step.outer_pause [of "?s OuterPause" Posix] in \<open>simp add: threads_init_def\<close>)
  then have "queue_reachable Posix (?s InnerPause)"
    by (rule go) (use exec_step.inner_end [of "?s InnerEnd" Posix] in \<open>simp add: threads_init_def\<close>)
  then have "queue_reachable Posix (?s InnerEmpty)"
    by (rule go) (use exec_step.inner_pause [of "?s InnerPause" Posix] in \<open>simp add: threads_init_def\<close>)
  then have "queue_reachable Posix (?s AfterEnd)"
    by (rule go) (use exec_step.inner_empty [of "?s InnerEmpty" Posix] in \<open>simp add: threads_init_def\<close>)
  then have "queue_reachable Posix (?s AfterPause)"
    by (rule go) (use exec_step.after_end [of "?s AfterEnd" Posix] in \<open>simp add: threads_init_def\<close>)
  then have r: "queue_reachable Posix (?s Wait)"
    by (rule go) (use exec_step.after_pause [of "?s AfterPause" Posix] in \<open>simp add: threads_init_def\<close>)
  moreover have "notifying (client (?s Wait)) = False" by (simp add: notifying_def threads_init_def)
  ultimately show ?thesis using no_lost_wakeup [OF r] by (simp add: threads_init_def)
qed

end
