(* ===== verification/EventOutputs.thy ===== *)
theory EventOutputs
  imports PosixQueue ZephyrQueue
begin

text \<open>
  Sending events over a queue: what an asynchronous send of \<^verbatim>\<open>EventOutput\<close> leaves in the queue, proved
  once for every queue that keeps the contract \<open>prio_push\<close>, and synchronous sending, which stops at
  the first node that refuses.
\<close>

section \<open>Asynchronous sending\<close>

text \<open>The message that arrives for a subscriber, and the messages for all subscribers.\<close>

definition posted :: "lock_env \<Rightarrow> u32 \<Rightarrow> event \<Rightarrow> nat option \<times> int \<Rightarrow> message" where
  "posted env now e dst = accepted env \<lparr>destination = LocalDestination (fst dst) (snd dst), m_event = e, timestamp = now\<rparr>"

definition fan_out :: "nat \<Rightarrow> lock_env \<Rightarrow> u32 \<Rightarrow> event \<Rightarrow> (nat option \<times> int) list \<Rightarrow> message list" where
  "fan_out mx env now e dsts =
     (case dsts of
        [dst] \<Rightarrow> [posted env now e dst]
      | _ \<Rightarrow> map (posted env now (e\<lparr>edata := clone_data mx env (edata e)\<rparr>)) dsts)"

lemma posted_level [simp]: "level_of (posted env now e dst) = priority_index (priority e)"
  by (simp add: posted_def)

lemma length_fan_out [simp]: "length (fan_out mx env now e dsts) = length dsts"
  by (simp add: fan_out_def split: list.split)

context prio_push
begin

lemma deliver_async:
  assumes i: "heap_inv N (q, h) (ehset e + R)" and prog: "queue_push prog = queue_pusher push now" and out: "has_queue out"
    and ok: "ok = (accepting (q, h) \<and> length (contents N q (priority_index (priority e))) < N)"
  shows "\<exists>q' h'. deliver env prog out kAsync dst (w, q) h e =
      Fine ((w, q'), h', e\<lparr>edata := moved_data (edata e), event_id := selector_code kNoEvent, ttl := 0\<rparr>, ok) \<and>
    heap_inv N (q', h') R \<and> (ok \<longrightarrow> accepting (q', h')) \<and>
    contents N q' = (if ok then (contents N q)(priority_index (priority e) := contents N q (priority_index (priority e)) @ [posted env now e dst])
                     else contents N q)"
proof -
  have "deliver env prog out kAsync dst (w, q) h e =
      push_event env (queue_pusher push now) (time_of prog (w, q)) (LocalDestination (fst dst) (snd dst)) (w, q) h e"
    using prog out by (simp add: deliver_def)
  then show ?thesis
    using push_event_appends [OF i posted_def [of env now e dst] ok, where t = "time_of prog (w, q)" and w = w]
    by (simp only: posted_level)
qed

text \<open>Clones go into the queue while it accepts them; the event itself stays.\<close>

lemma deliver_clones_async:
  assumes e: "event_ok mx e" "edata e \<noteq> ListData None"
    and prog: "queue_push prog = queue_pusher push now" and out: "has_queue out"
  defines "p \<equiv> priority_index (priority e)" and "c \<equiv> e\<lparr>edata := clone_data mx env (edata e)\<rparr>"
  shows "heap_inv N (q, h) (ehset e + R) \<Longrightarrow> accepting (q, h) \<Longrightarrow>
    \<exists>q' h'. deliver_clones env mx (\<lambda>_. True) prog out kAsync dsts (w, q) h e =
      Fine ((w, q'), h', e, length (contents N q p) + length dsts \<le> N \<or> dsts = []) \<and>
    heap_inv N (q', h') (ehset e + R) \<and> (length (contents N q p) + length dsts \<le> N \<or> dsts = [] \<longrightarrow> accepting (q', h')) \<and>
    contents N q' = (contents N q)(p := contents N q p @ take (N - length (contents N q p)) (map (posted env now c) dsts))"
proof (induction dsts arbitrary: q h)
  case Nil
  then show ?case by simp
next
  case (Cons dst dsts)
  have h: "handles_ok h (ehset e + (queue_handles N q + R))"
    using Cons.prems(1) by (simp add: heap_inv_def union_ac)
  obtain h1 where h1: "Event_clone mx True env h e = Fine (h1, c)"
      "handles_ok h1 (hsets (data_values (clone_data mx env (edata e))) + (ehset e + (queue_handles N q + R)))"
    using Event_clone_ok [OF h e, of env] unfolding c_def by blast
  have i1: "heap_inv N (q, h1) (ehset c + (ehset e + R))"
    using Cons.prems(1) h1(2) by (simp add: heap_inv_def c_def union_ac)
  have acc: "accepting (q, h1)" using Cons.prems(2) by (simp add: accepting_def)
  have pc: "priority_index (priority c) = p" by (simp add: c_def p_def)
  let ?ok = "length (contents N q p) < N" and ?c' = "c\<lparr>edata := moved_data (edata c), event_id := selector_code kNoEvent, ttl := 0\<rparr>"
  obtain q2 h2 where d: "deliver env prog out kAsync dst (w, q) h1 c = Fine ((w, q2), h2, ?c', ?ok)"
      "heap_inv N (q2, h2) (ehset e + R)" "?ok \<longrightarrow> accepting (q2, h2)"
      "contents N q2 = (if ?ok then (contents N q)(p := contents N q p @ [posted env now c dst]) else contents N q)"
    using deliver_async [OF i1 prog out, where ok = ?ok and w = w and dst = dst] acc unfolding pc by auto
  have "ehset ?c' = {#}" by (cases "edata c") simp_all
  then have "handles_ok h2 (ehset ?c' + (ehset e + (queue_handles N q2 + R)))"
    using d(2) by (simp add: heap_inv_def union_ac)
  then obtain h3 where h3: "Event_destroy h2 ?c' = Fine h3" "handles_ok h3 (ehset e + (queue_handles N q2 + R))"
    using destroy_data_ok [of h2 "edata ?c'"] by (auto simp: Event_destroy_def)
  have i3: "heap_inv N (q2, h3) (ehset e + R)" using d(2) h3(2) by (simp add: heap_inv_def union_ac)
  show ?case
  proof (cases ?ok)
    case True
    have "accepting (q2, h3)" using d(3) True by (simp add: accepting_def)
    from Cons.IH [OF i3 this] obtain q4 h4 where c4:
      "deliver_clones env mx (\<lambda>_. True) prog out kAsync dsts (w, q2) h3 e =
         Fine ((w, q4), h4, e, length (contents N q2 p) + length dsts \<le> N \<or> dsts = [])"
      "heap_inv N (q4, h4) (ehset e + R)" "length (contents N q2 p) + length dsts \<le> N \<or> dsts = [] \<longrightarrow> accepting (q4, h4)"
      "contents N q4 = (contents N q2)(p := contents N q2 p @ take (N - length (contents N q2 p)) (map (posted env now c) dsts))"
      by blast
    have step: "deliver_clones env mx (\<lambda>_. True) prog out kAsync (dst # dsts) (w, q) h e =
        deliver_clones env mx (\<lambda>_. True) prog out kAsync dsts (w, q2) h3 e"
      using h1(1) d(1) h3(1) True by simp
    have q2: "contents N q2 = (contents N q)(p := contents N q p @ [posted env now c dst])" using d(4) True by simp
    have flag: "(length (contents N q2 p) + length dsts \<le> N \<or> dsts = []) =
        (length (contents N q p) + length (dst # dsts) \<le> N \<or> dst # dsts = [])"
      unfolding q2 using True by (cases dsts) auto
    have "contents N q4 = (contents N q)(p := contents N q p @
        take (N - length (contents N q p)) (map (posted env now c) (dst # dsts)))"
    proof -
      obtain k where k: "N - length (contents N q p) = Suc k" using True by (metis Suc_diff_Suc)
      then have "N - length (contents N q2 p) = k" unfolding q2 by (simp del: length_contents)
      with k show ?thesis
        unfolding c4(4) by (simp only: q2 take_Suc_Cons list.map fun_upd_same fun_upd_upd append_assoc append_Cons append_Nil)
    qed
    with c4(2) c4(3) [unfolded flag] show ?thesis
      unfolding step c4(1) flag by (intro exI [of _ q4] exI [of _ h4] conjI) (rule refl)
  next
    case False
    then have "N - length (contents N q p) = 0" by simp
    with h1(1) d(1,4) h3(1) i3 False show ?thesis by simp
  qed
qed

lemma send_async:
  assumes i: "heap_inv N (q, h) (ehset e + R)" and acc: "accepting (q, h)"
    and e: "event_ok mx e" "edata e \<noteq> ListData None" "event_id e \<noteq> selector_code kNoEvent"
    and prog: "queue_push prog = queue_pusher push now" "queue_ended prog = (\<lambda>s. must_end (snd s))" and out: "has_queue out"
    and p: "p = priority_index (priority e)"
  shows "\<exists>q' h' e'. sendEventToAllNodes env mx (\<lambda>_. True) prog out kAsync (w, q) h e =
      Fine ((w, q'), h', e', length (contents N q p) + length (mNodes out) \<le> N \<or> mNodes out = []) \<and>
    heap_inv N (q', h') (ehset e' + R) \<and>
    (length (contents N q p) + length (mNodes out) \<le> N \<or> mNodes out = [] \<longrightarrow> accepting (q', h')) \<and>
    contents N q' = (contents N q)(p := contents N q p @ take (N - length (contents N q p)) (fan_out mx env now e (mNodes out)))"
proof -
  have go: "sendEventToAllNodes env mx (\<lambda>_. True) prog out kAsync (w, q) h e =
      (case mNodes out of
         [dst] \<Rightarrow> deliver env prog out kAsync dst (w, q) h e
       | _ \<Rightarrow> deliver_clones env mx (\<lambda>_. True) prog out kAsync (mNodes out) (w, q) h e)"
    using acc prog(2) out e(3) by (simp add: sendEventToAllNodes_def accepting_def)
  show ?thesis
  proof (cases "\<exists>dst. mNodes out = [dst]")
    case True
    then obtain dst where dst: "mNodes out = [dst]" by blast
    let ?e = "e\<lparr>edata := moved_data (edata e), event_id := selector_code kNoEvent, ttl := 0\<rparr>"
    let ?ok = "length (contents N q p) < N"
    obtain q' h' where d: "deliver env prog out kAsync dst (w, q) h e = Fine ((w, q'), h', ?e, ?ok)"
        "heap_inv N (q', h') R" "?ok \<longrightarrow> accepting (q', h')"
        "contents N q' = (if ?ok then (contents N q)(p := contents N q p @ [posted env now e dst]) else contents N q)"
      using deliver_async [OF i prog(1) out, where ok = ?ok and w = w and dst = dst] acc unfolding p by auto
    have "ehset ?e = {#}" by (cases "edata e") simp_all
    then have "heap_inv N (q', h') (ehset ?e + R)" using d(2) by simp
    moreover have "sendEventToAllNodes env mx (\<lambda>_. True) prog out kAsync (w, q) h e =
        Fine ((w, q'), h', ?e, length (contents N q p) + length (mNodes out) \<le> N \<or> mNodes out = [])"
      unfolding go using d(1) dst by (simp add: Suc_le_eq)
    moreover have "length (contents N q p) + length (mNodes out) \<le> N \<or> mNodes out = [] \<longrightarrow> accepting (q', h')"
      using d(3) dst by (simp add: Suc_le_eq)
    moreover have "contents N q' = (contents N q)(p := contents N q p @
        take (N - length (contents N q p)) (fan_out mx env now e (mNodes out)))"
      using d(4) dst by (cases "N - nb_elems q p") (auto simp: fan_out_def)
    ultimately show ?thesis by blast
  next
    case False
    then have f: "fan_out mx env now e (mNodes out) =
        map (posted env now (e\<lparr>edata := clone_data mx env (edata e)\<rparr>)) (mNodes out)"
      and g: "sendEventToAllNodes env mx (\<lambda>_. True) prog out kAsync (w, q) h e =
        deliver_clones env mx (\<lambda>_. True) prog out kAsync (mNodes out) (w, q) h e"
      unfolding go fan_out_def by (simp_all split: list.split)
    from deliver_clones_async [OF e(1,2) prog(1) out i acc, of "mNodes out" w] show ?thesis
      unfolding g f p by blast
  qed
qed

end

section \<open>Properties\<close>

text \<open>The program around an output on a POSIX queue; \<open>nodes\<close> is \<^verbatim>\<open>processEvent\<close>.\<close>

definition posix_program ::
    "nat \<Rightarrow> lock_env \<Rightarrow> u32 \<Rightarrow> (nat \<Rightarrow> int \<Rightarrow> ('w \<times> posix_queue, cg_status) receiver) \<Rightarrow> ('w \<times> posix_queue) program" where
  "posix_program N env now nodes =
     \<lparr>queue_ended = (\<lambda>s. must_end (snd s)), queue_push = queue_pusher (Posix_push N env 0) now, time_of = (\<lambda>s. now),
      process_event = nodes\<rparr>"

lemma posix_send_async:
  assumes "queue_ok N q" and "handles_ok h (queue_handles N q + (ehset e + R))" and "\<not> must_pause q" and "\<not> must_end q"
    and "event_ok mx e" and "edata e \<noteq> ListData None" and "event_id e \<noteq> selector_code kNoEvent" and "has_queue out"
    and "p = priority_index (priority e)" and "room = N - length (contents N q p)"
  shows "\<exists>q' h' e'. sendEventToAllNodes env mx (\<lambda>_. True) (posix_program N env now nodes) out kAsync (w, q) h e =
      Fine ((w, q'), h', e', length (mNodes out) \<le> room) \<and>
    contents N q' = (contents N q)(p := contents N q p @ take room (fan_out mx env now e (mNodes out))) \<and>
    queue_ok N q' \<and> handles_ok h' (queue_handles N q' + (ehset e' + R)) \<and>
    (if length (mNodes out) \<le> room then \<not> must_pause q' \<and> \<not> must_end q' else True)"
proof -
  have i: "heap_inv N (q, h) (ehset e + R)" "accepting (q, h)" using assms(1-4) by (simp_all add: heap_inv_def accepting_def)
  have "queue_push (posix_program N env now nodes) = queue_pusher (Posix_push N env 0) now"
    "queue_ended (posix_program N env now nodes) = (\<lambda>s. must_end (snd s))"
    by (simp_all add: posix_program_def)
  from posix.send_async [OF i assms(5-7) this assms(8,9), where w = w] obtain q' h' e' where
    "sendEventToAllNodes env mx (\<lambda>_. True) (posix_program N env now nodes) out kAsync (w, q) h e =
      Fine ((w, q'), h', e', length (contents N q p) + length (mNodes out) \<le> N \<or> mNodes out = [])"
    "heap_inv N (q', h') (ehset e' + R)" "length (contents N q p) + length (mNodes out) \<le> N \<or> mNodes out = [] \<longrightarrow> accepting (q', h')"
    "contents N q' = (contents N q)(p := contents N q p @ take (N - length (contents N q p)) (fan_out mx env now e (mNodes out)))"
    by blast
  moreover have "level_ok N q p" using assms(1,9) by (simp add: queue_ok_def)
  then have "length (contents N q p) \<le> N" by (simp add: level_ok_def split: option.splits)
  then have "(length (contents N q p) + length (mNodes out) \<le> N \<or> mNodes out = []) = (length (mNodes out) \<le> room)"
    using assms(10) by auto
  ultimately show ?thesis using assms(10)
    by (intro exI [of _ q'] exI [of _ h'] exI [of _ e']) (auto simp: heap_inv_def accepting_def)
qed

text \<open>
  Sending asynchronously on POSIX puts one message for each subscriber, in the order of the
  subscriptions, at the end of the level of the event's priority, as long as there is room: the event
  itself when there is one subscriber, else clones of it that share its buffers. The result is true
  exactly when all subscribers got theirs; no buffer is lost or released too early either way.
\<close>

theorem posix_send_fans_out:
  assumes "queue_ok N q" and "handles_ok h (queue_handles N q + (ehset e + R))" and "\<not> must_pause q" and "\<not> must_end q"
    and "event_ok mx e" and "edata e \<noteq> ListData None" and "event_id e \<noteq> selector_code kNoEvent" and "has_queue out"
    and "p = priority_index (priority e)" and "room = N - length (contents N q p)"
  shows "\<exists>q' h' e'. sendEventToAllNodes env mx (\<lambda>_. True) (posix_program N env now nodes) out kAsync (w, q) h e =
      Fine ((w, q'), h', e', length (mNodes out) \<le> room) \<and>
    contents N q' = (contents N q)(p := contents N q p @ take room (fan_out mx env now e (mNodes out))) \<and>
    queue_ok N q' \<and> handles_ok h' (queue_handles N q' + (ehset e' + R)) \<and>
    (if length (mNodes out) \<le> room then \<not> must_pause q' \<and> \<not> must_end q' else True)"
  by (rule posix_send_async [OF assms])

definition demo_out :: event_output where
  "demo_out = subscribe 5 1 (subscribe 4 0 (EventOutput_new True))"

text \<open>The event of three values for two subscribers, in a level with two places.\<close>

theorem posix_send_fans_out_witness:
  "\<exists>q' h' e'. sendEventToAllNodes demo_env 3 (\<lambda>_. True) (posix_program 2 demo_env 0 (\<lambda>n p s h e. Fine (s, h, e, CG_SUCCESS)))
       demo_out kAsync (0 :: nat, demo_queue) (fst demo_buffer) demo_event = Fine ((0, q'), h', e', True) \<and>
     map destination (contents 2 q' 2) = [LocalDestination (Some 4) 0, LocalDestination (Some 5) 1]"
proof -
  have "handles_ok (fst demo_buffer) (queue_handles 2 demo_queue + (ehset demo_event + {#}))"
    using demo_event_ok(1) by (simp add: demo_queue_ok)
  moreover have d: "mNodes demo_out = [(Some 4, 0), (Some 5, 1)]" "has_queue demo_out" "priority_index (priority demo_event) = 2"
      "event_id demo_event \<noteq> selector_code kNoEvent"
    by (simp_all add: demo_out_def subscribe_def EventOutput_new_def demo_event_def priority_index_def nb_priorities_def)
  ultimately obtain q' h' e' where
    "sendEventToAllNodes demo_env 3 (\<lambda>_. True) (posix_program 2 demo_env 0 (\<lambda>n p s h e. Fine (s, h, e, CG_SUCCESS)))
       demo_out kAsync (0 :: nat, demo_queue) (fst demo_buffer) demo_event = Fine ((0, q'), h', e', True)"
    "contents 2 q' = (\<lambda>p. [])(2 := take 2 (fan_out 3 demo_env 0 demo_event (mNodes demo_out)))"
    using posix_send_fans_out [OF demo_queue_ok(1) _ demo_queue_flags demo_event_ok(2,3) d(4,2) refl refl,
      of "fst demo_buffer" "{#}" demo_env 0 "\<lambda>n p s h e. Fine (s, h, e, CG_SUCCESS)" 0]
    unfolding d by (auto simp: demo_queue_ok d(1))
  then show ?thesis by (auto simp: d(1) fan_out_def posted_def)
qed




lemma posted_times [simp]: "timestamp (posted env now e dst) = now" "ttl (m_event (posted env now e dst)) = ttl e"
  by (simp_all add: posted_def)







end
