(* ===== verification/EventFlags.thy ===== *)
theory EventFlags
  imports EventQueue
begin

text \<open>
  The flags the threads of the POSIX runtime signal each other with: the class
  \<^verbatim>\<open>stream_event_flags\<close>, the messages of \<^verbatim>\<open>stream_rtos_events.h\<close> and the test a generated scheduler
  makes before every node (\<^verbatim>\<open>CG_BEFORE_NODE_EXECUTION\<close> in \<^verbatim>\<open>config/app_config.hpp\<close>). A member is
  one critical section of the mutex; a wait that is not satisfied has no result, the caller stays in it.
\<close>

unbundle bit_operations_syntax

section \<open>The messages\<close>

definition STREAM_PAUSE_EVENT :: u32 where [simp]: "STREAM_PAUSE_EVENT = 1"
definition STREAM_RESUME_EVENT :: u32 where [simp]: "STREAM_RESUME_EVENT = 2"
definition EVENT_RESUME_EVENT :: u32 where [simp]: "EVENT_RESUME_EVENT = 4"
definition STREAM_DONE_EVENT :: u32 where [simp]: "STREAM_DONE_EVENT = 8"

definition STREAM_PAUSED_EVENT :: u32 where [simp]: "STREAM_PAUSED_EVENT = 1"
definition STREAM_RESUMED_EVENT :: u32 where [simp]: "STREAM_RESUMED_EVENT = 2"
definition EVENT_PAUSED_EVENT :: u32 where [simp]: "EVENT_PAUSED_EVENT = 4"
definition EVENT_RESUMED_EVENT :: u32 where [simp]: "EVENT_RESUMED_EVENT = 8"

section \<open>The class\<close>

definition STREAM_WAIT_FOREVER :: u32 where
  "STREAM_WAIT_FOREVER = - 1"

definition flags_post :: "u32 \<Rightarrow> u32 \<Rightarrow> u32" where
  "flags_post flags f = f OR flags"

definition flags_clear :: "u32 \<Rightarrow> u32 \<Rightarrow> u32" where
  "flags_clear flags f = f AND NOT flags"

text \<open>The predicate \<^verbatim>\<open>ready\<close>, which also tests the result of a wait.\<close>

definition raised :: "u32 \<Rightarrow> u32 \<Rightarrow> bool" where
  "raised flags f \<longleftrightarrow> f AND flags \<noteq> 0"

text \<open>
  The result of a wait that ends at flags \<open>f\<close>, with the flags it leaves. A wait with a timeout ends
  when the predicate holds or with the timeout, a wait for ever only when it holds.
\<close>

definition flags_wait :: "u32 \<Rightarrow> bool \<Rightarrow> u32 \<Rightarrow> u32 \<Rightarrow> (u32 \<times> u32) option" where
  "flags_wait flags clear_flags timeout_ms f =
     (if raised flags f then
        (let res = f AND flags in Some (res, if clear_flags then f AND NOT res else f))
      else if timeout_ms = STREAM_WAIT_FOREVER then None
      else Some (0, f))"

section \<open>The test before a node\<close>

text \<open>The status the scheduler leaves its loop with, if it does.\<close>

definition CG_BEFORE_NODE_EXECUTION :: "u32 \<Rightarrow> u32 \<times> cg_status option" where
  "CG_BEFORE_NODE_EXECUTION f =
     (case flags_wait (STREAM_PAUSE_EVENT OR STREAM_DONE_EVENT) True 0 f of
        Some (res, f') \<Rightarrow>
          (f', if raised STREAM_DONE_EVENT res then Some CG_STOP_SCHEDULER
               else if raised STREAM_PAUSE_EVENT res then Some CG_PAUSED_SCHEDULER
               else None)
      | None \<Rightarrow> (f, None))"

section \<open>Single flags\<close>

lemma bit_u32: "bit (f :: u32) i \<Longrightarrow> i < 32"
  using bit_imp_le_length [of f i] by simp

lemma raised_bits: "raised m f \<longleftrightarrow> (\<exists>i. bit f i \<and> bit m i)"
  by (auto simp: raised_def bit_eq_iff bit_and_iff dest: bit_u32)

lemma raised_or: "raised (m OR n) f \<longleftrightarrow> raised m f \<or> raised n f"
  by (auto simp: raised_bits bit_or_iff)

lemma raised_pairs [simp]:
  "raised 3 f \<longleftrightarrow> raised 1 f \<or> raised 2 f"
  "raised 5 f \<longleftrightarrow> raised 1 f \<or> raised 4 f"
  "raised 9 f \<longleftrightarrow> raised 1 f \<or> raised 8 f"
  "raised 12 f \<longleftrightarrow> raised 8 f \<or> raised 4 f"
  using raised_or [of 1 2 f] raised_or [of 1 4 f] raised_or [of 1 8 f] raised_or [of 8 4 f] by simp_all

lemma raised_all [simp]: "raised 15 f \<longleftrightarrow> raised 1 f \<or> raised 2 f \<or> raised 4 f \<or> raised 8 f"
  using raised_or [of 3 12 f] by auto

lemma raised_post [simp]: "raised m (flags_post n f) \<longleftrightarrow> raised m f \<or> n AND m \<noteq> 0"
proof -
  have "raised m (flags_post n f) \<longleftrightarrow> raised m f \<or> raised m n"
    by (auto simp: raised_bits flags_post_def bit_or_iff)
  then show ?thesis by (simp add: raised_def)
qed

lemma raised_clear_other [simp]:
  assumes "m AND n = 0"
  shows "raised m (flags_clear n f) \<longleftrightarrow> raised m f"
proof -
  have "\<not> (bit m i \<and> bit n i)" for i
    using assms bit_and_iff [of m n i] by simp
  then show ?thesis
    by (auto simp: raised_bits flags_clear_def bit_and_iff bit_not_iff dest: bit_u32)
qed

lemma raised_clear_same [simp]:
  assumes "m AND n = m"
  shows "\<not> raised m (flags_clear n f)"
proof -
  have "bit m i \<longrightarrow> bit n i" for i
    using assms bit_and_iff [of m n i] by metis
  then show ?thesis
    by (auto simp: raised_bits flags_clear_def bit_and_iff bit_not_iff)
qed

lemma raised_zero [simp]: "\<not> raised m 0" "\<not> raised 0 f"
  by (simp_all add: raised_def)

lemma raised_mask [simp]: "raised m (f AND n) \<longleftrightarrow> raised (n AND m) f"
  by (simp add: raised_def and.assoc)

lemma flags_wait_forever:
  "flags_wait flags True STREAM_WAIT_FOREVER f =
     (if raised flags f then Some (f AND flags, flags_clear flags f) else None)"
proof -
  have "f AND NOT (f AND flags) = f AND NOT flags"
    by (simp add: bit.de_Morgan_conj bit.conj_disj_distrib)
  then show ?thesis by (simp add: flags_wait_def flags_clear_def)
qed

lemma before_node:
  "CG_BEFORE_NODE_EXECUTION f =
     (if raised 8 f then (flags_clear 9 f, Some CG_STOP_SCHEDULER)
      else if raised 1 f then (flags_clear 9 f, Some CG_PAUSED_SCHEDULER)
      else (f, None))"
proof -
  have "f AND NOT (f AND 9) = f AND NOT 9"
    by (simp add: bit.de_Morgan_conj bit.conj_disj_distrib)
  then show ?thesis
    by (simp add: CG_BEFORE_NODE_EXECUTION_def flags_wait_def flags_clear_def STREAM_WAIT_FOREVER_def)
qed

end
