(* ===== verification/Application.thy ===== *)
theory Application
  imports EventOutputs EventFlags
begin

text \<open>
  The application side of the POSIX runtime (\<^verbatim>\<open>config/stream_init.cpp\<close>): the handler that gets the reports
  of the runtime threads as events, and the helpers that pause and resume the nodes with a C interface
  (\<^verbatim>\<open>cstream_node.h\<close>). The reports themselves are those of \<^verbatim>\<open>stream_runtime_init.cpp\<close>. What the application
  does with an error is a parameter.
\<close>

section \<open>Pausing and resuming nodes\<close>

text \<open>A \<^verbatim>\<open>CStreamNode\<close>: the object and whether the interface for the context switch is there.\<close>

record 'o c_node =
  c_obj :: "'o option"
  c_context_switch :: bool

text \<open>\<open>switch obj\<close> is \<^verbatim>\<open>pause\<close> or \<^verbatim>\<open>resume\<close> of the interface; \<open>get_node\<close> gives \<open>None\<close> for a null pointer.\<close>

fun switch_loop :: "(int \<Rightarrow> 'o c_node option) \<Rightarrow> ('o \<Rightarrow> 's \<Rightarrow> 's) \<Rightarrow> int list \<Rightarrow> 's \<Rightarrow> 's" where
  "switch_loop get_node switch [] s = s"
| "switch_loop get_node switch (nodeid # ids) s =
     switch_loop get_node switch ids
       (case get_node nodeid of
          None \<Rightarrow> s
        | Some cnode \<Rightarrow>
            (case c_obj cnode of
               None \<Rightarrow> s
             | Some obj \<Rightarrow> if c_context_switch cnode then switch obj s else s))"

definition node_ids :: "u32 \<Rightarrow> int list" where
  "node_ids nb_identified_nodes = [0..sint nb_identified_nodes - 1]"

definition pause_scheduler_app :: "(int \<Rightarrow> 'o c_node option) \<Rightarrow> ('o \<Rightarrow> 's \<Rightarrow> 's) \<Rightarrow> u32 \<Rightarrow> 's \<Rightarrow> 's" where
  "pause_scheduler_app get_node pause nb s = switch_loop get_node pause (node_ids nb) s"

definition resume_scheduler_app :: "(int \<Rightarrow> 'o c_node option) \<Rightarrow> ('o \<Rightarrow> 's \<Rightarrow> 's) \<Rightarrow> u32 \<Rightarrow> 's \<Rightarrow> 's" where
  "resume_scheduler_app get_node resume nb s = switch_loop get_node resume (node_ids nb) s"

text \<open>The objects that are switched, in the order of the identifiers.\<close>

definition switchable :: "(int \<Rightarrow> 'o c_node option) \<Rightarrow> u32 \<Rightarrow> 'o list" where
  "switchable get_node nb =
     List.map_filter (\<lambda>k. case get_node k of None \<Rightarrow> None | Some c \<Rightarrow> if c_context_switch c then c_obj c else None)
       (node_ids nb)"

lemma switch_loop_fold:
  "switch_loop get_node switch ids s =
     fold switch (List.map_filter (\<lambda>k. case get_node k of None \<Rightarrow> None
       | Some c \<Rightarrow> if c_context_switch c then c_obj c else None) ids) s"
  by (induction ids arbitrary: s) (simp_all add: map_filter_simps split: option.splits)

section \<open>The handler\<close>

text \<open>
  \<open>on_error\<close> is \<^verbatim>\<open>handle_error\<close> with its origin, error code and info; the other events are only logged. The
  value of an event \<^verbatim>\<open>kValue\<close> is taken out first.
\<close>

definition application_handler ::
    "lock_env \<Rightarrow> callback \<Rightarrow> int \<Rightarrow> 'd \<Rightarrow> ('s, bool) receiver" where
  "application_handler env on_error src_node_id data s h evt =
     (if event_id evt = selector_code kValue then
        exec_then (Event_get env h AInt32 evt) (\<lambda>(h', msg, evt'). Fine (s, h', evt', True))
      else if event_id evt = selector_code kError then
        (if Event_wellFormed [AInt32, AInt32, AInt32] evt then
           exec_then (Event_apply env h [AInt32, AInt32, AInt32] on_error evt) (\<lambda>(h', evt', st). Fine (s, h', evt', True))
         else Fine (s, h, evt, True))
      else Fine (s, h, evt, True))"

section \<open>The reports of the runtime\<close>

text \<open>The event is a temporary: it and what is left of the arguments are destroyed after the call.\<close>

definition report_event ::
    "lock_env \<Rightarrow> nat \<Rightarrow> bool \<Rightarrow> ('d, 's) app_handler \<Rightarrow> int \<Rightarrow> u32 \<Rightarrow> cg_value list \<Rightarrow>
     's \<Rightarrow> shared_obj sheap \<Rightarrow> ('s \<times> shared_obj sheap) exec" where
  "report_event env mx list_ok a src_node_id selector args s h =
     exec_then (Event_of_args mx list_ok env h selector kHighPriority args) (\<lambda>(h1, evt, rest).
       exec_then (callSyncHandler a src_node_id s h1 evt) (\<lambda>(s2, h2, evt', ok).
         exec_then (Event_destroy h2 evt') (\<lambda>h3.
           exec_then (destroy_values h3 rest) (\<lambda>h4. Fine (s2, h4)))))"

definition report_runtime_error_event ::
    "lock_env \<Rightarrow> nat \<Rightarrow> bool \<Rightarrow> ('d, 's) app_handler \<Rightarrow> cg_error_origin \<Rightarrow> cg_status \<Rightarrow> int \<Rightarrow> int \<Rightarrow>
     's \<Rightarrow> shared_obj sheap \<Rightarrow> ('s \<times> shared_obj sheap) exec" where
  "report_runtime_error_event env mx list_ok a origin status src_node_id info s h =
     report_event env mx list_ok a src_node_id (selector_code kError)
       [VInt32 (word_of_int (cg_error_origin_code origin)), VInt32 (word_of_int (cg_status_code status)),
        VInt32 (word_of_int info)] s h"

definition report_stop_graph_event ::
    "lock_env \<Rightarrow> nat \<Rightarrow> bool \<Rightarrow> ('d, 's) app_handler \<Rightarrow> 's \<Rightarrow> shared_obj sheap \<Rightarrow> ('s \<times> shared_obj sheap) exec" where
  "report_stop_graph_event env mx list_ok a s h =
     report_event env mx list_ok a CG_UNIDENTIFIED_NODE (selector_code kStopGraph) [] s h"

section \<open>Properties\<close>

definition installed :: "lock_env \<Rightarrow> callback \<Rightarrow> 'd \<Rightarrow> ('d, 's) app_handler \<Rightarrow> ('d, 's) app_handler" where
  "installed env on_error data a = setHandler data (Some (application_handler env on_error)) a"

lemma read_int32 [simp]: "read_at env AInt32 (VInt32 x) = VInt32 x" "left_at env AInt32 (VInt32 x) = VInt32 x"
  by (simp_all add: read_at_def left_at_def)

text \<open>The error event as it is built from a pool that has a block.\<close>

lemma error_event:
  assumes "3 \<le> mx"
  shows "Event_of_args mx True env h (selector_code kError) kHighPriority [VInt32 x, VInt32 y, VInt32 z] =
    Fine (h, \<lparr>event_id = selector_code kError, priority = 2,
        edata = ListData (Some \<lparr>nb_values = 3, lv_values = [VInt32 x, VInt32 y, VInt32 z] @ replicate (mx - 3) VNone\<rparr>), ttl = 0\<rparr>,
      [VNone, VNone, VNone])"
proof -
  have mx: "replicate mx VNone = VNone # VNone # VNone # replicate (mx - 3) VNone"
    using assms by (cases mx; cases "mx - 1"; cases "mx - 2") (auto simp: numeral_3_eq_3)
  show ?thesis
    by (simp add: Event_of_args_def list_value_new_def mx CV_moveFrom_def CV_destroy_def Let_def)
qed

lemma destroy_plain: "list_all (\<lambda>v. CV_handle v = None) vs \<Longrightarrow> destroy_values h vs = Fine h"
  by (induction vs) (simp_all add: CV_destroy_def)

lemma pause_each_node:
  "pause_scheduler_app get_node pause nb s = fold pause (switchable get_node nb) s"
  "resume_scheduler_app get_node resume nb s = fold resume (switchable get_node nb) s"
  by (simp_all add: pause_scheduler_app_def resume_scheduler_app_def switch_loop_fold switchable_def)

lemma error_event_apply:
  fixes x y z :: u32
  shows "Event_apply env h [AInt32, AInt32, AInt32] f \<lparr>event_id = i, priority = p,
      edata = ListData (Some \<lparr>nb_values = 3, lv_values = [VInt32 x, VInt32 y, VInt32 z] @ rest\<rparr>), ttl = t\<rparr> =
    exec_then (f h [VInt32 x, VInt32 y, VInt32 z]) (\<lambda>(h1, r).
      exec_then (destroy_values h1 rest) (\<lambda>h2.
        Fine (h2, \<lparr>event_id = i, priority = p, edata = ListData None, ttl = t\<rparr>, case r of None \<Rightarrow> CG_SUCCESS | Some st \<Rightarrow> st)))"
proof -
  have "get_array_types env h [AInt32, AInt32, AInt32] ([VInt32 x, VInt32 y, VInt32 z] @ rest) 0 =
      Fine (h, [VInt32 x, VInt32 y, VInt32 z], [VInt32 x, VInt32 y, VInt32 z] @ rest)"
    using get_array_types_plain [of "[AInt32, AInt32, AInt32]" 0 "[VInt32 x, VInt32 y, VInt32 z] @ rest" env h] by simp
  then show ?thesis
    by (cases "f h [VInt32 x, VInt32 y, VInt32 z]")
      (auto simp: Event_apply_def apply_noobj_array_types_def apply_status_def CV_destroy_def)
qed

lemma error_event_well_formed:
  "Event_wellFormed [AInt32, AInt32, AInt32] \<lparr>event_id = i, priority = p,
     edata = ListData (Some \<lparr>nb_values = 3, lv_values = [VInt32 x, VInt32 y, VInt32 z] @ rest\<rparr>), ttl = t\<rparr>"
  by (simp add: Event_wellFormed_def contains_defs)

lemma codes_as_int32:
  "sint (word_of_int (cg_error_origin_code origin) :: u32) = cg_error_origin_code origin"
  "sint (word_of_int (cg_status_code status) :: u32) = cg_status_code status"
  by (cases origin; simp) (cases status; simp)

text \<open>
  C30. An error the runtime reports reaches the error handler of the application exactly once, with
  origin, status and info unchanged, and the event is gone afterwards. When the event pool has no block
  for the three values, the application handler gets an event without identifier and the error is lost.
\<close>
theorem runtime_errors_reach_handler:
  assumes "3 \<le> mx"
  shows "report_runtime_error_event env mx True (installed env on_error data a) origin status node info s h =
      exec_then (on_error h [VInt32 (word_of_int (cg_error_origin_code origin)),
          VInt32 (word_of_int (cg_status_code status)), VInt32 (word_of_int info)])
        (\<lambda>(h', r). Fine (s, h')) \<and>
    report_runtime_error_event env mx False (installed env on_error data a) origin status node info s h = Fine (s, h) \<and>
    sint (word_of_int (cg_error_origin_code origin) :: u32) = cg_error_origin_code origin \<and>
    sint (word_of_int (cg_status_code status) :: u32) = cg_status_code status"
proof (intro conjI codes_as_int32)
  let ?args = "[VInt32 (word_of_int (cg_error_origin_code origin)), VInt32 (word_of_int (cg_status_code status)),
    VInt32 (word_of_int info)]"
  have ids: "selector_code kError \<noteq> selector_code kValue" "selector_code kNoEvent \<noteq> selector_code kValue"
    "selector_code kNoEvent \<noteq> selector_code kError" by simp_all
  have plain: "list_all (\<lambda>v. CV_handle v = None) (replicate n VNone)" for n by (induction n) simp_all
  let ?lv = "\<lparr>nb_values = 3, lv_values = ?args @ replicate (mx - 3) VNone\<rparr>"
  let ?e = "\<lparr>event_id = selector_code kError, priority = 2, edata = ListData (Some ?lv), ttl = 0\<rparr>"
  have rest: "destroy_values h' (replicate (mx - 3) VNone) = Fine h'" for h' by (rule destroy_plain [OF plain])
  have "application_handler env on_error node data s h ?e =
      exec_then (Event_apply env h [AInt32, AInt32, AInt32] on_error ?e) (\<lambda>(h', evt', st). Fine (s, h', evt', True))"
    unfolding application_handler_def by (simp only: event.simps ids error_event_well_formed if_True if_False refl)
  also have "\<dots> = exec_then (on_error h ?args) (\<lambda>(h', r). Fine (s, h', ?e\<lparr>edata := ListData None\<rparr>, True))"
    unfolding error_event_apply by (cases "on_error h ?args") (auto simp: rest)
  finally have handled: "callSyncHandler (installed env on_error data a) node s h ?e =
      exec_then (on_error h ?args) (\<lambda>(h', r). Fine (s, h', ?e\<lparr>edata := ListData None\<rparr>, True))"
    by (simp add: callSyncHandler_def installed_def setHandler_def)
  show "report_runtime_error_event env mx True (installed env on_error data a) origin status node info s h =
      exec_then (on_error h ?args) (\<lambda>(h', r). Fine (s, h'))"
    unfolding report_runtime_error_event_def report_event_def error_event [OF assms] exec_then.simps prod.case handled
    by (cases "on_error h ?args") (auto simp: Event_destroy_def destroy_data_def CV_destroy_def)
  show "report_runtime_error_event env mx False (installed env on_error data a) origin status node info s h = Fine (s, h)"
    by (simp add: report_runtime_error_event_def report_event_def Event_of_args_def installed_def setHandler_def
        callSyncHandler_def application_handler_def Event_destroy_def destroy_data_def CV_destroy_def)
qed

theorem runtime_errors_reach_handler_witness:
  "report_runtime_error_event demo_env 8 True
      (installed demo_env (\<lambda>h vs. if vs = [VInt32 1, VInt32 (- 6), VInt32 7] then Fine (h, None) else UB) ()
         \<lparr>handler_ready = False, handler_data = (), handler = None\<rparr>)
      kEventThread CG_BUFFER_ERROR 4 7 (0 :: nat) heap_empty = Fine (0, heap_empty)"
proof -
  have "(3 :: nat) \<le> 8" by simp
  from runtime_errors_reach_handler [OF this, of demo_env "\<lambda>h vs. if vs = [VInt32 1, VInt32 (- 6), VInt32 7] then Fine (h, None) else UB"
      "()" "\<lparr>handler_ready = False, handler_data = (), handler = None\<rparr>" kEventThread CG_BUFFER_ERROR 4 7 "0 :: nat" heap_empty]
  show ?thesis by simp
qed

end
