(* ===== verification/Runtime.thy ===== *)
theory Runtime
  imports EventFlags
begin

text \<open>
  The threads of the POSIX runtime (\<^verbatim>\<open>stream_runtime_init.cpp\<close>): the event thread, the stream thread
  and the thread that starts, pauses, resumes and stops them. A step of a thread is one access to the
  flags, the requests of a queue, the current context or the stop request, with the calls of the graph
  that precede it; it is \<open>None\<close> where the thread has to wait, and any thread may be next. A context is
  a number, 0 the null pointer, and has a queue of its own, of which the requests are kept.
\<close>

unbundle bit_operations_syntax

section \<open>State\<close>

text \<open>What the runtime reads of a \<^verbatim>\<open>stream_execution_context_t\<close>: which of its pointers are set.\<close>

record execution_context =
  scheduler_length :: nat
  has_pause_all_nodes :: bool
  has_resume_all_nodes :: bool
  has_evtQueue :: bool

type_synonym contexts = "nat \<Rightarrow> execution_context"

text \<open>What the runtime calls in a graph or in the application.\<close>

datatype graph_call = ResetFifos nat | ResumeNodes nat | PauseNodes nat
  | ReportError cg_error_origin cg_status int int | ReportStopGraph

type_synonym queue_error = "cg_status \<times> int \<times> int"

text \<open>Where the event thread is.\<close>

datatype event_pc = ELoad | EExecute | EReturned | EConsume | EPeerPost queue_error | EPeerWait queue_error
  | EPauseNodes "queue_error option" | EStopTest | EPost | EWaitResume | EPostResumed | EDone

text \<open>Where the stream thread is, and why it pauses the event thread.\<close>

datatype pause_reason = SchedulerError cg_status | StopGraph

datatype stream_pc = SLoad | SRun | SPauseQueue pause_reason | SWaitEvents pause_reason | SReport pause_reason
  | SStopAfterReport | SPauseNodes | SPostPaused | SWaitResume | SStopAfterResume | SResumeNodes
  | SPostResumed | SStopTest | SDone

text \<open>Where the controlling thread is; between its calls the runtime is in one of the phases.\<close>

datatype phase = Stopped | Active | Paused | Failed

datatype control_pc = Idle phase | StartStream bool | StartEnd | StartJoin
  | PausePost | PauseWaitStream | PauseWaitEvents
  | ResumeQueue | ResumePost | ResumeWaitStream | ResumePostEvents | ResumeWaitEvents
  | ResumeFailPost | ResumeFailWait | ResumeClear
  | StopQueue | StopPost | StopReply | StopJoin | WaitEnd

record runtime =
  stream_event :: u32
  reply_event :: u32
  stop_requested :: bool
  queues :: "nat \<Rightarrow> event_queue"
  current_context :: nat
  calls :: "graph_call list"
  control :: control_pc
  event_pc :: event_pc
  event_context :: nat
  stream_pc :: stream_pc
  stream_context :: nat

definition new_requests :: event_queue where
  "new_requests = \<lparr>must_end = False, must_pause = False, error_pending = False,
     error_status = CG_SUCCESS, error_node_id = CG_UNIDENTIFIED_NODE, error_info = 0\<rparr>"

text \<open>Before the first start.\<close>

definition boot :: runtime where
  "boot = \<lparr>stream_event = 0, reply_event = 0, stop_requested = False, queues = (\<lambda>k. new_requests),
     current_context = 0, calls = [], control = Idle Stopped,
     event_pc = EDone, event_context = 0, stream_pc = SDone, stream_context = 0\<rparr>"

definition post_stream :: "u32 \<Rightarrow> runtime \<Rightarrow> runtime" where
  "post_stream flags st = st\<lparr>stream_event := flags_post flags (stream_event st)\<rparr>"

definition post_reply :: "u32 \<Rightarrow> runtime \<Rightarrow> runtime" where
  "post_reply flags st = st\<lparr>reply_event := flags_post flags (reply_event st)\<rparr>"

definition on_queue :: "nat \<Rightarrow> (event_queue \<Rightarrow> event_queue) \<Rightarrow> runtime \<Rightarrow> runtime" where
  "on_queue k f st = st\<lparr>queues := (queues st)(k := f (queues st k))\<rparr>"

definition call :: "graph_call list \<Rightarrow> runtime \<Rightarrow> runtime" where
  "call cs st = st\<lparr>calls := rev cs @ calls st\<rparr>"

text \<open>A wait for ever on one of the two flags objects: what it clears and the state after it.\<close>

definition wait_stream :: "u32 \<Rightarrow> runtime \<Rightarrow> (u32 \<times> runtime) option" where
  "wait_stream flags st =
     (case flags_wait flags True STREAM_WAIT_FOREVER (stream_event st) of
        Some (res, f) \<Rightarrow> Some (res, st\<lparr>stream_event := f\<rparr>) | None \<Rightarrow> None)"

definition wait_reply :: "u32 \<Rightarrow> runtime \<Rightarrow> (u32 \<times> runtime) option" where
  "wait_reply flags st =
     (case flags_wait flags True STREAM_WAIT_FOREVER (reply_event st) of
        Some (res, f) \<Rightarrow> Some (res, st\<lparr>reply_event := f\<rparr>) | None \<Rightarrow> None)"

definition pause_nodes_calls :: "contexts \<Rightarrow> nat \<Rightarrow> graph_call list" where
  "pause_nodes_calls ctx k = (if has_pause_all_nodes (ctx k) then [PauseNodes k] else [])"

definition resume_nodes_calls :: "contexts \<Rightarrow> nat \<Rightarrow> graph_call list" where
  "resume_nodes_calls ctx k =
     ResetFifos k # (if has_resume_all_nodes (ctx k) then [ResumeNodes k] else [])"

section \<open>The event thread\<close>

text \<open>
  \<open>execute\<close> returns once a pause or the end is requested. \<open>consumeError\<close> decides whether the peer is
  paused and what is reported.
\<close>

definition report_runtime_error :: "cg_error_origin \<Rightarrow> cg_status \<Rightarrow> int \<Rightarrow> int \<Rightarrow> graph_call" where
  "report_runtime_error origin status node info = ReportError origin status node info"

definition event_report :: "queue_error option \<Rightarrow> graph_call list" where
  "event_report e = (case e of None \<Rightarrow> []
     | Some (status, node, info) \<Rightarrow> [report_runtime_error kEventThread status node info])"

definition pause_peer_step :: "runtime \<Rightarrow> queue_error \<Rightarrow> bool \<Rightarrow> runtime option" where
  "pause_peer_step st err posted =
     (if posted then map_option (\<lambda>(res, st). st\<lparr>event_pc := EPauseNodes (Some err)\<rparr>) (wait_reply STREAM_PAUSED_EVENT st)
      else Some ((post_stream STREAM_PAUSE_EVENT st)\<lparr>event_pc := EPeerWait err\<rparr>))"

definition wait_event_resume_step :: "runtime \<Rightarrow> runtime option" where
  "wait_event_resume_step st =
     (case event_pc st of
        EWaitResume \<Rightarrow> map_option (\<lambda>(res, st). st\<lparr>event_pc := EPostResumed\<rparr>) (wait_stream EVENT_RESUME_EVENT st)
      | EPostResumed \<Rightarrow> Some ((post_reply EVENT_RESUMED_EVENT st)\<lparr>event_pc := ELoad\<rparr>)
      | _ \<Rightarrow> None)"

definition event_step :: "contexts \<Rightarrow> runtime \<Rightarrow> runtime option" where
  "event_step ctx st =
     (let k = event_context st; q = queues st k in
      case event_pc st of
        ELoad \<Rightarrow> Some (st\<lparr>event_context := current_context st, event_pc := EExecute\<rparr>)
      | EExecute \<Rightarrow> if mustPause q \<or> mustEnd q then Some (st\<lparr>event_pc := EReturned\<rparr>) else None
      | EReturned \<Rightarrow> Some (st\<lparr>event_pc := if mustEnd q then EDone else EConsume\<rparr>)
      | EConsume \<Rightarrow>
          (let (q', e) = consumeError q in
           Some ((on_queue k (\<lambda>q. q') st)\<lparr>event_pc :=
             (case e of Some err \<Rightarrow> if scheduler_length (ctx k) > 0 then EPeerPost err else EPauseNodes (Some err)
              | None \<Rightarrow> EPauseNodes None)\<rparr>))
      | EPeerPost err \<Rightarrow> pause_peer_step st err False
      | EPeerWait err \<Rightarrow> pause_peer_step st err True
      | EPauseNodes e \<Rightarrow>
          Some ((call ((if scheduler_length (ctx k) = 0 then pause_nodes_calls ctx k else []) @ event_report e) st)
            \<lparr>event_pc := EStopTest\<rparr>)
      | EStopTest \<Rightarrow> Some (st\<lparr>event_pc := if stop_requested st then EDone else EPost\<rparr>)
      | EPost \<Rightarrow> Some ((post_reply EVENT_PAUSED_EVENT st)\<lparr>event_pc := EWaitResume\<rparr>)
      | EWaitResume \<Rightarrow> wait_event_resume_step st
      | EPostResumed \<Rightarrow> wait_event_resume_step st
      | EDone \<Rightarrow> None)"

lemma event_step_unfold:
  "event_step ctx st =
     (let k = event_context st; q = queues st k in
      case event_pc st of
        ELoad \<Rightarrow> Some (st\<lparr>event_context := current_context st, event_pc := EExecute\<rparr>)
      | EExecute \<Rightarrow> if mustPause q \<or> mustEnd q then Some (st\<lparr>event_pc := EReturned\<rparr>) else None
      | EReturned \<Rightarrow> Some (st\<lparr>event_pc := if mustEnd q then EDone else EConsume\<rparr>)
      | EConsume \<Rightarrow>
          (let (q', e) = consumeError q in
           Some ((on_queue k (\<lambda>q. q') st)\<lparr>event_pc :=
             (case e of Some err \<Rightarrow> if scheduler_length (ctx k) > 0 then EPeerPost err else EPauseNodes (Some err)
              | None \<Rightarrow> EPauseNodes None)\<rparr>))
      | EPeerPost err \<Rightarrow> Some ((post_stream STREAM_PAUSE_EVENT st)\<lparr>event_pc := EPeerWait err\<rparr>)
      | EPeerWait err \<Rightarrow> map_option (\<lambda>(res, st). st\<lparr>event_pc := EPauseNodes (Some err)\<rparr>)
          (wait_reply STREAM_PAUSED_EVENT st)
      | EPauseNodes e \<Rightarrow>
          Some ((call ((if scheduler_length (ctx k) = 0 then pause_nodes_calls ctx k else []) @ event_report e) st)
            \<lparr>event_pc := EStopTest\<rparr>)
      | EStopTest \<Rightarrow> Some (st\<lparr>event_pc := if stop_requested st then EDone else EPost\<rparr>)
      | EPost \<Rightarrow> Some ((post_reply EVENT_PAUSED_EVENT st)\<lparr>event_pc := EWaitResume\<rparr>)
      | EWaitResume \<Rightarrow> map_option (\<lambda>(res, st). st\<lparr>event_pc := EPostResumed\<rparr>)
          (wait_stream EVENT_RESUME_EVENT st)
      | EPostResumed \<Rightarrow> Some ((post_reply EVENT_RESUMED_EVENT st)\<lparr>event_pc := ELoad\<rparr>)
      | EDone \<Rightarrow> None)"
  by (cases "event_pc st") (simp_all add: event_step_def pause_peer_step_def wait_event_resume_step_def)

section \<open>The stream thread\<close>

definition is_runtime_scheduler_error :: "cg_status \<Rightarrow> bool" where
  "is_runtime_scheduler_error error \<longleftrightarrow>
     error \<noteq> CG_SUCCESS \<and> error \<noteq> CG_STOP_SCHEDULER \<and> error \<noteq> CG_PAUSED_SCHEDULER"

text \<open>What follows the return of the scheduler.\<close>

definition after_scheduler :: "execution_context \<Rightarrow> cg_status \<Rightarrow> stream_pc" where
  "after_scheduler c error =
     (if is_runtime_scheduler_error error then SPauseQueue (SchedulerError error)
      else if scheduler_length c > 0 \<and> error = CG_STOP_SCHEDULER then SPauseQueue StopGraph
      else if error = CG_PAUSED_SCHEDULER \<or> scheduler_length c = 0 \<and> error = CG_STOP_SCHEDULER
      then (if scheduler_length c > 0 then SPauseNodes else SWaitResume)
      else SDone)"

text \<open>
  The scheduler of a graph with dataflow leaves its loop when the test before a node says so, else it
  goes on; that of a pure event graph returns at once.
\<close>

definition stream_report :: "pause_reason \<Rightarrow> graph_call" where
  "stream_report r = (case r of SchedulerError status \<Rightarrow>
       report_runtime_error kStreamThread status CG_UNIDENTIFIED_NODE 0
     | StopGraph \<Rightarrow> ReportStopGraph)"

definition pause_event_thread_step :: "contexts \<Rightarrow> runtime \<Rightarrow> runtime option" where
  "pause_event_thread_step ctx st =
     (let k = stream_context st in
      case stream_pc st of
        SPauseQueue r \<Rightarrow>
          Some ((call (if r = StopGraph \<or> scheduler_length (ctx k) > 0 then pause_nodes_calls ctx k else [])
            (on_queue k EventQueue_pause st))\<lparr>stream_pc := SWaitEvents r\<rparr>)
      | SWaitEvents r \<Rightarrow> map_option (\<lambda>(res, st). st\<lparr>stream_pc := SReport r\<rparr>) (wait_reply EVENT_PAUSED_EVENT st)
      | SReport r \<Rightarrow> Some ((call [stream_report r] st)\<lparr>stream_pc := SStopAfterReport\<rparr>)
      | SStopAfterReport \<Rightarrow> Some (st\<lparr>stream_pc := if stop_requested st then SStopTest else SPostPaused\<rparr>)
      | _ \<Rightarrow> None)"

definition wait_stream_resume_step :: "contexts \<Rightarrow> runtime \<Rightarrow> runtime option" where
  "wait_stream_resume_step ctx st =
     (case stream_pc st of
        SWaitResume \<Rightarrow> map_option (\<lambda>(res, st). st\<lparr>stream_pc := SStopAfterResume\<rparr>)
          (wait_stream STREAM_RESUME_EVENT st)
      | SStopAfterResume \<Rightarrow> Some (st\<lparr>stream_pc := if stop_requested st then SStopTest else SResumeNodes\<rparr>)
      | SResumeNodes \<Rightarrow> Some ((call (resume_nodes_calls ctx (current_context st)) st)\<lparr>stream_pc := SPostResumed\<rparr>)
      | SPostResumed \<Rightarrow> Some ((post_reply STREAM_RESUMED_EVENT st)\<lparr>stream_pc := SStopTest\<rparr>)
      | _ \<Rightarrow> None)"

definition stream_step :: "contexts \<Rightarrow> runtime \<Rightarrow> runtime option" where
  "stream_step ctx st =
     (let k = stream_context st in
      case stream_pc st of
        SLoad \<Rightarrow> Some (st\<lparr>stream_context := current_context st, stream_pc := SRun\<rparr>)
      | SRun \<Rightarrow>
          if scheduler_length (ctx k) > 0 then
            (case CG_BEFORE_NODE_EXECUTION (stream_event st) of
               (f, Some error) \<Rightarrow> Some (st\<lparr>stream_event := f, stream_pc := after_scheduler (ctx k) error\<rparr>)
             | (f, None) \<Rightarrow> None)
          else Some (st\<lparr>stream_pc := after_scheduler (ctx k) CG_STOP_SCHEDULER\<rparr>)
      | SPauseQueue r \<Rightarrow> pause_event_thread_step ctx st
      | SWaitEvents r \<Rightarrow> pause_event_thread_step ctx st
      | SReport r \<Rightarrow> pause_event_thread_step ctx st
      | SStopAfterReport \<Rightarrow> pause_event_thread_step ctx st
      | SPauseNodes \<Rightarrow> Some ((call (pause_nodes_calls ctx k) st)\<lparr>stream_pc := SPostPaused\<rparr>)
      | SPostPaused \<Rightarrow> Some ((post_reply STREAM_PAUSED_EVENT st)\<lparr>stream_pc := SWaitResume\<rparr>)
      | SWaitResume \<Rightarrow> wait_stream_resume_step ctx st
      | SStopAfterResume \<Rightarrow> wait_stream_resume_step ctx st
      | SResumeNodes \<Rightarrow> wait_stream_resume_step ctx st
      | SPostResumed \<Rightarrow> wait_stream_resume_step ctx st
      | SStopTest \<Rightarrow> Some (st\<lparr>stream_pc := if stop_requested st then SDone else SLoad\<rparr>)
      | SDone \<Rightarrow> None)"

lemma stream_step_unfold:
  "stream_step ctx st =
     (let k = stream_context st in
      case stream_pc st of
        SLoad \<Rightarrow> Some (st\<lparr>stream_context := current_context st, stream_pc := SRun\<rparr>)
      | SRun \<Rightarrow>
          if scheduler_length (ctx k) > 0 then
            (case CG_BEFORE_NODE_EXECUTION (stream_event st) of
               (f, Some error) \<Rightarrow> Some (st\<lparr>stream_event := f, stream_pc := after_scheduler (ctx k) error\<rparr>)
             | (f, None) \<Rightarrow> None)
          else Some (st\<lparr>stream_pc := after_scheduler (ctx k) CG_STOP_SCHEDULER\<rparr>)
      | SPauseQueue r \<Rightarrow>
          Some ((call (if r = StopGraph \<or> scheduler_length (ctx k) > 0 then pause_nodes_calls ctx k else [])
            (on_queue k EventQueue_pause st))\<lparr>stream_pc := SWaitEvents r\<rparr>)
      | SWaitEvents r \<Rightarrow> map_option (\<lambda>(res, st). st\<lparr>stream_pc := SReport r\<rparr>) (wait_reply EVENT_PAUSED_EVENT st)
      | SReport r \<Rightarrow> Some ((call [stream_report r] st)\<lparr>stream_pc := SStopAfterReport\<rparr>)
      | SStopAfterReport \<Rightarrow> Some (st\<lparr>stream_pc := if stop_requested st then SStopTest else SPostPaused\<rparr>)
      | SPauseNodes \<Rightarrow> Some ((call (pause_nodes_calls ctx k) st)\<lparr>stream_pc := SPostPaused\<rparr>)
      | SPostPaused \<Rightarrow> Some ((post_reply STREAM_PAUSED_EVENT st)\<lparr>stream_pc := SWaitResume\<rparr>)
      | SWaitResume \<Rightarrow> map_option (\<lambda>(res, st). st\<lparr>stream_pc := SStopAfterResume\<rparr>)
          (wait_stream STREAM_RESUME_EVENT st)
      | SStopAfterResume \<Rightarrow> Some (st\<lparr>stream_pc := if stop_requested st then SStopTest else SResumeNodes\<rparr>)
      | SResumeNodes \<Rightarrow> Some ((call (resume_nodes_calls ctx (current_context st)) st)\<lparr>stream_pc := SPostResumed\<rparr>)
      | SPostResumed \<Rightarrow> Some ((post_reply STREAM_RESUMED_EVENT st)\<lparr>stream_pc := SStopTest\<rparr>)
      | SStopTest \<Rightarrow> Some (st\<lparr>stream_pc := if stop_requested st then SDone else SLoad\<rparr>)
      | SDone \<Rightarrow> None)"
  by (cases "stream_pc st") (simp_all add: stream_step_def pause_event_thread_step_def wait_stream_resume_step_def Let_def)

section \<open>The controlling thread\<close>

text \<open>The steps inside a call; a call that has returned is \<open>Idle\<close> again.\<close>

definition resume_failed :: "cg_error_origin \<Rightarrow> runtime \<Rightarrow> runtime" where
  "resume_failed origin st =
     call [report_runtime_error origin CG_RESUME_FAILURE CG_UNIDENTIFIED_NODE 0]
       (on_queue (current_context st) EventQueue_pause st)"

definition start_step :: "contexts \<Rightarrow> runtime \<Rightarrow> runtime option" where
  "start_step ctx st =
     (let k = current_context st in
      case control st of
        StartStream ok \<Rightarrow>
          Some (if ok then st\<lparr>stream_pc := SLoad, control := Idle Active\<rparr> else st\<lparr>control := StartEnd\<rparr>)
      | StartEnd \<Rightarrow> Some ((on_queue k EventQueue_end st)\<lparr>control := StartJoin\<rparr>)
      | StartJoin \<Rightarrow> if event_pc st = EDone
          then Some (st\<lparr>current_context := 0, control := Idle Stopped\<rparr>) else None
      | _ \<Rightarrow> None)"

definition pause_step :: "contexts \<Rightarrow> runtime \<Rightarrow> runtime option" where
  "pause_step ctx st =
     (let k = current_context st in
      case control st of
        PausePost \<Rightarrow> Some ((post_stream STREAM_PAUSE_EVENT st)\<lparr>control := PauseWaitStream\<rparr>)
      | PauseWaitStream \<Rightarrow> map_option (\<lambda>(res, st). st\<lparr>control := PauseWaitEvents\<rparr>)
          (wait_reply STREAM_PAUSED_EVENT st)
      | PauseWaitEvents \<Rightarrow> map_option (\<lambda>(res, st). st\<lparr>control := Idle Paused\<rparr>)
          (wait_reply EVENT_PAUSED_EVENT st)
      | _ \<Rightarrow> None)"

definition resume_step :: "contexts \<Rightarrow> runtime \<Rightarrow> runtime option" where
  "resume_step ctx st =
     (let k = current_context st in
      case control st of
        ResumeQueue \<Rightarrow> Some ((on_queue k EventQueue_resume st)\<lparr>control := ResumePost\<rparr>)
      | ResumePost \<Rightarrow> Some ((post_stream STREAM_RESUME_EVENT st)\<lparr>control := ResumeWaitStream\<rparr>)
      | ResumeWaitStream \<Rightarrow> map_option (\<lambda>(res, st).
            if raised STREAM_PAUSED_EVENT res then (resume_failed kStreamThread st)\<lparr>control := Idle Failed\<rparr>
            else st\<lparr>control := ResumePostEvents\<rparr>)
          (wait_reply (STREAM_RESUMED_EVENT OR STREAM_PAUSED_EVENT) st)
      | ResumePostEvents \<Rightarrow> Some ((post_stream EVENT_RESUME_EVENT st)\<lparr>control := ResumeWaitEvents\<rparr>)
      | ResumeWaitEvents \<Rightarrow> map_option (\<lambda>(res, st).
            if raised EVENT_PAUSED_EVENT res
            then (resume_failed kEventThread st)
              \<lparr>control := if scheduler_length (ctx k) > 0 then ResumeFailPost else Idle Failed\<rparr>
            else st\<lparr>control := ResumeClear\<rparr>)
          (wait_reply (EVENT_RESUMED_EVENT OR EVENT_PAUSED_EVENT) st)
      | ResumeFailPost \<Rightarrow> Some ((post_stream STREAM_PAUSE_EVENT st)\<lparr>control := ResumeFailWait\<rparr>)
      | ResumeFailWait \<Rightarrow> map_option (\<lambda>(res, st). st\<lparr>control := Idle Failed\<rparr>)
          (wait_reply STREAM_PAUSED_EVENT st)
      | ResumeClear \<Rightarrow> Some (st\<lparr>reply_event :=
            flags_clear (STREAM_PAUSED_EVENT OR EVENT_PAUSED_EVENT) (reply_event st), control := Idle Active\<rparr>)
      | _ \<Rightarrow> None)"

definition stop_step :: "contexts \<Rightarrow> runtime \<Rightarrow> runtime option" where
  "stop_step ctx st =
     (let k = current_context st in
      case control st of
        StopQueue \<Rightarrow> Some ((if k \<noteq> 0 \<and> has_evtQueue (ctx k) then on_queue k EventQueue_end st else st)
            \<lparr>control := StopPost\<rparr>)
      | StopPost \<Rightarrow> Some ((post_stream (STREAM_DONE_EVENT OR STREAM_RESUME_EVENT OR EVENT_RESUME_EVENT) st)
            \<lparr>control := StopReply\<rparr>)
      | StopReply \<Rightarrow> Some ((post_reply (STREAM_PAUSED_EVENT OR STREAM_RESUMED_EVENT OR
              EVENT_PAUSED_EVENT OR EVENT_RESUMED_EVENT) st)\<lparr>control := StopJoin\<rparr>)
      | StopJoin \<Rightarrow> if event_pc st = EDone \<and> stream_pc st = SDone
          then Some (st\<lparr>current_context := 0, control := Idle Stopped\<rparr>) else None
      | _ \<Rightarrow> None)"

definition wait_end_step :: "contexts \<Rightarrow> runtime \<Rightarrow> runtime option" where
  "wait_end_step ctx st =
     (case control st of
        WaitEnd \<Rightarrow> if event_pc st = EDone \<and> stream_pc st = SDone
          then Some (st\<lparr>current_context := 0, control := Idle Stopped\<rparr>) else None
      | _ \<Rightarrow> None)"

definition control_step :: "contexts \<Rightarrow> runtime \<Rightarrow> runtime option" where
  "control_step ctx st =
     (case control st of
        Idle p \<Rightarrow> None
      | StartStream ok \<Rightarrow> start_step ctx st
      | StartEnd \<Rightarrow> start_step ctx st
      | StartJoin \<Rightarrow> start_step ctx st
      | PausePost \<Rightarrow> pause_step ctx st
      | PauseWaitStream \<Rightarrow> pause_step ctx st
      | PauseWaitEvents \<Rightarrow> pause_step ctx st
      | ResumeQueue \<Rightarrow> resume_step ctx st
      | ResumePost \<Rightarrow> resume_step ctx st
      | ResumeWaitStream \<Rightarrow> resume_step ctx st
      | ResumePostEvents \<Rightarrow> resume_step ctx st
      | ResumeWaitEvents \<Rightarrow> resume_step ctx st
      | ResumeFailPost \<Rightarrow> resume_step ctx st
      | ResumeFailWait \<Rightarrow> resume_step ctx st
      | ResumeClear \<Rightarrow> resume_step ctx st
      | StopQueue \<Rightarrow> stop_step ctx st
      | StopPost \<Rightarrow> stop_step ctx st
      | StopReply \<Rightarrow> stop_step ctx st
      | StopJoin \<Rightarrow> stop_step ctx st
      | WaitEnd \<Rightarrow> wait_end_step ctx st)"

lemma control_step_unfold:
  "control_step ctx st =
     (let k = current_context st in
      case control st of
        Idle p \<Rightarrow> None
      | StartStream ok \<Rightarrow>
          Some (if ok then st\<lparr>stream_pc := SLoad, control := Idle Active\<rparr> else st\<lparr>control := StartEnd\<rparr>)
      | StartEnd \<Rightarrow> Some ((on_queue k EventQueue_end st)\<lparr>control := StartJoin\<rparr>)
      | StartJoin \<Rightarrow> if event_pc st = EDone
          then Some (st\<lparr>current_context := 0, control := Idle Stopped\<rparr>) else None
      | PausePost \<Rightarrow> Some ((post_stream STREAM_PAUSE_EVENT st)\<lparr>control := PauseWaitStream\<rparr>)
      | PauseWaitStream \<Rightarrow> map_option (\<lambda>(res, st). st\<lparr>control := PauseWaitEvents\<rparr>)
          (wait_reply STREAM_PAUSED_EVENT st)
      | PauseWaitEvents \<Rightarrow> map_option (\<lambda>(res, st). st\<lparr>control := Idle Paused\<rparr>)
          (wait_reply EVENT_PAUSED_EVENT st)
      | ResumeQueue \<Rightarrow> Some ((on_queue k EventQueue_resume st)\<lparr>control := ResumePost\<rparr>)
      | ResumePost \<Rightarrow> Some ((post_stream STREAM_RESUME_EVENT st)\<lparr>control := ResumeWaitStream\<rparr>)
      | ResumeWaitStream \<Rightarrow> map_option (\<lambda>(res, st).
            if raised STREAM_PAUSED_EVENT res then (resume_failed kStreamThread st)\<lparr>control := Idle Failed\<rparr>
            else st\<lparr>control := ResumePostEvents\<rparr>)
          (wait_reply (STREAM_RESUMED_EVENT OR STREAM_PAUSED_EVENT) st)
      | ResumePostEvents \<Rightarrow> Some ((post_stream EVENT_RESUME_EVENT st)\<lparr>control := ResumeWaitEvents\<rparr>)
      | ResumeWaitEvents \<Rightarrow> map_option (\<lambda>(res, st).
            if raised EVENT_PAUSED_EVENT res
            then (resume_failed kEventThread st)
              \<lparr>control := if scheduler_length (ctx k) > 0 then ResumeFailPost else Idle Failed\<rparr>
            else st\<lparr>control := ResumeClear\<rparr>)
          (wait_reply (EVENT_RESUMED_EVENT OR EVENT_PAUSED_EVENT) st)
      | ResumeFailPost \<Rightarrow> Some ((post_stream STREAM_PAUSE_EVENT st)\<lparr>control := ResumeFailWait\<rparr>)
      | ResumeFailWait \<Rightarrow> map_option (\<lambda>(res, st). st\<lparr>control := Idle Failed\<rparr>)
          (wait_reply STREAM_PAUSED_EVENT st)
      | ResumeClear \<Rightarrow> Some (st\<lparr>reply_event :=
            flags_clear (STREAM_PAUSED_EVENT OR EVENT_PAUSED_EVENT) (reply_event st), control := Idle Active\<rparr>)
      | StopQueue \<Rightarrow> Some ((if k \<noteq> 0 \<and> has_evtQueue (ctx k) then on_queue k EventQueue_end st else st)
            \<lparr>control := StopPost\<rparr>)
      | StopPost \<Rightarrow> Some ((post_stream (STREAM_DONE_EVENT OR STREAM_RESUME_EVENT OR EVENT_RESUME_EVENT) st)
            \<lparr>control := StopReply\<rparr>)
      | StopReply \<Rightarrow> Some ((post_reply (STREAM_PAUSED_EVENT OR STREAM_RESUMED_EVENT OR
              EVENT_PAUSED_EVENT OR EVENT_RESUMED_EVENT) st)\<lparr>control := StopJoin\<rparr>)
      | StopJoin \<Rightarrow> if event_pc st = EDone \<and> stream_pc st = SDone
          then Some (st\<lparr>current_context := 0, control := Idle Stopped\<rparr>) else None
      | WaitEnd \<Rightarrow> if event_pc st = EDone \<and> stream_pc st = SDone
          then Some (st\<lparr>current_context := 0, control := Idle Stopped\<rparr>) else None)"
  by (cases "control st") (simp_all add: control_step_def start_step_def pause_step_def resume_step_def stop_step_def wait_end_step_def Let_def)

text \<open>
  The calls. Starting depends on whether the two threads can be created; \<open>NewQueue\<close> is the application
  that gives a context a new queue.
\<close>

datatype control_call = Start nat bool bool | Pause | Resume nat | Stop | WaitForEnd | NewQueue nat

definition valid_context :: "contexts \<Rightarrow> nat \<Rightarrow> bool" where
  "valid_context ctx k \<longleftrightarrow> k \<noteq> 0 \<and> has_evtQueue (ctx k)"

definition start_call :: "contexts \<Rightarrow> nat \<Rightarrow> bool \<Rightarrow> bool \<Rightarrow> runtime \<Rightarrow> runtime" where
  "start_call ctx k event_started stream_started st =
     (if \<not> valid_context ctx k then st
        else if event_started then st\<lparr>current_context := k, stop_requested := False, event_pc := ELoad,
          control := StartStream stream_started\<rparr>
        else (on_queue k EventQueue_end st)\<lparr>current_context := 0, stop_requested := False\<rparr>)"

definition pause_call :: "contexts \<Rightarrow> runtime \<Rightarrow> runtime" where
  "pause_call ctx st =
     (on_queue (current_context st) EventQueue_pause st)
            \<lparr>control := if scheduler_length (ctx (current_context st)) > 0 then PausePost else PauseWaitEvents\<rparr>"

definition resume_call :: "contexts \<Rightarrow> nat \<Rightarrow> runtime \<Rightarrow> runtime" where
  "resume_call ctx k st =
     (if \<not> valid_context ctx k then st else st\<lparr>current_context := k, control := ResumeQueue\<rparr>)"

definition stop_call :: "runtime \<Rightarrow> runtime" where
  "stop_call st = st\<lparr>stop_requested := True, control := StopQueue\<rparr>"

definition begin_call :: "contexts \<Rightarrow> control_call \<Rightarrow> runtime \<Rightarrow> runtime" where
  "begin_call ctx c st =
     (case c of
        Start k event_started stream_started \<Rightarrow> start_call ctx k event_started stream_started st
      | Pause \<Rightarrow> pause_call ctx st
      | Resume k \<Rightarrow> resume_call ctx k st
      | Stop \<Rightarrow> stop_call st
      | WaitForEnd \<Rightarrow> st\<lparr>control := WaitEnd\<rparr>
      | NewQueue k \<Rightarrow> on_queue k (\<lambda>q. new_requests) st)"

lemma begin_call_unfold:
  "begin_call ctx c st =
     (case c of
        Start k event_started stream_started \<Rightarrow>
          if \<not> valid_context ctx k then st
          else if event_started then st\<lparr>current_context := k, stop_requested := False, event_pc := ELoad,
            control := StartStream stream_started\<rparr>
          else (on_queue k EventQueue_end st)\<lparr>current_context := 0, stop_requested := False\<rparr>
      | Pause \<Rightarrow>
          (on_queue (current_context st) EventQueue_pause st)
            \<lparr>control := if scheduler_length (ctx (current_context st)) > 0 then PausePost else PauseWaitEvents\<rparr>
      | Resume k \<Rightarrow>
          if \<not> valid_context ctx k then st else st\<lparr>current_context := k, control := ResumeQueue\<rparr>
      | Stop \<Rightarrow> st\<lparr>stop_requested := True, control := StopQueue\<rparr>
      | WaitForEnd \<Rightarrow> st\<lparr>control := WaitEnd\<rparr>
      | NewQueue k \<Rightarrow> on_queue k (\<lambda>q. new_requests) st)"
  by (cases c) (simp_all add: begin_call_def start_call_def pause_call_def resume_call_def stop_call_def)

text \<open>
  When a call may be made: one at a time, on threads that run, and the context is changed only in
  a pause.
\<close>

definition may_call :: "control_call \<Rightarrow> runtime \<Rightarrow> bool" where
  "may_call c st =
     (case control st of
        Idle p \<Rightarrow>
          (case c of
             Start k e s \<Rightarrow> p = Stopped
           | Pause \<Rightarrow> p \<noteq> Stopped
           | Resume k \<Rightarrow> p \<noteq> Stopped \<and> (p = Paused \<or> k = current_context st)
           | Stop \<Rightarrow> True
           | WaitForEnd \<Rightarrow> True
           | NewQueue k \<Rightarrow> p = Stopped)
      | _ \<Rightarrow> False)"

section \<open>Runs\<close>

text \<open>
  Besides the threads, a scheduler may return a status of its own and a message may leave an error in
  a queue.
\<close>

datatype actor = Controller | EventThread | StreamThread
  | SchedulerReturns cg_status | QueueError nat cg_status int int | Call control_call

fun runtime_step :: "contexts \<Rightarrow> actor \<Rightarrow> runtime \<Rightarrow> runtime option" where
  "runtime_step ctx Controller st = control_step ctx st"
| "runtime_step ctx EventThread st = event_step ctx st"
| "runtime_step ctx StreamThread st = stream_step ctx st"
| "runtime_step ctx (SchedulerReturns error) st =
     (let c = ctx (stream_context st) in
      if stream_pc st = SRun \<and> scheduler_length c > 0 then Some (st\<lparr>stream_pc := after_scheduler c error\<rparr>)
      else None)"
| "runtime_step ctx (QueueError k status node info) st =
     Some (on_queue k (setError EventQueue_pause status node info) st)"
| "runtime_step ctx (Call c) st = (if may_call c st then Some (begin_call ctx c st) else None)"

fun run :: "contexts \<Rightarrow> actor list \<Rightarrow> runtime \<Rightarrow> runtime option" where
  "run ctx [] st = Some st"
| "run ctx (a # as) st = (case runtime_step ctx a st of Some st' \<Rightarrow> run ctx as st' | None \<Rightarrow> None)"

inductive reachable :: "contexts \<Rightarrow> runtime \<Rightarrow> bool" for ctx where
  boot: "reachable ctx boot"
| step: "reachable ctx st \<Longrightarrow> runtime_step ctx a st = Some st' \<Longrightarrow> reachable ctx st'"

section \<open>The steps by the place of the thread\<close>

lemmas flag_ops = post_stream_def post_reply_def wait_stream_def wait_reply_def flags_wait_forever
  on_queue_def call_def

lemmas queue_requests = mustPause_def mustEnd_def consumeError_def EventQueue_pause_def EventQueue_end_def
  EventQueue_resume_def clearError_def setError_def

lemma event_step_cases:
  assumes "event_step ctx st = Some st'"
  obtains
    "event_pc st = ELoad" "st' = st\<lparr>event_context := current_context st, event_pc := EExecute\<rparr>"
  | "event_pc st = EExecute" "must_pause (queues st (event_context st)) \<or> must_end (queues st (event_context st))"
      "st' = st\<lparr>event_pc := EReturned\<rparr>"
  | "event_pc st = EReturned" "st' = st\<lparr>event_pc := if must_end (queues st (event_context st)) then EDone else EConsume\<rparr>"
  | "event_pc st = EConsume" "\<not> error_pending (queues st (event_context st))"
      "st' = st\<lparr>queues := (queues st)(event_context st := (queues st (event_context st))\<lparr>error_pending := False\<rparr>),
        event_pc := EPauseNodes None\<rparr>"
  | e where "event_pc st = EConsume" "error_pending (queues st (event_context st))"
      "scheduler_length (ctx (event_context st)) > 0"
      "st' = st\<lparr>queues := (queues st)(event_context st := (queues st (event_context st))\<lparr>error_pending := False\<rparr>),
        event_pc := EPeerPost e\<rparr>"
  | e where "event_pc st = EConsume" "error_pending (queues st (event_context st))"
      "scheduler_length (ctx (event_context st)) = 0"
      "st' = st\<lparr>queues := (queues st)(event_context st := (queues st (event_context st))\<lparr>error_pending := False\<rparr>),
        event_pc := EPauseNodes (Some e)\<rparr>"
  | e where "event_pc st = EPeerPost e" "st' = st\<lparr>stream_event := flags_post 1 (stream_event st), event_pc := EPeerWait e\<rparr>"
  | e where "event_pc st = EPeerWait e" "raised 1 (reply_event st)"
      "st' = st\<lparr>reply_event := flags_clear 1 (reply_event st), event_pc := EPauseNodes (Some e)\<rparr>"
  | e where "event_pc st = EPauseNodes e"
      "st' = st\<lparr>calls := rev ((if scheduler_length (ctx (event_context st)) = 0
         then pause_nodes_calls ctx (event_context st) else []) @ event_report e) @ calls st, event_pc := EStopTest\<rparr>"
  | "event_pc st = EStopTest" "st' = st\<lparr>event_pc := if stop_requested st then EDone else EPost\<rparr>"
  | "event_pc st = EPost" "st' = st\<lparr>reply_event := flags_post 4 (reply_event st), event_pc := EWaitResume\<rparr>"
  | "event_pc st = EWaitResume" "raised 4 (stream_event st)"
      "st' = st\<lparr>stream_event := flags_clear 4 (stream_event st), event_pc := EPostResumed\<rparr>"
  | "event_pc st = EPostResumed" "st' = st\<lparr>reply_event := flags_post 8 (reply_event st), event_pc := ELoad\<rparr>"
proof (cases "event_pc st")
  case ELoad
  with assms show thesis by (intro that(1)) (auto simp: event_step_unfold flag_ops queue_requests Let_def split: if_splits)
next
  case EExecute
  with assms show thesis by (intro that(2)) (auto simp: event_step_unfold flag_ops queue_requests Let_def split: if_splits)
next
  case EReturned
  with assms show thesis by (intro that(3)) (auto simp: event_step_unfold flag_ops queue_requests Let_def split: if_splits)
next
  case EConsume
  show thesis
  proof (cases "error_pending (queues st (event_context st))")
    case True
    then show thesis
      using EConsume assms that(5,6) by (auto simp: event_step_unfold flag_ops queue_requests Let_def split: if_splits)
  next
    case False
    then show thesis
      using EConsume assms by (intro that(4)) (auto simp: event_step_unfold flag_ops queue_requests Let_def)
  qed
next
  case (EPeerPost e)
  with assms show thesis by (intro that(7)) (auto simp: event_step_unfold flag_ops queue_requests Let_def split: if_splits)
next
  case (EPeerWait e)
  with assms show thesis by (intro that(8)) (auto simp: event_step_unfold flag_ops queue_requests Let_def split: if_splits)
next
  case (EPauseNodes e)
  with assms show thesis by (intro that(9)) (auto simp: event_step_unfold flag_ops queue_requests Let_def split: if_splits)
next
  case EStopTest
  with assms show thesis by (intro that(10)) (auto simp: event_step_unfold flag_ops queue_requests Let_def split: if_splits)
next
  case EPost
  with assms show thesis by (intro that(11)) (auto simp: event_step_unfold flag_ops queue_requests Let_def split: if_splits)
next
  case EWaitResume
  with assms show thesis by (intro that(12)) (auto simp: event_step_unfold flag_ops queue_requests Let_def split: if_splits)
next
  case EPostResumed
  with assms show thesis by (intro that(13)) (auto simp: event_step_unfold flag_ops queue_requests Let_def split: if_splits)
next
  case EDone
  with assms show thesis by (simp add: event_step_unfold)
qed

lemma stream_step_cases:
  assumes "stream_step ctx st = Some st'"
  obtains
    "stream_pc st = SLoad" "st' = st\<lparr>stream_context := current_context st, stream_pc := SRun\<rparr>"
  | "stream_pc st = SRun" "scheduler_length (ctx (stream_context st)) > 0" "raised 8 (stream_event st)"
      "st' = st\<lparr>stream_event := flags_clear 9 (stream_event st), stream_pc := SPauseQueue StopGraph\<rparr>"
  | "stream_pc st = SRun" "scheduler_length (ctx (stream_context st)) > 0" "raised 1 (stream_event st)" "\<not> raised 8 (stream_event st)"
      "st' = st\<lparr>stream_event := flags_clear 9 (stream_event st), stream_pc := SPauseNodes\<rparr>"
  | "stream_pc st = SRun" "scheduler_length (ctx (stream_context st)) = 0" "st' = st\<lparr>stream_pc := SWaitResume\<rparr>"
  | r where "stream_pc st = SPauseQueue r" "st' = (call (if r = StopGraph \<or> scheduler_length (ctx (stream_context st)) > 0
        then pause_nodes_calls ctx (stream_context st) else []) (on_queue (stream_context st) EventQueue_pause st))
      \<lparr>stream_pc := SWaitEvents r\<rparr>"
  | r where "stream_pc st = SWaitEvents r" "raised 4 (reply_event st)"
      "st' = st\<lparr>reply_event := flags_clear 4 (reply_event st), stream_pc := SReport r\<rparr>"
  | r where "stream_pc st = SReport r" "st' = st\<lparr>calls := stream_report r # calls st, stream_pc := SStopAfterReport\<rparr>"
  | "stream_pc st = SStopAfterReport" "st' = st\<lparr>stream_pc := if stop_requested st then SStopTest else SPostPaused\<rparr>"
  | "stream_pc st = SPauseNodes" "st' = st\<lparr>calls := rev (pause_nodes_calls ctx (stream_context st)) @ calls st, stream_pc := SPostPaused\<rparr>"
  | "stream_pc st = SPostPaused" "st' = st\<lparr>reply_event := flags_post 1 (reply_event st), stream_pc := SWaitResume\<rparr>"
  | "stream_pc st = SWaitResume" "raised 2 (stream_event st)"
      "st' = st\<lparr>stream_event := flags_clear 2 (stream_event st), stream_pc := SStopAfterResume\<rparr>"
  | "stream_pc st = SStopAfterResume" "st' = st\<lparr>stream_pc := if stop_requested st then SStopTest else SResumeNodes\<rparr>"
  | "stream_pc st = SResumeNodes"
      "st' = st\<lparr>calls := rev (resume_nodes_calls ctx (current_context st)) @ calls st, stream_pc := SPostResumed\<rparr>"
  | "stream_pc st = SPostResumed" "st' = st\<lparr>reply_event := flags_post 2 (reply_event st), stream_pc := SStopTest\<rparr>"
  | "stream_pc st = SStopTest" "st' = st\<lparr>stream_pc := if stop_requested st then SDone else SLoad\<rparr>"
proof (cases "stream_pc st")
  case SRun
  with assms that(2-4) show thesis
    by (auto simp: stream_step_unfold before_node after_scheduler_def is_runtime_scheduler_error_def Let_def split: if_splits)
next
  case (SPauseQueue r)
  with assms that(5) show thesis by (auto simp: stream_step_unfold Let_def)
next
  case SLoad
  with assms show thesis by (intro that(1)) (auto simp: stream_step_unfold flag_ops Let_def split: if_splits)
next
  case (SWaitEvents r)
  with assms show thesis by (intro that(6)) (auto simp: stream_step_unfold flag_ops Let_def split: if_splits)
next
  case (SReport r)
  with assms show thesis by (intro that(7)) (auto simp: stream_step_unfold flag_ops Let_def split: if_splits)
next
  case SStopAfterReport
  with assms show thesis by (intro that(8)) (auto simp: stream_step_unfold flag_ops Let_def split: if_splits)
next
  case SPauseNodes
  with assms show thesis by (intro that(9)) (auto simp: stream_step_unfold flag_ops Let_def split: if_splits)
next
  case SPostPaused
  with assms show thesis by (intro that(10)) (auto simp: stream_step_unfold flag_ops Let_def split: if_splits)
next
  case SWaitResume
  with assms show thesis by (intro that(11)) (auto simp: stream_step_unfold flag_ops Let_def split: if_splits)
next
  case SStopAfterResume
  with assms show thesis by (intro that(12)) (auto simp: stream_step_unfold flag_ops Let_def split: if_splits)
next
  case SResumeNodes
  with assms show thesis by (intro that(13)) (auto simp: stream_step_unfold flag_ops Let_def split: if_splits)
next
  case SPostResumed
  with assms show thesis by (intro that(14)) (auto simp: stream_step_unfold flag_ops Let_def split: if_splits)
next
  case SStopTest
  with assms show thesis by (intro that(15)) (auto simp: stream_step_unfold flag_ops Let_def split: if_splits)
next
  case SDone
  with assms show thesis by (simp add: stream_step_unfold)
qed

section \<open>What happens on every path\<close>

text \<open>
  \<open>always_reaches step acts goal st\<close>: from \<open>st\<close>, however the steps of the actors \<open>acts\<close> interleave,
  the goal is reached, and until then one of them has a step.
\<close>

inductive always_reaches :: "('a \<Rightarrow> 's \<Rightarrow> 's option) \<Rightarrow> ('a \<Rightarrow> bool) \<Rightarrow> ('s \<Rightarrow> bool) \<Rightarrow> 's \<Rightarrow> bool"
  for step acts goal where
  here: "goal st \<Longrightarrow> always_reaches step acts goal st"
| there: "acts a \<Longrightarrow> step a st = Some st' \<Longrightarrow>
    (\<And>b st''. acts b \<Longrightarrow> step b st = Some st'' \<Longrightarrow> always_reaches step acts goal st'') \<Longrightarrow>
    always_reaches step acts goal st"

lemma always_reaches_mono:
  "always_reaches step acts goal st \<Longrightarrow> (\<And>s. goal s \<Longrightarrow> goal' s) \<Longrightarrow> always_reaches step acts goal' st"
proof (induction rule: always_reaches.induct)
  case (there a st st')
  show ?case
  proof (rule always_reaches.there)
    show "acts a" "step a st = Some st'" by fact+
  qed (use there in blast)
qed (simp add: always_reaches.here)

lemma always_reaches_measure:
  fixes rank :: "'s \<Rightarrow> nat"
  assumes progress: "\<And>st. I st \<Longrightarrow> \<not> goal st \<Longrightarrow> \<exists>a st'. acts a \<and> step a st = Some st'"
    and keeps: "\<And>st a st'. I st \<Longrightarrow> \<not> goal st \<Longrightarrow> acts a \<Longrightarrow> step a st = Some st' \<Longrightarrow>
      I st' \<and> rank st' < rank st"
    and start: "I st"
  shows "always_reaches step acts goal st"
  using start
proof (induction "rank st" arbitrary: st rule: less_induct)
  case less
  show ?case
  proof (cases "goal st")
    case True
    then show ?thesis by (rule always_reaches.here)
  next
    case False
    with progress [OF less.prems] obtain a st' where "acts a" "step a st = Some st'" by blast
    then show ?thesis
    proof (rule always_reaches.there)
      fix b st''
      assume "acts b" "step b st = Some st''"
      with keeps [OF less.prems False] less.hyps show "always_reaches step acts goal st''" by blast
    qed
  qed
qed

end
