(* ===== verification/RuntimeCalls.thy ===== *)
theory RuntimeCalls
  imports Runtime
begin

text \<open>
  Orderly use of the runtime: no node and no scheduler fails, the application pauses an active runtime,
  resumes a paused one and starts it only before the first stop. Then a pause parks both threads with
  the nodes paused, a resume wakes both on the new context, no flag is left between calls, and every
  call returns however the threads are scheduled.
\<close>

unbundle bit_operations_syntax

section \<open>Orderly runs\<close>

definition thread_actor :: "actor \<Rightarrow> bool" where
  "thread_actor a \<longleftrightarrow> a = Controller \<or> a = EventThread \<or> a = StreamThread"

definition fresh_queue :: "event_queue \<Rightarrow> bool" where
  "fresh_queue q \<longleftrightarrow> \<not> must_pause q \<and> \<not> must_end q \<and> \<not> error_pending q"

text \<open>
  From a pure event graph only another pure event graph is resumed, or the same graph: its stream
  thread is not paused (\<open>switch_from_pure_graph_hangs\<close> in \<^verbatim>\<open>RuntimeErrors\<close>).
\<close>

definition orderly_call :: "contexts \<Rightarrow> control_call \<Rightarrow> runtime \<Rightarrow> bool" where
  "orderly_call ctx c st =
     (case c of
        Start k e s \<Rightarrow> control st = Idle Stopped \<and> \<not> stop_requested st \<and> fresh_queue (queues st k)
      | Pause \<Rightarrow> control st = Idle Active
      | Resume k \<Rightarrow> control st = Idle Paused \<and> \<not> must_end (queues st k) \<and>
          (k = current_context st \<or> scheduler_length (ctx (current_context st)) > 0 \<or> scheduler_length (ctx k) = 0)
      | Stop \<Rightarrow> True
      | WaitForEnd \<Rightarrow> control st = Idle Stopped
      | NewQueue k \<Rightarrow> True)"

inductive orderly :: "contexts \<Rightarrow> runtime \<Rightarrow> bool" for ctx where
  boot: "orderly ctx boot"
| thread: "orderly ctx st \<Longrightarrow> thread_actor a \<Longrightarrow> runtime_step ctx a st = Some st' \<Longrightarrow> orderly ctx st'"
| call: "orderly ctx st \<Longrightarrow> may_call c st \<Longrightarrow> orderly_call ctx c st \<Longrightarrow> orderly ctx (begin_call ctx c st)"

section \<open>The calls to the nodes\<close>

primrec nodes_paused :: "nat \<Rightarrow> graph_call list \<Rightarrow> bool" where
  "nodes_paused k [] = False"
| "nodes_paused k (c # cs) = (if c = PauseNodes k then True else if c = ResumeNodes k then False else nodes_paused k cs)"

definition nodes_parked :: "contexts \<Rightarrow> runtime \<Rightarrow> bool" where
  "nodes_parked ctx st \<longleftrightarrow>
     (has_pause_all_nodes (ctx (current_context st)) \<longrightarrow> nodes_paused (current_context st) (calls st))"

definition nodes_live :: "contexts \<Rightarrow> runtime \<Rightarrow> bool" where
  "nodes_live ctx st \<longleftrightarrow>
     (has_resume_all_nodes (ctx (current_context st)) \<longrightarrow> \<not> nodes_paused (current_context st) (calls st))"

text \<open>A schedule of an orderly run, for concrete runs.\<close>

fun orderly_actor :: "contexts \<Rightarrow> actor \<Rightarrow> runtime \<Rightarrow> bool" where
  "orderly_actor ctx (Call c) st = orderly_call ctx c st"
| "orderly_actor ctx Controller st = True"
| "orderly_actor ctx EventThread st = True"
| "orderly_actor ctx StreamThread st = True"
| "orderly_actor ctx a st = False"

fun orderly_run :: "contexts \<Rightarrow> actor list \<Rightarrow> runtime \<Rightarrow> runtime option" where
  "orderly_run ctx [] st = Some st"
| "orderly_run ctx (a # as) st =
     (if orderly_actor ctx a st then
        (case runtime_step ctx a st of Some st' \<Rightarrow> orderly_run ctx as st' | None \<Rightarrow> None)
      else None)"

lemma orderly_step:
  assumes "orderly ctx st" "orderly_actor ctx a st" "runtime_step ctx a st = Some st'"
  shows "orderly ctx st'"
proof (cases a)
  case (Call c)
  with assms show ?thesis by (auto split: if_splits intro: orderly.call)
qed (use assms in \<open>auto intro!: orderly.thread [of ctx st a st'] simp: thread_actor_def\<close>)

lemma orderly_run_orderly:
  "orderly ctx st \<Longrightarrow> orderly_run ctx as st = Some st' \<Longrightarrow> orderly ctx st'"
  by (induction ctx as st rule: orderly_run.induct) (auto split: if_splits option.splits dest: orderly_step)

section \<open>The invariant\<close>

abbreviation dataflow :: "contexts \<Rightarrow> runtime \<Rightarrow> bool" where
  "dataflow ctx st \<equiv> 0 < scheduler_length (ctx (current_context st))"

definition event_running :: "runtime \<Rightarrow> bool" where
  "event_running st \<longleftrightarrow> event_pc st = ELoad \<or> event_pc st = EExecute \<and> event_context st = current_context st"

definition queue_open :: "runtime \<Rightarrow> bool" where
  "queue_open st \<longleftrightarrow> \<not> must_pause (queues st (current_context st)) \<and> \<not> must_end (queues st (current_context st))"

definition event_flags :: "runtime \<Rightarrow> bool \<Rightarrow> bool \<Rightarrow> bool \<Rightarrow> bool" where
  "event_flags st wake paused resumed \<longleftrightarrow>
     (raised 4 (stream_event st) \<longleftrightarrow> wake) \<and> (raised 4 (reply_event st) \<longleftrightarrow> paused) \<and>
     (raised 8 (reply_event st) \<longleftrightarrow> resumed)"

definition stream_flags :: "runtime \<Rightarrow> bool \<Rightarrow> bool \<Rightarrow> bool \<Rightarrow> bool \<Rightarrow> bool" where
  "stream_flags st stop wake paused resumed \<longleftrightarrow>
     (raised 1 (stream_event st) \<longleftrightarrow> stop) \<and> (raised 2 (stream_event st) \<longleftrightarrow> wake) \<and>
     (raised 1 (reply_event st) \<longleftrightarrow> paused) \<and> (raised 2 (reply_event st) \<longleftrightarrow> resumed)"

text \<open>The event thread on its way from the execution to the wait.\<close>

definition event_pausing :: "contexts \<Rightarrow> runtime \<Rightarrow> bool" where
  "event_pausing ctx st \<longleftrightarrow>
     event_running st \<or>
     (event_pc st = EReturned \<or> event_pc st = EConsume \<or> event_pc st = EPauseNodes None) \<and>
       event_context st = current_context st \<or>
     (event_pc st = EStopTest \<or> event_pc st = EPost) \<and> (dataflow ctx st \<or> nodes_parked ctx st)"

definition event_ok :: "contexts \<Rightarrow> runtime \<Rightarrow> bool" where
  "event_ok ctx st =
     (let q = queues st (current_context st) in
      case control st of
        Idle Stopped \<Rightarrow> event_pc st = EDone \<and> event_flags st False False False
      | WaitEnd \<Rightarrow> event_pc st = EDone \<and> event_flags st False False False
      | StartStream ok \<Rightarrow> event_running st \<and> queue_open st \<and> event_flags st False False False
      | StartEnd \<Rightarrow> event_running st \<and> queue_open st \<and> event_flags st False False False
      | StartJoin \<Rightarrow> must_end q \<and> event_flags st False False False \<and>
          (event_running st \<or> event_pc st = EReturned \<and> event_context st = current_context st \<or> event_pc st = EDone)
      | Idle Active \<Rightarrow> event_running st \<and> queue_open st \<and> event_flags st False False False
      | ResumeClear \<Rightarrow> event_running st \<and> queue_open st \<and> event_flags st False False False
      | Idle Paused \<Rightarrow> event_pc st = EWaitResume \<and> \<not> must_end q \<and> event_flags st False False False \<and>
          (dataflow ctx st \<or> nodes_parked ctx st)
      | ResumeQueue \<Rightarrow> event_pc st = EWaitResume \<and> \<not> must_end q \<and> event_flags st False False False
      | ResumePost \<Rightarrow> event_pc st = EWaitResume \<and> queue_open st \<and> event_flags st False False False
      | ResumeWaitStream \<Rightarrow> event_pc st = EWaitResume \<and> queue_open st \<and> event_flags st False False False
      | ResumePostEvents \<Rightarrow> event_pc st = EWaitResume \<and> queue_open st \<and> event_flags st False False False
      | ResumeWaitEvents \<Rightarrow> queue_open st \<and>
          (event_pc st = EWaitResume \<and> event_flags st True False False \<or>
           event_pc st = EPostResumed \<and> event_flags st False False False \<or>
           event_running st \<and> event_flags st False False True)
      | Idle Failed \<Rightarrow> False
      | ResumeFailPost \<Rightarrow> False
      | ResumeFailWait \<Rightarrow> False
      | StopQueue \<Rightarrow> False | StopPost \<Rightarrow> False | StopReply \<Rightarrow> False | StopJoin \<Rightarrow> False
      | _ \<Rightarrow> must_pause q \<and> \<not> must_end q \<and>
          (event_pausing ctx st \<and> event_flags st False False False \<or>
           event_pc st = EWaitResume \<and> event_flags st False True False \<and> (dataflow ctx st \<or> nodes_parked ctx st)))"

text \<open>The stream thread of a pure event graph is never asked to pause: it waits for a resume by itself.\<close>

definition stream_running :: "contexts \<Rightarrow> runtime \<Rightarrow> bool" where
  "stream_running ctx st \<longleftrightarrow>
     stream_pc st = SStopTest \<or> stream_pc st = SLoad \<or>
     stream_pc st = SRun \<and> (if dataflow ctx st then stream_context st = current_context st
                             else scheduler_length (ctx (stream_context st)) = 0) \<or>
     stream_pc st = SWaitResume \<and> \<not> dataflow ctx st"

definition stream_parked :: "contexts \<Rightarrow> runtime \<Rightarrow> bool" where
  "stream_parked ctx st \<longleftrightarrow> \<not> dataflow ctx st \<and> stream_running ctx st \<or> dataflow ctx st \<and> stream_pc st = SWaitResume"

definition stream_ok :: "contexts \<Rightarrow> runtime \<Rightarrow> bool" where
  "stream_ok ctx st =
     (case control st of
        Idle Stopped \<Rightarrow> stream_pc st = SDone \<and> stream_flags st False False False False \<and> calls st = []
      | WaitEnd \<Rightarrow> stream_pc st = SDone \<and> stream_flags st False False False False \<and> calls st = []
      | StartStream ok \<Rightarrow> stream_pc st = SDone \<and> stream_flags st False False False False \<and> calls st = []
      | StartEnd \<Rightarrow> stream_pc st = SDone \<and> stream_flags st False False False False \<and> calls st = []
      | StartJoin \<Rightarrow> stream_pc st = SDone \<and> stream_flags st False False False False \<and> calls st = []
      | PausePost \<Rightarrow> dataflow ctx st \<and> stream_running ctx st \<and> stream_flags st False False False False
      | PauseWaitStream \<Rightarrow> dataflow ctx st \<and>
          (stream_running ctx st \<and> stream_flags st True False False False \<or>
           stream_pc st = SPauseNodes \<and> stream_context st = current_context st \<and>
             stream_flags st False False False False \<or>
           stream_pc st = SPostPaused \<and> stream_flags st False False False False \<and> nodes_parked ctx st \<or>
           stream_pc st = SWaitResume \<and> stream_flags st False False True False \<and> nodes_parked ctx st)
      | PauseWaitEvents \<Rightarrow> stream_parked ctx st \<and> stream_flags st False False False False \<and>
          (dataflow ctx st \<longrightarrow> nodes_parked ctx st)
      | Idle Paused \<Rightarrow> stream_parked ctx st \<and> stream_flags st False False False False \<and>
          (dataflow ctx st \<longrightarrow> nodes_parked ctx st)
      | ResumeQueue \<Rightarrow> stream_parked ctx st \<and> stream_flags st False False False False
      | ResumePost \<Rightarrow> stream_parked ctx st \<and> stream_flags st False False False False
      | ResumeWaitStream \<Rightarrow>
          stream_parked ctx st \<and> stream_flags st False True False False \<or>
          (stream_pc st = SStopAfterResume \<or> stream_pc st = SResumeNodes) \<and> stream_flags st False False False False \<or>
          stream_pc st = SPostResumed \<and> stream_flags st False False False False \<and> nodes_live ctx st \<or>
          stream_running ctx st \<and> stream_flags st False False False True \<and> nodes_live ctx st
      | _ \<Rightarrow> stream_running ctx st \<and> stream_flags st False False False False \<and> nodes_live ctx st)"

definition orderly_inv :: "contexts \<Rightarrow> runtime \<Rightarrow> bool" where
  "orderly_inv ctx st \<longleftrightarrow>
     (\<forall>k. \<not> error_pending (queues st k)) \<and> \<not> raised 8 (stream_event st) \<and> event_ok ctx st \<and> stream_ok ctx st"

section \<open>The steps keep the invariant\<close>

lemmas inv_parts = event_ok_def stream_ok_def event_running_def queue_open_def event_flags_def
  stream_flags_def event_pausing_def stream_running_def stream_parked_def nodes_parked_def nodes_live_def

lemma stream_ok_frame:
  assumes "stream_ok ctx st" "control st' = control st" "current_context st' = current_context st"
    "stream_pc st' = stream_pc st" "stream_context st' = stream_context st" "calls st' = calls st"
    "raised 1 (stream_event st') = raised 1 (stream_event st)" "raised 2 (stream_event st') = raised 2 (stream_event st)"
    "raised 1 (reply_event st') = raised 1 (reply_event st)" "raised 2 (reply_event st') = raised 2 (reply_event st)"
  shows "stream_ok ctx st'"
  using assms(1) unfolding stream_ok_def inv_parts assms(2-) .

lemma event_ok_frame:
  assumes "event_ok ctx st" "control st' = control st" "current_context st' = current_context st"
    "event_pc st' = event_pc st" "event_context st' = event_context st" "calls st' = calls st"
    "queues st' (current_context st) = queues st (current_context st)"
    "raised 4 (stream_event st') = raised 4 (stream_event st)" "raised 4 (reply_event st') = raised 4 (reply_event st)"
    "raised 8 (reply_event st') = raised 8 (reply_event st)"
  shows "event_ok ctx st'"
  using assms(1) unfolding event_ok_def inv_parts assms(2-) .

lemma event_step_ok:
  assumes ok: "event_ok ctx st" and err: "\<forall>k. \<not> error_pending (queues st k)"
    and stop: "\<not> stop_requested st" and s: "event_step ctx st = Some st'"
  shows "event_ok ctx st'"
  using s
  by (rule event_step_cases; cases "control st"; insert ok stop err)
    (auto simp: event_ok_def inv_parts pause_nodes_calls_def event_report_def Let_def split: phase.splits if_splits)

lemma event_step_stream_ok:
  assumes ok: "event_ok ctx st" and sok: "stream_ok ctx st" and err: "\<forall>k. \<not> error_pending (queues st k)"
    and s: "event_step ctx st = Some st'"
  shows "stream_ok ctx st'"
proof (cases "event_pc st")
  case (EPauseNodes e)
  then have e: "e = None" "event_context st = current_context st"
    "control st = PausePost \<or> control st = PauseWaitStream \<or> control st = PauseWaitEvents"
    using ok by (cases "control st"; auto simp: event_ok_def inv_parts Let_def split: phase.splits)+
  have "st' = (call (if scheduler_length (ctx (event_context st)) = 0
      then pause_nodes_calls ctx (event_context st) else []) st)\<lparr>event_pc := EStopTest\<rparr>"
    using EPauseNodes e s by (auto simp: event_step_unfold event_report_def Let_def)
  with e sok show ?thesis
    by (cases "dataflow ctx st") (auto simp: stream_ok_def inv_parts call_def)
next
  case (EPeerPost err)
  with ok show ?thesis
    by (cases "control st") (auto simp: event_ok_def inv_parts Let_def split: phase.splits)
next
  case (EPeerWait err)
  with ok show ?thesis
    by (cases "control st") (auto simp: event_ok_def inv_parts Let_def split: phase.splits)
qed (use s err in \<open>auto intro!: stream_ok_frame [OF sok]
    simp: event_step_unfold queue_requests flag_ops Let_def split: if_splits\<close>)

lemma event_step_rest:
  assumes "event_ok ctx st" "\<forall>k. \<not> error_pending (queues st k)" "\<not> raised 8 (stream_event st)"
    "event_step ctx st = Some st'"
  shows "(\<forall>k. \<not> error_pending (queues st' k)) \<and> \<not> raised 8 (stream_event st')"
  using assms(2-)
  by (cases "event_pc st") (auto simp: event_step_unfold queue_requests flag_ops Let_def split: if_splits)

lemma event_step_inv:
  assumes "orderly_inv ctx st" "\<not> stop_requested st" "event_step ctx st = Some st'"
  shows "orderly_inv ctx st'"
  using assms event_step_ok event_step_stream_ok event_step_rest unfolding orderly_inv_def by metis

lemma stream_step_ok:
  assumes ok: "stream_ok ctx st" and d: "\<not> raised 8 (stream_event st)"
    and stop: "\<not> stop_requested st" and s: "stream_step ctx st = Some st'"
  shows "stream_ok ctx st'"
  using s
  by (rule stream_step_cases; cases "control st"; insert ok stop d)
    (auto simp: stream_ok_def inv_parts pause_nodes_calls_def resume_nodes_calls_def split: phase.splits if_splits)

lemma stream_step_event_ok:
  assumes ok: "stream_ok ctx st" and eok: "event_ok ctx st" and s: "stream_step ctx st = Some st'"
  shows "event_ok ctx st'"
proof (cases "stream_pc st")
  case SPauseNodes
  then have "dataflow ctx st"
    using ok by (cases "control st") (auto simp: stream_ok_def inv_parts split: phase.splits if_splits)
  moreover have "st' = (call (pause_nodes_calls ctx (stream_context st)) st)\<lparr>stream_pc := SPostPaused\<rparr>"
    using s SPauseNodes by (simp add: stream_step_unfold Let_def)
  ultimately show ?thesis
    using eok by (cases "control st") (auto simp: event_ok_def inv_parts call_def Let_def split: phase.splits)
next
  case SResumeNodes
  then have "control st = ResumeWaitStream \<or> (\<forall>p. control st \<noteq> Idle p) \<and> dataflow ctx st \<or> dataflow ctx st"
    using ok by (cases "control st") (auto simp: stream_ok_def inv_parts split: phase.splits if_splits)
  moreover have "st' = (call (resume_nodes_calls ctx (current_context st)) st)\<lparr>stream_pc := SPostResumed\<rparr>"
    using s SResumeNodes by (simp add: stream_step_unfold Let_def)
  ultimately show ?thesis
    using eok by (cases "control st") (auto simp: event_ok_def inv_parts call_def Let_def split: phase.splits)
next
  case (SPauseQueue r)
  with ok show ?thesis
    by (auto simp: stream_ok_def inv_parts split: control_pc.splits phase.splits if_splits)
next
  case (SReport r)
  with ok show ?thesis
    by (auto simp: stream_ok_def inv_parts split: control_pc.splits phase.splits if_splits)
next
  case (SWaitEvents r)
  with ok show ?thesis
    by (auto simp: stream_ok_def inv_parts split: control_pc.splits phase.splits if_splits)
qed (use s in \<open>auto intro!: event_ok_frame [OF eok]
    simp: stream_step_unfold flag_ops before_node Let_def split: if_splits\<close>)

lemma stream_step_rest:
  assumes "stream_ok ctx st" "\<forall>k. \<not> error_pending (queues st k)" "\<not> raised 8 (stream_event st)"
    "stream_step ctx st = Some st'"
  shows "(\<forall>k. \<not> error_pending (queues st' k)) \<and> \<not> raised 8 (stream_event st')"
  using assms(2-)
  by (cases "stream_pc st") (auto simp: stream_step_unfold queue_requests flag_ops before_node Let_def split: if_splits)

lemma stream_step_inv:
  assumes "orderly_inv ctx st" "\<not> stop_requested st" "stream_step ctx st = Some st'"
  shows "orderly_inv ctx st'"
  using assms stream_step_ok stream_step_event_ok stream_step_rest unfolding orderly_inv_def by metis

lemma control_step_ok:
  assumes eok: "event_ok ctx st" and sok: "stream_ok ctx st" and s: "control_step ctx st = Some st'"
  shows "event_ok ctx st' \<and> stream_ok ctx st'"
proof (cases "control st")
  case (StartStream ok)
  with s have "st' = (if ok then st\<lparr>stream_pc := SLoad, control := Idle Active\<rparr> else st\<lparr>control := StartEnd\<rparr>)"
    by (auto simp: control_step_unfold flag_ops queue_requests resume_failed_def Let_def split: if_splits)
  with StartStream eok sok show ?thesis
    by (auto simp: event_ok_def stream_ok_def inv_parts on_queue_def queue_requests Let_def split: if_splits)
next
  case StartEnd
  with s have "st' = (on_queue (current_context st) EventQueue_end st)\<lparr>control := StartJoin\<rparr>"
    by (auto simp: control_step_unfold flag_ops queue_requests resume_failed_def Let_def split: if_splits)
  with StartEnd eok sok show ?thesis
    by (auto simp: event_ok_def stream_ok_def inv_parts on_queue_def queue_requests Let_def split: if_splits)
next
  case StartJoin
  with s have "st' = st\<lparr>current_context := 0, control := Idle Stopped\<rparr>" "event_pc st = EDone"
    by (auto simp: control_step_unfold flag_ops queue_requests resume_failed_def Let_def split: if_splits)
  with StartJoin eok sok show ?thesis
    by (auto simp: event_ok_def stream_ok_def inv_parts on_queue_def queue_requests Let_def split: if_splits)
next
  case PausePost
  with s have "st' = st\<lparr>stream_event := flags_post 1 (stream_event st), control := PauseWaitStream\<rparr>"
    by (auto simp: control_step_unfold flag_ops queue_requests resume_failed_def Let_def split: if_splits)
  with PausePost eok sok show ?thesis
    by (auto simp: event_ok_def stream_ok_def inv_parts on_queue_def queue_requests Let_def split: if_splits)
next
  case PauseWaitStream
  with s have "st' = st\<lparr>reply_event := flags_clear 1 (reply_event st), control := PauseWaitEvents\<rparr>" "raised 1 (reply_event st)"
    by (auto simp: control_step_unfold flag_ops queue_requests resume_failed_def Let_def split: if_splits)
  with PauseWaitStream eok sok show ?thesis
    by (auto simp: event_ok_def stream_ok_def inv_parts on_queue_def queue_requests Let_def split: if_splits)
next
  case PauseWaitEvents
  with s have "st' = st\<lparr>reply_event := flags_clear 4 (reply_event st), control := Idle Paused\<rparr>" "raised 4 (reply_event st)"
    by (auto simp: control_step_unfold flag_ops queue_requests resume_failed_def Let_def split: if_splits)
  with PauseWaitEvents eok sok show ?thesis
    by (auto simp: event_ok_def stream_ok_def inv_parts on_queue_def queue_requests Let_def split: if_splits)
next
  case ResumeQueue
  with s have "st' = (on_queue (current_context st) EventQueue_resume st)\<lparr>control := ResumePost\<rparr>"
    by (auto simp: control_step_unfold flag_ops queue_requests resume_failed_def Let_def split: if_splits)
  with ResumeQueue eok sok show ?thesis
    by (auto simp: event_ok_def stream_ok_def inv_parts on_queue_def queue_requests Let_def split: if_splits)
next
  case ResumePost
  with s have "st' = st\<lparr>stream_event := flags_post 2 (stream_event st), control := ResumeWaitStream\<rparr>"
    by (auto simp: control_step_unfold flag_ops queue_requests resume_failed_def Let_def split: if_splits)
  with ResumePost eok sok show ?thesis
    by (auto simp: event_ok_def stream_ok_def inv_parts on_queue_def queue_requests Let_def split: if_splits)
next
  case ResumeWaitStream
  with s have "st' = st\<lparr>reply_event := flags_clear 3 (reply_event st), control := ResumePostEvents\<rparr> \<or> raised 1 (reply_event st)"
      "raised 1 (reply_event st) \<or> raised 2 (reply_event st)"
    by (auto simp: control_step_unfold flag_ops queue_requests resume_failed_def Let_def split: if_splits)
  with ResumeWaitStream eok sok show ?thesis
    by (auto simp: event_ok_def stream_ok_def inv_parts on_queue_def queue_requests Let_def split: if_splits)
next
  case ResumePostEvents
  with s have "st' = st\<lparr>stream_event := flags_post 4 (stream_event st), control := ResumeWaitEvents\<rparr>"
    by (auto simp: control_step_unfold flag_ops queue_requests resume_failed_def Let_def split: if_splits)
  with ResumePostEvents eok sok show ?thesis
    by (auto simp: event_ok_def stream_ok_def inv_parts on_queue_def queue_requests Let_def split: if_splits)
next
  case ResumeWaitEvents
  with s have "st' = st\<lparr>reply_event := flags_clear 12 (reply_event st), control := ResumeClear\<rparr> \<or> raised 4 (reply_event st)"
      "raised 4 (reply_event st) \<or> raised 8 (reply_event st)"
    by (auto simp: control_step_unfold flag_ops queue_requests resume_failed_def Let_def split: if_splits)
  with ResumeWaitEvents eok sok show ?thesis
    by (auto simp: event_ok_def stream_ok_def inv_parts on_queue_def queue_requests Let_def split: if_splits)
next
  case ResumeClear
  with s have "st' = st\<lparr>reply_event := flags_clear 5 (reply_event st), control := Idle Active\<rparr>"
    by (auto simp: control_step_unfold flag_ops queue_requests resume_failed_def Let_def split: if_splits)
  with ResumeClear eok sok show ?thesis
    by (auto simp: event_ok_def stream_ok_def inv_parts on_queue_def queue_requests Let_def split: if_splits)
next
  case WaitEnd
  with s have "st' = st\<lparr>current_context := 0, control := Idle Stopped\<rparr>" "event_pc st = EDone"
    by (auto simp: control_step_unfold flag_ops queue_requests resume_failed_def Let_def split: if_splits)
  with WaitEnd eok sok show ?thesis
    by (auto simp: event_ok_def stream_ok_def inv_parts on_queue_def queue_requests Let_def split: if_splits)
qed (use s eok in \<open>simp_all add: control_step_unfold event_ok_def Let_def\<close>)

lemma control_step_rest:
  assumes "event_ok ctx st" "\<forall>k. \<not> error_pending (queues st k)" "\<not> raised 8 (stream_event st)"
    "control_step ctx st = Some st'"
  shows "(\<forall>k. \<not> error_pending (queues st' k)) \<and> \<not> raised 8 (stream_event st')"
  using assms
  by (cases "control st") (auto simp: control_step_unfold event_ok_def queue_requests flag_ops resume_failed_def Let_def
      split: if_splits)

lemma control_step_inv:
  assumes "orderly_inv ctx st" "control_step ctx st = Some st'"
  shows "orderly_inv ctx st'"
  using assms control_step_ok control_step_rest unfolding orderly_inv_def by metis

lemma boot_inv: "orderly_inv ctx boot"
  by (simp add: orderly_inv_def boot_def event_ok_def stream_ok_def inv_parts new_requests_def)

lemma call_inv:
  assumes inv: "orderly_inv ctx st" and o: "orderly_call ctx c st" and m: "may_call c st"
    and stop: "\<not> stop_requested (begin_call ctx c st)"
  shows "orderly_inv ctx (begin_call ctx c st)"
proof (cases c)
  case (Start k e s)
  with inv o show ?thesis
    by (auto simp: orderly_inv_def orderly_call_def begin_call_unfold fresh_queue_def event_ok_def stream_ok_def inv_parts
        on_queue_def queue_requests Let_def)
next
  case Pause
  with inv o show ?thesis
    by (auto simp: orderly_inv_def orderly_call_def begin_call_unfold event_ok_def stream_ok_def inv_parts
        on_queue_def queue_requests Let_def split: if_splits)
next
  case (Resume k)
  with inv o show ?thesis
    by (auto simp: orderly_inv_def orderly_call_def begin_call_unfold event_ok_def stream_ok_def inv_parts
        Let_def split: if_splits)
next
  case Stop
  with stop show ?thesis by (simp add: begin_call_unfold)
next
  case WaitForEnd
  with inv o show ?thesis
    by (auto simp: orderly_inv_def orderly_call_def begin_call_unfold event_ok_def stream_ok_def inv_parts Let_def)
next
  case (NewQueue k)
  with inv m show ?thesis
    by (auto simp: orderly_inv_def may_call_def begin_call_unfold event_ok_def stream_ok_def inv_parts on_queue_def
        new_requests_def Let_def split: control_pc.splits phase.splits)
qed

lemma control_step_stop: "control_step ctx st = Some st' \<Longrightarrow> stop_requested st' = stop_requested st"
  by (cases "control st") (auto simp: control_step_unfold flag_ops resume_failed_def Let_def split: if_splits)

lemma event_step_stop: "event_step ctx st = Some st' \<Longrightarrow> stop_requested st' = stop_requested st"
  by (cases "event_pc st") (auto simp: event_step_unfold flag_ops Let_def split: if_splits prod.splits)

lemma stream_step_stop: "stream_step ctx st = Some st' \<Longrightarrow> stop_requested st' = stop_requested st"
  by (cases "stream_pc st") (auto simp: stream_step_unfold flag_ops before_node Let_def split: if_splits)

lemma thread_step_cases:
  assumes "thread_actor a" "runtime_step ctx a st = Some st'"
  obtains "control_step ctx st = Some st'" | "event_step ctx st = Some st'" | "stream_step ctx st = Some st'"
  using assms by (auto simp: thread_actor_def)

lemma thread_step_stop:
  assumes "thread_actor a" "runtime_step ctx a st = Some st'"
  shows "stop_requested st' = stop_requested st"
  using assms control_step_stop event_step_stop stream_step_stop by (cases rule: thread_step_cases) blast+

lemma thread_step_inv:
  assumes "stop_requested st \<or> orderly_inv ctx st" "thread_actor a" "runtime_step ctx a st = Some st'"
  shows "stop_requested st' \<or> orderly_inv ctx st'"
  using assms(2,3)
proof (cases rule: thread_step_cases)
  case 1
  then show ?thesis using assms(1) control_step_stop control_step_inv by blast
next
  case 2
  then show ?thesis using assms(1) event_step_stop event_step_inv by blast
next
  case 3
  then show ?thesis using assms(1) stream_step_stop stream_step_inv by blast
qed

lemma orderly_keeps_inv:
  assumes "orderly ctx st" shows "stop_requested st \<or> orderly_inv ctx st"
  using assms
proof induction
  case boot
  show ?case by (simp add: boot_inv)
next
  case (thread st a st')
  then show ?case using thread_step_inv by blast
next
  case (call st c)
  show ?case
  proof (cases "stop_requested st")
    case True
    with call show ?thesis
      by (cases c) (auto simp: orderly_call_def begin_call_unfold on_queue_def)
  next
    case False
    with call call_inv show ?thesis by blast
  qed
qed

section \<open>What the calls leave\<close>

text \<open>
  C22. In an orderly use, when \<^verbatim>\<open>stream_pause_current_scheduler\<close> has returned both threads wait (that of a
  graph without dataflow runs no node), the nodes of the graph have been paused after their last
  resume and no flag is left; when \<^verbatim>\<open>stream_resume_scheduler\<close> or the start has returned the threads serve
  the new context, its nodes are not paused, no request is pending and no flag is left. A resume
  never fails.
\<close>
theorem pause_parks_threads:
  assumes "orderly ctx st" "\<not> stop_requested st"
  shows "(control st = Idle Paused \<longrightarrow>
      event_pc st = EWaitResume \<and> nodes_parked ctx st \<and>
      (dataflow ctx st \<longrightarrow> stream_pc st = SWaitResume) \<and>
      (stream_pc st = SRun \<longrightarrow> scheduler_length (ctx (stream_context st)) = 0)) \<and>
    (control st = Idle Active \<longrightarrow>
      (event_pc st = EExecute \<longrightarrow> event_context st = current_context st) \<and>
      (event_pc st = ELoad \<or> event_pc st = EExecute) \<and>
      (dataflow ctx st \<longrightarrow> stream_pc st = SRun \<longrightarrow> stream_context st = current_context st) \<and>
      (dataflow ctx st \<longrightarrow> stream_pc st \<in> {SStopTest, SLoad, SRun}) \<and>
      queue_open st \<and> nodes_live ctx st) \<and>
    ((\<exists>p. control st = Idle p) \<longrightarrow>
      \<not> raised (STREAM_PAUSE_EVENT OR STREAM_RESUME_EVENT OR EVENT_RESUME_EVENT OR STREAM_DONE_EVENT) (stream_event st) \<and>
      \<not> raised (STREAM_PAUSED_EVENT OR STREAM_RESUMED_EVENT OR EVENT_PAUSED_EVENT OR EVENT_RESUMED_EVENT) (reply_event st)) \<and>
    control st \<noteq> Idle Failed"
proof -
  have "orderly_inv ctx st" using orderly_keeps_inv assms by blast
  then show ?thesis
    by (cases "control st") (auto simp: orderly_inv_def event_ok_def stream_ok_def inv_parts Let_def
        split: phase.splits)
qed

text \<open>A dataflow graph, 1, and a pure event graph, 2.\<close>

definition demo_contexts :: contexts where
  "demo_contexts k = \<lparr>scheduler_length = (if k = 1 then 3 else 0), has_pause_all_nodes = True,
     has_resume_all_nodes = True, has_evtQueue = k \<noteq> 0\<rparr>"

definition demo_start :: "nat \<Rightarrow> actor list" where
  "demo_start k = [Call (Start k True True), Controller, EventThread, StreamThread]"

definition demo_pause :: "actor list" where
  "demo_pause = [Call Pause, Controller, StreamThread, StreamThread, StreamThread, Controller,
     EventThread, EventThread, EventThread, EventThread, EventThread, EventThread, Controller]"

theorem pause_parks_threads_witness:
  "\<exists>st. orderly_run demo_contexts (demo_start 1 @ demo_pause) boot = Some st \<and> control st = Idle Paused \<and>
     event_pc st = EWaitResume \<and> stream_pc st = SWaitResume \<and> nodes_parked demo_contexts st"
proof -
  have run: "(case orderly_run demo_contexts (demo_start 1 @ demo_pause) boot of
      Some st \<Rightarrow> control st = Idle Paused \<and> \<not> stop_requested st \<and> dataflow demo_contexts st | None \<Rightarrow> False)"
    by code_simp
  then obtain st where st: "orderly_run demo_contexts (demo_start 1 @ demo_pause) boot = Some st"
    by (cases "orderly_run demo_contexts (demo_start 1 @ demo_pause) boot") auto
  with run have "control st = Idle Paused" "\<not> stop_requested st" "dataflow demo_contexts st" by auto
  moreover have "orderly demo_contexts st" using orderly_run_orderly orderly.boot st by blast
  ultimately show ?thesis using pause_parks_threads [of demo_contexts st] st by auto
qed

section \<open>The calls return\<close>

fun event_rank :: "event_pc \<Rightarrow> nat" where
  "event_rank EPostResumed = 8" | "event_rank ELoad = 7" | "event_rank EExecute = 6" | "event_rank EReturned = 5"
| "event_rank EConsume = 4" | "event_rank (EPauseNodes e) = 3" | "event_rank EStopTest = 2" | "event_rank EPost = 1"
| "event_rank e = 0"

fun stream_rank :: "stream_pc \<Rightarrow> nat" where
  "stream_rank SStopAfterResume = 8" | "stream_rank SResumeNodes = 7" | "stream_rank SPostResumed = 6"
| "stream_rank SStopTest = 5" | "stream_rank SLoad = 4" | "stream_rank SRun = 3" | "stream_rank SPauseNodes = 2"
| "stream_rank SPostPaused = 1" | "stream_rank s = 0"

fun control_rank :: "control_pc \<Rightarrow> nat" where
  "control_rank ResumeQueue = 160" | "control_rank ResumePost = 140" | "control_rank ResumeWaitStream = 120"
| "control_rank ResumePostEvents = 100" | "control_rank ResumeWaitEvents = 80" | "control_rank ResumeClear = 60"
| "control_rank PausePost = 60" | "control_rank PauseWaitStream = 40" | "control_rank PauseWaitEvents = 20"
| "control_rank (StartStream ok) = 80" | "control_rank StartEnd = 60" | "control_rank StartJoin = 40"
| "control_rank WaitEnd = 20" | "control_rank c = 0"

definition call_rank :: "runtime \<Rightarrow> nat" where
  "call_rank st = control_rank (control st) + event_rank (event_pc st) + stream_rank (stream_pc st) +
     (if raised 4 (stream_event st) then 9 else 0) + (if raised 2 (stream_event st) then 9 else 0)"

lemma event_pcs:
  assumes "orderly_inv ctx st"
  shows "event_pc st \<noteq> EPeerPost err" "event_pc st \<noteq> EPeerWait err" "\<not> error_pending (queues st k)"
proof -
  have "event_ok ctx st" using assms by (simp add: orderly_inv_def)
  then show "event_pc st \<noteq> EPeerPost err" "event_pc st \<noteq> EPeerWait err"
    by (cases "control st"; auto simp: event_ok_def event_running_def event_pausing_def Let_def split: phase.splits)+
  show "\<not> error_pending (queues st k)" using assms by (simp add: orderly_inv_def)
qed

lemma event_step_rank:
  assumes "orderly_inv ctx st" "\<not> stop_requested st" "event_step ctx st = Some st'"
  shows "call_rank st' < call_rank st"
  using assms(2,3) event_pcs [OF assms(1)]
  by (cases "event_pc st") (auto simp: call_rank_def event_step_unfold flag_ops queue_requests Let_def split: if_splits)

lemma stream_pcs:
  assumes "orderly_inv ctx st"
  shows "stream_pc st \<noteq> SPauseQueue r" "stream_pc st \<noteq> SWaitEvents r" "stream_pc st \<noteq> SReport r"
    "stream_pc st \<noteq> SStopAfterReport"
proof -
  have "stream_ok ctx st" using assms by (simp add: orderly_inv_def)
  then show "stream_pc st \<noteq> SPauseQueue r" "stream_pc st \<noteq> SWaitEvents r" "stream_pc st \<noteq> SReport r"
    "stream_pc st \<noteq> SStopAfterReport"
    by (cases "control st"; auto simp: stream_ok_def stream_running_def stream_parked_def split: phase.splits)+
qed

lemma stream_step_rank:
  assumes "orderly_inv ctx st" "\<not> stop_requested st" "stream_step ctx st = Some st'"
  shows "call_rank st' < call_rank st"
  using assms(2,3) stream_pcs [OF assms(1)] assms(1)
  by (cases "stream_pc st") (simp_all add: orderly_inv_def call_rank_def stream_step_unfold flag_ops before_node
      after_scheduler_def is_runtime_scheduler_error_def Let_def split: if_splits; force)+

lemma control_facts:
  assumes "orderly_inv ctx st"
  shows "control st = StartStream ok \<Longrightarrow> stream_pc st = SDone"
    "control st = ResumeWaitStream \<Longrightarrow> \<not> raised 1 (reply_event st)"
    "control st = ResumeWaitEvents \<Longrightarrow> \<not> raised 4 (reply_event st)"
    "control st \<noteq> ResumeFailPost" "control st \<noteq> ResumeFailWait"
    "control st \<noteq> StopQueue" "control st \<noteq> StopPost" "control st \<noteq> StopReply" "control st \<noteq> StopJoin"
proof -
  have "event_ok ctx st" "stream_ok ctx st" using assms by (simp_all add: orderly_inv_def)
  then show "control st = StartStream ok \<Longrightarrow> stream_pc st = SDone"
    "control st = ResumeWaitStream \<Longrightarrow> \<not> raised 1 (reply_event st)"
    "control st = ResumeWaitEvents \<Longrightarrow> \<not> raised 4 (reply_event st)"
    "control st \<noteq> ResumeFailPost" "control st \<noteq> ResumeFailWait"
    "control st \<noteq> StopQueue" "control st \<noteq> StopPost" "control st \<noteq> StopReply" "control st \<noteq> StopJoin"
    by (auto simp: event_ok_def stream_ok_def event_flags_def stream_flags_def)
qed

lemma control_step_rank:
  assumes "orderly_inv ctx st" "control_step ctx st = Some st'"
  shows "call_rank st' < call_rank st"
  using assms(2) control_facts [OF assms(1)]
  by (cases "control st") (auto simp: call_rank_def control_step_unfold flag_ops Let_def split: if_splits)

lemma thread_step_rank:
  assumes "orderly_inv ctx st" "\<not> stop_requested st" "thread_actor a" "runtime_step ctx a st = Some st'"
  shows "call_rank st' < call_rank st"
  using assms(3,4)
proof (cases rule: thread_step_cases)
  case 1 then show ?thesis using assms control_step_rank by blast
next
  case 2 then show ?thesis using assms event_step_rank by blast
next
  case 3 then show ?thesis using assms stream_step_rank by blast
qed

text \<open>Where one of the three threads has no step.\<close>

lemma control_blocked:
  assumes "control_step ctx st = None"
  shows "(\<exists>p. control st = Idle p) \<or>
    (control st = StartJoin \<and> event_pc st \<noteq> EDone) \<or>
    (control st = PauseWaitStream \<and> \<not> raised 1 (reply_event st)) \<or>
    (control st = PauseWaitEvents \<and> \<not> raised 4 (reply_event st)) \<or>
    (control st = ResumeWaitStream \<and> \<not> raised 1 (reply_event st) \<and> \<not> raised 2 (reply_event st)) \<or>
    (control st = ResumeWaitEvents \<and> \<not> raised 4 (reply_event st) \<and> \<not> raised 8 (reply_event st)) \<or>
    (control st = ResumeFailWait \<and> \<not> raised 1 (reply_event st)) \<or>
    ((control st = StopJoin \<or> control st = WaitEnd) \<and> \<not> (event_pc st = EDone \<and> stream_pc st = SDone))"
  using assms
  by (cases "control st") (auto simp: control_step_unfold flag_ops Let_def split: if_splits)

lemma event_blocked:
  assumes "event_step ctx st = None"
  shows "(event_pc st = EExecute \<and> \<not> must_pause (queues st (event_context st)) \<and>
      \<not> must_end (queues st (event_context st))) \<or>
    (\<exists>e. event_pc st = EPeerWait e) \<and> \<not> raised 1 (reply_event st) \<or>
    event_pc st = EWaitResume \<and> \<not> raised 4 (stream_event st) \<or> event_pc st = EDone"
  using assms
  by (cases "event_pc st") (auto simp: event_step_unfold flag_ops queue_requests Let_def split: if_splits)

lemma stream_blocked:
  assumes "stream_step ctx st = None"
  shows "(stream_pc st = SRun \<and> scheduler_length (ctx (stream_context st)) > 0 \<and>
      \<not> raised 1 (stream_event st) \<and> \<not> raised 8 (stream_event st)) \<or>
    (\<exists>r. stream_pc st = SWaitEvents r) \<and> \<not> raised 4 (reply_event st) \<or>
    stream_pc st = SWaitResume \<and> \<not> raised 2 (stream_event st) \<or> stream_pc st = SDone"
  using assms
  by (cases "stream_pc st") (auto simp: stream_step_unfold flag_ops before_node Let_def split: if_splits)

lemma event_side:
  assumes ok: "event_ok ctx st" and b: "event_step ctx st = None"
  shows "control st = StartJoin \<Longrightarrow> event_pc st = EDone"
    "control st = PauseWaitEvents \<Longrightarrow> raised 4 (reply_event st)"
    "control st = ResumeWaitEvents \<Longrightarrow> raised 8 (reply_event st)"
    "control st = WaitEnd \<Longrightarrow> event_pc st = EDone"
    "control st \<noteq> StopJoin" "control st \<noteq> ResumeFailWait"
  using ok event_blocked [OF b]
  by (auto simp: event_ok_def event_running_def event_pausing_def queue_open_def event_flags_def Let_def)

lemma stream_side:
  assumes ok: "stream_ok ctx st" and b: "stream_step ctx st = None"
  shows "control st = PauseWaitStream \<Longrightarrow> raised 1 (reply_event st)"
    "control st = ResumeWaitStream \<Longrightarrow> raised 2 (reply_event st)"
    "control st = WaitEnd \<Longrightarrow> stream_pc st = SDone"
  using ok stream_blocked [OF b]
  by (auto simp: stream_ok_def stream_running_def stream_parked_def stream_flags_def)

lemma orderly_progress:
  assumes inv: "orderly_inv ctx st" and busy: "\<forall>p. control st \<noteq> Idle p"
  shows "\<exists>a st'. thread_actor a \<and> runtime_step ctx a st = Some st'"
proof (rule ccontr)
  assume no: "\<not> ?thesis"
  have "runtime_step ctx a st = None" if "thread_actor a" for a
    using no that by (cases "runtime_step ctx a st") auto
  then have "control_step ctx st = None" "event_step ctx st = None" "stream_step ctx st = None"
    by (metis thread_actor_def runtime_step.simps(1), metis thread_actor_def runtime_step.simps(2),
        metis thread_actor_def runtime_step.simps(3))
  note blocked = this
  have ok: "event_ok ctx st" "stream_ok ctx st" using inv by (simp_all add: orderly_inv_def)
  show False
    using control_blocked [OF blocked(1)] busy event_side [OF ok(1) blocked(2)] stream_side [OF ok(2) blocked(3)]
    by auto
qed

text \<open>
  C23. In an orderly use every call of the controlling thread returns: however the steps of the
  three threads interleave, some thread always has a step and the call is over after finitely many.
\<close>
theorem runtime_calls_return:
  assumes "orderly ctx st" "\<not> stop_requested st"
  shows "always_reaches (runtime_step ctx) thread_actor (\<lambda>st. \<exists>p. control st = Idle p) st"
proof (rule always_reaches_measure [where I = "\<lambda>st. orderly_inv ctx st \<and> \<not> stop_requested st" and rank = call_rank])
  show "orderly_inv ctx st \<and> \<not> stop_requested st" using orderly_keeps_inv assms by blast
next
  fix st
  assume "orderly_inv ctx st \<and> \<not> stop_requested st" "\<not> (\<exists>p. control st = Idle p)"
  then show "\<exists>a st'. thread_actor a \<and> runtime_step ctx a st = Some st'" using orderly_progress by blast
next
  fix st a st'
  assume I: "orderly_inv ctx st \<and> \<not> stop_requested st" and a: "thread_actor a" "runtime_step ctx a st = Some st'"
  have "stop_requested st' = stop_requested st"
    using a thread_step_stop by blast
  then show "(orderly_inv ctx st' \<and> \<not> stop_requested st') \<and> call_rank st' < call_rank st"
    using thread_step_inv thread_step_rank I a by blast
qed

theorem runtime_calls_return_witness:
  "\<exists>st. orderly_run demo_contexts (demo_start 1 @ [Call Pause]) boot = Some st \<and> control st = PausePost \<and>
     always_reaches (runtime_step demo_contexts) thread_actor (\<lambda>st. \<exists>p. control st = Idle p) st"
proof -
  have run: "(case orderly_run demo_contexts (demo_start 1 @ [Call Pause]) boot of
      Some st \<Rightarrow> control st = PausePost \<and> \<not> stop_requested st | None \<Rightarrow> False)"
    by code_simp
  then obtain st where st: "orderly_run demo_contexts (demo_start 1 @ [Call Pause]) boot = Some st"
    by (cases "orderly_run demo_contexts (demo_start 1 @ [Call Pause]) boot") auto
  with run have "control st = PausePost" "\<not> stop_requested st" by auto
  moreover have "orderly demo_contexts st" using orderly_run_orderly orderly.boot st by blast
  ultimately show ?thesis using runtime_calls_return st by blast
qed

end
