(* ===== verification/RuntimeErrors.thy ===== *)
theory RuntimeErrors
  imports RuntimeCalls
begin

text \<open>
  The runtime when nodes and schedulers fail: a stop always ends both threads, whatever happened
  before, but without it two errors block each other, an error leaves flags that a later call takes
  for its answer, a switch away from a pure event graph may hang and a restart finds the flags of the
  stop.
\<close>

unbundle bit_operations_syntax

section \<open>A stop ends the threads\<close>

definition closing :: "nat \<Rightarrow> runtime \<Rightarrow> bool" where
  "closing k st \<longleftrightarrow> must_pause (queues st k) \<or> must_end (queues st k)"

fun stop_pc :: "control_pc \<Rightarrow> bool" where
  "stop_pc StopQueue = True"
| "stop_pc StopPost = True"
| "stop_pc StopReply = True"
| "stop_pc StopJoin = True"
| "stop_pc c = False"

fun ended_pc :: "control_pc \<Rightarrow> bool" where
  "ended_pc StopPost = True"
| "ended_pc StopReply = True"
| "ended_pc StopJoin = True"
| "ended_pc c = False"

fun woken_pc :: "control_pc \<Rightarrow> bool" where
  "woken_pc StopReply = True"
| "woken_pc StopJoin = True"
| "woken_pc c = False"

fun pausing_pc :: "control_pc \<Rightarrow> bool" where
  "pausing_pc PausePost = True"
| "pausing_pc PauseWaitStream = True"
| "pausing_pc PauseWaitEvents = True"
| "pausing_pc (Idle Paused) = True"
| "pausing_pc c = False"

fun starting_pc :: "control_pc \<Rightarrow> bool" where
  "starting_pc (Idle Stopped) = True"
| "starting_pc (StartStream ok) = True"
| "starting_pc StartEnd = True"
| "starting_pc StartJoin = True"
| "starting_pc c = False"

text \<open>The places a thread may wait at, or come to such a wait from, once a stop is requested.\<close>

fun before_run :: "stream_pc \<Rightarrow> bool" where
  "before_run SLoad = True"
| "before_run SRun = True"
| "before_run c = False"

fun before_resume :: "stream_pc \<Rightarrow> bool" where
  "before_resume SLoad = True"
| "before_resume SRun = True"
| "before_resume SPauseNodes = True"
| "before_resume SPostPaused = True"
| "before_resume SWaitResume = True"
| "before_resume c = False"

fun before_events :: "stream_pc \<Rightarrow> bool" where
  "before_events SLoad = True"
| "before_events SRun = True"
| "before_events (SPauseQueue r) = True"
| "before_events (SWaitEvents r) = True"
| "before_events c = False"

fun before_wake :: "event_pc \<Rightarrow> bool" where
  "before_wake EPost = True"
| "before_wake EWaitResume = True"
| "before_wake c = False"

fun before_peer :: "event_pc \<Rightarrow> bool" where
  "before_peer EStopTest = False"
| "before_peer EDone = False"
| "before_peer (EPauseNodes e) = False"
| "before_peer c = True"

text \<open>The queue an executing event thread serves is that of the current context, or asked to return.\<close>

definition serving :: "contexts \<Rightarrow> runtime \<Rightarrow> bool" where
  "serving ctx st \<longleftrightarrow>
     (event_pc st \<noteq> EDone \<or> stream_pc st \<noteq> SDone \<longrightarrow> valid_context ctx (current_context st)) \<and>
     (event_pc st = EExecute \<longrightarrow> event_context st = current_context st \<or> closing (event_context st) st) \<and>
     (pausing_pc (control st) \<longrightarrow> must_pause (queues st (current_context st))) \<and>
     (starting_pc (control st) \<longrightarrow> stream_pc st = SDone) \<and>
     (control st = Idle Stopped \<longrightarrow> event_pc st = EDone) \<and>
     (\<forall>ok. control st = StartStream ok \<longrightarrow> valid_context ctx (current_context st))"

text \<open>What a stop has set, as long as a thread may need it.\<close>

definition stopping :: "runtime \<Rightarrow> bool" where
  "stopping st \<longleftrightarrow>
     (stop_pc (control st) \<longrightarrow> stop_requested st) \<and>
     (ended_pc (control st) \<longrightarrow> event_pc st \<noteq> EDone \<longrightarrow> must_end (queues st (current_context st))) \<and>
     (woken_pc (control st) \<longrightarrow>
        (before_run (stream_pc st) \<longrightarrow> raised 8 (stream_event st)) \<and>
        (before_resume (stream_pc st) \<longrightarrow> raised 2 (stream_event st)) \<and>
        (before_wake (event_pc st) \<longrightarrow> raised 4 (stream_event st))) \<and>
     (control st = StopJoin \<longrightarrow>
        (before_peer (event_pc st) \<longrightarrow> raised 1 (reply_event st)) \<and>
        (before_events (stream_pc st) \<longrightarrow> raised 4 (reply_event st)))"

lemma woken_stop [simp]: "woken_pc c \<Longrightarrow> stop_pc c"
  by (cases c) auto

lemma event_serving:
  assumes "serving ctx st" "event_step ctx st = Some st'"
  shows "serving ctx st'"
  using assms(2)
  by (rule event_step_cases; insert assms(1); simp add: serving_def closing_def) auto

lemma stream_serving:
  assumes "serving ctx st" "stream_step ctx st = Some st'"
  shows "serving ctx st'"
  using assms(2)
  by (rule stream_step_cases; insert assms(1); simp add: serving_def closing_def flag_ops queue_requests) auto

lemma event_stopping:
  assumes "stopping st" "event_step ctx st = Some st'"
  shows "stopping st'"
  using assms(2)
  by (rule event_step_cases; insert assms(1); simp add: stopping_def) auto

lemma stream_stopping:
  assumes "stopping st" "stream_step ctx st = Some st'"
  shows "stopping st'"
  using assms(2)
  by (rule stream_step_cases; insert assms(1); simp add: stopping_def flag_ops queue_requests) auto

lemma control_serving:
  assumes "serving ctx st" "control_step ctx st = Some st'"
  shows "serving ctx st'"
  using assms
  by (cases "control st"; auto simp: serving_def closing_def control_step_unfold flag_ops queue_requests resume_failed_def
      Let_def split: if_splits)

lemma call_serving:
  assumes "serving ctx st" "may_call c st"
  shows "serving ctx (begin_call ctx c st)"
  using assms
  by (cases "control st"; cases c; auto simp: serving_def closing_def may_call_def begin_call_unfold on_queue_def
      queue_requests new_requests_def)

lemma before_waits [simp]:
  "\<not> before_run SDone" "\<not> before_resume SDone" "\<not> before_events SDone" "\<not> before_wake EDone" "\<not> before_peer EDone"
  by simp_all

lemma control_stopping:
  assumes srv: "serving ctx st" and stp: "stopping st" and s: "control_step ctx st = Some st'"
  shows "stopping st'"
proof (cases "control st")
  case StopQueue
  with s srv stp show ?thesis
    by (auto simp: serving_def valid_context_def stopping_def control_step_unfold on_queue_def queue_requests Let_def)
next
  case StopPost
  with s stp show ?thesis by (auto simp: stopping_def control_step_unfold flag_ops Let_def)
next
  case StopReply
  with s stp show ?thesis by (auto simp: stopping_def control_step_unfold flag_ops Let_def)
next
  case StopJoin
  with s show ?thesis by (auto simp: stopping_def control_step_unfold Let_def split: if_splits)
qed (use s in \<open>auto simp: stopping_def control_step_unfold flag_ops Let_def split: if_splits\<close>)

lemma call_stopping: "stopping st \<Longrightarrow> may_call c st \<Longrightarrow> stopping (begin_call ctx c st)"
  by (cases "control st"; cases c; simp add: stopping_def may_call_def begin_call_unfold on_queue_def)

lemma after_scheduler_pcs:
  "after_scheduler c error \<in> {SDone, SWaitResume, SPauseNodes, SPauseQueue StopGraph, SPauseQueue (SchedulerError error)}"
  by (simp add: after_scheduler_def)

lemma returned_serving:
  "serving ctx st \<Longrightarrow> stream_pc st = SRun \<Longrightarrow> serving ctx (st\<lparr>stream_pc := after_scheduler c error\<rparr>)"
  using after_scheduler_pcs [of c error] by (auto simp: serving_def closing_def)

lemma returned_stopping:
  "stopping st \<Longrightarrow> stream_pc st = SRun \<Longrightarrow> stopping (st\<lparr>stream_pc := after_scheduler c error\<rparr>)"
  using after_scheduler_pcs [of c error] by (auto simp: stopping_def)

lemma runtime_step_serving:
  assumes "serving ctx st" "stopping st" "runtime_step ctx a st = Some st'"
  shows "serving ctx st' \<and> stopping st'"
proof (cases a)
  case Controller
  with assms show ?thesis using control_serving control_stopping by simp
next
  case EventThread
  with assms show ?thesis using event_serving event_stopping by simp
next
  case StreamThread
  with assms show ?thesis using stream_serving stream_stopping by simp
next
  case (SchedulerReturns error)
  with assms show ?thesis using returned_serving returned_stopping by (auto simp: Let_def split: if_splits)
next
  case (QueueError k status node info)
  with assms have st': "st' = on_queue k (setError EventQueue_pause status node info) st" by simp
  from assms(1) have "serving ctx st'"
    unfolding st' by (simp add: serving_def closing_def on_queue_def queue_requests) blast
  moreover from assms(2) have "stopping st'"
    unfolding st' by (auto simp: stopping_def on_queue_def queue_requests)
  ultimately show ?thesis by simp
next
  case (Call c)
  with assms show ?thesis using call_serving call_stopping by (auto split: if_splits)
qed

lemma reachable_serving: "reachable ctx st \<Longrightarrow> serving ctx st \<and> stopping st"
proof (induction rule: reachable.induct)
  case boot
  show ?case by (simp add: boot_def serving_def stopping_def)
next
  case (step st a st')
  then show ?case using runtime_step_serving by blast
qed

text \<open>Every step of a thread brings it nearer to its end once the stop is requested.\<close>

definition stop_actor :: "actor \<Rightarrow> bool" where
  "stop_actor a \<longleftrightarrow> thread_actor a \<or> (\<exists>error. a = SchedulerReturns error)"

fun event_end_rank :: "event_pc \<Rightarrow> nat" where
  "event_end_rank EPost = 11" | "event_end_rank EWaitResume = 10" | "event_end_rank EPostResumed = 9"
| "event_end_rank ELoad = 8" | "event_end_rank EExecute = 7" | "event_end_rank EReturned = 6"
| "event_end_rank EConsume = 5" | "event_end_rank (EPeerPost e) = 4" | "event_end_rank (EPeerWait e) = 3"
| "event_end_rank (EPauseNodes e) = 2" | "event_end_rank EStopTest = 1" | "event_end_rank EDone = 0"

fun stream_end_rank :: "stream_pc \<Rightarrow> nat" where
  "stream_end_rank SLoad = 8" | "stream_end_rank SRun = 7" | "stream_end_rank SPauseNodes = 6"
| "stream_end_rank SPostPaused = 5" | "stream_end_rank SWaitResume = 4" | "stream_end_rank SStopAfterResume = 3"
| "stream_end_rank (SPauseQueue r) = 5" | "stream_end_rank (SWaitEvents r) = 4" | "stream_end_rank (SReport r) = 3"
| "stream_end_rank SStopAfterReport = 2" | "stream_end_rank SResumeNodes = 3" | "stream_end_rank SPostResumed = 2"
| "stream_end_rank SStopTest = 1" | "stream_end_rank SDone = 0"

fun stop_rank :: "control_pc \<Rightarrow> nat" where
  "stop_rank StopQueue = 4" | "stop_rank StopPost = 3" | "stop_rank StopReply = 2" | "stop_rank StopJoin = 1"
| "stop_rank c = 0"

definition end_rank :: "runtime \<Rightarrow> nat" where
  "end_rank st = stop_rank (control st) + event_end_rank (event_pc st) + stream_end_rank (stream_pc st)"

lemma event_end_step:
  assumes "stop_requested st" "event_step ctx st = Some st'"
  shows "end_rank st' < end_rank st \<and> control st' = control st"
  using assms(2) by (rule event_step_cases; insert assms(1)) (auto simp: end_rank_def)

lemma stream_end_step:
  assumes "stop_requested st" "stream_step ctx st = Some st'"
  shows "end_rank st' < end_rank st \<and> control st' = control st"
  using assms(2) by (rule stream_step_cases; insert assms(1)) (auto simp: end_rank_def flag_ops)

lemma control_end_step:
  assumes "stop_pc (control st)" "control_step ctx st = Some st'"
  shows "end_rank st' < end_rank st \<and> (stop_pc (control st') \<or> control st' = Idle Stopped)"
  using assms by (cases "control st") (auto simp: end_rank_def control_step_unfold flag_ops Let_def split: if_splits)

lemma returned_end_step:
  assumes "stream_pc st = SRun"
  shows "end_rank (st\<lparr>stream_pc := after_scheduler c error\<rparr>) < end_rank st"
  using assms after_scheduler_pcs [of c error] by (auto simp: end_rank_def)

lemma stop_actor_step:
  assumes "stop_pc (control st)" "stop_requested st" "stop_actor a" "runtime_step ctx a st = Some st'"
  shows "end_rank st' < end_rank st \<and> (stop_pc (control st') \<or> control st' = Idle Stopped)"
proof (cases a)
  case (SchedulerReturns error)
  with assms returned_end_step show ?thesis by (auto simp: Let_def split: if_splits)
qed (use assms control_end_step event_end_step stream_end_step in
  \<open>auto simp: stop_actor_def thread_actor_def\<close>)

lemma stop_progress:
  assumes srv: "serving ctx st" and stp: "stopping st" and c: "stop_pc (control st)"
  shows "\<exists>a st'. stop_actor a \<and> runtime_step ctx a st = Some st'"
proof (rule ccontr)
  assume no: "\<not> ?thesis"
  have blocked: "runtime_step ctx a st = None" if "thread_actor a" for a
    using no that by (cases "runtime_step ctx a st") (auto simp: stop_actor_def)
  have cb: "control_step ctx st = None" and eb: "event_step ctx st = None" and sb: "stream_step ctx st = None"
    using blocked [of Controller] blocked [of EventThread] blocked [of StreamThread] by (simp_all add: thread_actor_def)
  have join: "control st = StopJoin" "\<not> (event_pc st = EDone \<and> stream_pc st = SDone)"
    using control_blocked [OF cb] c by auto
  have "event_pc st = EDone"
    using event_blocked [OF eb] srv stp join by (auto simp: serving_def closing_def stopping_def)
  moreover have "stream_pc st = SDone"
    using stream_blocked [OF sb] stp join by (auto simp: stopping_def)
  ultimately show False using join by simp
qed

text \<open>
  C24. \<^verbatim>\<open>stream_stop_threads\<close> returns with both threads ended, from every reachable state - after errors
  of nodes and schedulers, failed resumes and earlier stops, and whatever the threads wait for -
  however the steps interleave and whatever a running scheduler returns.
\<close>
theorem stop_ends_threads:
  assumes "reachable ctx st" "stop_pc (control st)"
  shows "always_reaches (runtime_step ctx) stop_actor
    (\<lambda>st. control st = Idle Stopped \<and> event_pc st = EDone \<and> stream_pc st = SDone) st"
proof (rule always_reaches_measure [where rank = end_rank and
      I = "\<lambda>st. serving ctx st \<and> stopping st \<and> (stop_pc (control st) \<or> control st = Idle Stopped)"])
  show "serving ctx st \<and> stopping st \<and> (stop_pc (control st) \<or> control st = Idle Stopped)"
    using reachable_serving assms by blast
next
  fix st
  assume I: "serving ctx st \<and> stopping st \<and> (stop_pc (control st) \<or> control st = Idle Stopped)"
    and "\<not> (control st = Idle Stopped \<and> event_pc st = EDone \<and> stream_pc st = SDone)"
  then have "stop_pc (control st)" by (auto simp: serving_def)
  then show "\<exists>a st'. stop_actor a \<and> runtime_step ctx a st = Some st'" using stop_progress I by blast
next
  fix st a st'
  assume I: "serving ctx st \<and> stopping st \<and> (stop_pc (control st) \<or> control st = Idle Stopped)"
    and g: "\<not> (control st = Idle Stopped \<and> event_pc st = EDone \<and> stream_pc st = SDone)"
    and a: "stop_actor a" "runtime_step ctx a st = Some st'"
  from I g have c: "stop_pc (control st)" by (auto simp: serving_def)
  then have "stop_requested st" using I by (simp add: stopping_def)
  with c a I show "(serving ctx st' \<and> stopping st' \<and> (stop_pc (control st') \<or> control st' = Idle Stopped)) \<and>
      end_rank st' < end_rank st"
    using stop_actor_step runtime_step_serving by blast
qed

section \<open>Runs that go wrong\<close>

text \<open>No thread has a step: only another call changes the state.\<close>

definition stuck :: "contexts \<Rightarrow> runtime \<Rightarrow> bool" where
  "stuck ctx st \<longleftrightarrow>
     Option.is_none (control_step ctx st) \<and> Option.is_none (event_step ctx st) \<and> Option.is_none (stream_step ctx st)"

lemma stuck_iff: "stuck ctx st \<longleftrightarrow> (\<forall>a. thread_actor a \<longrightarrow> runtime_step ctx a st = None)"
  by (auto simp: stuck_def thread_actor_def Option.is_none_def)

text \<open>
  An event fails in a node while the scheduler returns an error: each thread asks the other to pause
  and waits for its answer.
\<close>

definition two_errors :: "actor list" where
  "two_errors = demo_start 1 @
     [QueueError 1 CG_BUFFER_ERROR 7 0, SchedulerReturns CG_BUFFER_OVERFLOW, StreamThread,
      EventThread, EventThread, EventThread, EventThread]"

text \<open>
  Errors of an event and of the scheduler at the same time block both threads for good: neither
  error is reported, and a pause requested later waits too.
\<close>
theorem errors_block_each_other:
  "\<exists>st st'. run demo_contexts two_errors boot = Some st \<and> control st = Idle Active \<and>
     stuck demo_contexts st \<and> ReportError kEventThread CG_BUFFER_ERROR 7 0 \<notin> set (calls st) \<and>
     ReportError kStreamThread CG_BUFFER_OVERFLOW CG_UNIDENTIFIED_NODE 0 \<notin> set (calls st) \<and>
     run demo_contexts (two_errors @ [Call Pause, Controller]) boot = Some st' \<and> control st' = PauseWaitStream \<and>
     stuck demo_contexts st'"
proof -
  have "(case run demo_contexts two_errors boot of None \<Rightarrow> False | Some st \<Rightarrow>
      control st = Idle Active \<and> stuck demo_contexts st \<and>
      ReportError kEventThread CG_BUFFER_ERROR 7 0 \<notin> set (calls st) \<and>
      ReportError kStreamThread CG_BUFFER_OVERFLOW CG_UNIDENTIFIED_NODE 0 \<notin> set (calls st))"
    by code_simp
  moreover have "(case run demo_contexts (two_errors @ [Call Pause, Controller]) boot of None \<Rightarrow> False | Some st' \<Rightarrow>
      control st' = PauseWaitStream \<and> stuck demo_contexts st')"
    by code_simp
  ultimately show ?thesis by (auto split: option.splits)
qed

text \<open>
  A pure event graph is paused before its stream thread has looked at the context; the dataflow graph
  that is resumed next runs at once, and its resume waits for an answer nobody gives.
\<close>

definition switch_from_pure :: "actor list" where
  "switch_from_pure =
     [Call (Start 2 True True), Controller, EventThread, Call Pause,
      EventThread, EventThread, EventThread, EventThread, EventThread, EventThread, Controller,
      Call (Resume 1), Controller, Controller, StreamThread]"

text \<open>
  Resuming a dataflow graph after a pure event graph may hang: the stream thread runs the new graph
  without its FIFOs reset and its nodes resumed, and the resume never returns.
\<close>
theorem switch_from_pure_graph_hangs:
  "\<exists>st. run demo_contexts switch_from_pure boot = Some st \<and> control st = ResumeWaitStream \<and>
     stream_pc st = SRun \<and> stream_context st = 1 \<and> stuck demo_contexts st \<and>
     ResumeNodes 1 \<notin> set (calls st) \<and> ResetFifos 1 \<notin> set (calls st)"
proof -
  have "(case run demo_contexts switch_from_pure boot of None \<Rightarrow> False | Some st \<Rightarrow>
      control st = ResumeWaitStream \<and> stream_pc st = SRun \<and> stream_context st = 1 \<and> stuck demo_contexts st \<and>
      ResumeNodes 1 \<notin> set (calls st) \<and> ResetFifos 1 \<notin> set (calls st))"
    by code_simp
  then show ?thesis by (auto split: option.splits)
qed

text \<open>
  A start, a stop that ends both threads and a second start with a new queue; the stop comes while
  the graph runs, or while it is paused.
\<close>

definition stop_active :: "actor list" where
  "stop_active = [Call Stop, Controller, Controller, Controller, EventThread, EventThread] @
     replicate 6 StreamThread @ [Controller, Call (NewQueue 1)]"

definition stop_paused :: "actor list" where
  "stop_paused = [Call Stop, Controller, Controller, Controller] @ replicate 5 EventThread @
     replicate 3 StreamThread @ [Controller, Call (NewQueue 1)]"

definition restart_and_pause :: "actor list" where
  "restart_and_pause = demo_start 1 @ stop_active @ demo_start 1 @
     [Call Pause, Controller, Controller] @ replicate 6 EventThread @ [Controller]"

definition restart_and_run :: "actor list" where
  "restart_and_run = demo_start 1 @ demo_pause @ stop_paused @ demo_start 1 @ [StreamThread]"

text \<open>
  After a restart the flags of the stop are still there: a pause takes the old answer and returns
  while the stream thread runs the graph, or the graph stops at its first node without a request.
\<close>
theorem restart_finds_old_flags:
  "\<exists>st st'. run demo_contexts restart_and_pause boot = Some st \<and> control st = Idle Paused \<and>
     stream_pc st = SRun \<and> stream_context st = 1 \<and>
     run demo_contexts restart_and_run boot = Some st' \<and> control st' = Idle Active \<and>
     \<not> stop_requested st' \<and> stream_pc st' = SPauseQueue StopGraph"
proof -
  have "(case run demo_contexts restart_and_pause boot of None \<Rightarrow> False | Some st \<Rightarrow>
      control st = Idle Paused \<and> stream_pc st = SRun \<and> stream_context st = 1)"
    by code_simp
  moreover have "(case run demo_contexts restart_and_run boot of None \<Rightarrow> False | Some st \<Rightarrow>
      control st = Idle Active \<and> \<not> stop_requested st \<and> stream_pc st = SPauseQueue StopGraph)"
    by code_simp
  ultimately show ?thesis by (auto split: option.splits)
qed

section \<open>After an error of the scheduler\<close>

text \<open>Both threads wait and the answer of the stream thread, which nobody waited for, is still there.\<close>

definition parked_after_error :: "runtime \<Rightarrow> bool" where
  "parked_after_error st \<longleftrightarrow>
     event_pc st = EWaitResume \<and> stream_pc st = SWaitResume \<and> \<not> stop_requested st \<and>
     raised STREAM_PAUSED_EVENT (reply_event st) \<and> \<not> raised EVENT_PAUSED_EVENT (reply_event st) \<and>
     \<not> raised (STREAM_PAUSE_EVENT OR EVENT_RESUME_EVENT OR STREAM_DONE_EVENT) (stream_event st)"

fun resuming_pc :: "stream_pc \<Rightarrow> bool" where
  "resuming_pc SWaitResume = True" | "resuming_pc SStopAfterResume = True" | "resuming_pc SResumeNodes = True"
| "resuming_pc SPostResumed = True" | "resuming_pc SStopTest = True" | "resuming_pc SLoad = True"
| "resuming_pc SRun = True" | "resuming_pc s = False"

definition refused :: "runtime \<Rightarrow> bool" where
  "refused st \<longleftrightarrow>
     control st \<in> {ResumeQueue, ResumePost, ResumeWaitStream} \<and> event_pc st = EWaitResume \<and> \<not> stop_requested st \<and>
     raised 1 (reply_event st) \<and> \<not> raised 1 (stream_event st) \<and> \<not> raised 4 (stream_event st) \<and>
     \<not> raised 8 (stream_event st) \<and>
     resuming_pc (stream_pc st)"

lemma refused_step:
  assumes "refused st" "thread_actor a" "runtime_step ctx a st = Some st'"
  shows "(refused st' \<or> control st' = Idle Failed) \<and> call_rank st' < call_rank st"
  using assms(2,3)
proof (cases rule: thread_step_cases)
  case 1
  then show ?thesis
    using assms(1) by (cases "control st"; simp add: refused_def control_step_unfold flag_ops resume_failed_def call_rank_def
        Let_def split: if_splits; auto)
next
  case 2
  then show ?thesis using assms(1) by (auto simp: refused_def event_step_unfold flag_ops Let_def)
next
  case 3
  then show ?thesis by (rule stream_step_cases; insert assms(1)) (auto simp: refused_def call_rank_def)
qed

lemma refused_progress: "refused st \<Longrightarrow> \<exists>st'. runtime_step ctx Controller st = Some st'"
  by (auto simp: refused_def control_step_unfold flag_ops Let_def)

lemma raised_requests: "raised 13 f \<longleftrightarrow> raised 1 f \<or> raised 4 f \<or> raised 8 f"
  using raised_or [of 5 8 f] by auto

lemma resume_refused:
  assumes "parked_after_error st" "valid_context ctx k"
  shows "always_reaches (runtime_step ctx) thread_actor (\<lambda>st. control st = Idle Failed) (begin_call ctx (Resume k) st)"
proof (rule always_reaches_measure [where rank = call_rank and I = "\<lambda>st. refused st \<or> control st = Idle Failed"])
  show "refused (begin_call ctx (Resume k) st) \<or> control (begin_call ctx (Resume k) st) = Idle Failed"
    using assms by (auto simp: parked_after_error_def refused_def begin_call_unfold raised_requests)
next
  fix st
  assume "refused st \<or> control st = Idle Failed" "control st \<noteq> Idle Failed"
  then show "\<exists>a st'. thread_actor a \<and> runtime_step ctx a st = Some st'"
    using refused_progress by (fastforce simp: thread_actor_def)
next
  fix st a st'
  assume "refused st \<or> control st = Idle Failed" "control st \<noteq> Idle Failed" "thread_actor a" "runtime_step ctx a st = Some st'"
  then show "(refused st' \<or> control st' = Idle Failed) \<and> call_rank st' < call_rank st"
    using refused_step by blast
qed

definition pause_waits :: "runtime \<Rightarrow> bool" where
  "pause_waits st \<longleftrightarrow>
     control st \<in> {PausePost, PauseWaitStream, PauseWaitEvents} \<and> event_pc st = EWaitResume \<and>
     \<not> raised 4 (reply_event st) \<and> \<not> raised 4 (stream_event st)"

lemma pause_waits_step:
  assumes "pause_waits st" "thread_actor a" "runtime_step ctx a st = Some st'"
  shows "pause_waits st'"
  using assms(2,3)
proof (cases rule: thread_step_cases)
  case 1
  then show ?thesis
    using assms(1) by (auto simp: pause_waits_def control_step_unfold flag_ops Let_def split: if_splits)
next
  case 2
  then show ?thesis using assms(1) by (auto simp: pause_waits_def event_step_unfold flag_ops Let_def)
next
  case 3
  then show ?thesis by (rule stream_step_cases; insert assms(1)) (auto simp: pause_waits_def flag_ops)
qed

lemma pause_waits_run:
  "pause_waits st \<Longrightarrow> list_all thread_actor as \<Longrightarrow> run ctx as st = Some st' \<Longrightarrow> pause_waits st'"
proof (induction as arbitrary: st)
  case (Cons a as)
  then obtain st1 where "runtime_step ctx a st = Some st1" "run ctx as st1 = Some st'"
    by (auto split: option.splits)
  moreover have "pause_waits st1" using Cons.prems pause_waits_step calculation(1) by auto
  ultimately show ?case using Cons.IH Cons.prems by simp
qed simp

text \<open>A pause on threads that both wait, with no answer of the event thread left, never returns.\<close>

lemma pause_never_returns:
  assumes "parked_after_error st" "list_all thread_actor as" "run ctx as (begin_call ctx Pause st) = Some st'"
  shows "control st' \<noteq> Idle p"
proof -
  have "pause_waits (begin_call ctx Pause st)"
    using assms(1) by (auto simp: parked_after_error_def pause_waits_def begin_call_unfold on_queue_def raised_requests)
  then have "pause_waits st'" using pause_waits_run assms(2,3) by blast
  then show ?thesis by (auto simp: pause_waits_def)
qed

text \<open>
  From the error to the waits: the stream thread pauses the event thread, takes its answer, reports,
  posts an answer of its own and waits.
\<close>

definition error_stage :: "contexts \<Rightarrow> pause_reason \<Rightarrow> runtime \<Rightarrow> bool" where
  "error_stage ctx r st =
     (let q = queues st (current_context st); paused = raised 4 (reply_event st); posted = raised 1 (reply_event st) in
      case stream_pc st of
        SPauseQueue r' \<Rightarrow> r' = r \<and> event_running st \<and> \<not> must_pause q \<and> \<not> paused \<and> \<not> posted
      | SWaitEvents r' \<Rightarrow> r' = r \<and> must_pause q \<and> \<not> posted \<and>
          (event_pausing ctx st \<and> \<not> paused \<or> event_pc st = EWaitResume \<and> paused)
      | SReport r' \<Rightarrow> r' = r \<and> event_pc st = EWaitResume \<and> \<not> paused \<and> \<not> posted
      | SStopAfterReport \<Rightarrow> event_pc st = EWaitResume \<and> \<not> paused \<and> \<not> posted \<and> stream_report r \<in> set (calls st)
      | SPostPaused \<Rightarrow> event_pc st = EWaitResume \<and> \<not> paused \<and> \<not> posted \<and> stream_report r \<in> set (calls st)
      | SWaitResume \<Rightarrow> event_pc st = EWaitResume \<and> \<not> paused \<and> posted \<and> stream_report r \<in> set (calls st)
      | _ \<Rightarrow> False)"

definition after_error :: "contexts \<Rightarrow> nat \<Rightarrow> pause_reason \<Rightarrow> runtime \<Rightarrow> bool" where
  "after_error ctx k r st \<longleftrightarrow>
     control st = Idle Active \<and> \<not> stop_requested st \<and> current_context st = k \<and> dataflow ctx st \<and>
     stream_context st = k \<and> \<not> error_pending (queues st k) \<and> \<not> must_end (queues st k) \<and>
     \<not> raised 1 (stream_event st) \<and> \<not> raised 2 (stream_event st) \<and> \<not> raised 4 (stream_event st) \<and>
     \<not> raised 8 (stream_event st) \<and> error_stage ctx r st"

fun error_rank :: "stream_pc \<Rightarrow> nat" where
  "error_rank (SPauseQueue r) = 5" | "error_rank (SWaitEvents r) = 4" | "error_rank (SReport r) = 3"
| "error_rank SStopAfterReport = 2" | "error_rank SPostPaused = 1" | "error_rank s = 0"

definition park_rank :: "runtime \<Rightarrow> nat" where
  "park_rank st = event_rank (event_pc st) + error_rank (stream_pc st)"

lemmas after_error_parts = after_error_def error_stage_def event_running_def event_pausing_def

lemma after_error_event_step:
  assumes "after_error ctx k r st" "event_step ctx st = Some st'"
  shows "after_error ctx k r st' \<and> park_rank st' < park_rank st"
  using assms(2)
  by (rule event_step_cases; insert assms(1))
    (auto simp: after_error_parts park_rank_def Let_def split: stream_pc.splits)

lemma after_error_stream_step:
  assumes "after_error ctx k r st" "stream_step ctx st = Some st'"
  shows "after_error ctx k r st' \<and> park_rank st' < park_rank st"
  using assms(2)
  by (rule stream_step_cases; insert assms(1))
    (auto simp: after_error_parts park_rank_def flag_ops queue_requests Let_def)

lemma after_error_step:
  assumes "after_error ctx k r st" "thread_actor a" "runtime_step ctx a st = Some st'"
  shows "after_error ctx k r st' \<and> park_rank st' < park_rank st"
  using assms(2,3)
proof (cases rule: thread_step_cases)
  case 1
  with assms(1) show ?thesis by (simp add: after_error_def control_step_unfold)
next
  case 2
  with assms(1) show ?thesis by (rule after_error_event_step)
next
  case 3
  with assms(1) show ?thesis by (rule after_error_stream_step)
qed

lemma after_error_progress:
  assumes "after_error ctx k r st" "\<not> (stream_pc st = SWaitResume)"
  shows "\<exists>a st'. thread_actor a \<and> runtime_step ctx a st = Some st'"
proof (rule ccontr)
  assume no: "\<not> ?thesis"
  have "event_step ctx st = None" "stream_step ctx st = None"
    using no by (metis thread_actor_def runtime_step.simps(2) not_None_eq, metis thread_actor_def runtime_step.simps(3) not_None_eq)
  from event_blocked [OF this(1)] stream_blocked [OF this(2)] assms show False
    by (auto simp: after_error_parts Let_def split: stream_pc.splits)
qed

lemma after_error_parked:
  "after_error ctx k r st \<Longrightarrow> stream_pc st = SWaitResume \<Longrightarrow> parked_after_error st \<and> stream_report r \<in> set (calls st)"
  by (auto simp: after_error_parts parked_after_error_def raised_requests Let_def)

text \<open>It starts with the error of a scheduler in an orderly run.\<close>

definition error_reason :: "cg_status \<Rightarrow> pause_reason" where
  "error_reason e = (if e = CG_STOP_SCHEDULER then StopGraph else SchedulerError e)"

lemma after_error_start:
  assumes "orderly ctx st" "\<not> stop_requested st" "control st = Idle Active" "dataflow ctx st"
    and "runtime_step ctx (SchedulerReturns e) st = Some st'" "e \<noteq> CG_SUCCESS" "e \<noteq> CG_PAUSED_SCHEDULER"
  shows "after_error ctx (current_context st) (error_reason e) st'"
proof -
  have "orderly_inv ctx st" using orderly_keeps_inv assms(1,2) by blast
  moreover have "stream_pc st = SRun" "st' = st\<lparr>stream_pc := after_scheduler (ctx (stream_context st)) e\<rparr>"
    using assms(5) by (auto simp: Let_def split: if_splits)
  ultimately show ?thesis
    using assms(2-4,6,7)
    by (auto simp: orderly_inv_def event_ok_def stream_ok_def inv_parts after_error_parts error_reason_def
        after_scheduler_def is_runtime_scheduler_error_def Let_def)
qed

lemma run_reachable: "reachable ctx st \<Longrightarrow> run ctx as st = Some st' \<Longrightarrow> reachable ctx st'"
  by (induction as arbitrary: st) (auto split: option.splits intro: reachable.step)

lemma orderly_reachable: "orderly ctx st \<Longrightarrow> reachable ctx st"
proof (induction rule: orderly.induct)
  case (thread st a st')
  then show ?case by (blast intro: reachable.step)
next
  case (call st c)
  then show ?case using reachable.step [of ctx st "Call c" "begin_call ctx c st"] by simp
qed (rule reachable.boot)

text \<open>
  C29. The scheduler of a dataflow graph returns an error (or stops the graph) in an orderly use, while
  no call is under way: however the threads are scheduled, they report it once the event thread is
  paused and come to wait, both of them, with the answer \<^verbatim>\<open>STREAM_PAUSED\<close> of the stream thread left in
  the flags. The next resume of the graph then takes this answer for its own and fails, and a pause,
  which waits for an answer of the event thread that is not given again, never returns.
\<close>
theorem calls_after_stream_error:
  assumes "orderly ctx st" "\<not> stop_requested st" "control st = Idle Active" "dataflow ctx st"
    and "runtime_step ctx (SchedulerReturns e) st = Some st1" "e \<noteq> CG_SUCCESS" "e \<noteq> CG_PAUSED_SCHEDULER"
  shows "always_reaches (runtime_step ctx) thread_actor
    (\<lambda>st2. control st2 = Idle Active \<and> event_pc st2 = EWaitResume \<and> stream_pc st2 = SWaitResume \<and>
      stream_report (error_reason e) \<in> set (calls st2) \<and> raised STREAM_PAUSED_EVENT (reply_event st2) \<and>
      may_call (Resume (current_context st)) st2 \<and>
      always_reaches (runtime_step ctx) thread_actor (\<lambda>st3. control st3 = Idle Failed)
        (begin_call ctx (Resume (current_context st)) st2) \<and>
      may_call Pause st2 \<and>
      (\<forall>as st3 p. list_all thread_actor as \<longrightarrow> run ctx as (begin_call ctx Pause st2) = Some st3 \<longrightarrow> control st3 \<noteq> Idle p))
    st1"
    (is "always_reaches _ _ ?goal st1")
proof (rule always_reaches_measure [where rank = park_rank and I = "after_error ctx (current_context st) (error_reason e)"])
  show "after_error ctx (current_context st) (error_reason e) st1" by (rule after_error_start [OF assms])
next
  fix st2
  assume I: "after_error ctx (current_context st) (error_reason e) st2" and g: "\<not> ?goal st2"
  show "\<exists>a st'. thread_actor a \<and> runtime_step ctx a st2 = Some st'"
  proof (cases "stream_pc st2 = SWaitResume")
    case True
    have "event_ok ctx st" using orderly_keeps_inv [OF assms(1)] assms(2) by (simp add: orderly_inv_def)
    then have "event_pc st \<noteq> EDone" using assms(3) by (auto simp: event_ok_def event_running_def Let_def)
    then have v: "valid_context ctx (current_context st)"
      using reachable_serving [OF orderly_reachable [OF assms(1)]] by (simp add: serving_def)
    note p = after_error_parked [OF I True]
    have "control st2 = Idle Active" "current_context st2 = current_context st" using I by (simp_all add: after_error_def)
    then have "?goal st2"
      using p resume_refused [OF conjunct1 [OF p] v] pause_never_returns [OF conjunct1 [OF p]]
      by (auto simp: parked_after_error_def may_call_def)
    with g show ?thesis by simp
  qed (rule after_error_progress [OF I])
next
  fix st2 a st3
  assume "after_error ctx (current_context st) (error_reason e) st2" "thread_actor a" "runtime_step ctx a st2 = Some st3"
  then show "after_error ctx (current_context st) (error_reason e) st3 \<and> park_rank st3 < park_rank st2"
    by (rule after_error_step)
qed

text \<open>The scheduler of a graph that was just started returns an error.\<close>

theorem calls_after_stream_error_witness:
  "\<exists>st st1. orderly_run demo_contexts (demo_start 1) boot = Some st \<and>
     runtime_step demo_contexts (SchedulerReturns CG_BUFFER_OVERFLOW) st = Some st1 \<and>
     always_reaches (runtime_step demo_contexts) thread_actor
       (\<lambda>st2. ReportError kStreamThread CG_BUFFER_OVERFLOW CG_UNIDENTIFIED_NODE 0 \<in> set (calls st2) \<and>
          always_reaches (runtime_step demo_contexts) thread_actor (\<lambda>st3. control st3 = Idle Failed)
            (begin_call demo_contexts (Resume 1) st2)) st1"
proof -
  have run: "(case orderly_run demo_contexts (demo_start 1) boot of None \<Rightarrow> False | Some st \<Rightarrow>
      control st = Idle Active \<and> \<not> stop_requested st \<and> dataflow demo_contexts st \<and> current_context st = 1 \<and>
      runtime_step demo_contexts (SchedulerReturns CG_BUFFER_OVERFLOW) st \<noteq> None)"
    by code_simp
  then obtain st where st: "orderly_run demo_contexts (demo_start 1) boot = Some st"
    by (cases "orderly_run demo_contexts (demo_start 1) boot") auto
  with run obtain st1 where st1: "runtime_step demo_contexts (SchedulerReturns CG_BUFFER_OVERFLOW) st = Some st1"
    by auto
  have "orderly demo_contexts st" using orderly_run_orderly orderly.boot st by blast
  moreover have f: "\<not> stop_requested st" "control st = Idle Active" "dataflow demo_contexts st" "current_context st = 1"
    using run unfolding st option.case by blast+
  ultimately have "always_reaches (runtime_step demo_contexts) thread_actor
       (\<lambda>st2. ReportError kStreamThread CG_BUFFER_OVERFLOW CG_UNIDENTIFIED_NODE 0 \<in> set (calls st2) \<and>
          always_reaches (runtime_step demo_contexts) thread_actor (\<lambda>st3. control st3 = Idle Failed)
            (begin_call demo_contexts (Resume 1) st2)) st1"
    by (intro always_reaches_mono [OF calls_after_stream_error [OF _ f(1-3) st1]])
      (simp_all add: f(4) error_reason_def stream_report_def report_runtime_error_def)
  with st st1 show ?thesis by blast
qed

theorem stop_ends_threads_witness:
  "\<exists>st. run demo_contexts (two_errors @ [Call Stop]) boot = Some st \<and> control st = StopQueue \<and>
     always_reaches (runtime_step demo_contexts) stop_actor
       (\<lambda>st. control st = Idle Stopped \<and> event_pc st = EDone \<and> stream_pc st = SDone) st"
proof -
  have run: "(case run demo_contexts (two_errors @ [Call Stop]) boot of None \<Rightarrow> False | Some st \<Rightarrow> control st = StopQueue)"
    by code_simp
  then obtain st where st: "run demo_contexts (two_errors @ [Call Stop]) boot = Some st"
    by (cases "run demo_contexts (two_errors @ [Call Stop]) boot") auto
  with run have "control st = StopQueue" by auto
  moreover have "reachable demo_contexts st" using run_reachable reachable.boot st by blast
  ultimately show ?thesis using stop_ends_threads [of demo_contexts st] st by simp
qed

end
