(* ===== verification/ZephyrRuntime.thy ===== *)
theory ZephyrRuntime
  imports RuntimeCalls
begin

text \<open>
  The runtime threads on Zephyr (\<^verbatim>\<open>zephyr_runtime/stream_runtime_init.cpp\<close>). The code is that of
  the POSIX runtime but for the flags: \<^verbatim>\<open>k_event_wait\<close> returns the flags it was satisfied by and leaves them
  set, and the thread clears them afterwards, a step of its own. The stream thread clears the resume
  flag only after it has looked at the stop request, and a start that fails aborts the event thread.
  In an orderly use this is a refinement of the POSIX runtime.
\<close>

unbundle bit_operations_syntax

section \<open>State and steps\<close>

text \<open>The result of a wait whose flags the thread has yet to clear.\<close>

record zephyr =
  shared :: runtime
  event_wait :: "u32 option"
  stream_wait :: "u32 option"
  control_wait :: "u32 option"

definition k_event_wait :: "u32 \<Rightarrow> u32 \<Rightarrow> u32 option" where
  "k_event_wait flags f = (if raised flags f then Some (f AND flags) else None)"

definition k_event_clear :: "u32 \<Rightarrow> u32 \<Rightarrow> u32" where
  "k_event_clear flags f = flags_clear flags f"

definition zephyr_boot :: zephyr where
  "zephyr_boot = \<lparr>shared = boot, event_wait = None, stream_wait = None, control_wait = None\<rparr>"

subsection \<open>The event thread\<close>

definition zephyr_pause_peer_step :: "queue_error \<Rightarrow> zephyr \<Rightarrow> zephyr option" where
  "zephyr_pause_peer_step err z =
     (let st = shared z in
      case event_wait z of
        None \<Rightarrow> map_option (\<lambda>res. z\<lparr>event_wait := Some res\<rparr>) (k_event_wait STREAM_PAUSED_EVENT (reply_event st))
      | Some res \<Rightarrow> Some (z\<lparr>shared := st\<lparr>reply_event :=
            if raised STREAM_PAUSED_EVENT res then k_event_clear STREAM_PAUSED_EVENT (reply_event st) else reply_event st,
            event_pc := EPauseNodes (Some err)\<rparr>, event_wait := None\<rparr>))"

definition zephyr_wait_event_resume_step :: "zephyr \<Rightarrow> zephyr option" where
  "zephyr_wait_event_resume_step z =
     (let st = shared z in
      case event_wait z of
        None \<Rightarrow> map_option (\<lambda>res. z\<lparr>event_wait := Some res\<rparr>) (k_event_wait EVENT_RESUME_EVENT (stream_event st))
      | Some res \<Rightarrow> Some (z\<lparr>shared := st\<lparr>stream_event := k_event_clear EVENT_RESUME_EVENT (stream_event st),
            event_pc := EPostResumed\<rparr>, event_wait := None\<rparr>))"

definition zephyr_event_step :: "contexts \<Rightarrow> zephyr \<Rightarrow> zephyr option" where
  "zephyr_event_step ctx z =
     (case event_pc (shared z) of
        EPeerWait err \<Rightarrow> zephyr_pause_peer_step err z
      | EWaitResume \<Rightarrow> zephyr_wait_event_resume_step z
      | _ \<Rightarrow> map_option (\<lambda>st. z\<lparr>shared := st\<rparr>) (event_step ctx (shared z)))"

subsection \<open>The stream thread\<close>

definition zephyr_before_node :: "u32 \<Rightarrow> u32 \<Rightarrow> u32 \<times> cg_status option" where
  "zephyr_before_node res f =
     (if raised STREAM_DONE_EVENT res then (k_event_clear STREAM_DONE_EVENT f, Some CG_STOP_SCHEDULER)
      else if raised STREAM_PAUSE_EVENT res then (k_event_clear STREAM_PAUSE_EVENT f, Some CG_PAUSED_SCHEDULER)
      else (f, None))"

text \<open>The flag is cleared after the context is loaded and before the FIFOs are reset.\<close>

definition zephyr_wait_stream_resume_step :: "contexts \<Rightarrow> zephyr \<Rightarrow> zephyr option" where
  "zephyr_wait_stream_resume_step ctx z =
     (let st = shared z in
      case stream_pc st of
        SWaitResume \<Rightarrow>
          if raised STREAM_RESUME_EVENT (stream_event st)
          then Some (z\<lparr>shared := st\<lparr>stream_pc := SStopAfterResume\<rparr>, stream_wait := None\<rparr>) else None
      | SStopAfterResume \<Rightarrow>
          Some (z\<lparr>shared := st\<lparr>stream_pc := if stop_requested st then SStopTest else SResumeNodes\<rparr>, stream_wait := None\<rparr>)
      | SResumeNodes \<Rightarrow>
          (case stream_wait z of
             None \<Rightarrow> Some (z\<lparr>shared := st\<lparr>stream_event := k_event_clear STREAM_RESUME_EVENT (stream_event st)\<rparr>,
               stream_wait := Some STREAM_RESUME_EVENT\<rparr>)
           | Some res \<Rightarrow> Some (z\<lparr>shared := (call (resume_nodes_calls ctx (current_context st)) st)\<lparr>stream_pc := SPostResumed\<rparr>,
               stream_wait := None\<rparr>))
      | SPostResumed \<Rightarrow> Some (z\<lparr>shared := (post_reply STREAM_RESUMED_EVENT st)\<lparr>stream_pc := SStopTest\<rparr>\<rparr>)
      | _ \<Rightarrow> None)"

definition zephyr_wait_event_paused_step :: "pause_reason \<Rightarrow> zephyr \<Rightarrow> zephyr option" where
  "zephyr_wait_event_paused_step r z =
     (let st = shared z in
      case stream_wait z of
        None \<Rightarrow> map_option (\<lambda>res. z\<lparr>stream_wait := Some res\<rparr>) (k_event_wait EVENT_PAUSED_EVENT (reply_event st))
      | Some res \<Rightarrow> Some (z\<lparr>shared := st\<lparr>reply_event :=
            if raised EVENT_PAUSED_EVENT res then k_event_clear EVENT_PAUSED_EVENT (reply_event st) else reply_event st,
            stream_pc := SReport r\<rparr>, stream_wait := None\<rparr>))"

definition zephyr_stream_step :: "contexts \<Rightarrow> zephyr \<Rightarrow> zephyr option" where
  "zephyr_stream_step ctx z =
     (let st = shared z; c = ctx (stream_context st) in
      case stream_pc st of
        SRun \<Rightarrow>
          if scheduler_length c > 0 then
            (case stream_wait z of
               None \<Rightarrow> map_option (\<lambda>res. z\<lparr>stream_wait := Some res\<rparr>)
                 (k_event_wait (STREAM_PAUSE_EVENT OR STREAM_DONE_EVENT) (stream_event st))
             | Some res \<Rightarrow>
                 (case zephyr_before_node res (stream_event st) of
                    (f, Some error) \<Rightarrow> Some (z\<lparr>shared := st\<lparr>stream_event := f, stream_pc := after_scheduler c error\<rparr>,
                      stream_wait := None\<rparr>)
                  | (f, None) \<Rightarrow> None))
          else map_option (\<lambda>st. z\<lparr>shared := st\<rparr>) (stream_step ctx st)
      | SWaitEvents r \<Rightarrow> zephyr_wait_event_paused_step r z
      | SWaitResume \<Rightarrow> zephyr_wait_stream_resume_step ctx z
      | SStopAfterResume \<Rightarrow> zephyr_wait_stream_resume_step ctx z
      | SResumeNodes \<Rightarrow> zephyr_wait_stream_resume_step ctx z
      | SPostResumed \<Rightarrow> zephyr_wait_stream_resume_step ctx z
      | _ \<Rightarrow> map_option (\<lambda>st. z\<lparr>shared := st\<rparr>) (stream_step ctx st))"

subsection \<open>The controlling thread\<close>

text \<open>A wait of the controlling thread for one answer.\<close>

definition control_answer :: "u32 \<Rightarrow> control_pc \<Rightarrow> zephyr \<Rightarrow> zephyr option" where
  "control_answer flag next z =
     (let st = shared z in
      case control_wait z of
        None \<Rightarrow> map_option (\<lambda>res. z\<lparr>control_wait := Some res\<rparr>) (k_event_wait flag (reply_event st))
      | Some res \<Rightarrow> Some (z\<lparr>shared := st\<lparr>reply_event :=
            if raised flag res then k_event_clear flag (reply_event st) else reply_event st, control := next\<rparr>,
            control_wait := None\<rparr>))"

definition zephyr_pause_step :: "contexts \<Rightarrow> zephyr \<Rightarrow> zephyr option" where
  "zephyr_pause_step ctx z =
     (case control (shared z) of
        PauseWaitStream \<Rightarrow> control_answer STREAM_PAUSED_EVENT PauseWaitEvents z
      | PauseWaitEvents \<Rightarrow> control_answer EVENT_PAUSED_EVENT (Idle Paused) z
      | _ \<Rightarrow> map_option (\<lambda>st. z\<lparr>shared := st\<rparr>) (pause_step ctx (shared z)))"

definition zephyr_resume_step :: "contexts \<Rightarrow> zephyr \<Rightarrow> zephyr option" where
  "zephyr_resume_step ctx z =
     (let st = shared z; k = current_context st in
      case control st of
        ResumeWaitStream \<Rightarrow>
          (case control_wait z of
             None \<Rightarrow> map_option (\<lambda>res. z\<lparr>control_wait := Some res\<rparr>)
               (k_event_wait (STREAM_RESUMED_EVENT OR STREAM_PAUSED_EVENT) (reply_event st))
           | Some res \<Rightarrow> Some (z\<lparr>shared :=
               if raised STREAM_PAUSED_EVENT res
               then (resume_failed kStreamThread (st\<lparr>reply_event := k_event_clear STREAM_PAUSED_EVENT (reply_event st)\<rparr>))
                 \<lparr>control := Idle Failed\<rparr>
               else st\<lparr>reply_event := if raised STREAM_RESUMED_EVENT res
                   then k_event_clear STREAM_RESUMED_EVENT (reply_event st) else reply_event st,
                 control := ResumePostEvents\<rparr>, control_wait := None\<rparr>))
      | ResumeWaitEvents \<Rightarrow>
          (case control_wait z of
             None \<Rightarrow> map_option (\<lambda>res. z\<lparr>control_wait := Some res\<rparr>)
               (k_event_wait (EVENT_RESUMED_EVENT OR EVENT_PAUSED_EVENT) (reply_event st))
           | Some res \<Rightarrow> Some (z\<lparr>shared :=
               if raised EVENT_PAUSED_EVENT res
               then (resume_failed kEventThread (st\<lparr>reply_event := k_event_clear EVENT_PAUSED_EVENT (reply_event st)\<rparr>))
                 \<lparr>control := if scheduler_length (ctx k) > 0 then ResumeFailPost else Idle Failed\<rparr>
               else st\<lparr>reply_event := if raised EVENT_RESUMED_EVENT res
                   then k_event_clear EVENT_RESUMED_EVENT (reply_event st) else reply_event st,
                 control := ResumeClear\<rparr>, control_wait := None\<rparr>))
      | ResumeFailWait \<Rightarrow> control_answer STREAM_PAUSED_EVENT (Idle Failed) z
      | _ \<Rightarrow> map_option (\<lambda>st. z\<lparr>shared := st\<rparr>) (resume_step ctx st))"

text \<open>The thread that was created is aborted and joined when the other one cannot be created.\<close>

definition cleanup_started_event_thread :: "runtime \<Rightarrow> runtime" where
  "cleanup_started_event_thread st = st\<lparr>event_pc := EDone, current_context := 0\<rparr>"

definition zephyr_start_step :: "runtime \<Rightarrow> runtime option" where
  "zephyr_start_step st =
     (case control st of
        StartStream ok \<Rightarrow>
          Some (if ok then st\<lparr>stream_pc := SLoad, control := Idle Active\<rparr>
                else (cleanup_started_event_thread st)\<lparr>control := Idle Stopped\<rparr>)
      | _ \<Rightarrow> None)"

definition zephyr_start_call :: "contexts \<Rightarrow> nat \<Rightarrow> bool \<Rightarrow> bool \<Rightarrow> runtime \<Rightarrow> runtime" where
  "zephyr_start_call ctx k event_started stream_started st =
     (if \<not> valid_context ctx k then st
      else if event_started then st\<lparr>current_context := k, stop_requested := False, event_pc := ELoad,
        control := StartStream stream_started\<rparr>
      else st\<lparr>current_context := 0, stop_requested := False\<rparr>)"

text \<open>The wait for the end leaves the current context.\<close>

definition zephyr_wait_end_step :: "runtime \<Rightarrow> runtime option" where
  "zephyr_wait_end_step st =
     (if control st = WaitEnd \<and> event_pc st = EDone \<and> stream_pc st = SDone
      then Some (st\<lparr>control := Idle Stopped\<rparr>) else None)"

definition zephyr_control_step :: "contexts \<Rightarrow> zephyr \<Rightarrow> zephyr option" where
  "zephyr_control_step ctx z =
     (let st = shared z in
      case control st of
        StartStream ok \<Rightarrow> map_option (\<lambda>st. z\<lparr>shared := st\<rparr>) (zephyr_start_step st)
      | PausePost \<Rightarrow> zephyr_pause_step ctx z
      | PauseWaitStream \<Rightarrow> zephyr_pause_step ctx z
      | PauseWaitEvents \<Rightarrow> zephyr_pause_step ctx z
      | ResumeQueue \<Rightarrow> zephyr_resume_step ctx z
      | ResumePost \<Rightarrow> zephyr_resume_step ctx z
      | ResumeWaitStream \<Rightarrow> zephyr_resume_step ctx z
      | ResumePostEvents \<Rightarrow> zephyr_resume_step ctx z
      | ResumeWaitEvents \<Rightarrow> zephyr_resume_step ctx z
      | ResumeFailPost \<Rightarrow> zephyr_resume_step ctx z
      | ResumeFailWait \<Rightarrow> zephyr_resume_step ctx z
      | ResumeClear \<Rightarrow> zephyr_resume_step ctx z
      | StopQueue \<Rightarrow> map_option (\<lambda>st. z\<lparr>shared := st\<rparr>) (stop_step ctx st)
      | StopPost \<Rightarrow> map_option (\<lambda>st. z\<lparr>shared := st\<rparr>) (stop_step ctx st)
      | StopReply \<Rightarrow> map_option (\<lambda>st. z\<lparr>shared := st\<rparr>) (stop_step ctx st)
      | StopJoin \<Rightarrow> map_option (\<lambda>st. z\<lparr>shared := st\<rparr>) (stop_step ctx st)
      | WaitEnd \<Rightarrow> map_option (\<lambda>st. z\<lparr>shared := st\<rparr>) (zephyr_wait_end_step st)
      | _ \<Rightarrow> None)"

definition zephyr_begin_call :: "contexts \<Rightarrow> control_call \<Rightarrow> zephyr \<Rightarrow> zephyr" where
  "zephyr_begin_call ctx c z =
     z\<lparr>shared := (case c of
         Start k event_started stream_started \<Rightarrow> zephyr_start_call ctx k event_started stream_started (shared z)
       | _ \<Rightarrow> begin_call ctx c (shared z))\<rparr>"

fun zephyr_step :: "contexts \<Rightarrow> actor \<Rightarrow> zephyr \<Rightarrow> zephyr option" where
  "zephyr_step ctx Controller z = zephyr_control_step ctx z"
| "zephyr_step ctx EventThread z = zephyr_event_step ctx z"
| "zephyr_step ctx StreamThread z = zephyr_stream_step ctx z"
| "zephyr_step ctx (SchedulerReturns error) z =
     (if stream_wait z = None then map_option (\<lambda>st. z\<lparr>shared := st\<rparr>) (runtime_step ctx (SchedulerReturns error) (shared z))
      else None)"
| "zephyr_step ctx (QueueError k status node info) z =
     map_option (\<lambda>st. z\<lparr>shared := st\<rparr>) (runtime_step ctx (QueueError k status node info) (shared z))"
| "zephyr_step ctx (Call c) z = (if may_call c (shared z) then Some (zephyr_begin_call ctx c z) else None)"

text \<open>Orderly runs; the wait for the end leaves the phases the refinement is about.\<close>

inductive zephyr_orderly :: "contexts \<Rightarrow> zephyr \<Rightarrow> bool" for ctx where
  boot: "zephyr_orderly ctx zephyr_boot"
| thread: "zephyr_orderly ctx z \<Longrightarrow> thread_actor a \<Longrightarrow> zephyr_step ctx a z = Some z' \<Longrightarrow> zephyr_orderly ctx z'"
| call: "zephyr_orderly ctx z \<Longrightarrow> may_call c (shared z) \<Longrightarrow> orderly_call ctx c (shared z) \<Longrightarrow> c \<noteq> WaitForEnd \<Longrightarrow>
    zephyr_orderly ctx (zephyr_begin_call ctx c z)"

section \<open>Refinement\<close>

text \<open>
  A wait and its clearing are one step of the POSIX runtime, taken when the flag is cleared; until then
  the stream thread counts as waiting for the resume.
\<close>

definition resume_pending :: "zephyr \<Rightarrow> bool" where
  "resume_pending z \<longleftrightarrow>
     stream_pc (shared z) = SStopAfterResume \<or> stream_pc (shared z) = SResumeNodes \<and> stream_wait z = None"

definition posix_view :: "zephyr \<Rightarrow> runtime" where
  "posix_view z = (if resume_pending z then (shared z)\<lparr>stream_pc := SWaitResume\<rparr> else shared z)"

definition waits_ok :: "contexts \<Rightarrow> zephyr \<Rightarrow> bool" where
  "waits_ok ctx z \<longleftrightarrow>
     (event_wait z \<noteq> None \<longrightarrow> event_pc (shared z) = EWaitResume \<and> raised 4 (stream_event (shared z))) \<and>
     (\<forall>res. stream_wait z = Some res \<longrightarrow> stream_pc (shared z) = SResumeNodes \<or>
        stream_pc (shared z) = SRun \<and> raised 1 (stream_event (shared z)) \<and> raised 1 res \<and> \<not> raised 8 res \<and>
          0 < scheduler_length (ctx (stream_context (shared z)))) \<and>
     (resume_pending z \<longrightarrow> raised 2 (stream_event (shared z)))"

definition control_wait_ok :: "zephyr \<Rightarrow> bool" where
  "control_wait_ok z \<longleftrightarrow>
     (\<forall>res. control_wait z = Some res \<longrightarrow>
        control (shared z) = PauseWaitStream \<and> raised 1 (reply_event (shared z)) \<and> raised 1 res \<or>
        control (shared z) = PauseWaitEvents \<and> raised 4 (reply_event (shared z)) \<and> raised 4 res \<or>
        control (shared z) = ResumeWaitStream \<and> raised 2 (reply_event (shared z)) \<and> raised 2 res \<and> \<not> raised 1 res \<or>
        control (shared z) = ResumeWaitEvents \<and> raised 8 (reply_event (shared z)) \<and> raised 8 res \<and> \<not> raised 4 res)"

text \<open>The steps of Zephyr alone that are still to come.\<close>

definition pending_steps :: "zephyr \<Rightarrow> nat" where
  "pending_steps z =
     (if event_wait z = None then 1 else 0) + (if control_wait z = None then 1 else 0) +
     (case stream_pc (shared z) of SWaitResume \<Rightarrow> 2 | SStopAfterResume \<Rightarrow> 1 | SRun \<Rightarrow> if stream_wait z = None then 1 else 0
      | _ \<Rightarrow> 0)"

text \<open>A step of Zephyr is none, one or two of the POSIX runtime.\<close>

definition simulated :: "contexts \<Rightarrow> actor \<Rightarrow> zephyr \<Rightarrow> zephyr \<Rightarrow> bool" where
  "simulated ctx a z z' \<longleftrightarrow>
     (\<exists>n. run ctx (replicate n a) (posix_view z) = Some (posix_view z') \<and>
       (n = 0 \<longrightarrow> pending_steps z' < pending_steps z)) \<and> waits_ok ctx z' \<and> control_wait_ok z'"

lemma simulated_none:
  "posix_view z' = posix_view z \<Longrightarrow> pending_steps z' < pending_steps z \<Longrightarrow> waits_ok ctx z' \<Longrightarrow> control_wait_ok z' \<Longrightarrow>
   simulated ctx a z z'"
  unfolding simulated_def by (intro conjI exI [of _ 0]) simp_all

lemma simulated_one:
  "runtime_step ctx a (posix_view z) = Some (posix_view z') \<Longrightarrow> waits_ok ctx z' \<Longrightarrow> control_wait_ok z' \<Longrightarrow> simulated ctx a z z'"
  unfolding simulated_def by (intro conjI exI [of _ 1]) simp_all

lemma event_step_other_stream:
  "event_step ctx (st\<lparr>stream_pc := p\<rparr>) = map_option (\<lambda>st. st\<lparr>stream_pc := p\<rparr>) (event_step ctx st)"
  by (cases "event_pc st") (simp_all add: event_step_unfold flag_ops queue_requests Let_def split: prod.splits)

lemma event_step_keeps:
  assumes "event_step ctx st = Some st'" "event_pc st \<noteq> EWaitResume" "\<And>e. event_pc st \<noteq> EPeerWait e"
  shows "stream_pc st' = stream_pc st" "stream_context st' = stream_context st" "control st' = control st"
    "raised m (stream_event st) \<Longrightarrow> raised m (stream_event st')" "raised m (reply_event st) \<Longrightarrow> raised m (reply_event st')"
  using assms by (auto elim!: event_step_cases)

lemma waits_ok_frame:
  assumes "waits_ok ctx z" "event_wait z' = event_wait z" "stream_wait z' = stream_wait z"
    "event_pc (shared z') = event_pc (shared z) \<or> event_wait z = None" "stream_pc (shared z') = stream_pc (shared z)"
    "stream_context (shared z') = stream_context (shared z)"
    "\<And>m. raised m (stream_event (shared z)) \<Longrightarrow> raised m (stream_event (shared z'))"
  shows "waits_ok ctx z'"
  using assms by (auto simp: waits_ok_def resume_pending_def)

lemma control_wait_ok_frame:
  assumes "control_wait_ok z" "control_wait z' = control_wait z" "control (shared z') = control (shared z)"
    "\<And>m. raised m (reply_event (shared z)) \<Longrightarrow> raised m (reply_event (shared z'))"
  shows "control_wait_ok z'"
  using assms unfolding control_wait_ok_def by metis

lemma view_unchanged [simp]:
  "control (posix_view z) = control (shared z)" "event_pc (posix_view z) = event_pc (shared z)"
  "stop_requested (posix_view z) = stop_requested (shared z)" "stream_event (posix_view z) = stream_event (shared z)"
  "reply_event (posix_view z) = reply_event (shared z)" "queues (posix_view z) = queues (shared z)"
  "current_context (posix_view z) = current_context (shared z)" "event_context (posix_view z) = event_context (shared z)"
  "stream_context (posix_view z) = stream_context (shared z)" "calls (posix_view z) = calls (shared z)"
  by (simp_all add: posix_view_def)

lemma zephyr_event_simulated:
  assumes inv: "orderly_inv ctx (posix_view z)" and ok: "waits_ok ctx z" "control_wait_ok z"
    and s: "zephyr_event_step ctx z = Some z'"
  shows "simulated ctx EventThread z z'"
proof (cases "event_pc (shared z) = EWaitResume")
  case True
  show ?thesis
  proof (cases "event_wait z")
    case None
    with True s have z': "z' = z\<lparr>event_wait := Some (stream_event (shared z) AND 4)\<rparr>" and r: "raised 4 (stream_event (shared z))"
      by (auto simp: zephyr_event_step_def zephyr_wait_event_resume_step_def k_event_wait_def Let_def split: if_splits)
    show ?thesis
      using None True ok r unfolding z'
      by (intro simulated_none)
        (auto simp: posix_view_def resume_pending_def pending_steps_def waits_ok_def control_wait_ok_def)
  next
    case (Some res)
    with True s have z': "z' = z\<lparr>shared := (shared z)\<lparr>stream_event := flags_clear 4 (stream_event (shared z)),
        event_pc := EPostResumed\<rparr>, event_wait := None\<rparr>"
      by (auto simp: zephyr_event_step_def zephyr_wait_event_resume_step_def k_event_clear_def Let_def)
    have "raised 4 (stream_event (shared z))" using Some ok by (simp add: waits_ok_def)
    then have "event_step ctx (posix_view z) = Some (posix_view z')"
      using True by (simp add: z' event_step_unfold flag_ops posix_view_def resume_pending_def)
    then show ?thesis
      using ok by (intro simulated_one) (auto simp: z' waits_ok_def control_wait_ok_def resume_pending_def)
  qed
next
  case False
  have peer: "event_pc (shared z) \<noteq> EPeerWait e" for e using event_pcs(2) [OF inv, of e] by simp
  with False s obtain st' where st': "event_step ctx (shared z) = Some st'" "z' = z\<lparr>shared := st'\<rparr>"
    by (cases "event_pc (shared z)") (auto simp: zephyr_event_step_def)
  note keeps = event_step_keeps [OF st'(1) False peer]
  have "event_wait z = None" using ok(1) False by (auto simp: waits_ok_def)
  then have "waits_ok ctx z'" "control_wait_ok z'"
    using keeps st'(2) by (simp_all add: waits_ok_frame [OF ok(1)] control_wait_ok_frame [OF ok(2)])
  moreover have "event_step ctx (posix_view z) = Some (posix_view z')"
    using st' keeps(1,2) by (auto simp: posix_view_def resume_pending_def event_step_other_stream)
  ultimately show ?thesis by (intro simulated_one) simp_all
qed

lemma clear_unraised:
  assumes "\<not> raised b f" shows "flags_clear (a OR b) f = flags_clear a f"
proof (rule bit_eqI)
  fix n
  have "\<not> (bit f n \<and> bit b n)" using assms by (auto simp: raised_bits)
  then show "bit (flags_clear (a OR b) f) n = bit (flags_clear a f) n"
    by (auto simp: flags_clear_def bit_and_iff bit_not_iff bit_or_iff)
qed

lemma clear_both: "\<not> raised 8 f \<Longrightarrow> flags_clear 9 f = flags_clear 1 f"
  using clear_unraised [of 8 f 1] by simp

lemma lifted_stream_step:
  assumes "stream_step ctx (shared z) = Some st'" "z' = z\<lparr>shared := st'\<rparr>" "\<not> resume_pending z" "\<not> resume_pending z'"
    "waits_ok ctx z'" "control_wait_ok z'"
  shows "simulated ctx StreamThread z z'"
  using assms by (intro simulated_one) (simp_all add: posix_view_def)

lemma zephyr_stream_simulated:
  assumes inv: "orderly_inv ctx (posix_view z)" and stop: "\<not> stop_requested (shared z)"
    and ok: "waits_ok ctx z" "control_wait_ok z" and s: "zephyr_stream_step ctx z = Some z'"
  shows "simulated ctx StreamThread z z'"
proof -
  have no_done: "\<not> raised 8 (stream_event (shared z))" using inv by (simp add: orderly_inv_def)
  show ?thesis
  proof (cases "stream_pc (shared z)")
    case SRun
    show ?thesis
    proof (cases "scheduler_length (ctx (stream_context (shared z))) > 0")
      case True
      show ?thesis
      proof (cases "stream_wait z")
        case None
        with True SRun s no_done have z': "z' = z\<lparr>stream_wait := Some (stream_event (shared z) AND 9)\<rparr>"
          and r: "raised 1 (stream_event (shared z))"
          by (auto simp: zephyr_stream_step_def k_event_wait_def Let_def split: if_splits)
        show ?thesis
          using None True SRun ok r no_done unfolding z'
          by (intro simulated_none)
            (auto simp: posix_view_def resume_pending_def pending_steps_def waits_ok_def control_wait_ok_def)
      next
        case (Some res)
        then have r: "raised 1 (stream_event (shared z))" "raised 1 res" "\<not> raised 8 res"
          using ok(1) SRun by (auto simp: waits_ok_def)
        with Some True SRun s have z': "z' = z\<lparr>shared := (shared z)\<lparr>stream_event := flags_clear 1 (stream_event (shared z)),
            stream_pc := SPauseNodes\<rparr>, stream_wait := None\<rparr>"
          by (auto simp: zephyr_stream_step_def zephyr_before_node_def k_event_clear_def after_scheduler_def
              is_runtime_scheduler_error_def Let_def)
        have "stream_step ctx (posix_view z) = Some (posix_view z')"
          using True SRun r no_done by (simp add: z' stream_step_unfold posix_view_def resume_pending_def before_node
              clear_both after_scheduler_def is_runtime_scheduler_error_def)
        then show ?thesis
          using ok by (intro simulated_one) (auto simp: z' waits_ok_def control_wait_ok_def resume_pending_def)
      qed
    next
      case False
      with SRun s have z': "z' = z\<lparr>shared := (shared z)\<lparr>stream_pc := SWaitResume\<rparr>\<rparr>"
        by (auto simp: zephyr_stream_step_def stream_step_unfold after_scheduler_def is_runtime_scheduler_error_def Let_def)
      have "stream_step ctx (posix_view z) = Some (posix_view z')"
        using False SRun by (simp add: z' stream_step_unfold posix_view_def resume_pending_def after_scheduler_def
            is_runtime_scheduler_error_def)
      moreover have "stream_wait z = None"
        using ok(1) SRun False by (cases "stream_wait z") (auto simp: waits_ok_def)
      ultimately show ?thesis
        using ok by (intro simulated_one) (auto simp: z' waits_ok_def control_wait_ok_def resume_pending_def)
    qed
  next
    case SWaitResume
    with s have z': "z' = z\<lparr>shared := (shared z)\<lparr>stream_pc := SStopAfterResume\<rparr>, stream_wait := None\<rparr>"
      and r: "raised 2 (stream_event (shared z))"
      by (auto simp: zephyr_stream_step_def zephyr_wait_stream_resume_step_def Let_def split: if_splits)
    show ?thesis
      using SWaitResume ok r unfolding z'
      by (intro simulated_none)
        (auto simp: posix_view_def resume_pending_def pending_steps_def waits_ok_def control_wait_ok_def)
  next
    case SStopAfterResume
    with s stop have z': "z' = z\<lparr>shared := (shared z)\<lparr>stream_pc := SResumeNodes\<rparr>, stream_wait := None\<rparr>"
      by (auto simp: zephyr_stream_step_def zephyr_wait_stream_resume_step_def Let_def)
    show ?thesis
      using SStopAfterResume ok unfolding z'
      by (intro simulated_none)
        (auto simp: posix_view_def resume_pending_def pending_steps_def waits_ok_def control_wait_ok_def)
  next
    case SResumeNodes
    show ?thesis
    proof (cases "stream_wait z")
      case None
      with SResumeNodes s have z': "z' = z\<lparr>shared := (shared z)\<lparr>stream_event := flags_clear 2 (stream_event (shared z))\<rparr>,
          stream_wait := Some 2\<rparr>"
        by (auto simp: zephyr_stream_step_def zephyr_wait_stream_resume_step_def k_event_clear_def Let_def)
      have "raised 2 (stream_event (shared z))" using None SResumeNodes ok by (simp add: waits_ok_def resume_pending_def)
      then have "run ctx (replicate 2 StreamThread) (posix_view z) = Some (posix_view z')"
        using None SResumeNodes stop
        by (simp add: z' numeral_2_eq_2 stream_step_unfold flag_ops posix_view_def resume_pending_def)
      then show ?thesis
        using ok None SResumeNodes unfolding simulated_def
        by (intro conjI exI [of _ 2]) (auto simp: z' waits_ok_def control_wait_ok_def resume_pending_def)
    next
      case (Some res)
      with SResumeNodes s have z': "z' = z\<lparr>shared := (call (resume_nodes_calls ctx (current_context (shared z))) (shared z))
          \<lparr>stream_pc := SPostResumed\<rparr>, stream_wait := None\<rparr>"
        by (auto simp: zephyr_stream_step_def zephyr_wait_stream_resume_step_def Let_def)
      have "stream_step ctx (posix_view z) = Some (posix_view z')"
        using Some SResumeNodes by (simp add: z' stream_step_unfold posix_view_def resume_pending_def call_def)
      then show ?thesis
        using ok by (intro simulated_one) (auto simp: z' waits_ok_def control_wait_ok_def resume_pending_def call_def)
    qed
  next
    case SPostResumed
    with s have z': "z' = z\<lparr>shared := (post_reply 2 (shared z))\<lparr>stream_pc := SStopTest\<rparr>\<rparr>"
      by (auto simp: zephyr_stream_step_def zephyr_wait_stream_resume_step_def Let_def)
    have "stream_step ctx (posix_view z) = Some (posix_view z')"
      using SPostResumed by (simp add: z' stream_step_unfold posix_view_def resume_pending_def post_reply_def)
    then show ?thesis
      using ok SPostResumed by (intro simulated_one) (auto simp: z' waits_ok_def control_wait_ok_def resume_pending_def post_reply_def)
  next
    case SLoad
    with s have st: "stream_step ctx (shared z) = Some ((shared z)\<lparr>stream_context := current_context (shared z), stream_pc := SRun\<rparr>)"
        "z' = z\<lparr>shared := (shared z)\<lparr>stream_context := current_context (shared z), stream_pc := SRun\<rparr>\<rparr>"
      by (simp_all add: zephyr_stream_step_def stream_step_unfold flag_ops Let_def)
    show ?thesis
      using SLoad ok by (intro lifted_stream_step [OF st])
        (auto simp: st resume_pending_def waits_ok_def control_wait_ok_def)
  next
    case SPauseNodes
    with s have st: "stream_step ctx (shared z) = Some ((shared z)\<lparr>calls := rev (pause_nodes_calls ctx (stream_context (shared z))) @ calls (shared z), stream_pc := SPostPaused\<rparr>)"
        "z' = z\<lparr>shared := (shared z)\<lparr>calls := rev (pause_nodes_calls ctx (stream_context (shared z))) @ calls (shared z), stream_pc := SPostPaused\<rparr>\<rparr>"
      by (simp_all add: zephyr_stream_step_def stream_step_unfold flag_ops Let_def)
    show ?thesis
      using SPauseNodes ok by (intro lifted_stream_step [OF st])
        (auto simp: st resume_pending_def waits_ok_def control_wait_ok_def)
  next
    case SPostPaused
    with s have st: "stream_step ctx (shared z) = Some ((shared z)\<lparr>reply_event := flags_post 1 (reply_event (shared z)), stream_pc := SWaitResume\<rparr>)"
        "z' = z\<lparr>shared := (shared z)\<lparr>reply_event := flags_post 1 (reply_event (shared z)), stream_pc := SWaitResume\<rparr>\<rparr>"
      by (simp_all add: zephyr_stream_step_def stream_step_unfold flag_ops Let_def)
    show ?thesis
      using SPostPaused ok by (intro lifted_stream_step [OF st])
        (auto simp: st resume_pending_def waits_ok_def control_wait_ok_def)
  next
    case SStopTest
    with s stop have st: "stream_step ctx (shared z) = Some ((shared z)\<lparr>stream_pc := SLoad\<rparr>)"
        "z' = z\<lparr>shared := (shared z)\<lparr>stream_pc := SLoad\<rparr>\<rparr>"
      by (simp_all add: zephyr_stream_step_def stream_step_unfold flag_ops Let_def)
    show ?thesis
      using SStopTest ok by (intro lifted_stream_step [OF st])
        (auto simp: st resume_pending_def waits_ok_def control_wait_ok_def)
  next
    case SDone
    with s show ?thesis by (simp add: zephyr_stream_step_def stream_step_unfold)
  qed (use stream_pcs [OF inv] in \<open>auto simp: posix_view_def resume_pending_def split: if_splits\<close>)
qed

lemma zephyr_call_waits_none:
  assumes "waits_ok ctx z" "control_wait_ok z" "\<exists>p. control (shared z) = Idle p"
  shows "control_wait z = None"
  using assms by (cases "control_wait z") (auto simp: control_wait_ok_def)

fun starts_stream :: "control_pc \<Rightarrow> bool" where
  "starts_stream (StartStream ok) = True"
| "starts_stream c = False"

lemma control_step_other_stream:
  assumes "stream_pc st \<noteq> SDone" "p \<noteq> SDone" "\<not> starts_stream (control st)"
  shows "control_step ctx (st\<lparr>stream_pc := p\<rparr>) = map_option (\<lambda>st. st\<lparr>stream_pc := p\<rparr>) (control_step ctx st)"
  using assms by (cases "control st") (simp_all add: control_step_unfold flag_ops resume_failed_def Let_def)

text \<open>A wait for an answer of which only one flag can be set.\<close>

lemma lifted_control_step:
  assumes view: "control_step ctx (shared z) = Some st'" and z': "shared z' = st'" "stream_wait z' = stream_wait z"
    and other: "\<not> starts_stream (control (shared z))" and sp: "stream_pc st' = stream_pc (shared z)"
    and ok: "waits_ok ctx z'" "control_wait_ok z'"
  shows "simulated ctx Controller z z'"
proof -
  have "control_step ctx (posix_view z) = Some (posix_view z')"
    using assms by (auto simp: posix_view_def resume_pending_def control_step_other_stream)
  then show ?thesis using ok by (intro simulated_one) simp_all
qed

lemma control_step_keeps:
  assumes "control_step ctx st = Some st'" "\<not> starts_stream (control st)"
  shows "stream_pc st' = stream_pc st \<and> event_pc st' = event_pc st \<and> stream_context st' = stream_context st \<and>
    (raised m (stream_event st) \<longrightarrow> raised m (stream_event st'))"
  using assms
  by (cases "control st"; simp add: control_step_unfold flag_ops resume_failed_def Let_def split: if_splits;
      hypsubst?; simp)

lemma waits_ok_control:
  assumes "waits_ok ctx z" "control_step ctx (shared z) = Some st'" "shared z' = st'" "event_wait z' = event_wait z"
    "stream_wait z' = stream_wait z" "\<not> starts_stream (control (shared z))"
  shows "waits_ok ctx z'"
  using control_step_keeps [OF assms(2,6)] assms(3-5) by (intro waits_ok_frame [OF assms(1)]) auto

lemma answer_simulated:
  assumes ok: "waits_ok ctx z" "control_wait_ok z"
    and first: "control_wait z = None \<Longrightarrow> z' = z\<lparr>control_wait := Some res\<rparr>"
      "control_wait z = None \<Longrightarrow> control_wait_ok (z\<lparr>control_wait := Some res\<rparr>)"
    and last: "control_wait z \<noteq> None \<Longrightarrow> control_step ctx (shared z) = Some st'"
      "control_wait z \<noteq> None \<Longrightarrow> z' = z\<lparr>shared := st', control_wait := None\<rparr>"
    and other: "\<not> starts_stream (control (shared z))"
  shows "simulated ctx Controller z z'"
proof (cases "control_wait z")
  case None
  with ok first show ?thesis
    by (intro simulated_none) (auto simp: posix_view_def resume_pending_def pending_steps_def waits_ok_def)
next
  case (Some r)
  then have fin: "control_step ctx (shared z) = Some st'" "z' = z\<lparr>shared := st', control_wait := None\<rparr>"
    using last by simp_all
  show ?thesis
    using fin control_step_keeps [OF fin(1) other] waits_ok_control [OF ok(1) fin(1), of z'] other
    by (intro lifted_control_step [OF fin(1)]) (auto simp: control_wait_ok_def)
qed

text \<open>The places of a POSIX start that fails and of the wait for the end do not occur.\<close>

fun zephyr_pc :: "control_pc \<Rightarrow> bool" where
  "zephyr_pc StartEnd = False"
| "zephyr_pc StartJoin = False"
| "zephyr_pc WaitEnd = False"
| "zephyr_pc c = True"

lemmas zephyr_waits = zephyr_control_step_def zephyr_pause_step_def zephyr_resume_step_def control_answer_def
  k_event_wait_def k_event_clear_def

lemma clear_answers:
  "\<not> raised 1 f \<Longrightarrow> flags_clear 3 f = flags_clear 2 f" "\<not> raised 4 f \<Longrightarrow> flags_clear 12 f = flags_clear 8 f"
  using clear_unraised [of 1 f 2] clear_unraised [of 4 f 8] by simp_all

lemma zephyr_plain_control:
  assumes "control (shared z) \<in> {PausePost, ResumeQueue, ResumePost, ResumePostEvents, ResumeClear}"
  shows "zephyr_control_step ctx z = map_option (\<lambda>st. z\<lparr>shared := st\<rparr>) (control_step ctx (shared z))"
  using assms by (auto simp: zephyr_control_step_def zephyr_pause_step_def zephyr_resume_step_def control_step_def Let_def)

lemma zephyr_control_simulated:
  assumes inv: "orderly_inv ctx (posix_view z)" and ok: "waits_ok ctx z" "control_wait_ok z"
    and fail: "control (shared z) \<noteq> StartStream False" and no_wait: "zephyr_pc (control (shared z))"
    and s: "zephyr_control_step ctx z = Some z'"
  shows "simulated ctx Controller z z'"
proof -
  note facts = control_facts [OF inv, simplified]
  have plain: ?thesis if c: "control (shared z) \<in> {PausePost, ResumeQueue, ResumePost, ResumePostEvents, ResumeClear}"
  proof -
    from c s obtain st' where st': "control_step ctx (shared z) = Some st'" "z' = z\<lparr>shared := st'\<rparr>"
      unfolding zephyr_plain_control [OF c] by auto
    have "control_wait z = None" using ok(2) c by (cases "control_wait z") (auto simp: control_wait_ok_def)
    moreover have other: "\<not> starts_stream (control (shared z))" using c by auto
    ultimately show ?thesis
      using st' control_step_keeps [OF st'(1) other] waits_ok_control [OF ok(1) st'(1), of z'] other
      by (intro lifted_control_step [OF st'(1)]) (auto simp: control_wait_ok_def)
  qed
  show ?thesis
  proof (cases "control (shared z)")
    case PauseWaitStream
    show ?thesis
    proof (rule answer_simulated [OF ok, where res = "reply_event (shared z) AND 1" and
        st' = "(shared z)\<lparr>reply_event := flags_clear 1 (reply_event (shared z)), control := PauseWaitEvents\<rparr>"])
      show "control_wait z = None \<Longrightarrow> z' = z\<lparr>control_wait := Some (reply_event (shared z) AND 1)\<rparr>"
        using PauseWaitStream s by (auto simp: zephyr_waits Let_def split: if_splits)
      show "control_wait z = None \<Longrightarrow> control_wait_ok (z\<lparr>control_wait := Some (reply_event (shared z) AND 1)\<rparr>)"
        using PauseWaitStream s facts by (auto simp: zephyr_waits control_wait_ok_def Let_def split: if_splits)
      show "control_wait z \<noteq> None \<Longrightarrow> control_step ctx (shared z) =
          Some ((shared z)\<lparr>reply_event := flags_clear 1 (reply_event (shared z)), control := PauseWaitEvents\<rparr>)"
        using PauseWaitStream ok(2) facts by (auto simp: control_step_unfold flag_ops control_wait_ok_def)
      show "control_wait z \<noteq> None \<Longrightarrow> z' = z\<lparr>shared := (shared z)
          \<lparr>reply_event := flags_clear 1 (reply_event (shared z)), control := PauseWaitEvents\<rparr>, control_wait := None\<rparr>"
        using PauseWaitStream s ok(2) facts by (auto simp: zephyr_waits control_wait_ok_def clear_answers Let_def)
    qed (use PauseWaitStream in simp_all)
  next
    case PauseWaitEvents
    show ?thesis
    proof (rule answer_simulated [OF ok, where res = "reply_event (shared z) AND 4" and
        st' = "(shared z)\<lparr>reply_event := flags_clear 4 (reply_event (shared z)), control := Idle Paused\<rparr>"])
      show "control_wait z = None \<Longrightarrow> z' = z\<lparr>control_wait := Some (reply_event (shared z) AND 4)\<rparr>"
        using PauseWaitEvents s by (auto simp: zephyr_waits Let_def split: if_splits)
      show "control_wait z = None \<Longrightarrow> control_wait_ok (z\<lparr>control_wait := Some (reply_event (shared z) AND 4)\<rparr>)"
        using PauseWaitEvents s facts by (auto simp: zephyr_waits control_wait_ok_def Let_def split: if_splits)
      show "control_wait z \<noteq> None \<Longrightarrow> control_step ctx (shared z) =
          Some ((shared z)\<lparr>reply_event := flags_clear 4 (reply_event (shared z)), control := Idle Paused\<rparr>)"
        using PauseWaitEvents ok(2) facts by (auto simp: control_step_unfold flag_ops control_wait_ok_def)
      show "control_wait z \<noteq> None \<Longrightarrow> z' = z\<lparr>shared := (shared z)
          \<lparr>reply_event := flags_clear 4 (reply_event (shared z)), control := Idle Paused\<rparr>, control_wait := None\<rparr>"
        using PauseWaitEvents s ok(2) facts by (auto simp: zephyr_waits control_wait_ok_def clear_answers Let_def)
    qed (use PauseWaitEvents in simp_all)
  next
    case ResumeWaitStream
    show ?thesis
    proof (rule answer_simulated [OF ok, where res = "reply_event (shared z) AND 3" and
        st' = "(shared z)\<lparr>reply_event := flags_clear 3 (reply_event (shared z)), control := ResumePostEvents\<rparr>"])
      show "control_wait z = None \<Longrightarrow> z' = z\<lparr>control_wait := Some (reply_event (shared z) AND 3)\<rparr>"
        using ResumeWaitStream s by (auto simp: zephyr_waits Let_def split: if_splits)
      show "control_wait z = None \<Longrightarrow> control_wait_ok (z\<lparr>control_wait := Some (reply_event (shared z) AND 3)\<rparr>)"
        using ResumeWaitStream s facts by (auto simp: zephyr_waits control_wait_ok_def Let_def split: if_splits)
      show "control_wait z \<noteq> None \<Longrightarrow> control_step ctx (shared z) =
          Some ((shared z)\<lparr>reply_event := flags_clear 3 (reply_event (shared z)), control := ResumePostEvents\<rparr>)"
        using ResumeWaitStream ok(2) facts by (auto simp: control_step_unfold flag_ops control_wait_ok_def)
      show "control_wait z \<noteq> None \<Longrightarrow> z' = z\<lparr>shared := (shared z)
          \<lparr>reply_event := flags_clear 3 (reply_event (shared z)), control := ResumePostEvents\<rparr>, control_wait := None\<rparr>"
        using ResumeWaitStream s ok(2) facts by (auto simp: zephyr_waits control_wait_ok_def clear_answers Let_def)
    qed (use ResumeWaitStream in simp_all)
  next
    case ResumeWaitEvents
    show ?thesis
    proof (rule answer_simulated [OF ok, where res = "reply_event (shared z) AND 12" and
        st' = "(shared z)\<lparr>reply_event := flags_clear 12 (reply_event (shared z)), control := ResumeClear\<rparr>"])
      show "control_wait z = None \<Longrightarrow> z' = z\<lparr>control_wait := Some (reply_event (shared z) AND 12)\<rparr>"
        using ResumeWaitEvents s by (auto simp: zephyr_waits Let_def split: if_splits)
      show "control_wait z = None \<Longrightarrow> control_wait_ok (z\<lparr>control_wait := Some (reply_event (shared z) AND 12)\<rparr>)"
        using ResumeWaitEvents s facts by (auto simp: zephyr_waits control_wait_ok_def Let_def split: if_splits)
      show "control_wait z \<noteq> None \<Longrightarrow> control_step ctx (shared z) =
          Some ((shared z)\<lparr>reply_event := flags_clear 12 (reply_event (shared z)), control := ResumeClear\<rparr>)"
        using ResumeWaitEvents ok(2) facts by (auto simp: control_step_unfold flag_ops control_wait_ok_def)
      show "control_wait z \<noteq> None \<Longrightarrow> z' = z\<lparr>shared := (shared z)
          \<lparr>reply_event := flags_clear 12 (reply_event (shared z)), control := ResumeClear\<rparr>, control_wait := None\<rparr>"
        using ResumeWaitEvents s ok(2) facts by (auto simp: zephyr_waits control_wait_ok_def clear_answers Let_def)
    qed (use ResumeWaitEvents in simp_all)
  next
    case (StartStream started)
    with fail s have z': "z' = z\<lparr>shared := (shared z)\<lparr>stream_pc := SLoad, control := Idle Active\<rparr>\<rparr>" and started
      by (auto simp: zephyr_control_step_def zephyr_start_step_def Let_def)
    have "stream_pc (posix_view z) = SDone" using facts(1) StartStream by simp
    then have sd: "stream_pc (shared z) = SDone" by (auto simp: posix_view_def split: if_splits)
    moreover have "stream_wait z = None" using ok(1) sd by (cases "stream_wait z") (auto simp: waits_ok_def)
    ultimately show ?thesis
      using ok StartStream \<open>started\<close>
      by (intro simulated_one) (auto simp: z' control_step_unfold posix_view_def resume_pending_def waits_ok_def
          control_wait_ok_def)
  next
    case (Idle p)
    with s show ?thesis by (simp add: zephyr_control_step_def)
  next
    case StartEnd
    with s show ?thesis by (simp add: zephyr_control_step_def)
  next
    case StartJoin
    with s show ?thesis by (simp add: zephyr_control_step_def)
  next
    case WaitEnd
    with no_wait show ?thesis by simp
  qed (use plain facts in auto)
qed

section \<open>The invariant of orderly runs\<close>

definition zephyr_inv :: "contexts \<Rightarrow> zephyr \<Rightarrow> bool" where
  "zephyr_inv ctx z \<longleftrightarrow>
     orderly_inv ctx (posix_view z) \<and> waits_ok ctx z \<and> control_wait_ok z \<and> zephyr_pc (control (shared z))"

lemma run_keeps_inv:
  "stop_requested st \<or> orderly_inv ctx st \<Longrightarrow> thread_actor a \<Longrightarrow> run ctx (replicate n a) st = Some st' \<Longrightarrow>
   stop_requested st' \<or> orderly_inv ctx st'"
proof (induction n arbitrary: st)
  case (Suc n)
  then obtain st1 where "runtime_step ctx a st = Some st1" "run ctx (replicate n a) st1 = Some st'"
    by (auto split: option.splits)
  with Suc thread_step_inv show ?case by blast
qed simp

lemma zephyr_event_stop: "zephyr_event_step ctx z = Some z' \<Longrightarrow> stop_requested (shared z') = stop_requested (shared z)"
  by (cases "event_pc (shared z)") (auto simp: zephyr_event_step_def zephyr_pause_peer_step_def
      zephyr_wait_event_resume_step_def Let_def event_step_stop split: option.splits)

lemma zephyr_stream_stop: "zephyr_stream_step ctx z = Some z' \<Longrightarrow> stop_requested (shared z') = stop_requested (shared z)"
  by (cases "stream_pc (shared z)") (auto simp: zephyr_stream_step_def zephyr_wait_event_paused_step_def
      zephyr_wait_stream_resume_step_def flag_ops Let_def stream_step_stop split: option.splits if_splits prod.splits)

lemma zephyr_control_stop: "zephyr_control_step ctx z = Some z' \<Longrightarrow> stop_requested (shared z') = stop_requested (shared z)"
  by (cases "control (shared z)") (auto simp: zephyr_control_step_def zephyr_pause_step_def zephyr_resume_step_def
      control_answer_def zephyr_start_step_def cleanup_started_event_thread_def zephyr_wait_end_step_def
      pause_step_def resume_step_def stop_step_def resume_failed_def flag_ops Let_def split: option.splits if_splits)

lemma zephyr_step_cases:
  assumes "thread_actor a" "zephyr_step ctx a z = Some z'"
  obtains "a = Controller" "zephyr_control_step ctx z = Some z'" | "a = EventThread" "zephyr_event_step ctx z = Some z'"
  | "a = StreamThread" "zephyr_stream_step ctx z = Some z'"
  using assms by (auto simp: thread_actor_def)

lemma zephyr_step_stop:
  assumes "thread_actor a" "zephyr_step ctx a z = Some z'"
  shows "stop_requested (shared z') = stop_requested (shared z)"
  using assms zephyr_event_stop zephyr_stream_stop zephyr_control_stop by (cases rule: zephyr_step_cases) blast+

lemma zephyr_step_simulated:
  assumes "zephyr_inv ctx z" "\<not> stop_requested (shared z)" "thread_actor a" "zephyr_step ctx a z = Some z'"
    "a = Controller \<Longrightarrow> control (shared z) \<noteq> StartStream False"
  shows "simulated ctx a z z'"
  using assms(3,4)
proof (cases rule: zephyr_step_cases)
  case 1
  then show ?thesis using assms(1,5) zephyr_control_simulated by (simp add: zephyr_inv_def)
next
  case 2
  then show ?thesis using assms(1) zephyr_event_simulated by (simp add: zephyr_inv_def)
next
  case 3
  then show ?thesis using assms(1,2) zephyr_stream_simulated by (simp add: zephyr_inv_def)
qed

lemma zephyr_step_pc:
  assumes "zephyr_pc (control (shared z))" "thread_actor a" "zephyr_step ctx a z = Some z'"
  shows "zephyr_pc (control (shared z'))"
  using assms(2,3)
proof (cases rule: zephyr_step_cases)
  case 1
  then show ?thesis
    using assms(1) by (cases "control (shared z)") (auto simp: zephyr_control_step_def zephyr_pause_step_def
        zephyr_resume_step_def control_answer_def zephyr_start_step_def pause_step_def resume_step_def stop_step_def
        flag_ops Let_def split: option.splits if_splits)
next
  case 2
  then show ?thesis
    using assms(1) by (cases "event_pc (shared z)") (auto simp: zephyr_event_step_def zephyr_pause_peer_step_def
        zephyr_wait_event_resume_step_def Let_def split: option.splits elim!: event_step_cases)
next
  case 3
  then show ?thesis
    using assms(1) by (cases "stream_pc (shared z)") (auto simp: zephyr_stream_step_def zephyr_wait_event_paused_step_def
        zephyr_wait_stream_resume_step_def flag_ops Let_def split: option.splits if_splits prod.splits elim!: stream_step_cases)
qed

text \<open>The event thread is aborted when the stream thread cannot be created.\<close>

lemma zephyr_failed_start:
  assumes inv: "zephyr_inv ctx z" and c: "control (shared z) = StartStream False"
    and step: "zephyr_control_step ctx z = Some z'"
  shows "zephyr_inv ctx z'"
proof -
  have ok: "event_ok ctx (posix_view z)" "stream_ok ctx (posix_view z)" using inv by (simp_all add: zephyr_inv_def orderly_inv_def)
  have "stream_pc (posix_view z) = SDone" using ok c by (simp add: stream_ok_def)
  then have sd: "stream_pc (shared z) = SDone" "\<not> resume_pending z" "posix_view z = shared z"
    by (auto simp: posix_view_def resume_pending_def split: if_splits)
  have none: "event_wait z = None" "stream_wait z = None" "control_wait z = None"
    using inv sd c ok by (auto simp: zephyr_inv_def waits_ok_def control_wait_ok_def event_ok_def event_running_def)
  have "z' = z\<lparr>shared := (shared z)\<lparr>event_pc := EDone, current_context := 0, control := Idle Stopped\<rparr>\<rparr>"
    using c step by (simp add: zephyr_control_step_def zephyr_start_step_def cleanup_started_event_thread_def Let_def)
  then show ?thesis
    using inv ok c sd none by (auto simp: zephyr_inv_def orderly_inv_def posix_view_def resume_pending_def waits_ok_def
        control_wait_ok_def event_ok_def stream_ok_def event_flags_def stream_flags_def)
qed

lemma zephyr_step_inv:
  assumes inv: "zephyr_inv ctx z" and stop: "\<not> stop_requested (shared z)"
    and a: "thread_actor a" "zephyr_step ctx a z = Some z'"
  shows "zephyr_inv ctx z'"
proof (cases "a = Controller \<and> control (shared z) = StartStream False")
  case True
  with zephyr_failed_start [OF inv] a show ?thesis by simp
next
  case False
  then have sim: "simulated ctx a z z'" using zephyr_step_simulated [OF inv stop a] by blast
  then obtain n where "run ctx (replicate n a) (posix_view z) = Some (posix_view z')" by (auto simp: simulated_def)
  moreover have "stop_requested (posix_view z) \<or> orderly_inv ctx (posix_view z)" using inv by (simp add: zephyr_inv_def)
  ultimately have "stop_requested (posix_view z') \<or> orderly_inv ctx (posix_view z')"
    using run_keeps_inv a(1) by blast
  then have "orderly_inv ctx (posix_view z')" using zephyr_step_stop [OF a] stop by simp
  moreover have "zephyr_pc (control (shared z'))" using zephyr_step_pc [OF _ a] inv by (simp add: zephyr_inv_def)
  ultimately show ?thesis using sim by (simp add: zephyr_inv_def simulated_def)
qed

lemma zephyr_idle:
  assumes "zephyr_inv ctx z" "control (shared z) = Idle p"
  shows "\<not> resume_pending z" "event_wait z = None" "stream_wait z = None" "control_wait z = None"
proof -
  have flags: "stream_flags (posix_view z) False False False False" "event_flags (posix_view z) False False False"
    "stream_pc (posix_view z) \<noteq> SResumeNodes"
    using assms by (cases p; auto simp: zephyr_inv_def orderly_inv_def event_ok_def stream_ok_def stream_running_def
        stream_parked_def)+
  then show pend: "\<not> resume_pending z" using assms by (auto simp: zephyr_inv_def waits_ok_def stream_flags_def)
  show "event_wait z = None" using assms flags by (auto simp: zephyr_inv_def waits_ok_def event_flags_def)
  show "control_wait z = None"
    using assms by (cases "control_wait z") (auto simp: zephyr_inv_def control_wait_ok_def)
  have "posix_view z = shared z" using pend by (simp add: posix_view_def)
  then show "stream_wait z = None"
    using assms flags by (cases "stream_wait z") (auto simp: zephyr_inv_def waits_ok_def stream_flags_def)
qed

lemma posix_view_idle: "zephyr_inv ctx z \<Longrightarrow> control (shared z) = Idle p \<Longrightarrow> posix_view z = shared z"
  using zephyr_idle by (simp add: posix_view_def)

lemma may_call_idle: "may_call c st \<Longrightarrow> \<exists>p. control st = Idle p"
  by (cases "control st") (auto simp: may_call_def)

lemma begin_call_pcs: "stream_pc (begin_call ctx c st) = stream_pc st"
  by (cases c) (simp_all add: begin_call_unfold on_queue_def)

lemma zephyr_call_shared:
  assumes "\<And>k s. c \<noteq> Start k False s"
  shows "shared (zephyr_begin_call ctx c z) = begin_call ctx c (shared z)"
proof (cases c)
  case (Start k e s)
  with assms have e by (cases e) auto
  with Start show ?thesis by (simp add: zephyr_begin_call_def begin_call_unfold zephyr_start_call_def)
qed (simp_all add: zephyr_begin_call_def)

lemma zephyr_call_inv:
  assumes inv: "zephyr_inv ctx z" and m: "may_call c (shared z)" and o: "orderly_call ctx c (shared z)" and w: "c \<noteq> WaitForEnd"
    and stop: "\<not> stop_requested (shared (zephyr_begin_call ctx c z))"
  shows "zephyr_inv ctx (zephyr_begin_call ctx c z)"
proof -
  obtain p where p: "control (shared z) = Idle p" using may_call_idle m by blast
  note idle = zephyr_idle [OF inv p] posix_view_idle [OF inv p]
  let ?z = "zephyr_begin_call ctx c z"
  have same: "event_wait ?z = None" "stream_wait ?z = None" "control_wait ?z = None"
    using idle by (simp_all add: zephyr_begin_call_def)
  have pcs: "stream_pc (shared ?z) = stream_pc (shared z)"
    by (cases c) (simp_all add: zephyr_begin_call_def zephyr_start_call_def begin_call_pcs)
  then have pend: "\<not> resume_pending ?z" using idle same by (simp add: resume_pending_def)
  have rest: "waits_ok ctx ?z" "control_wait_ok ?z" using same pend by (simp_all add: waits_ok_def control_wait_ok_def)
  have inv0: "orderly_inv ctx (shared z)" using inv idle by (simp add: zephyr_inv_def)
  have "orderly_inv ctx (shared ?z) \<and> zephyr_pc (control (shared ?z))"
  proof (cases "\<exists>k s. c = Start k False s")
    case True
    then obtain k s where c: "c = Start k False s" by blast
    show ?thesis
      using inv0 o p by (auto simp: c zephyr_begin_call_def zephyr_start_call_def orderly_inv_def orderly_call_def
          event_ok_def stream_ok_def event_flags_def stream_flags_def)
  next
    case False
    then have eq: "shared ?z = begin_call ctx c (shared z)" by (intro zephyr_call_shared) blast
    have "zephyr_pc (control (begin_call ctx c (shared z)))"
      using w p by (cases c) (auto simp: begin_call_unfold on_queue_def)
    then show ?thesis using eq call_inv [OF inv0 o m] stop by simp
  qed
  then show ?thesis using rest pend by (simp add: zephyr_inv_def posix_view_def)
qed

lemma zephyr_stays_stopped:
  assumes "stop_requested (shared z)" "may_call c (shared z)" "orderly_call ctx c (shared z)"
  shows "stop_requested (shared (zephyr_begin_call ctx c z))"
  using assms by (cases c) (auto simp: orderly_call_def zephyr_begin_call_def begin_call_unfold on_queue_def)

lemma zephyr_boot_inv: "zephyr_inv ctx zephyr_boot"
  using boot_inv [of ctx] by (simp add: zephyr_inv_def posix_view_def zephyr_boot_def resume_pending_def waits_ok_def
      control_wait_ok_def) (simp add: boot_def)

lemma zephyr_orderly_inv: "zephyr_orderly ctx z \<Longrightarrow> stop_requested (shared z) \<or> zephyr_inv ctx z"
proof (induction rule: zephyr_orderly.induct)
  case boot
  show ?case by (simp add: zephyr_boot_inv)
next
  case (thread z a z')
  then show ?case using zephyr_step_stop zephyr_step_inv by blast
next
  case (call z c)
  then show ?case using zephyr_stays_stopped zephyr_call_inv by blast
qed

section \<open>What the calls leave, and that they return\<close>

text \<open>
  C25. In an orderly use the Zephyr runtime refines the POSIX runtime: seen with every wait taken together
  with its clearing, each step of a thread is a number of steps of the same thread of the POSIX runtime,
  and each call is the same call. Excluded are the starts that fail (Zephyr undoes them in another
  way) and the wait for the end of the threads, which is no call of an orderly use here.
\<close>
theorem zephyr_refines_posix:
  assumes "zephyr_orderly ctx z" "\<not> stop_requested (shared z)"
  shows "(\<forall>a z'. thread_actor a \<longrightarrow> zephyr_step ctx a z = Some z' \<longrightarrow>
      (a = Controller \<longrightarrow> control (shared z) \<noteq> StartStream False) \<longrightarrow>
      (\<exists>n. run ctx (replicate n a) (posix_view z) = Some (posix_view z'))) \<and>
    (\<forall>c. may_call c (shared z) \<longrightarrow> (\<forall>k s. c \<noteq> Start k False s) \<longrightarrow>
      posix_view z = shared z \<and> posix_view (zephyr_begin_call ctx c z) = begin_call ctx c (posix_view z))"
proof -
  have inv: "zephyr_inv ctx z" using zephyr_orderly_inv assms by blast
  show ?thesis
  proof (intro conjI allI impI)
    fix a z'
    assume "thread_actor a" "zephyr_step ctx a z = Some z'" "a = Controller \<longrightarrow> control (shared z) \<noteq> StartStream False"
    then have "simulated ctx a z z'" using zephyr_step_simulated [OF inv assms(2)] by blast
    then show "\<exists>n. run ctx (replicate n a) (posix_view z) = Some (posix_view z')" by (auto simp: simulated_def)
  next
    fix c
    assume m: "may_call c (shared z)" and c: "\<forall>k s. c \<noteq> Start k False s"
    then obtain p where p: "control (shared z) = Idle p" using may_call_idle by blast
    note idle = zephyr_idle [OF inv p] posix_view_idle [OF inv p]
    show "posix_view z = shared z" using idle by simp
    have "shared (zephyr_begin_call ctx c z) = begin_call ctx c (shared z)" using c by (intro zephyr_call_shared) blast
    moreover have "\<not> resume_pending (zephyr_begin_call ctx c z)"
      using idle calculation by (simp add: resume_pending_def begin_call_pcs zephyr_begin_call_def)
    ultimately show "posix_view (zephyr_begin_call ctx c z) = begin_call ctx c (posix_view z)"
      using idle by (simp add: posix_view_def)
  qed
qed

lemma zephyr_event_enabled:
  assumes inv: "orderly_inv ctx (posix_view z)" and s: "event_step ctx (posix_view z) = Some st'"
  shows "zephyr_event_step ctx z \<noteq> None"
proof (cases "event_pc (shared z) = EWaitResume")
  case True
  with s show ?thesis
    by (cases "event_wait z") (auto simp: zephyr_event_step_def zephyr_wait_event_resume_step_def k_event_wait_def
        event_step_unfold flag_ops Let_def split: if_splits)
next
  case False
  have "event_step ctx (shared z) \<noteq> None"
    using s event_step_other_stream [where ctx = ctx and st = "shared z" and p = SWaitResume]
    by (cases "event_step ctx (shared z)") (auto simp: posix_view_def split: if_splits)
  then show ?thesis
    using False event_pcs(2) [OF inv] by (cases "event_pc (shared z)") (auto simp: zephyr_event_step_def)
qed

lemma zephyr_stream_enabled:
  assumes inv: "orderly_inv ctx (posix_view z)" and ok: "waits_ok ctx z" and s: "stream_step ctx (posix_view z) = Some st'"
  shows "zephyr_stream_step ctx z \<noteq> None"
proof (cases "resume_pending z")
  case True
  then show ?thesis
    by (auto simp: resume_pending_def zephyr_stream_step_def zephyr_wait_stream_resume_step_def Let_def)
next
  case False
  then have view: "posix_view z = shared z" by (simp add: posix_view_def)
  show ?thesis
    using s ok False stream_pcs [OF inv] unfolding view
    by (cases "stream_pc (shared z)"; cases "stream_wait z")
      (auto simp: zephyr_stream_step_def zephyr_wait_stream_resume_step_def k_event_wait_def zephyr_before_node_def
        waits_ok_def stream_step_unfold before_node flag_ops Let_def split: if_splits)
qed

lemma zephyr_control_enabled:
  assumes pc: "zephyr_pc (control (shared z))" and s: "control_step ctx (posix_view z) = Some st'"
  shows "zephyr_control_step ctx z \<noteq> None"
  using s pc
  by (cases "control (shared z)"; cases "control_wait z")
    (auto simp: zephyr_waits zephyr_start_step_def pause_step_def resume_step_def stop_step_def control_step_unfold
      flag_ops Let_def posix_view_def split: if_splits)

lemma zephyr_progress:
  assumes inv: "zephyr_inv ctx z" and busy: "\<forall>p. control (shared z) \<noteq> Idle p"
  shows "\<exists>a z'. thread_actor a \<and> zephyr_step ctx a z = Some z'"
proof -
  have ok: "orderly_inv ctx (posix_view z)" "waits_ok ctx z" "zephyr_pc (control (shared z))"
    using inv by (simp_all add: zephyr_inv_def)
  obtain a st' where a: "thread_actor a" "runtime_step ctx a (posix_view z) = Some st'"
    using orderly_progress [OF ok(1)] busy by auto
  have "zephyr_step ctx a z \<noteq> None"
    using a(2) zephyr_control_enabled [OF ok(3)] zephyr_event_enabled [OF ok(1)] zephyr_stream_enabled [OF ok(1,2)] a(1)
    by (auto simp: thread_actor_def)
  then show ?thesis using a(1) by blast
qed

text \<open>Every step of the POSIX runtime counts for more than the steps of Zephyr it may set free.\<close>

definition zephyr_rank :: "zephyr \<Rightarrow> nat" where
  "zephyr_rank z = 5 * call_rank (posix_view z) + pending_steps z"

lemma pending_steps_bound: "pending_steps z \<le> 4"
  by (cases "stream_pc (shared z)") (simp_all add: pending_steps_def)

lemma run_rank:
  "orderly_inv ctx st \<Longrightarrow> \<not> stop_requested st \<Longrightarrow> thread_actor a \<Longrightarrow> run ctx (replicate n a) st = Some st' \<Longrightarrow>
   call_rank st' \<le> call_rank st \<and> (n > 0 \<longrightarrow> call_rank st' < call_rank st)"
proof (induction n arbitrary: st)
  case (Suc n)
  then obtain st1 where st1: "runtime_step ctx a st = Some st1" "run ctx (replicate n a) st1 = Some st'"
    by (auto split: option.splits)
  have "call_rank st1 < call_rank st" "orderly_inv ctx st1 \<and> \<not> stop_requested st1"
    using thread_step_rank thread_step_inv thread_step_stop Suc.prems st1(1) by blast+
  with Suc.IH [of st1] st1(2) Suc.prems(3) show ?case by auto
qed simp

lemma zephyr_step_rank:
  assumes inv: "zephyr_inv ctx z" and stop: "\<not> stop_requested (shared z)" and a: "thread_actor a" "zephyr_step ctx a z = Some z'"
    and sim: "a = Controller \<Longrightarrow> control (shared z) \<noteq> StartStream False"
  shows "zephyr_rank z' < zephyr_rank z"
proof -
  have "simulated ctx a z z'" using zephyr_step_simulated [OF inv stop a] sim by blast
  then obtain n where n: "run ctx (replicate n a) (posix_view z) = Some (posix_view z')"
    "n = 0 \<longrightarrow> pending_steps z' < pending_steps z" by (auto simp: simulated_def)
  have "call_rank (posix_view z') \<le> call_rank (posix_view z) \<and> (n > 0 \<longrightarrow> call_rank (posix_view z') < call_rank (posix_view z))"
    using run_rank [OF _ _ a(1) n(1)] inv stop by (simp add: zephyr_inv_def)
  with n(2) pending_steps_bound [of z'] show ?thesis by (cases n) (auto simp: zephyr_rank_def)
qed

lemma zephyr_idle_parked:
  assumes inv: "zephyr_inv ctx z" and p: "control (shared z) = Idle p"
  shows "control (shared z) = Idle Paused \<longrightarrow> event_pc (shared z) = EWaitResume \<and> nodes_parked ctx (shared z) \<and>
    (dataflow ctx (shared z) \<longrightarrow> stream_pc (shared z) = SWaitResume)"
proof -
  have "event_ok ctx (shared z)" "stream_ok ctx (shared z)"
    using inv posix_view_idle [OF inv p] by (simp_all add: zephyr_inv_def orderly_inv_def)
  then show ?thesis by (auto simp: event_ok_def stream_ok_def stream_parked_def)
qed

text \<open>
  C26. On Zephyr too every start, pause and resume of an orderly use in which no stop was requested
  returns under every interleaving; a returned pause leaves the event thread waiting with the nodes
  paused, and for a graph with dataflow the stream thread waiting too. (The stop and the wait
  for the end of the threads are not covered.)
\<close>
theorem zephyr_calls_return:
  assumes "zephyr_orderly ctx z" "\<not> stop_requested (shared z)"
  shows "always_reaches (zephyr_step ctx) thread_actor
    (\<lambda>z. (\<exists>p. control (shared z) = Idle p) \<and>
      (control (shared z) = Idle Paused \<longrightarrow> event_pc (shared z) = EWaitResume \<and> nodes_parked ctx (shared z) \<and>
        (dataflow ctx (shared z) \<longrightarrow> stream_pc (shared z) = SWaitResume))) z"
    (is "always_reaches _ _ ?goal z")
proof (rule always_reaches_measure [where rank = "\<lambda>z. if \<exists>p. control (shared z) = Idle p then 0 else Suc (zephyr_rank z)" and
      I = "\<lambda>z. zephyr_inv ctx z \<and> \<not> stop_requested (shared z)"])
  show "zephyr_inv ctx z \<and> \<not> stop_requested (shared z)" using zephyr_orderly_inv assms by blast
next
  fix z
  assume I: "zephyr_inv ctx z \<and> \<not> stop_requested (shared z)" and g: "\<not> ?goal z"
  have "\<forall>p. control (shared z) \<noteq> Idle p"
    using I g zephyr_idle_parked by blast
  then show "\<exists>a z'. thread_actor a \<and> zephyr_step ctx a z = Some z'" using zephyr_progress I by blast
next
  fix z a z'
  assume I: "zephyr_inv ctx z \<and> \<not> stop_requested (shared z)" and g: "\<not> ?goal z"
    and a: "thread_actor a" "zephyr_step ctx a z = Some z'"
  have busy: "\<not> (\<exists>p. control (shared z) = Idle p)"
    using I g zephyr_idle_parked by blast
  have "zephyr_inv ctx z' \<and> \<not> stop_requested (shared z')" using zephyr_step_inv zephyr_step_stop I a by blast
  moreover have "(\<exists>p. control (shared z') = Idle p) \<or> zephyr_rank z' < zephyr_rank z"
  proof (cases "a = Controller \<and> control (shared z) = StartStream False")
    case True
    with a show ?thesis by (auto simp: zephyr_control_step_def zephyr_start_step_def Let_def)
  next
    case False
    with zephyr_step_rank a I show ?thesis by blast
  qed
  ultimately show "(zephyr_inv ctx z' \<and> \<not> stop_requested (shared z')) \<and>
      (if \<exists>p. control (shared z') = Idle p then 0 else Suc (zephyr_rank z'))
      < (if \<exists>p. control (shared z) = Idle p then 0 else Suc (zephyr_rank z))"
    using busy by auto
qed

section \<open>A run\<close>

fun zephyr_run :: "contexts \<Rightarrow> actor list \<Rightarrow> zephyr \<Rightarrow> zephyr option" where
  "zephyr_run ctx [] z = Some z"
| "zephyr_run ctx (a # as) z =
     (if orderly_actor ctx a (shared z) \<and> a \<noteq> Call WaitForEnd then
        (case zephyr_step ctx a z of Some z' \<Rightarrow> zephyr_run ctx as z' | None \<Rightarrow> None)
      else None)"

lemma zephyr_run_step:
  assumes "zephyr_orderly ctx z" "orderly_actor ctx a (shared z)" "a \<noteq> Call WaitForEnd" "zephyr_step ctx a z = Some z'"
  shows "zephyr_orderly ctx z'"
proof (cases a)
  case (Call c)
  with assms show ?thesis by (auto split: if_splits intro: zephyr_orderly.call)
qed (use assms in \<open>auto intro!: zephyr_orderly.thread [of ctx z a z'] simp: thread_actor_def\<close>)

lemma zephyr_run_orderly:
  "zephyr_orderly ctx z \<Longrightarrow> zephyr_run ctx as z = Some z' \<Longrightarrow> zephyr_orderly ctx z'"
  by (induction ctx as z rule: zephyr_run.induct) (auto split: if_splits option.splits dest: zephyr_run_step)

text \<open>A pause on its way: the event thread has paused, the controlling thread looks at the answer of the stream thread.\<close>

definition zephyr_pausing :: "actor list" where
  "zephyr_pausing = demo_start 1 @ [Call Pause, Controller] @ replicate 4 StreamThread @ replicate 6 EventThread @ [Controller]"

lemma zephyr_pausing_run:
  obtains z where "zephyr_run demo_contexts zephyr_pausing zephyr_boot = Some z" "zephyr_orderly demo_contexts z"
    "\<not> stop_requested (shared z)" "control (shared z) = PauseWaitStream" "control_wait z = Some STREAM_PAUSED_EVENT"
    "shared z = posix_view z"
proof -
  have run: "(case zephyr_run demo_contexts zephyr_pausing zephyr_boot of None \<Rightarrow> False | Some z \<Rightarrow>
      \<not> stop_requested (shared z) \<and> control (shared z) = PauseWaitStream \<and> control_wait z = Some STREAM_PAUSED_EVENT \<and>
      \<not> resume_pending z)"
    by code_simp
  then obtain z where z: "zephyr_run demo_contexts zephyr_pausing zephyr_boot = Some z"
    by (cases "zephyr_run demo_contexts zephyr_pausing zephyr_boot") auto
  show thesis
    using z run zephyr_run_orderly [OF zephyr_orderly.boot z] by (intro that [of z]) (auto simp: posix_view_def)
qed

theorem zephyr_refines_posix_witness:
  "\<exists>z z' n. zephyr_run demo_contexts zephyr_pausing zephyr_boot = Some z \<and>
     zephyr_step demo_contexts Controller z = Some z' \<and> control (shared z') = PauseWaitEvents \<and>
     run demo_contexts (replicate n Controller) (shared z) = Some (posix_view z')"
proof -
  obtain z where z: "zephyr_run demo_contexts zephyr_pausing zephyr_boot = Some z" "zephyr_orderly demo_contexts z"
    "\<not> stop_requested (shared z)" "control (shared z) = PauseWaitStream" "control_wait z = Some STREAM_PAUSED_EVENT"
    "shared z = posix_view z"
    by (rule zephyr_pausing_run)
  obtain z' where z': "zephyr_step demo_contexts Controller z = Some z'" "control (shared z') = PauseWaitEvents"
    using z(4,5) by (auto simp: zephyr_waits Let_def)
  have "thread_actor Controller" by (simp add: thread_actor_def)
  then obtain n where "run demo_contexts (replicate n Controller) (posix_view z) = Some (posix_view z')"
    using zephyr_refines_posix [OF z(2,3), THEN conjunct1, rule_format, of Controller z'] z' z(4) by auto
  then show ?thesis unfolding z(6) [symmetric] using z(1) z' by (intro exI conjI)
qed

theorem zephyr_calls_return_witness:
  "\<exists>z. zephyr_run demo_contexts zephyr_pausing zephyr_boot = Some z \<and>
     always_reaches (zephyr_step demo_contexts) thread_actor
       (\<lambda>z. (\<exists>p. control (shared z) = Idle p) \<and>
         (control (shared z) = Idle Paused \<longrightarrow> event_pc (shared z) = EWaitResume \<and> nodes_parked demo_contexts (shared z) \<and>
           (dataflow demo_contexts (shared z) \<longrightarrow> stream_pc (shared z) = SWaitResume))) z"
proof -
  obtain z where "zephyr_run demo_contexts zephyr_pausing zephyr_boot = Some z" "zephyr_orderly demo_contexts z"
    "\<not> stop_requested (shared z)"
    by (rule zephyr_pausing_run)
  then show ?thesis by (intro exI [of _ z] conjI zephyr_calls_return)
qed

end
