(* ===== verification/CmsisRuntime.thy ===== *)
theory CmsisRuntime
  imports RuntimeErrors
begin

text \<open>
  The runtime threads on CMSIS-RTOS (\<^verbatim>\<open>cmsis_rtos_runtime/stream_runtime_init.cpp\<close>).
  \<^verbatim>\<open>osEventFlagsWait\<close> clears the flags it was asked for in one step, like the POSIX class, but returns all
  flags of the object as they were, and an error code where nothing is set and the timeout is 0. The
  threads behave as those of the POSIX runtime all the same; a start that fails terminates the event
  thread, and the wait for the end leaves the current context.
\<close>

unbundle bit_operations_syntax

section \<open>Event flags of the kernel\<close>

definition osFlagsError :: u32 where [simp]: "osFlagsError = 0x80000000"
definition osFlagsErrorResource :: u32 where [simp]: "osFlagsErrorResource = 0xFFFFFFFD"
definition osWaitForever :: u32 where [simp]: "osWaitForever = 0xFFFFFFFF"

definition osEventFlagsWait :: "u32 \<Rightarrow> u32 \<Rightarrow> u32 \<Rightarrow> (u32 \<times> u32) option" where
  "osEventFlagsWait flags timeout f =
     (if raised flags f then Some (f, f AND NOT flags)
      else if timeout = osWaitForever then None
      else Some (osFlagsErrorResource, f))"

section \<open>The threads\<close>

definition cmsis_before_node :: "u32 \<Rightarrow> u32 \<times> cg_status option" where
  "cmsis_before_node f =
     (case osEventFlagsWait (STREAM_PAUSE_EVENT OR STREAM_DONE_EVENT) 0 f of
        Some (res, f') \<Rightarrow>
          (f', if \<not> raised osFlagsError res
               then (if raised STREAM_DONE_EVENT res then Some CG_STOP_SCHEDULER
                     else if raised STREAM_PAUSE_EVENT res then Some CG_PAUSED_SCHEDULER
                     else None)
               else None)
      | None \<Rightarrow> (f, None))"

definition cmsis_wait_stream :: "u32 \<Rightarrow> runtime \<Rightarrow> (u32 \<times> runtime) option" where
  "cmsis_wait_stream flags st =
     (case osEventFlagsWait flags osWaitForever (stream_event st) of
        Some (res, f) \<Rightarrow> Some (res, st\<lparr>stream_event := f\<rparr>) | None \<Rightarrow> None)"

definition cmsis_wait_reply :: "u32 \<Rightarrow> runtime \<Rightarrow> (u32 \<times> runtime) option" where
  "cmsis_wait_reply flags st =
     (case osEventFlagsWait flags osWaitForever (reply_event st) of
        Some (res, f) \<Rightarrow> Some (res, st\<lparr>reply_event := f\<rparr>) | None \<Rightarrow> None)"

definition cmsis_wait_event_resume_step :: "runtime \<Rightarrow> runtime option" where
  "cmsis_wait_event_resume_step st =
     (case event_pc st of
        EWaitResume \<Rightarrow> map_option (\<lambda>(res, st). st\<lparr>event_pc := EPostResumed\<rparr>) (cmsis_wait_stream EVENT_RESUME_EVENT st)
      | EPostResumed \<Rightarrow> Some ((post_reply EVENT_RESUMED_EVENT st)\<lparr>event_pc := ELoad\<rparr>)
      | _ \<Rightarrow> None)"

definition cmsis_pause_peer_step :: "runtime \<Rightarrow> queue_error \<Rightarrow> bool \<Rightarrow> runtime option" where
  "cmsis_pause_peer_step st err posted =
     (if posted then map_option (\<lambda>(res, st). st\<lparr>event_pc := EPauseNodes (Some err)\<rparr>) (cmsis_wait_reply STREAM_PAUSED_EVENT st)
      else Some ((post_stream STREAM_PAUSE_EVENT st)\<lparr>event_pc := EPeerWait err\<rparr>))"

definition cmsis_event_step :: "contexts \<Rightarrow> runtime \<Rightarrow> runtime option" where
  "cmsis_event_step ctx st =
     (let k = event_context st; q = queues st k in
      case event_pc st of
        ELoad \<Rightarrow> Some (st\<lparr>event_context := current_context st, event_pc := EExecute\<rparr>)
      | EExecute \<Rightarrow> if mustPause q \<or> mustEnd q then Some (st\<lparr>event_pc := EReturned\<rparr>) else None
      | EReturned \<Rightarrow> Some (st\<lparr>event_pc := if mustEnd q then EDone else EConsume\<rparr>)
      | EConsume \<Rightarrow>
          (let (q', e) = consumeError q in
           Some ((on_queue k (\<lambda>q. q') st)\<lparr>event_pc :=
             (case e of Some err \<Rightarrow> if scheduler_length (ctx k) > 0 then EPeerPost err else EPauseNodes (Some err)
              | None \<Rightarrow> EPauseNodes None)\<rparr>))
      | EPeerPost err \<Rightarrow> cmsis_pause_peer_step st err False
      | EPeerWait err \<Rightarrow> cmsis_pause_peer_step st err True
      | EPauseNodes e \<Rightarrow>
          Some ((call ((if scheduler_length (ctx k) = 0 then pause_nodes_calls ctx k else []) @ event_report e) st)
            \<lparr>event_pc := EStopTest\<rparr>)
      | EStopTest \<Rightarrow> Some (st\<lparr>event_pc := if stop_requested st then EDone else EPost\<rparr>)
      | EPost \<Rightarrow> Some ((post_reply EVENT_PAUSED_EVENT st)\<lparr>event_pc := EWaitResume\<rparr>)
      | EWaitResume \<Rightarrow> cmsis_wait_event_resume_step st
      | EPostResumed \<Rightarrow> cmsis_wait_event_resume_step st
      | EDone \<Rightarrow> None)"

definition cmsis_wait_stream_resume_step :: "contexts \<Rightarrow> runtime \<Rightarrow> runtime option" where
  "cmsis_wait_stream_resume_step ctx st =
     (case stream_pc st of
        SWaitResume \<Rightarrow> map_option (\<lambda>(res, st). st\<lparr>stream_pc := SStopAfterResume\<rparr>)
          (cmsis_wait_stream STREAM_RESUME_EVENT st)
      | SStopAfterResume \<Rightarrow> Some (st\<lparr>stream_pc := if stop_requested st then SStopTest else SResumeNodes\<rparr>)
      | SResumeNodes \<Rightarrow> Some ((call (resume_nodes_calls ctx (current_context st)) st)\<lparr>stream_pc := SPostResumed\<rparr>)
      | SPostResumed \<Rightarrow> Some ((post_reply STREAM_RESUMED_EVENT st)\<lparr>stream_pc := SStopTest\<rparr>)
      | _ \<Rightarrow> None)"

definition cmsis_pause_event_thread_step :: "contexts \<Rightarrow> runtime \<Rightarrow> runtime option" where
  "cmsis_pause_event_thread_step ctx st =
     (let k = stream_context st in
      case stream_pc st of
        SPauseQueue r \<Rightarrow>
          Some ((call (if r = StopGraph \<or> scheduler_length (ctx k) > 0 then pause_nodes_calls ctx k else [])
            (on_queue k EventQueue_pause st))\<lparr>stream_pc := SWaitEvents r\<rparr>)
      | SWaitEvents r \<Rightarrow> map_option (\<lambda>(res, st). st\<lparr>stream_pc := SReport r\<rparr>) (cmsis_wait_reply EVENT_PAUSED_EVENT st)
      | SReport r \<Rightarrow> Some ((call [stream_report r] st)\<lparr>stream_pc := SStopAfterReport\<rparr>)
      | SStopAfterReport \<Rightarrow> Some (st\<lparr>stream_pc := if stop_requested st then SStopTest else SPostPaused\<rparr>)
      | _ \<Rightarrow> None)"

definition cmsis_stream_step :: "contexts \<Rightarrow> runtime \<Rightarrow> runtime option" where
  "cmsis_stream_step ctx st =
     (let k = stream_context st in
      case stream_pc st of
        SLoad \<Rightarrow> Some (st\<lparr>stream_context := current_context st, stream_pc := SRun\<rparr>)
      | SRun \<Rightarrow>
          if scheduler_length (ctx k) > 0 then
            (case cmsis_before_node (stream_event st) of
               (f, Some error) \<Rightarrow> Some (st\<lparr>stream_event := f, stream_pc := after_scheduler (ctx k) error\<rparr>)
             | (f, None) \<Rightarrow> None)
          else Some (st\<lparr>stream_pc := after_scheduler (ctx k) CG_STOP_SCHEDULER\<rparr>)
      | SPauseNodes \<Rightarrow> Some ((call (pause_nodes_calls ctx k) st)\<lparr>stream_pc := SPostPaused\<rparr>)
      | SPostPaused \<Rightarrow> Some ((post_reply STREAM_PAUSED_EVENT st)\<lparr>stream_pc := SWaitResume\<rparr>)
      | SStopTest \<Rightarrow> Some (st\<lparr>stream_pc := if stop_requested st then SDone else SLoad\<rparr>)
      | SDone \<Rightarrow> None
      | SWaitResume \<Rightarrow> cmsis_wait_stream_resume_step ctx st
      | SStopAfterResume \<Rightarrow> cmsis_wait_stream_resume_step ctx st
      | SResumeNodes \<Rightarrow> cmsis_wait_stream_resume_step ctx st
      | SPostResumed \<Rightarrow> cmsis_wait_stream_resume_step ctx st
      | _ \<Rightarrow> cmsis_pause_event_thread_step ctx st)"

section \<open>The controlling thread\<close>

definition cmsis_pause_step :: "contexts \<Rightarrow> runtime \<Rightarrow> runtime option" where
  "cmsis_pause_step ctx st =
     (case control st of
        PausePost \<Rightarrow> Some ((post_stream STREAM_PAUSE_EVENT st)\<lparr>control := PauseWaitStream\<rparr>)
      | PauseWaitStream \<Rightarrow> map_option (\<lambda>(res, st). st\<lparr>control := PauseWaitEvents\<rparr>)
          (cmsis_wait_reply STREAM_PAUSED_EVENT st)
      | PauseWaitEvents \<Rightarrow> map_option (\<lambda>(res, st). st\<lparr>control := Idle Paused\<rparr>)
          (cmsis_wait_reply EVENT_PAUSED_EVENT st)
      | _ \<Rightarrow> None)"

definition cmsis_resume_step :: "contexts \<Rightarrow> runtime \<Rightarrow> runtime option" where
  "cmsis_resume_step ctx st =
     (let k = current_context st in
      case control st of
        ResumeQueue \<Rightarrow> Some ((on_queue k EventQueue_resume st)\<lparr>control := ResumePost\<rparr>)
      | ResumePost \<Rightarrow> Some ((post_stream STREAM_RESUME_EVENT st)\<lparr>control := ResumeWaitStream\<rparr>)
      | ResumeWaitStream \<Rightarrow> map_option (\<lambda>(res, st).
            if raised STREAM_PAUSED_EVENT res then (resume_failed kStreamThread st)\<lparr>control := Idle Failed\<rparr>
            else st\<lparr>control := ResumePostEvents\<rparr>)
          (cmsis_wait_reply (STREAM_RESUMED_EVENT OR STREAM_PAUSED_EVENT) st)
      | ResumePostEvents \<Rightarrow> Some ((post_stream EVENT_RESUME_EVENT st)\<lparr>control := ResumeWaitEvents\<rparr>)
      | ResumeWaitEvents \<Rightarrow> map_option (\<lambda>(res, st).
            if raised EVENT_PAUSED_EVENT res
            then (resume_failed kEventThread st)
              \<lparr>control := if scheduler_length (ctx k) > 0 then ResumeFailPost else Idle Failed\<rparr>
            else st\<lparr>control := ResumeClear\<rparr>)
          (cmsis_wait_reply (EVENT_RESUMED_EVENT OR EVENT_PAUSED_EVENT) st)
      | ResumeFailPost \<Rightarrow> Some ((post_stream STREAM_PAUSE_EVENT st)\<lparr>control := ResumeFailWait\<rparr>)
      | ResumeFailWait \<Rightarrow> map_option (\<lambda>(res, st). st\<lparr>control := Idle Failed\<rparr>)
          (cmsis_wait_reply STREAM_PAUSED_EVENT st)
      | ResumeClear \<Rightarrow> Some (st\<lparr>reply_event :=
            flags_clear (STREAM_PAUSED_EVENT OR EVENT_PAUSED_EVENT) (reply_event st), control := Idle Active\<rparr>)
      | _ \<Rightarrow> None)"

text \<open>A stop finds both flags objects, which \<^verbatim>\<open>stream_init_memory\<close> has made.\<close>

definition cmsis_stop_step :: "contexts \<Rightarrow> runtime \<Rightarrow> runtime option" where
  "cmsis_stop_step ctx st =
     (let k = current_context st in
      case control st of
        StopQueue \<Rightarrow> Some ((if k \<noteq> 0 \<and> has_evtQueue (ctx k) then on_queue k EventQueue_end st else st)
            \<lparr>control := StopPost\<rparr>)
      | StopPost \<Rightarrow> Some ((post_stream (STREAM_DONE_EVENT OR STREAM_RESUME_EVENT OR EVENT_RESUME_EVENT) st)
            \<lparr>control := StopReply\<rparr>)
      | StopReply \<Rightarrow> Some ((post_reply (STREAM_PAUSED_EVENT OR STREAM_RESUMED_EVENT OR
              EVENT_PAUSED_EVENT OR EVENT_RESUMED_EVENT) st)\<lparr>control := StopJoin\<rparr>)
      | StopJoin \<Rightarrow> if event_pc st = EDone \<and> stream_pc st = SDone
          then Some (st\<lparr>current_context := 0, control := Idle Stopped\<rparr>) else None
      | _ \<Rightarrow> None)"

text \<open>The event thread is terminated when the stream thread cannot be created.\<close>

definition cmsis_cleanup_event_thread :: "runtime \<Rightarrow> runtime" where
  "cmsis_cleanup_event_thread st = st\<lparr>event_pc := EDone, current_context := 0\<rparr>"

definition cmsis_start_call :: "contexts \<Rightarrow> nat \<Rightarrow> bool \<Rightarrow> bool \<Rightarrow> runtime \<Rightarrow> runtime" where
  "cmsis_start_call ctx k event_started stream_started st =
     (if \<not> valid_context ctx k then st
      else if event_started then st\<lparr>current_context := k, stop_requested := False, event_pc := ELoad,
        control := StartStream stream_started\<rparr>
      else st\<lparr>current_context := 0, stop_requested := False\<rparr>)"

definition cmsis_start_step :: "runtime \<Rightarrow> runtime option" where
  "cmsis_start_step st =
     (case control st of
        StartStream ok \<Rightarrow>
          Some (if ok then st\<lparr>stream_pc := SLoad, control := Idle Active\<rparr>
                else (cmsis_cleanup_event_thread st)\<lparr>control := Idle Stopped\<rparr>)
      | _ \<Rightarrow> None)"

definition cmsis_wait_end_step :: "runtime \<Rightarrow> runtime option" where
  "cmsis_wait_end_step st =
     (if control st = WaitEnd \<and> event_pc st = EDone \<and> stream_pc st = SDone
      then Some (st\<lparr>control := Idle Stopped\<rparr>) else None)"

definition cmsis_control_step :: "contexts \<Rightarrow> runtime \<Rightarrow> runtime option" where
  "cmsis_control_step ctx st =
     (case control st of
        Idle p \<Rightarrow> None
      | StartStream ok \<Rightarrow> cmsis_start_step st
      | StartEnd \<Rightarrow> None
      | StartJoin \<Rightarrow> None
      | PausePost \<Rightarrow> cmsis_pause_step ctx st
      | PauseWaitStream \<Rightarrow> cmsis_pause_step ctx st
      | PauseWaitEvents \<Rightarrow> cmsis_pause_step ctx st
      | StopQueue \<Rightarrow> cmsis_stop_step ctx st
      | StopPost \<Rightarrow> cmsis_stop_step ctx st
      | StopReply \<Rightarrow> cmsis_stop_step ctx st
      | StopJoin \<Rightarrow> cmsis_stop_step ctx st
      | WaitEnd \<Rightarrow> cmsis_wait_end_step st
      | _ \<Rightarrow> cmsis_resume_step ctx st)"

text \<open>\<^verbatim>\<open>stream_init_memory\<close> makes both flags objects anew.\<close>

datatype cmsis_call = Common control_call | InitMemory

definition cmsis_begin_call :: "contexts \<Rightarrow> cmsis_call \<Rightarrow> runtime \<Rightarrow> runtime" where
  "cmsis_begin_call ctx c st =
     (case c of
        InitMemory \<Rightarrow> st\<lparr>stream_event := 0, reply_event := 0\<rparr>
      | Common (Start k event_started stream_started) \<Rightarrow> cmsis_start_call ctx k event_started stream_started st
      | Common c \<Rightarrow> begin_call ctx c st)"

definition cmsis_may_call :: "cmsis_call \<Rightarrow> runtime \<Rightarrow> bool" where
  "cmsis_may_call c st = (case c of InitMemory \<Rightarrow> control st = Idle Stopped | Common c \<Rightarrow> may_call c st)"

fun cmsis_step :: "contexts \<Rightarrow> actor \<Rightarrow> runtime \<Rightarrow> runtime option" where
  "cmsis_step ctx Controller st = cmsis_control_step ctx st"
| "cmsis_step ctx EventThread st = cmsis_event_step ctx st"
| "cmsis_step ctx StreamThread st = cmsis_stream_step ctx st"
| "cmsis_step ctx (Call c) st = None"
| "cmsis_step ctx a st = runtime_step ctx a st"

inductive cmsis_reachable :: "contexts \<Rightarrow> runtime \<Rightarrow> bool" for ctx where
  boot: "cmsis_reachable ctx boot"
| step: "cmsis_reachable ctx st \<Longrightarrow> cmsis_step ctx a st = Some st' \<Longrightarrow> cmsis_reachable ctx st'"
| call: "cmsis_reachable ctx st \<Longrightarrow> cmsis_may_call c st \<Longrightarrow> cmsis_reachable ctx (cmsis_begin_call ctx c st)"

section \<open>The same threads\<close>

lemma cmsis_waits: "cmsis_wait_stream flags st = map_option (\<lambda>(res, st'). (stream_event st, st')) (wait_stream flags st)"
  "cmsis_wait_reply flags st = map_option (\<lambda>(res, st'). (reply_event st, st')) (wait_reply flags st)"
  by (simp_all add: cmsis_wait_stream_def cmsis_wait_reply_def wait_stream_def wait_reply_def osEventFlagsWait_def
      flags_wait_forever flags_clear_def)

lemma cmsis_before_node_eq:
  assumes "\<not> raised osFlagsError f" shows "cmsis_before_node f = CG_BEFORE_NODE_EXECUTION f"
proof -
  have res: "raised 0x80000000 (0xFFFFFFFD :: u32)" by (simp add: raised_def)
  have "(0 :: u32) \<noteq> osWaitForever" by simp
  then show ?thesis
    using assms res by (simp add: cmsis_before_node_def before_node osEventFlagsWait_def flags_clear_def)
qed

lemma cmsis_event_step_eq: "cmsis_event_step ctx st = event_step ctx st"
  by (cases "event_pc st") (simp_all add: cmsis_event_step_def event_step_def cmsis_pause_peer_step_def
      pause_peer_step_def cmsis_wait_event_resume_step_def wait_event_resume_step_def cmsis_waits
      option.map_comp comp_def case_prod_beta')

lemma cmsis_stream_step_eq:
  assumes "\<not> raised osFlagsError (stream_event st)" shows "cmsis_stream_step ctx st = stream_step ctx st"
  using cmsis_before_node_eq [OF assms]
  by (cases "stream_pc st") (simp_all add: cmsis_stream_step_def stream_step_def cmsis_wait_stream_resume_step_def
      wait_stream_resume_step_def cmsis_pause_event_thread_step_def pause_event_thread_step_def cmsis_waits
      option.map_comp comp_def case_prod_beta' Let_def)

definition cmsis_differs :: "control_pc \<Rightarrow> bool" where
  "cmsis_differs c \<longleftrightarrow> c = StartStream False \<or> c = StartEnd \<or> c = StartJoin \<or> c = WaitEnd"

lemma cmsis_control_step_eq:
  assumes "\<not> cmsis_differs (control st)" shows "cmsis_control_step ctx st = control_step ctx st"
proof (cases "control st")
  case ResumeWaitStream
  then show ?thesis
    by (simp add: cmsis_control_step_def control_step_unfold cmsis_resume_step_def cmsis_wait_reply_def wait_reply_def
      osEventFlagsWait_def flags_wait_forever flags_clear_def Let_def)
next
  case ResumeWaitEvents
  then show ?thesis
    by (simp add: cmsis_control_step_def control_step_unfold cmsis_resume_step_def cmsis_wait_reply_def wait_reply_def
      osEventFlagsWait_def flags_wait_forever flags_clear_def Let_def)
qed (use assms in \<open>simp_all add: cmsis_differs_def cmsis_control_step_def control_step_unfold cmsis_start_step_def
  cmsis_pause_step_def cmsis_resume_step_def cmsis_stop_step_def cmsis_waits option.map_comp comp_def
  case_prod_beta' Let_def\<close>)

text \<open>The bit of an error is never a flag.\<close>

definition cmsis_inv :: "runtime \<Rightarrow> bool" where
  "cmsis_inv st \<longleftrightarrow> \<not> raised osFlagsError (stream_event st) \<and> control st \<noteq> StartEnd \<and> control st \<noteq> StartJoin"

lemma cmsis_event_inv:
  assumes "cmsis_inv st" "event_step ctx st = Some st'" shows "cmsis_inv st'"
  using assms(2) assms(1) by (cases rule: event_step_cases) (simp_all add: cmsis_inv_def)

lemma cmsis_stream_inv:
  assumes "cmsis_inv st" "stream_step ctx st = Some st'" shows "cmsis_inv st'"
  using assms(2) assms(1) by (cases rule: stream_step_cases) (simp_all add: cmsis_inv_def call_def on_queue_def)

lemma cmsis_control_inv:
  assumes inv: "cmsis_inv st" and step: "cmsis_control_step ctx st = Some st'" shows "cmsis_inv st'"
proof (cases "cmsis_differs (control st)")
  case True
  then show ?thesis
    using assms by (auto simp: cmsis_inv_def cmsis_differs_def cmsis_control_step_def cmsis_start_step_def
        cmsis_wait_end_step_def cmsis_cleanup_event_thread_def split: if_splits)
next
  case False
  with step have "control_step ctx st = Some st'" by (simp add: cmsis_control_step_eq)
  then show ?thesis
    using inv False by (cases "control st") (auto simp: control_step_unfold cmsis_differs_def cmsis_inv_def flag_ops
        resume_failed_def Let_def split: if_splits)
qed

lemma cmsis_begin_inv:
  assumes "cmsis_inv st" shows "cmsis_inv (cmsis_begin_call ctx c st)"
proof (cases c)
  case (Common d)
  with assms show ?thesis
    by (cases d) (simp_all add: cmsis_inv_def cmsis_begin_call_def cmsis_start_call_def begin_call_unfold on_queue_def)
qed (use assms in \<open>simp add: cmsis_inv_def cmsis_begin_call_def\<close>)

lemma cmsis_step_inv:
  assumes inv: "cmsis_inv st" and step: "cmsis_step ctx a st = Some st'" shows "cmsis_inv st'"
proof (cases a)
  case Controller
  with assms cmsis_control_inv show ?thesis by simp
next
  case EventThread
  with assms cmsis_event_inv show ?thesis by (simp add: cmsis_event_step_eq)
next
  case StreamThread
  with inv step have "stream_step ctx st = Some st'" by (simp add: cmsis_stream_step_eq cmsis_inv_def)
  then show ?thesis by (rule cmsis_stream_inv [OF inv])
qed (use assms in \<open>auto simp: cmsis_inv_def on_queue_def Let_def split: if_splits\<close>)

lemma cmsis_reachable_inv: "cmsis_reachable ctx st \<Longrightarrow> cmsis_inv st"
proof (induction rule: cmsis_reachable.induct)
  case boot
  then show ?case by (simp add: cmsis_inv_def boot_def)
next
  case (step st a st')
  then show ?case using cmsis_step_inv by blast
next
  case (call st c)
  then show ?case using cmsis_begin_inv by blast
qed

lemma cmsis_step_eq:
  assumes "cmsis_inv st" "thread_actor a"
    and "a = Controller \<longrightarrow> control st \<noteq> StartStream False \<and> control st \<noteq> WaitEnd"
  shows "cmsis_step ctx a st = runtime_step ctx a st"
  using assms by (auto simp: thread_actor_def cmsis_event_step_eq cmsis_stream_step_eq cmsis_control_step_eq
      cmsis_inv_def cmsis_differs_def)

lemma cmsis_begin_eq:
  assumes "\<forall>k s. c \<noteq> Start k False s" shows "cmsis_begin_call ctx (Common c) st = begin_call ctx c st"
proof (cases c)
  case (Start k e s)
  with assms have "e" by (cases e) auto
  with Start show ?thesis by (simp add: cmsis_begin_call_def cmsis_start_call_def begin_call_def start_call_def)
qed (simp_all add: cmsis_begin_call_def)

text \<open>
  C27. On CMSIS-RTOS, errors of nodes and schedulers included, each step of a thread is the step of the
  thread of the POSIX runtime and each call the same call, but for a start that fails, which terminates
  the event thread at once and forgets the context, and the wait for the end, which keeps the context.
\<close>
theorem cmsis_threads_are_posix:
  assumes "cmsis_reachable ctx st"
  shows "(\<forall>a. thread_actor a \<longrightarrow> (a = Controller \<longrightarrow> control st \<noteq> StartStream False \<and> control st \<noteq> WaitEnd) \<longrightarrow>
      cmsis_step ctx a st = runtime_step ctx a st) \<and>
    (control st = StartStream False \<longrightarrow> cmsis_step ctx Controller st =
      Some (st\<lparr>event_pc := EDone, current_context := 0, control := Idle Stopped\<rparr>)) \<and>
    (control st = WaitEnd \<longrightarrow> cmsis_step ctx Controller st =
      map_option (\<lambda>st'. st'\<lparr>current_context := current_context st\<rparr>) (runtime_step ctx Controller st)) \<and>
    (\<forall>c. (\<forall>k s. c \<noteq> Start k False s) \<longrightarrow> cmsis_begin_call ctx (Common c) st = begin_call ctx c st)"
proof (intro conjI)
  show "\<forall>a. thread_actor a \<longrightarrow> (a = Controller \<longrightarrow> control st \<noteq> StartStream False \<and> control st \<noteq> WaitEnd) \<longrightarrow>
      cmsis_step ctx a st = runtime_step ctx a st"
    using cmsis_step_eq [OF cmsis_reachable_inv [OF assms]] by blast
  show "\<forall>c. (\<forall>k s. c \<noteq> Start k False s) \<longrightarrow> cmsis_begin_call ctx (Common c) st = begin_call ctx c st"
    using cmsis_begin_eq by blast
qed (simp_all add: cmsis_control_step_def cmsis_start_step_def cmsis_cleanup_event_thread_def
    cmsis_wait_end_step_def control_step_unfold)


section \<open>A stop ends the threads here too\<close>

lemma cmsis_thread_serving:
  assumes "cmsis_inv st" "serving ctx st" "stopping st" "cmsis_step ctx a st = Some st'"
  shows "serving ctx st' \<and> stopping st'"
proof (cases "thread_actor a")
  case True
  show ?thesis
  proof (cases "a = Controller \<and> (control st = StartStream False \<or> control st = WaitEnd)")
    case differs: True
    then consider "control st = StartStream False"
        "st' = (cmsis_cleanup_event_thread st)\<lparr>control := Idle Stopped\<rparr>"
      | "control st = WaitEnd" "event_pc st = EDone" "stream_pc st = SDone" "st' = st\<lparr>control := Idle Stopped\<rparr>"
      using assms(4) by (auto simp: cmsis_control_step_def cmsis_start_step_def cmsis_wait_end_step_def split: if_splits)
    then show ?thesis
    proof cases
      case 1
      with assms(2,3) show ?thesis by (simp add: cmsis_cleanup_event_thread_def serving_def closing_def stopping_def)
    next
      case 2
      with assms(2,3) show ?thesis by (simp add: serving_def closing_def stopping_def)
    qed
  next
    case False
    then have "runtime_step ctx a st = Some st'" using cmsis_step_eq [OF assms(1) True] assms(4) by auto
    then show ?thesis by (rule runtime_step_serving [OF assms(2,3)])
  qed
next
  case False
  then have "runtime_step ctx a st = Some st'" using assms(4) by (cases a) (simp_all add: thread_actor_def)
  then show ?thesis by (rule runtime_step_serving [OF assms(2,3)])
qed

lemma cmsis_call_serving:
  assumes "serving ctx st" "stopping st" "cmsis_may_call c st"
  shows "serving ctx (cmsis_begin_call ctx c st) \<and> stopping (cmsis_begin_call ctx c st)"
proof (cases c)
  case InitMemory
  with assms show ?thesis by (simp add: cmsis_begin_call_def cmsis_may_call_def serving_def closing_def stopping_def)
next
  case (Common d)
  show ?thesis
  proof (cases "\<forall>k s. d \<noteq> Start k False s")
    case True
    then show ?thesis
      using assms Common call_serving call_stopping by (simp add: cmsis_begin_eq cmsis_may_call_def)
  next
    case False
    then obtain k s where d: "d = Start k False s" by blast
    with assms Common have "control st = Idle Stopped" by (auto simp: cmsis_may_call_def may_call_def split: control_pc.splits)
    with assms Common d show ?thesis
      by (simp add: cmsis_begin_call_def cmsis_start_call_def serving_def closing_def stopping_def)
  qed
qed

lemma cmsis_reachable_serving: "cmsis_reachable ctx st \<Longrightarrow> cmsis_inv st \<and> serving ctx st \<and> stopping st"
proof (induction rule: cmsis_reachable.induct)
  case boot
  show ?case by (simp add: boot_def serving_def stopping_def cmsis_inv_def)
next
  case (step st a st')
  then show ?case using cmsis_thread_serving cmsis_step_inv by blast
next
  case (call st c)
  then show ?case using cmsis_call_serving cmsis_begin_inv by blast
qed

lemma cmsis_stop_step_eq:
  assumes "cmsis_inv st" "stop_pc (control st)" "stop_actor a"
  shows "cmsis_step ctx a st = runtime_step ctx a st"
proof (cases "thread_actor a")
  case True
  with assms cmsis_step_eq show ?thesis by fastforce
next
  case False
  with assms show ?thesis by (auto simp: stop_actor_def)
qed

text \<open>
  C28. On CMSIS-RTOS \<^verbatim>\<open>stream_stop_threads\<close> returns with both threads ended from every reachable state -
  errors, failed resumes and failed starts included - however the steps interleave.
\<close>
theorem cmsis_stop_ends_threads:
  assumes "cmsis_reachable ctx st" "stop_pc (control st)"
  shows "always_reaches (cmsis_step ctx) stop_actor
    (\<lambda>st. control st = Idle Stopped \<and> event_pc st = EDone \<and> stream_pc st = SDone) st"
proof (rule always_reaches_measure [where rank = end_rank and
      I = "\<lambda>st. (cmsis_inv st \<and> serving ctx st \<and> stopping st) \<and> (stop_pc (control st) \<or> control st = Idle Stopped)"])
  show "(cmsis_inv st \<and> serving ctx st \<and> stopping st) \<and> (stop_pc (control st) \<or> control st = Idle Stopped)"
    using cmsis_reachable_serving assms by blast
next
  fix st
  assume I: "(cmsis_inv st \<and> serving ctx st \<and> stopping st) \<and> (stop_pc (control st) \<or> control st = Idle Stopped)"
    and g: "\<not> (control st = Idle Stopped \<and> event_pc st = EDone \<and> stream_pc st = SDone)"
  then have c: "stop_pc (control st)" by (auto simp: serving_def)
  then obtain a st' where "stop_actor a" "runtime_step ctx a st = Some st'" using stop_progress I by blast
  then show "\<exists>a st'. stop_actor a \<and> cmsis_step ctx a st = Some st'" using cmsis_stop_step_eq I c by metis
next
  fix st a st'
  assume I: "(cmsis_inv st \<and> serving ctx st \<and> stopping st) \<and> (stop_pc (control st) \<or> control st = Idle Stopped)"
    and g: "\<not> (control st = Idle Stopped \<and> event_pc st = EDone \<and> stream_pc st = SDone)"
    and a: "stop_actor a" "cmsis_step ctx a st = Some st'"
  from I g have c: "stop_pc (control st)" by (auto simp: serving_def)
  with I a have r: "runtime_step ctx a st = Some st'" by (simp add: cmsis_stop_step_eq)
  have "stop_requested st" using I c by (simp add: stopping_def)
  with c a r I show "((cmsis_inv st' \<and> serving ctx st' \<and> stopping st') \<and> (stop_pc (control st') \<or> control st' = Idle Stopped)) \<and>
      end_rank st' < end_rank st"
    using stop_actor_step cmsis_thread_serving cmsis_step_inv by blast
qed

section \<open>A concrete run\<close>

text \<open>
  The first start does not get its stream thread, the second one succeeds, an event and the scheduler
  fail at the same time, and the application stops the runtime.
\<close>

fun cmsis_run :: "contexts \<Rightarrow> (actor + cmsis_call) list \<Rightarrow> runtime \<Rightarrow> runtime option" where
  "cmsis_run ctx [] st = Some st"
| "cmsis_run ctx (Inl a # as) st = (case cmsis_step ctx a st of Some st' \<Rightarrow> cmsis_run ctx as st' | None \<Rightarrow> None)"
| "cmsis_run ctx (Inr c # as) st = (if cmsis_may_call c st then cmsis_run ctx as (cmsis_begin_call ctx c st) else None)"

lemma cmsis_run_reachable:
  "cmsis_reachable ctx st \<Longrightarrow> cmsis_run ctx as st = Some st' \<Longrightarrow> cmsis_reachable ctx st'"
proof (induction ctx as st rule: cmsis_run.induct)
  case (2 ctx a as st)
  then show ?case using cmsis_reachable.step by (auto split: option.splits)
next
  case (3 ctx c as st)
  then show ?case using cmsis_reachable.call by (auto split: if_splits)
qed simp

definition cmsis_failures :: "(actor + cmsis_call) list" where
  "cmsis_failures =
     [Inr InitMemory, Inr (Common (Start 1 True False)), Inl EventThread, Inl Controller,
      Inr (Common (Start 1 True True)), Inl Controller, Inl EventThread, Inl StreamThread,
      Inl (QueueError 1 CG_BUFFER_ERROR 7 0), Inl (SchedulerReturns CG_BUFFER_OVERFLOW), Inl StreamThread,
      Inl EventThread, Inl EventThread, Inl EventThread, Inl EventThread, Inr (Common Stop)]"

lemma cmsis_failures_run:
  obtains st where "cmsis_run demo_contexts cmsis_failures boot = Some st" "cmsis_reachable demo_contexts st"
    "control st = StopQueue" "event_pc st = EPeerWait (CG_BUFFER_ERROR, 7, 0)"
    "stream_pc st = SWaitEvents (SchedulerError CG_BUFFER_OVERFLOW)"
proof -
  have run: "(case cmsis_run demo_contexts cmsis_failures boot of None \<Rightarrow> False | Some st \<Rightarrow>
      control st = StopQueue \<and> event_pc st = EPeerWait (CG_BUFFER_ERROR, 7, 0) \<and>
      stream_pc st = SWaitEvents (SchedulerError CG_BUFFER_OVERFLOW))"
    by code_simp
  then obtain st where st: "cmsis_run demo_contexts cmsis_failures boot = Some st"
    by (cases "cmsis_run demo_contexts cmsis_failures boot") auto
  with run cmsis_run_reachable [OF cmsis_reachable.boot st] that show thesis by auto
qed

theorem cmsis_threads_are_posix_witness:
  "\<exists>st st'. cmsis_run demo_contexts cmsis_failures boot = Some st \<and>
     cmsis_step demo_contexts Controller st = Some st' \<and> runtime_step demo_contexts Controller st = Some st' \<and>
     control st' = StopPost"
proof -
  obtain st where st: "cmsis_run demo_contexts cmsis_failures boot = Some st" "cmsis_reachable demo_contexts st"
    "control st = StopQueue"
    by (rule cmsis_failures_run)
  obtain st' where st': "runtime_step demo_contexts Controller st = Some st'" "control st' = StopPost"
    using st(3) by (simp add: control_step_unfold Let_def)
  have "cmsis_step demo_contexts Controller st = runtime_step demo_contexts Controller st"
    using cmsis_threads_are_posix [OF st(2)] st(3) by (simp add: thread_actor_def)
  with st(1) st' show ?thesis by auto
qed

theorem cmsis_stop_ends_threads_witness:
  "\<exists>st. cmsis_run demo_contexts cmsis_failures boot = Some st \<and> event_pc st = EPeerWait (CG_BUFFER_ERROR, 7, 0) \<and>
     always_reaches (cmsis_step demo_contexts) stop_actor
       (\<lambda>st. control st = Idle Stopped \<and> event_pc st = EDone \<and> stream_pc st = SDone) st"
proof -
  obtain st where st: "cmsis_run demo_contexts cmsis_failures boot = Some st" "cmsis_reachable demo_contexts st"
    "control st = StopQueue" "event_pc st = EPeerWait (CG_BUFFER_ERROR, 7, 0)"
    by (rule cmsis_failures_run)
  have "stop_pc (control st)" using st(3) by simp
  from cmsis_stop_ends_threads [OF st(2) this] st(1,4) show ?thesis by blast
qed

end
