(* ===== verification/Spec2Isabelle.thy ===== *)
theory Spec2Isabelle
  imports Prelude Fifo Nodes CoreNodes Scheduler SchedulerExamples AsyncScheduler AsyncExamples CallbackScheduler CallbackExample SchedulerMemory Exec SharedHeap Buffers Floats Values Events Pack RoundTrip Ring EventQueue PrioQueue QueueSpec QueueExec PosixQueue CmsisQueue ZephyrQueue QueueThreads EventOutputs EventFlags Application Runtime RuntimeCalls RuntimeErrors ZephyrRuntime CmsisRuntime
begin

text \<open>
  CMSIS-Stream connects signal processing nodes by FIFOs and by events. A generator writes a scheduler
  for a dataflow graph; nodes also send events to each other, directly or through a queue that a thread
  of its own executes; a runtime starts, pauses, resumes and stops the two threads. This development
  models the C++ part of the program, \<^verbatim>\<open>src/platform\<close>, for its three platforms (POSIX, CMSIS-RTOS,
  Zephyr), and the schedulers of the examples under \<^verbatim>\<open>src/Examples\<close>. Paths below are relative to
  \<^verbatim>\<open>src/platform\<close> unless they begin with \<^verbatim>\<open>Examples\<close>. Definitions have the names of the source; a suffix
  tells constructors, assignments and destructors apart (\<open>Event_move\<close>, \<open>Message_destroy\<close>), a prefix the
  platforms (\<open>Posix_push\<close>, \<open>Cmsis_push\<close>, \<open>Zephyr_push\<close>).

  How the parts work together. A scheduler (\<open>Scheduler\<close>) runs nodes (\<open>Nodes\<close>, \<open>CoreNodes\<close>) over FIFOs
  (\<open>Fifo\<close>). A node that sends an event (\<open>Events\<close>) hands it to an output (\<open>EventQueue\<close>, \<open>EventOutputs\<close>),
  which calls the receivers at once or pushes one message for each into the queue of the platform
  (\<open>PosixQueue\<close>, \<open>CmsisQueue\<close>, \<open>ZephyrQueue\<close>); an event carries values (\<open>Values\<close>) whose buffers
  (\<open>SharedHeap\<close>, \<open>Buffers\<close>) are counted, and can be packed into bytes for another core (\<open>Pack\<close>). The
  event thread executes the queue (\<open>QueueExec\<close>) while other threads push into it (\<open>QueueThreads\<close>); the
  runtime (\<open>Runtime\<close>, \<open>CmsisRuntime\<close>, \<open>ZephyrRuntime\<close>) keeps event thread and stream thread in step by
  event flags (\<open>EventFlags\<close>) and reports errors to the application as events (\<open>Application\<close>).

  \<^bold>\<open>Dataflow\<close>

  \<^item> \<open>Prelude\<close>: the C integers as words, the status codes, selectors and priorities of \<^verbatim>\<open>cg_enums.h\<close>, and
    a typed memory with \<^verbatim>\<open>memcpy\<close>, undefined between regions that overlap.
  \<^item> \<open>Fifo\<close>: the three shapes of \<^verbatim>\<open>FIFO<T,length,...>\<close> in \<^verbatim>\<open>GenericNodes.hpp\<close> as records of a pointer and
    positions over that memory. The contents of a FIFO are a list; the locale \<open>sample_queue\<close> is the
    contract of a bounded queue of samples and is interpreted for the synchronous and the asynchronous
    FIFO. Properties: samples pass in order, and the realignment of the asynchronous FIFO can reach an
    overlapping \<^verbatim>\<open>memcpy\<close>.
  \<^item> \<open>Nodes\<close>: \<^verbatim>\<open>NodeBase\<close>, the generic node shapes (a node is its list of ports), \<^verbatim>\<open>Duplicate\<close> and the
    shared outputs of \<^verbatim>\<open>GenericNodes.hpp\<close>.
  \<^item> \<open>CoreNodes\<close>: \<^verbatim>\<open>core_nodes/SlidingBuffer.hpp\<close> and \<^verbatim>\<open>core_nodes/OverlapAndAdd.hpp\<close>; the locale
    \<open>block_filter\<close> turns what one execution computes into what the stream contains after any number of
    executions. Properties: the windows of the stream, and the overlap-add sum.
  \<^item> \<open>Scheduler\<close>, \<open>SchedulerExamples\<close>: the function of a generated \<^verbatim>\<open>scheduler.cpp\<close> (FIFO and node objects,
    \<^verbatim>\<open>init\<close> of the nodes, the loop over the schedule, the hook before a node, the error exit), with the
    code of the nodes as a parameter. \<open>balanced_on\<close> counts samples through one iteration, for FIFOs that
    have buffers of their own or share them (\<^verbatim>\<open>memoryOptimization\<close>); a graph that passes refines a network
    of unbounded queues. Eleven graphs of \<^verbatim>\<open>Examples\<close> pass (\<open>shipped_graphs\<close>), so their FIFO sizes suffice.
  \<^item> \<open>AsyncScheduler\<close>, \<open>AsyncExamples\<close>: the same function in asynchronous mode, where the method
    \<^verbatim>\<open>prepareForRunning\<close> of a node may skip its execution. Nodes are programs over their ports
    (\<open>node_prog\<close>). When they ask before they read or write and no FIFO holds three blocks the graph
    refines a network of bounded queues; with three blocks an overlapping \<^verbatim>\<open>memcpy\<close> can be reached.
    \<^verbatim>\<open>Examples/example11\<close> is the example.
  \<^item> \<open>CallbackScheduler\<close>, \<open>CallbackExample\<close>: the same function in callback mode (\<^verbatim>\<open>Examples/callback\<close>),
    where a node can pause it and the next call goes on there; \<open>cb_state\<close> is what is kept. Pausing does
    not change what the graph computes.
  \<^item> \<open>SchedulerMemory\<close>: graphs whose objects are on the heap (\<^verbatim>\<open>Examples/example10\<close>): \<^verbatim>\<open>init_scheduler\<close>,
    \<^verbatim>\<open>free_scheduler\<close> and \<^verbatim>\<open>reset_fifos_scheduler\<close>, over the static and the asynchronous function.

  \<^bold>\<open>Data of events\<close>

  \<^item> \<open>Exec\<close>: outcomes of calls (a value or undefined behaviour, where acquiring a mutex twice has a name of
    its own, \<open>Relock\<close>) and the locale \<open>handle_ops\<close> for programs over owned objects: every program keeps
    the invariant that each operation keeps, or stops at the first operation that fails in a way the
    contract names. It is interpreted for protected buffers, unique pointers and events.
  \<^item> \<open>SharedHeap\<close>: \<^verbatim>\<open>ProtectedBuffer\<close> of \<^verbatim>\<open>StreamNode.hpp\<close>, with the counts of the object and its mutex and
    the critical sections of \<^verbatim>\<open>stream_platform_config.hpp\<close>.
  \<^item> \<open>Buffers\<close>: \<^verbatim>\<open>UniquePtr\<close>, \<^verbatim>\<open>Descriptor\<close>, \<^verbatim>\<open>SharedBuffer\<close>, \<^verbatim>\<open>RawBuffer\<close> and \<^verbatim>\<open>Tensor\<close>; the memory server is a
    parameter.
  \<^item> \<open>Floats\<close>, \<open>Values\<close>: \<^verbatim>\<open>cg_value\<close> and \<^verbatim>\<open>ValueParse\<close>, with the conversions between numbers on IEEE bit
    patterns.
  \<^item> \<open>Events\<close>: \<^verbatim>\<open>Event\<close> with its constructors, moves, \<^verbatim>\<open>clone\<close>, \<^verbatim>\<open>get\<close>, \<^verbatim>\<open>wellFormed\<close> and \<^verbatim>\<open>apply\<close>. What may be
    undefined is exactly stated for any sequence of operations: the clone of an event whose list was
    taken, and the assignment between handles that share a \<^verbatim>\<open>std::shared_mutex\<close>.
  \<^item> \<open>Pack\<close>, \<open>RoundTrip\<close>: \<^verbatim>\<open>cg_pack.hpp\<close>. Unpacking what was packed gives the same event back, apart from
    the cases stated beside: 64-bit integers, null handles, lengths the receiver does not check, and
    shared memory, which goes by its identifier.

  \<^bold>\<open>Event queues\<close>

  \<^item> \<open>EventQueue\<close>: messages, the base class and \<^verbatim>\<open>EventOutput\<close> of \<^verbatim>\<open>EventQueue.hpp\<close>.
  \<^item> \<open>Ring\<close>, \<open>PrioQueue\<close>: circular arrays and the three levels of priority the queues of all platforms have.
  \<^item> \<open>QueueSpec\<close>: the contract \<open>message_queue\<close>, three bounded lists of messages, and the order in which
    messages leave any queue that keeps it.
  \<^item> \<open>QueueExec\<close>: the loop that executes a queue, proved once in the locales \<open>event_runner\<close> and \<open>prio_push\<close>
    for what the platforms differ in.
  \<^item> \<open>PosixQueue\<close>, \<open>CmsisQueue\<close>, \<open>ZephyrQueue\<close>: \<^verbatim>\<open>stream_event_queue.cpp\<close> of each platform, with push, clear,
    pause, end, expiry and the executing loop, and the interpretations of the three contracts.
  \<^item> \<open>EventOutputs\<close>: what a send leaves in a queue, and that executing it calls every subscriber once.
  \<^item> \<open>QueueThreads\<close>: the queue used by any number of threads, interleaved; no wake-up is lost.

  \<^bold>\<open>Runtime\<close>

  \<^item> \<open>EventFlags\<close>: \<^verbatim>\<open>stream_event_flags\<close> of the POSIX runtime, the messages of \<^verbatim>\<open>stream_rtos_events.h\<close> and
    the test \<^verbatim>\<open>CG_BEFORE_NODE_EXECUTION\<close> of \<^verbatim>\<open>config/app_config.hpp\<close>.
  \<^item> \<open>Runtime\<close>: \<^verbatim>\<open>posix_runtime/stream_runtime_init.cpp\<close>. The threads are state machines with a program
    counter each (\<open>event_pc\<close>, \<open>stream_pc\<close>, \<open>control_pc\<close>); \<open>event_step\<close>, \<open>stream_step\<close> and \<open>control_step\<close>
    are their steps and \<open>run\<close> any interleaving. What the scheduler and the nodes answer is a choice of the
    run.
  \<^item> \<open>RuntimeCalls\<close>: in an orderly use a pause parks both threads, a resume wakes both, and every call
    returns under every interleaving.
  \<^item> \<open>RuntimeErrors\<close>: a stop ends both threads from every reachable state; after an error of the scheduler
    both threads report and wait, and the calls that follow go wrong; and three more ways in which calls go
    wrong after errors, a switch or a restart, each a run that is computed.
  \<^item> \<open>ZephyrRuntime\<close>: the same threads on Zephyr, where waiting for a flag and clearing it are two steps,
    refine those of the POSIX runtime; \<open>CmsisRuntime\<close>: on CMSIS-RTOS they take the same steps.
  \<^item> \<open>Application\<close>: the handler and the helpers of \<^verbatim>\<open>config/stream_init.cpp\<close> and the reports of the runtime
    as events.

  \<^bold>\<open>Bounds and assumptions\<close>

  \<^item> Loops that need not end take a number of rounds: \<open>queue_drain\<close>, \<open>queue_execute\<close> and \<open>rtos_execute\<close>
    say whether they returned, wait or ran out of rounds. For nodes that leave the queue alone the delivery
    theorems show that any number above the length of the queue plus two is enough; the safety theorems
    hold for every number and any nodes. \<open>schedule_loop\<close> counts the iterations the generated code counts,
    its \<^verbatim>\<open>debugCounter\<close>; \<open>async_loop\<close> too. \<open>cb_loop\<close> is given a number of iterations and says when it is
    still running after them; a call that is paused earlier does not depend on the number.
  \<^item> That a call of the runtime returns (\<open>always_reaches\<close>) means: as long as it has not, some thread has a
    step, and any sequence of steps reaches the return after finitely many, because a rank falls.
  \<^item> A queue reads thread priorities as a function of the level; the index it uses is the clamped one, so it
    stays inside the array of three. Messages whose time to live has passed are dropped, not delivered;
    \<open>deliver_messages\<close> is the delivery of messages that do not expire.
  \<^item> Integers have the width of the source as words, with wrap-around; sizes and positions of buffers and
    of packed data are unbounded, i.e. \<^verbatim>\<open>size_t\<close> and \<^verbatim>\<open>int\<close> are taken to be wide enough for them.
  \<^item> Hosts are little-endian; \<^verbatim>\<open>float\<close> and \<^verbatim>\<open>double\<close> are IEEE 754 with rounding to nearest.
  \<^item> The mutexes and flags of an operating system, its clock, allocations that may fail, the creation of
    threads and the memory server are parameters. Kernel objects of the queues exist; \<^verbatim>\<open>osEventFlagsWait\<close>
    and \<^verbatim>\<open>k_event_wait\<close> do what their documentation says; the tick frequency is not 0.
  \<^item> \<open>PosixQueue\<close>, \<open>CmsisQueue\<close> and \<open>ZephyrQueue\<close> are the view of one thread, as every operation is one
    critical section; \<open>QueueThreads\<close> has the interleaving. The runtime is controlled by one thread, which
    is not one of its own two, so the branch of \<^verbatim>\<open>stop_thread\<close> for a runtime thread that stops itself (it
    detaches instead of joining) is not modelled.
  \<^item> The nodes of a static scheduler are functions of their state and input that read and write whole
    blocks. A node of the asynchronous mode loads a block when it asks for it and stores one when it asks
    for the room. A node that pauses does so before it asks for a buffer. Buffers overlap only where FIFOs
    share one; \<^verbatim>\<open>new\<close> gives addresses that are not in use.

  \<^bold>\<open>Not modelled\<close>

  \<^item> The start-up of the application and the release of everything in \<^verbatim>\<open>config/stream_init.cpp\<close>: examples
    of how to call the operations that are modelled.
  \<^item> \<^verbatim>\<open>config/IdentifiedNode.hpp\<close> and the virtual members of \<^verbatim>\<open>StreamNode\<close>: tables of pointers to members;
    the members are parameters of the definitions that call them.
  \<^item> The pool allocators of the real-time systems: wrappers of kernel pools. Whether a pool has a block is
    a parameter of every operation that allocates.
  \<^item> \<^verbatim>\<open>EventDisplay.hpp\<close>: output of events for debugging.
  \<^item> The code generator (\<^verbatim>\<open>src/PythonPackage\<close>, Python and templates), hardware start-up code, the nodes of
    the other examples, the vendored flatbuffers library, tests and documentation.
\<close>

end
